(* ===== verification/Prelude.thy ===== *)
theory Prelude
  imports Main "HOL-Library.Word"
begin

text \<open>
  What every component shares.

  \<^item> The result type \<open>'a comp\<close> of a C++ function: \<open>None\<close> when the code does not return
    (a loop that never ends), \<open>Some (Inl e)\<close> when it stops abnormally (an assertion, a thrown
    value, \<open>exit\<close>, or undefined behaviour such as a wild dereference), \<open>Some (Inr x)\<close> when it
    returns. \<open>bindC\<close> is the semicolon.
  \<^item> The heap of \<open>malloc\<close>/\<open>free\<close> with typed nodes, and its access operations.
  \<^item> C arrays as lists of slots, an unwritten slot being \<open>None\<close>, with the copy loops the trees use.
  \<^item> The 128-byte value buffer of every record (\<open>DEFAULT_VALUE_LEN\<close>).
  \<^item> Sorted association lists, the abstract content of the ordered stores.
\<close>

section \<open>Outcomes of C++ code\<close>

datatype fault =
    NullDeref
  | WildDeref
  | BadFree
  | OutOfBounds
  | UninitRead
  | BufferOverflow
  | AssertFail
  | Thrown string
  | Exited nat

type_synonym 'a comp = "(fault + 'a) option"

abbreviation ret :: "'a \<Rightarrow> 'a comp" where
  "ret x \<equiv> Some (Inr x)"

abbreviation crash :: "fault \<Rightarrow> 'a comp" where
  "crash e \<equiv> Some (Inl e)"

definition bindC :: "'a comp \<Rightarrow> ('a \<Rightarrow> 'b comp) \<Rightarrow> 'b comp" where
  "bindC m f = Option.bind m (\<lambda>r. case r of Inl e \<Rightarrow> Some (Inl e) | Inr x \<Rightarrow> f x)"

named_theorems comp_simps \<open>evaluation of computations\<close>
named_theorems heap_simps \<open>reads after writes on the heap\<close>

lemma bindC_simps [simp, comp_simps]:
  "bindC (ret x) f = f x"
  "bindC (crash e) f = crash e"
  "bindC None f = None"
  by (simp_all add: bindC_def)

lemma bindC_eq_ret [comp_simps]:
  "bindC m f = ret y \<longleftrightarrow> (\<exists>x. m = ret x \<and> f x = ret y)"
  by (auto simp: bindC_def split: Option.bind_splits sum.splits)

lemma bindC_assoc: "bindC (bindC m f) g = bindC m (\<lambda>x. bindC (f x) g)"
  by (auto simp: bindC_def split: Option.bind_splits sum.splits)

lemma bindC_ret_right [simp]: "bindC m (\<lambda>x. ret x) = m"
  by (auto simp: bindC_def split: Option.bind_splits sum.splits)

lemma bindC_cong [fundef_cong]:
  "m = m' \<Longrightarrow> (\<And>x. m' = ret x \<Longrightarrow> f x = f' x) \<Longrightarrow> bindC m f = bindC m' f'"
  by (auto simp: bindC_def split: Option.bind_splits sum.splits)

lemma bindC_mono [partial_function_mono]:
  assumes "mono_option B" and "\<And>y. mono_option (\<lambda>f. C y f)"
  shows "mono_option (\<lambda>f. bindC (B f) (\<lambda>y. C y f))"
  unfolding bindC_def
proof (rule bind_mono)
  show "mono_option B" by fact
  show "mono_option (\<lambda>f. case r of Inl e \<Rightarrow> Some (Inl e) | Inr x \<Rightarrow> C x f)" for r
    using assms(2) by (cases r) (auto intro: monotoneI option.leq_refl)
qed

text \<open>Code that stops abnormally or never returns, as opposed to code that returns.\<close>

definition returns :: "'a comp \<Rightarrow> bool" where
  "returns m \<longleftrightarrow> (\<exists>x. m = ret x)"

lemma returns_ret [simp]: "returns (ret x)"
  and returns_crash [simp]: "\<not> returns (crash e)"
  and returns_None [simp]: "\<not> returns None"
  by (simp_all add: returns_def)

definition assertC :: "bool \<Rightarrow> unit comp" where
  "assertC b = (if b then ret () else crash AssertFail)"

lemma assertC_simps [simp, comp_simps]: "assertC True = ret ()" "assertC False = crash AssertFail"
  by (simp_all add: assertC_def)

section \<open>The heap\<close>

type_synonym ptr = "nat option"

abbreviation NULL :: ptr where
  "NULL \<equiv> None"

record 'n heap =
  mem :: "nat \<rightharpoonup> 'n"
  brk :: nat

definition empty_heap :: "'n heap" where
  "empty_heap = \<lparr>mem = Map.empty, brk = 0\<rparr>"

definition heap_ok :: "'n heap \<Rightarrow> bool" where
  "heap_ok h \<longleftrightarrow> (\<forall>a \<in> dom (mem h). a < brk h)"

definition load :: "'n heap \<Rightarrow> ptr \<Rightarrow> 'n comp" where
  "load h p = (case p of None \<Rightarrow> crash NullDeref
     | Some a \<Rightarrow> (case mem h a of None \<Rightarrow> crash WildDeref | Some n \<Rightarrow> ret n))"

definition store :: "'n heap \<Rightarrow> ptr \<Rightarrow> 'n \<Rightarrow> 'n heap comp" where
  "store h p n = (case p of None \<Rightarrow> crash NullDeref
     | Some a \<Rightarrow> (case mem h a of None \<Rightarrow> crash WildDeref
                  | Some _ \<Rightarrow> ret (h\<lparr>mem := (mem h)(a \<mapsto> n)\<rparr>)))"

text \<open>\<open>malloc\<close> gives a block no live pointer refers to; \<open>n\<close> is what the block holds.\<close>

definition malloc :: "'n heap \<Rightarrow> 'n \<Rightarrow> ptr \<times> 'n heap" where
  "malloc h n = (Some (brk h), h\<lparr>mem := (mem h)(brk h \<mapsto> n), brk := Suc (brk h)\<rparr>)"

definition cfree :: "'n heap \<Rightarrow> ptr \<Rightarrow> 'n heap comp" where
  "cfree h p = (case p of None \<Rightarrow> ret h
     | Some a \<Rightarrow> (case mem h a of None \<Rightarrow> crash BadFree
                  | Some _ \<Rightarrow> ret (h\<lparr>mem := (mem h)(a := None)\<rparr>)))"

lemma load_simps [simp, heap_simps]:
  "load h None = crash NullDeref"
  "mem h a = Some n \<Longrightarrow> load h (Some a) = ret n"
  "mem h a = None \<Longrightarrow> load h (Some a) = crash WildDeref"
  by (simp_all add: load_def)

lemma store_simps [simp, heap_simps]:
  "store h None n = crash NullDeref"
  "mem h a = Some m \<Longrightarrow> store h (Some a) n = ret (h\<lparr>mem := (mem h)(a \<mapsto> n)\<rparr>)"
  "mem h a = None \<Longrightarrow> store h (Some a) n = crash WildDeref"
  by (simp_all add: store_def)

lemma cfree_simps [simp, heap_simps]:
  "cfree h None = ret h"
  "mem h a = Some m \<Longrightarrow> cfree h (Some a) = ret (h\<lparr>mem := (mem h)(a := None)\<rparr>)"
  "mem h a = None \<Longrightarrow> cfree h (Some a) = crash BadFree"
  by (simp_all add: cfree_def)

lemma load_eq_ret: "load h p = ret n \<longleftrightarrow> (\<exists>a. p = Some a \<and> mem h a = Some n)"
  by (auto simp: load_def split: option.splits)

lemma store_eq_ret:
  "store h p n = ret h' \<longleftrightarrow>
     (\<exists>a m. p = Some a \<and> mem h a = Some m \<and> h' = h\<lparr>mem := (mem h)(a \<mapsto> n)\<rparr>)"
  by (auto simp: store_def split: option.splits)

lemma heap_ok_empty [simp]: "heap_ok empty_heap"
  by (simp add: heap_ok_def empty_heap_def)

lemma heap_ok_fresh: "heap_ok h \<Longrightarrow> mem h (brk h) = None"
  by (auto simp: heap_ok_def)

lemma heap_ok_less: "heap_ok h \<Longrightarrow> mem h a = Some n \<Longrightarrow> a < brk h"
  by (auto simp: heap_ok_def)

lemma heap_ok_malloc [simp]:
  "heap_ok h \<Longrightarrow> heap_ok (h\<lparr>mem := (mem h)(brk h \<mapsto> n), brk := Suc (brk h)\<rparr>)"
  by (auto simp: heap_ok_def less_Suc_eq)

lemma heap_ok_upd: "heap_ok h \<Longrightarrow> a < brk h \<Longrightarrow> heap_ok (h\<lparr>mem := (mem h)(a \<mapsto> n)\<rparr>)"
  by (auto simp: heap_ok_def)

lemma heap_ok_free: "heap_ok h \<Longrightarrow> heap_ok (h\<lparr>mem := (mem h)(a := None)\<rparr>)"
  by (auto simp: heap_ok_def split: if_splits)

text \<open>A block held through one pointer: absent, freed (the pointer dangles), or live.\<close>

datatype 'a block = NullBlock | FreedBlock | LiveBlock 'a

fun deref :: "'a block \<Rightarrow> 'a comp" where
  "deref NullBlock = crash NullDeref"
| "deref FreedBlock = crash WildDeref"
| "deref (LiveBlock x) = ret x"

fun free_block :: "'a block \<Rightarrow> 'a block comp" where
  "free_block NullBlock = ret NullBlock"
| "free_block FreedBlock = crash BadFree"
| "free_block (LiveBlock x) = ret FreedBlock"

section \<open>Arrays and copy loops\<close>

definition read_arr :: "'a list \<Rightarrow> nat \<Rightarrow> 'a comp" where
  "read_arr xs i = (if i < length xs then ret (xs ! i) else crash OutOfBounds)"

definition write_arr :: "'a list \<Rightarrow> nat \<Rightarrow> 'a \<Rightarrow> 'a list comp" where
  "write_arr xs i x = (if i < length xs then ret (xs[i := x]) else crash OutOfBounds)"

text \<open>A slot of an array of records that has never been written must not be read.\<close>

definition read_slot :: "'a option list \<Rightarrow> nat \<Rightarrow> 'a comp" where
  "read_slot xs i = bindC (read_arr xs i)
     (\<lambda>s. case s of None \<Rightarrow> crash UninitRead | Some x \<Rightarrow> ret x)"

lemma read_arr_simps [simp]:
  "i < length xs \<Longrightarrow> read_arr xs i = ret (xs ! i)"
  "\<not> i < length xs \<Longrightarrow> read_arr xs i = crash OutOfBounds"
  by (simp_all add: read_arr_def)

lemma write_arr_simps [simp]:
  "i < length xs \<Longrightarrow> write_arr xs i x = ret (xs[i := x])"
  "\<not> i < length xs \<Longrightarrow> write_arr xs i x = crash OutOfBounds"
  by (simp_all add: write_arr_def)

lemma read_slot_Some [simp]:
  "i < length xs \<Longrightarrow> xs ! i = Some x \<Longrightarrow> read_slot xs i = ret x"
  by (simp add: read_slot_def)

text \<open>\<open>for (i = 0; i < n; i++) dst[i] = src[i + off];\<close>, from iteration \<open>i\<close> with \<open>n\<close> to go.\<close>

fun copy_loop :: "'a list \<Rightarrow> nat \<Rightarrow> nat \<Rightarrow> nat \<Rightarrow> 'a list \<Rightarrow> 'a list comp" where
  "copy_loop src off i 0 dst = ret dst"
| "copy_loop src off i (Suc n) dst =
     bindC (read_arr src (i + off)) (\<lambda>x.
     bindC (write_arr dst i x) (\<lambda>dst'. copy_loop src off (Suc i) n dst'))"

text \<open>\<open>for (i = lo + n - 1; i >= lo; i--) a[i + 1] = a[i];\<close>: \<open>n\<close> iterations.\<close>

fun shift_loop :: "nat \<Rightarrow> nat \<Rightarrow> 'a list \<Rightarrow> 'a list comp" where
  "shift_loop lo 0 a = ret a"
| "shift_loop lo (Suc n) a =
     bindC (read_arr a (lo + n)) (\<lambda>x.
     bindC (write_arr a (Suc (lo + n)) x) (\<lambda>a'. shift_loop lo n a'))"

lemma copy_loop_eq:
  "i + n + off \<le> length src \<Longrightarrow> i + n \<le> length dst \<Longrightarrow>
   copy_loop src off i n dst =
     ret (take i dst @ take n (drop (i + off) src) @ drop (i + n) dst)"
proof (induction n arbitrary: i dst)
  case 0
  then show ?case by simp
next
  case (Suc n)
  let ?d = "dst[i := src ! (i + off)]"
  have "copy_loop src off i (Suc n) dst = copy_loop src off (Suc i) n ?d"
    using Suc.prems by simp
  also have "\<dots> = ret (take (Suc i) ?d @ take n (drop (Suc i + off) src) @ drop (Suc i + n) ?d)"
    using Suc.prems by (subst Suc.IH) simp_all
  also have "take (Suc i) ?d = take i dst @ [src ! (i + off)]"
    using Suc.prems by (simp add: take_Suc_conv_app_nth)
  also have "drop (Suc i + n) ?d = drop (i + Suc n) dst"
    by simp
  finally have step: "copy_loop src off i (Suc n) dst = ret (take i dst @
      ([src ! (i + off)] @ take n (drop (Suc i + off) src)) @ drop (i + Suc n) dst)"
    by simp
  have "[src ! (i + off)] @ take n (drop (Suc i + off) src) = take (Suc n) (drop (i + off) src)"
    using Suc.prems by (simp add: Cons_nth_drop_Suc [symmetric])
  with step show ?case by simp
qed

lemma shift_loop_eq:
  "lo + n < length a \<Longrightarrow>
   shift_loop lo n a = ret (take (Suc lo) a @ take n (drop lo a) @ drop (Suc (lo + n)) a)"
proof (induction n arbitrary: a)
  case 0
  then show ?case by simp
next
  case (Suc n)
  let ?a = "a[Suc (lo + n) := a ! (lo + n)]"
  have "shift_loop lo (Suc n) a = shift_loop lo n ?a"
    using Suc.prems by simp
  also have "\<dots> = ret (take (Suc lo) ?a @ take n (drop lo ?a) @ drop (Suc (lo + n)) ?a)"
    using Suc.prems by (subst Suc.IH) simp_all
  also have "take (Suc lo) ?a = take (Suc lo) a"
    by simp
  also have "take n (drop lo ?a) = take n (drop lo a)"
    by (simp add: take_drop)
  also have "drop (Suc (lo + n)) ?a = a ! (lo + n) # drop (Suc (Suc (lo + n))) a"
    using Suc.prems by (simp add: drop_update_swap Cons_nth_drop_Suc [symmetric])
  also have "take n (drop lo a) @ a ! (lo + n) # drop (Suc (Suc (lo + n))) a =
      take (Suc n) (drop lo a) @ drop (Suc (lo + Suc n)) a"
    using Suc.prems by (simp add: take_Suc_conv_app_nth)
  finally show ?case by simp
qed

text \<open>\<open>for (j = i; j < i + n; j++) h = body(j, h);\<close> for a body that calls back into a recursion.\<close>

fun for_loop :: "nat \<Rightarrow> nat \<Rightarrow> (nat \<Rightarrow> 's \<Rightarrow> 's comp) \<Rightarrow> 's \<Rightarrow> 's comp" where
  "for_loop i 0 body s = ret s"
| "for_loop i (Suc n) body s = bindC (body i s) (\<lambda>s'. for_loop (Suc i) n body s')"

lemma for_loop_mono [partial_function_mono]:
  assumes "\<And>j s. mono_option (\<lambda>f. B j s f)"
  shows "mono_option (\<lambda>f. for_loop i n (\<lambda>j s. B j s f) s)"
proof (induction n arbitrary: i s)
  case 0
  then show ?case by (simp add: option.const_mono)
next
  case (Suc n)
  then show ?case using assms by (simp add: bindC_mono)
qed

lemma for_loop_inv:
  assumes "\<And>j s. i \<le> j \<Longrightarrow> j < i + n \<Longrightarrow> P j s \<Longrightarrow> \<exists>s'. body j s = ret s' \<and> P (Suc j) s'"
  shows "P i s \<Longrightarrow> \<exists>s'. for_loop i n body s = ret s' \<and> P (i + n) s'"
  using assms
proof (induction n arbitrary: i s)
  case 0
  then show ?case by simp
next
  case (Suc n)
  from Suc.prems(2) [of i s] Suc.prems(1) obtain s1 where s1: "body i s = ret s1" "P (Suc i) s1"
    by auto
  have "\<exists>s'. for_loop (Suc i) n body s1 = ret s' \<and> P (Suc i + n) s'"
    by (rule Suc.IH [OF s1(2)]) (use Suc.prems(2) in auto)
  with s1 show ?case by simp
qed

text \<open>Room made at \<open>lo\<close> by the shift and then filled: an insertion into the valid prefix.\<close>

lemma shift_insert:
  assumes "take m a = xs" and "m < length a" and "lo \<le> m"
  shows "\<exists>a'. shift_loop lo (m - lo) a = ret a' \<and> length a' = length a \<and>
      (\<forall>x. take (Suc m) (a'[lo := x]) = take lo xs @ x # drop lo xs)"
proof -
  let ?a = "take (Suc lo) a @ take (m - lo) (drop lo a) @ drop (Suc m) a"
  have sl: "shift_loop lo (m - lo) a = ret ?a"
    using assms by (subst shift_loop_eq) auto
  have t: "take (Suc lo) a = take lo xs @ [a ! lo]"
    using assms by (auto simp: take_Suc_conv_app_nth min_def)
  have d: "take (m - lo) (drop lo a) = drop lo xs"
    using assms by (auto simp: drop_take)
  have l: "length (take lo xs) = lo" "length xs = m"
    using assms by auto
  have "take (Suc m) (?a[lo := x]) = take lo xs @ x # drop lo xs" for x
    unfolding t d using l assms(3) by (simp add: list_update_append Suc_diff_le)
  moreover have "length ?a = length a"
    using assms by auto
  ultimately show ?thesis using sl by blast
qed

section \<open>Values\<close>

type_synonym u64 = "64 word"
type_synonym u32 = "32 word"

text \<open>
  A value is a C string (its characters up to the terminating NUL). Every record keeps it in
  \<open>char value[DEFAULT_VALUE_LEN]\<close>; \<open>strcpy\<close> and \<open>memcpy(dst, v, strlen(v) + 1)\<close> write
  \<open>length v + 1\<close> bytes.
\<close>

definition DEFAULT_VALUE_LEN :: nat where
  "DEFAULT_VALUE_LEN = 128"

definition copy_value :: "string \<Rightarrow> string comp" where
  "copy_value v = (if length v + 1 \<le> DEFAULT_VALUE_LEN then ret v else crash BufferOverflow)"

definition fits :: "string \<Rightarrow> bool" where
  "fits v \<longleftrightarrow> length v < DEFAULT_VALUE_LEN"

lemma copy_value_fits [simp]: "fits v \<Longrightarrow> copy_value v = ret v"
  by (simp add: copy_value_def fits_def)

lemma copy_value_overflow [simp]: "\<not> fits v \<Longrightarrow> copy_value v = crash BufferOverflow"
  by (simp add: copy_value_def fits_def)

lemma fits_Nil [simp]: "fits []"
  by (simp add: fits_def DEFAULT_VALUE_LEN_def)

text \<open>
  The out-parameter \<open>void *&result\<close> of \<open>read\<close>: still what the caller passed (\<open>Unset\<close>, an
  uninitialised \<open>char *dummy\<close>), a null pointer, a pointer to a buffer never written, or a
  pointer to a value.
\<close>

datatype outp = Unset | NullP | RawP | StrP string

section \<open>Singly linked chains on the heap\<close>

text \<open>
  \<open>chain nx m p as q\<close>: following \<open>nx\<close> from \<open>p\<close> visits exactly the nodes at \<open>as\<close> and ends
  at \<open>q\<close>. The list, the hash table's buckets and the levels of the skip list are chains.
\<close>

fun chain :: "('n \<Rightarrow> ptr) \<Rightarrow> (nat \<rightharpoonup> 'n) \<Rightarrow> ptr \<Rightarrow> nat list \<Rightarrow> ptr \<Rightarrow> bool" where
  "chain nx m p [] q \<longleftrightarrow> p = q"
| "chain nx m p (a # as) q \<longleftrightarrow> p = Some a \<and> (\<exists>n. m a = Some n \<and> chain nx m (nx n) as q)"

lemma chain_append [simp]:
  "chain nx m p (as @ bs) q \<longleftrightarrow> (\<exists>r. chain nx m p as r \<and> chain nx m r bs q)"
  by (induction as arbitrary: p) auto

lemma chain_frame [heap_simps]:
  "a \<notin> set as \<Longrightarrow> chain nx (m(a := x)) p as q = chain nx m p as q"
  by (induction as arbitrary: p) auto

lemma chain_agree:
  "(\<And>a. a \<in> set as \<Longrightarrow> m' a = m a) \<Longrightarrow> chain nx m' p as q = chain nx m p as q"
  by (induction as arbitrary: p) auto

lemma chain_allocated: "chain nx m p as q \<Longrightarrow> a \<in> set as \<Longrightarrow> \<exists>n. m a = Some n"
  by (induction as arbitrary: p) auto

lemma chain_None: "chain nx m None as None \<longleftrightarrow> as = []"
  by (cases as) auto

text \<open>An update of a node that keeps its link does not disturb a chain through it.\<close>

lemma chain_upd_same_next:
  "m a = Some n \<Longrightarrow> nx n' = nx n \<Longrightarrow> chain nx (m(a \<mapsto> n')) p as q = chain nx m p as q"
  by (induction as arbitrary: p) auto

text \<open>Redirecting the last link of a chain.\<close>

lemma chain_upd_last:
  "chain nx m p (as @ [a]) q \<Longrightarrow> a \<notin> set as \<Longrightarrow> nx n' = q' \<Longrightarrow>
   chain nx (m(a \<mapsto> n')) p (as @ [a]) q'"
  by (auto simp: chain_frame)

text \<open>What the nodes of a chain hold.\<close>

definition contents :: "('n \<Rightarrow> 'b) \<Rightarrow> (nat \<rightharpoonup> 'n) \<Rightarrow> nat list \<Rightarrow> 'b list" where
  "contents f m as = map (\<lambda>a. f (the (m a))) as"

lemma contents_simps [simp]:
  "contents f m [] = []"
  "contents f m (a # as) = f (the (m a)) # contents f m as"
  "contents f m (as @ bs) = contents f m as @ contents f m bs"
  "length (contents f m as) = length as"
  by (simp_all add: contents_def)

lemma contents_agree:
  "(\<And>a. a \<in> set as \<Longrightarrow> m' a = m a) \<Longrightarrow> contents f m' as = contents f m as"
  by (simp add: contents_def)

lemma contents_frame [heap_simps]:
  "a \<notin> set as \<Longrightarrow> contents f (m(a := x)) as = contents f m as"
  by (rule contents_agree) auto

text \<open>
  Searching a chain of key/value nodes: the first node with the key, and the chain as an
  association list.
\<close>

definition find_key :: "('n \<Rightarrow> 'k) \<Rightarrow> (nat \<rightharpoonup> 'n) \<Rightarrow> 'k \<Rightarrow> nat list \<Rightarrow> nat option" where
  "find_key key m k as = find (\<lambda>a. key (the (m a)) = k) as"

abbreviation assoc_of :: "('n \<Rightarrow> 'k) \<Rightarrow> ('n \<Rightarrow> 'v) \<Rightarrow> (nat \<rightharpoonup> 'n) \<Rightarrow> nat list \<Rightarrow> ('k \<times> 'v) list" where
  "assoc_of key val m as \<equiv> contents (\<lambda>n. (key n, val n)) m as"

lemma find_key_simps [simp]:
  "find_key key m k [] = None"
  "find_key key m k (a # as) = (if key (the (m a)) = k then Some a else find_key key m k as)"
  by (simp_all add: find_key_def)

lemma find_key_None:
  "find_key key m k as = None \<longleftrightarrow> map_of (assoc_of key val m as) k = None"
  by (induction as) auto

lemma find_key_Some:
  "find_key key m k as = Some a \<Longrightarrow>
   a \<in> set as \<and> key (the (m a)) = k \<and> map_of (assoc_of key val m as) k = Some (val (the (m a)))"
  by (induction as) (auto split: if_splits)

lemma find_key_exists:
  "map_of (assoc_of key val m as) k = Some v \<Longrightarrow>
   \<exists>a. find_key key m k as = Some a \<and> a \<in> set as \<and> v = val (the (m a))"
  by (induction as) (auto split: if_splits)

lemma assoc_upd_found:
  assumes "find_key key m k as = Some a" and "distinct as" and "key n' = k"
    and "m' a = Some n'" and "\<And>x. x \<noteq> a \<Longrightarrow> m' x = m x"
  shows "map_of (assoc_of key val m' as) = (map_of (assoc_of key val m as))(k \<mapsto> val n')"
  using assms(1,2)
proof (induction as)
  case (Cons b bs)
  show ?case
  proof (cases "key (the (m b)) = k")
    case True
    with Cons.prems have ab: "b = a" "a \<notin> set bs" by auto
    with assms(5) have "assoc_of key val m' bs = assoc_of key val m bs"
      by (intro contents_agree) metis
    then show ?thesis using True ab assms(3,4) by (intro ext) simp
  next
    case False
    with Cons.prems have f: "find_key key m k bs = Some a" by simp
    then have "a \<in> set bs" using find_key_Some by metis
    then have "b \<noteq> a" using Cons.prems(2) by auto
    with assms(5) have "m' b = m b" by simp
    moreover have "distinct bs" using Cons.prems(2) by simp
    moreover note Cons.IH [OF f this]
    ultimately show ?thesis using False by (intro ext) simp
  qed
qed simp

section \<open>Loops over chains\<close>

text \<open>
  \<open>for (p = head; p != NULL; p = p->next) if (p->key == key) break;\<close>, the search of the list and
  of the hash buckets, and \<open>while (head != NULL) { p = head; head = head->next; free(p); }\<close>.
\<close>

partial_function (option) search_chain ::
  "('n \<Rightarrow> ptr) \<Rightarrow> ('n \<Rightarrow> 'k) \<Rightarrow> 'n heap \<Rightarrow> ptr \<Rightarrow> 'k \<Rightarrow> ptr comp" where
  "search_chain nx key h p k =
     (if p = NULL then ret NULL
      else bindC (load h p) (\<lambda>n.
        if key n = k then ret p else search_chain nx key h (nx n) k))"

partial_function (option) free_chain :: "('n \<Rightarrow> ptr) \<Rightarrow> 'n heap \<Rightarrow> ptr \<Rightarrow> 'n heap comp" where
  "free_chain nx h head =
     (if head = NULL then ret h
      else bindC (load h head) (\<lambda>n.
           bindC (cfree h head) (\<lambda>h'. free_chain nx h' (nx n))))"

lemma search_chain_NULL [simp]: "search_chain nx key h None k = ret NULL"
  by (simp add: search_chain.simps)

lemma free_chain_NULL [simp]: "free_chain nx h None = ret h"
  by (simp add: free_chain.simps)

lemma search_chain_eq:
  "chain nx (mem h) p as q \<Longrightarrow>
   search_chain nx key h p k =
     (case find_key key (mem h) k as of Some a \<Rightarrow> ret (Some a) | None \<Rightarrow> search_chain nx key h q k)"
proof (induction as arbitrary: p)
  case (Cons a as)
  then show ?case by (auto simp: search_chain.simps [of nx key h "Some a"])
qed simp

lemma search_chain_found:
  assumes "chain nx (mem h) p as q" and "map_of (assoc_of key val (mem h) as) k = Some v"
  obtains a n where "search_chain nx key h p k = ret (Some a)" and "a \<in> set as"
    and "mem h a = Some n" and "key n = k" and "v = val n"
    and "find_key key (mem h) k as = Some a"
proof -
  obtain a where a: "find_key key (mem h) k as = Some a" "a \<in> set as" "v = val (the (mem h a))"
    using find_key_exists [OF assms(2)] by blast
  moreover obtain n where "mem h a = Some n" using chain_allocated [OF assms(1) a(2)] by blast
  moreover have "key (the (mem h a)) = k" using find_key_Some [OF a(1)] by blast
  ultimately show thesis using that search_chain_eq [OF assms(1), of key k] by simp
qed

lemma search_chain_missing:
  "chain nx (mem h) p as q \<Longrightarrow> map_of (assoc_of key val (mem h) as) k = None \<Longrightarrow>
   search_chain nx key h p k = search_chain nx key h q k"
  by (simp add: search_chain_eq find_key_None [symmetric])

text \<open>Freeing a whole chain, and freeing one whose last node is already freed.\<close>

lemma free_chain_ok:
  "chain nx (mem h) p as None \<Longrightarrow> distinct as \<Longrightarrow>
   free_chain nx h p = ret (h\<lparr>mem := (mem h) |` (- set as)\<rparr>)"
proof (induction as arbitrary: h p)
  case Nil
  then show ?case by (simp add: restrict_map_def)
next
  case (Cons a as)
  from Cons.prems obtain n where n: "p = Some a" "mem h a = Some n" "chain nx (mem h) (nx n) as None"
    by auto
  let ?h = "h\<lparr>mem := (mem h)(a := None)\<rparr>"
  have c: "chain nx (mem ?h) (nx n) as None" using n(3) Cons.prems(2) by (simp add: chain_frame)
  have d: "distinct as" using Cons.prems(2) by simp
  note r = Cons.IH [OF c d]
  have e: "(mem h)(a := None) |` (- set as) = (mem h) |` (- set (a # as))"
    by (rule ext) (simp add: restrict_map_def)
  have "?h\<lparr>mem := (mem ?h) |` (- set as)\<rparr> = h\<lparr>mem := (mem h)(a := None) |` (- set as)\<rparr>"
    by (rule heap.equality) (simp_all del: fun_upd_apply)
  moreover have "free_chain nx h p = free_chain nx ?h (nx n)"
    using n by (simp add: free_chain.simps [of nx h "Some a"])
  ultimately show ?case by (simp only: r e)
qed

lemma free_chain_freed:
  "chain nx m p (as @ [a]) q \<Longrightarrow> distinct (as @ [a]) \<Longrightarrow> mem h = m(a := None) \<Longrightarrow>
   free_chain nx h p = crash WildDeref"
proof (induction as arbitrary: p h m)
  case Nil
  then show ?case by (auto simp: free_chain.simps [of nx h "Some a"])
next
  case (Cons b bs)
  from Cons.prems obtain n where n: "p = Some b" "m b = Some n" "chain nx m (nx n) (bs @ [a]) q"
    by auto
  have "free_chain nx (h\<lparr>mem := (mem h)(b := None)\<rparr>) (nx n) = crash WildDeref"
  proof (rule Cons.IH)
    show "chain nx (m(b := None)) (nx n) (bs @ [a]) q"
      using n Cons.prems by (subst chain_frame) auto
    show "distinct (bs @ [a])" using Cons.prems by simp
    show "mem (h\<lparr>mem := (mem h)(b := None)\<rparr>) = m(b := None, a := None)"
      using Cons.prems by (auto simp: fun_upd_twist)
  qed
  then show ?case
    using n Cons.prems by (simp add: free_chain.simps [of nx h "Some b"])
qed

section \<open>Association lists\<close>

fun upd_assoc :: "'k::linorder \<Rightarrow> 'v \<Rightarrow> ('k \<times> 'v) list \<Rightarrow> ('k \<times> 'v) list" where
  "upd_assoc k v [] = [(k, v)]"
| "upd_assoc k v ((a, b) # xs) =
     (if k < a then (k, v) # (a, b) # xs
      else if k = a then (k, v) # xs else (a, b) # upd_assoc k v xs)"

abbreviation sorted_keys :: "('k::linorder \<times> 'v) list \<Rightarrow> bool" where
  "sorted_keys xs \<equiv> sorted_wrt (<) (map fst xs)"

lemma map_of_upd_assoc [simp]: "map_of (upd_assoc k v xs) = (map_of xs)(k \<mapsto> v)"
  by (induction xs) auto

lemma fst_set_upd_assoc [simp]:
  "fst ` set (upd_assoc k v xs) = insert k (fst ` set xs)"
  by (induction k v xs rule: upd_assoc.induct) auto

lemma sorted_upd_assoc [simp]: "sorted_keys xs \<Longrightarrow> sorted_keys (upd_assoc k v xs)"
  by (induction k v xs rule: upd_assoc.induct)
     (auto simp: image_iff dest: less_trans)

lemma upd_assoc_append_less:
  "(\<And>x. x \<in> fst ` set ys \<Longrightarrow> k < x) \<Longrightarrow> ys \<noteq> [] \<Longrightarrow>
   upd_assoc k v (xs @ ys) = upd_assoc k v xs @ ys"
proof (induction xs)
  case Nil
  then show ?case by (cases ys) auto
qed auto

lemma upd_assoc_append_greater:
  "(\<And>x. x \<in> fst ` set xs \<Longrightarrow> x < k) \<Longrightarrow> upd_assoc k v (xs @ ys) = xs @ upd_assoc k v ys"
  by (induction xs) force+

lemma sorted_keys_distinct: "sorted_keys xs \<Longrightarrow> distinct (map fst xs)"
  by (simp add: strict_sorted_iff)


lemma map_of_update_one:
  "a \<in> set as \<Longrightarrow> distinct (map f as) \<Longrightarrow>
   map_of (map (\<lambda>x. (f x, if x = a then v else g x)) as) = (map_of (map (\<lambda>x. (f x, g x)) as))(f a \<mapsto> v)"
proof (induction as)
  case (Cons b bs)
  show ?case
  proof (cases "b = a")
    case True
    then have "a \<notin> set bs" using Cons.prems(2) by auto
    then have "map (\<lambda>x. (f x, if x = a then v else g x)) bs = map (\<lambda>x. (f x, g x)) bs" by auto
    then show ?thesis using True by (intro ext) (simp del: map_eq_conv)
  next
    case False
    then have "f a \<in> f ` set bs" using Cons.prems(1) by simp
    then have "f a \<noteq> f b" using Cons.prems(2) by auto
    then show ?thesis using False Cons by (intro ext) simp
  qed
qed simp

end
