(* ===== verification/Utils.thy ===== *)
theory Utils
  imports Prelude "HOL-Library.Char_ord"
begin

unbundle bit_operations_syntax

text \<open>
  \<^verbatim>\<open>src/core/utils.h\<close> and \<^verbatim>\<open>src/core/properties.h\<close>: the FNV hash, the string helpers, and the
  property table with its file loader. The lemmas give the hash its reference definition and show
  that a written property file is read back.
\<close>

section \<open>FNV hash\<close>

definition kFNVOffsetBasis64 :: u64 where "kFNVOffsetBasis64 = 0xCBF29CE484222325"
definition kFNVPrime64 :: u64 where "kFNVPrime64 = 1099511628211"

text \<open>\<open>for (i = 0; i < 8; i++)\<close> with \<open>n\<close> iterations to go.\<close>

fun FNV_loop :: "nat \<Rightarrow> u64 \<Rightarrow> u64 \<Rightarrow> u64" where
  "FNV_loop 0 val hash = hash"
| "FNV_loop (Suc n) val hash =
     (let octet = val AND 0x00ff; val = drop_bit 8 val; hash = hash XOR octet; hash = hash * kFNVPrime64
      in FNV_loop n val hash)"

definition FNVHash64 :: "u64 \<Rightarrow> u64" where
  "FNVHash64 val = FNV_loop 8 val kFNVOffsetBasis64"

definition Hash :: "u64 \<Rightarrow> u64" where
  "Hash val = FNVHash64 val"

text \<open>
  The reference, with the published constants of the 64-bit hash: FNV-1a over the octets of the
  number, least significant first.
\<close>

definition octets :: "u64 \<Rightarrow> 8 word list" where
  "octets w = map (\<lambda>i. ucast (drop_bit (8 * i) w)) [0..<8]"

definition fnv1a :: "8 word list \<Rightarrow> u64" where
  "fnv1a bs = foldl (\<lambda>h b. (h XOR ucast b) * (2 ^ 40 + 0x1B3)) 14695981039346656037 bs"

lemma FNV_constants: "kFNVPrime64 = 2 ^ 40 + 0x1B3" "kFNVOffsetBasis64 = 14695981039346656037"
  by (simp_all add: kFNVPrime64_def kFNVOffsetBasis64_def)

lemma octet_ucast: "(w :: u64) AND 0x00ff = ucast (ucast w :: 8 word)"
proof -
  have m: "(0x00ff :: u64) = mask 8" by (simp add: mask_eq_exp_minus_1)
  show ?thesis unfolding m by (intro bit_word_eqI) (auto simp: bit_simps)
qed

lemma FNV_loop_eq:
  "FNV_loop n (drop_bit (8 * i) w) h =
     foldl (\<lambda>h b. (h XOR ucast b) * kFNVPrime64) h
       (map (\<lambda>j. ucast (drop_bit (8 * j) w) :: 8 word) [i..<i + n])"
proof (induction n arbitrary: i h)
  case 0
  then show ?case by simp
next
  case (Suc n)
  have "drop_bit 8 (drop_bit (8 * i) w) = drop_bit (8 * Suc i) w" by (simp add: ac_simps)
  moreover have "[i..<i + Suc n] = i # [Suc i..<Suc i + n]" by (simp add: upt_conv_Cons del: upt_Suc)
  ultimately show ?case
    using Suc [of "Suc i"] by (simp add: Let_def octet_ucast del: upt_Suc)
qed

lemma FNVHash64_fnv1a: "FNVHash64 w = fnv1a (octets w)"
  using FNV_loop_eq [of 8 0 w] by (simp add: FNVHash64_def fnv1a_def octets_def FNV_constants)

section \<open>Strings\<close>

definition FixedPrintChar :: char where
  "FixedPrintChar = char_of (67 :: nat)"

text \<open>\<open>isspace\<close> and \<open>tolower\<close> in the C locale.\<close>

definition isspace :: "char \<Rightarrow> bool" where
  "isspace c \<longleftrightarrow> (let n = of_char c :: nat in n = 32 \<or> 9 \<le> n \<and> n \<le> 13)"

definition to_lower :: "char \<Rightarrow> char" where
  "to_lower c = (let n = of_char c :: nat in if 65 \<le> n \<and> n \<le> 90 then char_of (n + 32) else c)"

definition StrToBool :: "string \<Rightarrow> bool comp" where
  "StrToBool str =
     (let str = map to_lower str in
      if str = ''true'' \<or> str = ''1'' then ret True
      else if str = ''false'' \<or> str = ''0'' then ret False
      else crash (Thrown (''Invalid bool string: '' @ str)))"

definition Trim :: "string \<Rightarrow> string" where
  "Trim str = (let front = dropWhile isspace str in rev (dropWhile isspace (rev front)))"

lemma Trim_ends:
  "Trim s \<noteq> [] \<Longrightarrow> \<not> isspace (hd (Trim s)) \<and> \<not> isspace (last (Trim s))"
proof -
  let ?f = "dropWhile isspace s" and ?t = "dropWhile isspace (rev (dropWhile isspace s))"
  assume "Trim s \<noteq> []"
  then have ne: "?t \<noteq> []" by (simp add: Trim_def Let_def)
  then have "\<not> isspace (hd ?t)" by (simp add: hd_dropWhile)
  moreover obtain ys where ys: "rev ?f = ys @ ?t" by (metis takeWhile_dropWhile_id)
  then have f: "?f = rev ?t @ rev ys" by (metis rev_append rev_rev_ident)
  with ne have "hd ?f = hd (rev ?t)" by (metis hd_append2 rev_is_Nil_conv)
  moreover have "?f \<noteq> []" by (metis f ne Nil_is_append_conv rev_is_Nil_conv)
  then have "\<not> isspace (hd ?f)" by (simp add: hd_dropWhile)
  ultimately show ?thesis using ne by (simp add: Trim_def Let_def last_rev)
qed

lemma Trim_id: "s = [] \<or> \<not> isspace (hd s) \<and> \<not> isspace (last s) \<Longrightarrow> Trim s = s"
proof -
  assume s: "s = [] \<or> \<not> isspace (hd s) \<and> \<not> isspace (last s)"
  then have "dropWhile isspace s = s" by (auto simp: dropWhile_eq_self_iff)
  moreover have "dropWhile isspace (rev s) = rev s" using s by (auto simp: dropWhile_eq_self_iff hd_rev)
  ultimately show ?thesis by (simp add: Trim_def)
qed

lemma Trim_Trim [simp]: "Trim (Trim s) = Trim s"
  using Trim_ends [of s] by (intro Trim_id) blast

section \<open>Properties\<close>

type_synonym Properties = "string \<rightharpoonup> string"

definition GetProperty :: "Properties \<Rightarrow> string \<Rightarrow> string \<Rightarrow> string" where
  "GetProperty p key default_value = (case p key of None \<Rightarrow> default_value | Some v \<Rightarrow> v)"

text \<open>\<open>operator[]\<close>: \<open>std::map::at\<close> throws on a missing key.\<close>

definition props_at :: "Properties \<Rightarrow> string \<Rightarrow> string comp" where
  "props_at p key = (case p key of None \<Rightarrow> crash (Thrown ''out_of_range'') | Some v \<Rightarrow> ret v)"

definition SetProperty :: "Properties \<Rightarrow> string \<Rightarrow> string \<Rightarrow> Properties" where
  "SetProperty p key value = p(key \<mapsto> value)"

abbreviation newline :: char where
  "newline \<equiv> CHR 0x0A"

text \<open>\<open>std::getline\<close>: the line, what is left of the file, and whether the end was reached.\<close>

fun getline :: "string \<Rightarrow> string \<times> string \<times> bool" where
  "getline [] = ([], [], True)"
| "getline (c # cs) = (if c = newline then ([], cs, False)
     else let (line, rest, eof) = getline cs in (c # line, rest, eof))"

lemma getline_shorter: "getline s = (l, r, False) \<Longrightarrow> length r < length s"
  by (induction s arbitrary: l r rule: getline.induct)
     (auto split: if_splits prod.splits intro: less_SucI)

text \<open>The body of the loop of \<open>Load\<close> for one line.\<close>

definition load_line :: "Properties \<Rightarrow> string \<Rightarrow> Properties" where
  "load_line p line =
     (if line \<noteq> [] \<and> hd line = CHR ''#'' then p
      else if CHR ''='' \<notin> set line then p
      else let pos = length (takeWhile (\<lambda>c. c \<noteq> CHR ''='') line)
           in SetProperty p (Trim (take pos line)) (Trim (drop (pos + 1) line)))"

function load_lines :: "Properties \<Rightarrow> string \<Rightarrow> Properties" where
  "load_lines p input = (case getline input of (line, rest, eof) \<Rightarrow>
     if eof then load_line p line else load_lines (load_line p line) rest)"
  by auto
termination by (relation "measure (\<lambda>(p, input). length input)") (auto dest: getline_shorter [OF sym])

declare load_lines.simps [simp del]

text \<open>\<open>input\<close> is the content of the file, \<open>None\<close> when it is not open.\<close>

definition Load :: "Properties \<Rightarrow> string option \<Rightarrow> Properties comp" where
  "Load p input = (case input of None \<Rightarrow> crash (Thrown ''File not open!'')
     | Some content \<Rightarrow> ret (load_lines p content))"

section \<open>Reading back a property file\<close>

fun render_props :: "(string \<times> string) list \<Rightarrow> string" where
  "render_props [] = []"
| "render_props ((k, v) # kvs) = k @ ''='' @ v @ [newline] @ render_props kvs"

definition prop_ok :: "string \<times> string \<Rightarrow> bool" where
  "prop_ok kv \<longleftrightarrow> (case kv of (k, v) \<Rightarrow> Trim k = k \<and> Trim v = v \<and> CHR ''='' \<notin> set k \<and>
     newline \<notin> set k \<and> newline \<notin> set v \<and> (k = [] \<or> hd k \<noteq> CHR ''#''))"

lemma getline_line: "newline \<notin> set l \<Longrightarrow> getline (l @ newline # r) = (l, r, False)"
  by (induction l) auto

lemma load_line_prop: "prop_ok (k, v) \<Longrightarrow> load_line p (k @ ''='' @ v) = p(k \<mapsto> v)"
proof -
  assume ok: "prop_ok (k, v)"
  then have t: "takeWhile (\<lambda>c. c \<noteq> CHR ''='') (k @ ''='' @ v) = k"
    by (subst takeWhile_append2) (auto simp: prop_ok_def)
  show ?thesis
    using ok unfolding load_line_def t by (cases k) (auto simp: prop_ok_def SetProperty_def)
qed

lemma load_lines_render:
  "list_all prop_ok kvs \<Longrightarrow> load_lines p (render_props kvs) = fold (\<lambda>(k, v) p. p(k \<mapsto> v)) kvs p"
proof (induction kvs arbitrary: p)
  case Nil
  then show ?case by (subst load_lines.simps) (simp add: load_line_def)
next
  case (Cons kv kvs)
  obtain k v where kv: "kv = (k, v)" by (cases kv)
  have "newline \<notin> set (k @ ''='' @ v)" using Cons.prems by (auto simp: kv prop_ok_def)
  from getline_line [OF this] have g: "getline (render_props (kv # kvs)) = (k @ ''='' @ v, render_props kvs, False)"
    by (simp add: kv)
  have "load_line p (k @ ''='' @ v) = p(k \<mapsto> v)"
    using Cons.prems by (intro load_line_prop) (simp add: kv)
  with Cons g show ?case
    by (subst load_lines.simps) (simp add: kv del: fun_upd_apply append_assoc append.simps render_props.simps)
qed

section \<open>Numbers\<close>

text \<open>
  \<open>std::stoi\<close> in base 10: leading white space, a sign, then the longest run of digits; no digits
  is \<open>invalid_argument\<close>, a number beyond \<open>int\<close> is \<open>out_of_range\<close>.
\<close>

definition digit_val :: "char \<Rightarrow> nat" where
  "digit_val c = of_char c - 48"

definition is_digit :: "char \<Rightarrow> bool" where
  "is_digit c \<longleftrightarrow> (let n = of_char c :: nat in 48 \<le> n \<and> n \<le> 57)"

definition digits_val :: "string \<Rightarrow> nat" where
  "digits_val ds = foldl (\<lambda>n c. 10 * n + digit_val c) 0 ds"

definition stoi :: "string \<Rightarrow> int comp" where
  "stoi s =
     (let s = dropWhile isspace s;
          neg = (s \<noteq> [] \<and> hd s = CHR ''-'');
          s = (if s \<noteq> [] \<and> (hd s = CHR ''-'' \<or> hd s = CHR ''+'') then tl s else s);
          ds = takeWhile is_digit s;
          n = (if neg then - int (digits_val ds) else int (digits_val ds))
      in if ds = [] then crash (Thrown ''invalid_argument'')
         else if n < - (2 ^ 31) \<or> 2 ^ 31 - 1 < n then crash (Thrown ''out_of_range'')
         else ret n)"

section \<open>Properties\<close>

text \<open>
  C32: the hash of a key is FNV-1a, with the 64-bit offset basis and prime, over its eight octets
  from the least significant one.
\<close>

theorem FNVHash64_is_fnv1a: "FNVHash64 w = fnv1a (octets w)"
  by (rule FNVHash64_fnv1a)

text \<open>
  C29: loading a file that lists properties one per line, with trimmed keys and values and no
  comment mark at the start of a key, sets exactly these properties, a later line winning over an
  earlier one and over what was set before.
\<close>

theorem Load_reads_back:
  "list_all prop_ok kvs \<Longrightarrow>
   Load p (Some (render_props kvs)) = ret (fold (\<lambda>(k, v) p. SetProperty p k v) kvs p)"
  by (simp add: Load_def load_lines_render SetProperty_def)

theorem Load_reads_back_witness:
  "Load Map.empty (Some (render_props [(''recordcount'', ''10''), (''table'', ''t'')])) =
     ret [''recordcount'' \<mapsto> ''10'', ''table'' \<mapsto> ''t'']"
proof -
  have "prop_ok (''recordcount'', ''10'')" "prop_ok (''table'', ''t'')" by code_simp+
  then show ?thesis
    using Load_reads_back [of "[(''recordcount'', ''10''), (''table'', ''t'')]" Map.empty]
    by (simp add: SetProperty_def)
qed

end
