(* ===== verification/Generators.thy ===== *)
theory Generators
  imports Complex_Main Utils
begin

text \<open>
  \<^verbatim>\<open>src/core/*_generator.h\<close>: the number generators of the workloads. Floating point arithmetic, the
  results of the standard random engines, and the parsing of a \<open>double\<close> are arguments
  (\<open>double_ops\<close>, \<open>env\<close>): the generators are the code's for every arithmetic, and the lemmas that
  need exact arithmetic use the reals (\<open>real_ops\<close>).
\<close>

section \<open>The environment\<close>

record 'd double_ops =
  d_add :: "'d \<Rightarrow> 'd \<Rightarrow> 'd"
  d_sub :: "'d \<Rightarrow> 'd \<Rightarrow> 'd"
  d_mul :: "'d \<Rightarrow> 'd \<Rightarrow> 'd"
  d_div :: "'d \<Rightarrow> 'd \<Rightarrow> 'd"
  d_pow :: "'d \<Rightarrow> 'd \<Rightarrow> 'd"
  d_lt :: "'d \<Rightarrow> 'd \<Rightarrow> bool"
  d_lit :: "rat \<Rightarrow> 'd"
  d_of_u64 :: "u64 \<Rightarrow> 'd"
  d_to_u64 :: "'d \<Rightarrow> u64"
  d_of_int :: "int \<Rightarrow> 'd"
  d_to_int :: "'d \<Rightarrow> int"

text \<open>
  \<open>random_double i\<close>: the \<open>i\<close>-th result of \<open>RandomDouble\<close>, whose engine is shared by all
  generators. \<open>uniform_draw a b i\<close>: the \<open>i\<close>-th draw of a \<open>uniform_int_distribution(a, b)\<close> from a
  fresh \<open>mt19937_64\<close>. \<open>stod_value\<close>: what \<open>std::stod\<close> reads, \<open>None\<close> when it throws.
\<close>

record 'd env =
  fp_ops :: "'d double_ops"
  random_double :: "nat \<Rightarrow> 'd"
  uniform_draw :: "u64 \<Rightarrow> u64 \<Rightarrow> nat \<Rightarrow> u64"
  stod_value :: "string \<Rightarrow> 'd option"

definition real_ops :: "real double_ops" where
  "real_ops = \<lparr>d_add = (+), d_sub = (-), d_mul = (*), d_div = (/), d_pow = (powr), d_lt = (<),
     d_lit = of_rat, d_of_u64 = (\<lambda>w. real (unat w)), d_to_u64 = (\<lambda>x. of_int \<lfloor>x\<rfloor>),
     d_of_int = of_int, d_to_int = floor\<rparr>"

section \<open>Counter, constant and uniform generators\<close>

record CounterGenerator =
  counter :: u64

definition CounterGenerator_new :: "u64 \<Rightarrow> CounterGenerator" where
  "CounterGenerator_new start = \<lparr>counter = start\<rparr>"

definition Counter_Next :: "CounterGenerator \<Rightarrow> u64 \<times> CounterGenerator" where
  "Counter_Next g = (counter g, g\<lparr>counter := counter g + 1\<rparr>)"

definition Counter_Last :: "CounterGenerator \<Rightarrow> u64" where
  "Counter_Last g = counter g - 1"

definition Counter_Set :: "u64 \<Rightarrow> CounterGenerator \<Rightarrow> CounterGenerator" where
  "Counter_Set start g = g\<lparr>counter := start\<rparr>"

definition ConstGenerator_new :: "int \<Rightarrow> u64" where
  "ConstGenerator_new constant = of_int constant"

definition Const_Next :: "u64 \<Rightarrow> u64" where
  "Const_Next constant = constant"

record UniformGenerator =
  ug_min :: u64
  ug_max :: u64
  ug_pos :: nat
  ug_last :: u64

definition Uniform_Next :: "'d env \<Rightarrow> UniformGenerator \<Rightarrow> u64 \<times> UniformGenerator" where
  "Uniform_Next e g =
     (let last_int = uniform_draw e (ug_min g) (ug_max g) (ug_pos g)
      in (last_int, g\<lparr>ug_pos := Suc (ug_pos g), ug_last := last_int\<rparr>))"

definition UniformGenerator_new :: "'d env \<Rightarrow> u64 \<Rightarrow> u64 \<Rightarrow> UniformGenerator" where
  "UniformGenerator_new e lo hi =
     snd (Uniform_Next e \<lparr>ug_min = lo, ug_max = hi, ug_pos = 0, ug_last = 0\<rparr>)"

definition Uniform_Last :: "UniformGenerator \<Rightarrow> u64" where
  "Uniform_Last g = ug_last g"

section \<open>Discrete generator\<close>

record ('v, 'd) DiscreteGenerator =
  dg_values :: "('v \<times> 'd) list"
  dg_sum :: 'd
  dg_last :: "'v option"

definition DiscreteGenerator_new :: "'d double_ops \<Rightarrow> ('v, 'd) DiscreteGenerator" where
  "DiscreteGenerator_new f = \<lparr>dg_values = [], dg_sum = d_lit f 0, dg_last = None\<rparr>"

definition AddValue ::
  "'d double_ops \<Rightarrow> 'v \<Rightarrow> 'd \<Rightarrow> ('v, 'd) DiscreteGenerator \<Rightarrow> ('v, 'd) DiscreteGenerator" where
  "AddValue f value weight g =
     (let g = (if dg_values g = [] then g\<lparr>dg_last := Some value\<rparr> else g)
      in g\<lparr>dg_values := dg_values g @ [(value, weight)], dg_sum := d_add f (dg_sum g) weight\<rparr>)"

text \<open>The loop over \<open>values_\<close>; running past the end is \<open>assert(false)\<close>.\<close>

fun Discrete_choose :: "'d double_ops \<Rightarrow> 'd \<Rightarrow> 'd \<Rightarrow> ('v \<times> 'd) list \<Rightarrow> 'v comp" where
  "Discrete_choose f wsum chooser [] = crash AssertFail"
| "Discrete_choose f wsum chooser ((v, w) # ps) =
     (if d_lt f chooser (d_div f w wsum) then ret v
      else Discrete_choose f wsum (d_sub f chooser (d_div f w wsum)) ps)"

definition Discrete_Next ::
  "'d env \<Rightarrow> nat \<Rightarrow> ('v, 'd) DiscreteGenerator \<Rightarrow> ('v \<times> nat \<times> ('v, 'd) DiscreteGenerator) comp" where
  "Discrete_Next e pos g =
     (let chooser = random_double e pos in
      bindC (Discrete_choose (fp_ops e) (dg_sum g) chooser (dg_values g)) (\<lambda>v.
        ret (v, Suc pos, g\<lparr>dg_last := Some v\<rparr>)))"

section \<open>Zipfian generators\<close>

definition kZipfianConst :: "'d double_ops \<Rightarrow> 'd" where
  "kZipfianConst f = d_lit f (99 / 100)"

definition kMaxNumItems :: u64 where
  "kMaxNumItems = drop_bit 24 (- 1)"

record 'd ZipfianGenerator =
  num_items :: u64
  base :: u64
  theta :: 'd
  zeta_n :: 'd
  eta :: 'd
  alpha :: 'd
  zeta_2 :: 'd
  n_for_zeta :: u64
  last_value :: u64

text \<open>\<open>n\<close> iterations of the loop of \<open>Zeta\<close> from \<open>i\<close> on.\<close>

fun Zeta_loop :: "'d double_ops \<Rightarrow> 'd \<Rightarrow> nat \<Rightarrow> u64 \<Rightarrow> 'd \<Rightarrow> 'd" where
  "Zeta_loop f th 0 i zeta = zeta"
| "Zeta_loop f th (Suc n) i zeta =
     Zeta_loop f th n (i + 1) (d_add f zeta (d_div f (d_lit f 1) (d_pow f (d_of_u64 f i) th)))"

definition Zeta :: "'d double_ops \<Rightarrow> u64 \<Rightarrow> u64 \<Rightarrow> 'd \<Rightarrow> 'd \<Rightarrow> 'd" where
  "Zeta f last_num cur_num th last_zeta =
     Zeta_loop f th (unat cur_num - unat last_num) (last_num + 1) last_zeta"

definition RaiseZeta ::
  "'d double_ops \<Rightarrow> u64 \<Rightarrow> 'd ZipfianGenerator \<Rightarrow> 'd ZipfianGenerator comp" where
  "RaiseZeta f num g =
     bindC (assertC (n_for_zeta g \<le> num)) (\<lambda>_.
       ret (g\<lparr>zeta_n := Zeta f (n_for_zeta g) num (theta g) (zeta_n g), n_for_zeta := num\<rparr>))"

definition Eta :: "'d double_ops \<Rightarrow> 'd ZipfianGenerator \<Rightarrow> 'd" where
  "Eta f g =
     d_div f
       (d_sub f (d_lit f 1)
         (d_pow f (d_div f (d_lit f 2) (d_of_u64 f (num_items g))) (d_sub f (d_lit f 1) (theta g))))
       (d_sub f (d_lit f 1) (d_div f (zeta_2 g) (zeta_n g)))"

definition Zipfian_Next ::
  "'d env \<Rightarrow> nat \<Rightarrow> u64 \<Rightarrow> 'd ZipfianGenerator \<Rightarrow> (u64 \<times> nat \<times> 'd ZipfianGenerator) comp" where
  "Zipfian_Next e pos num g =
     (let f = fp_ops e in
      bindC (assertC (2 \<le> num \<and> num < kMaxNumItems)) (\<lambda>_.
      bindC (if n_for_zeta g < num
             then bindC (RaiseZeta f num g) (\<lambda>g. ret (g\<lparr>eta := Eta f g\<rparr>)) else ret g) (\<lambda>g.
      let u = random_double e pos;
          uz = d_mul f u (zeta_n g);
          v = (if d_lt f uz (d_lit f 1) then 0
               else if d_lt f uz (d_add f (d_lit f 1) (d_pow f (d_lit f (1 / 2)) (theta g))) then 1
               else d_to_u64 f (d_add f (d_of_u64 f (base g))
                 (d_mul f (d_of_u64 f num)
                   (d_pow f (d_add f (d_sub f (d_mul f (eta g) u) (eta g)) (d_lit f 1)) (alpha g)))))
      in ret (v, Suc pos, g\<lparr>last_value := v\<rparr>))))"

definition ZipfianGenerator_new ::
  "'d env \<Rightarrow> nat \<Rightarrow> u64 \<Rightarrow> u64 \<Rightarrow> 'd \<Rightarrow> (nat \<times> 'd ZipfianGenerator) comp" where
  "ZipfianGenerator_new e pos lo hi zipfian_const =
     (let f = fp_ops e; n = hi - lo + 1 in
      bindC (assertC (2 \<le> n \<and> n < kMaxNumItems)) (\<lambda>_.
      let z = d_lit f 0; z2 = Zeta f 0 2 zipfian_const z;
          g = \<lparr>num_items = n, base = lo, theta = zipfian_const, zeta_n = z, eta = z,
               alpha = d_div f (d_lit f 1) (d_sub f (d_lit f 1) zipfian_const),
               zeta_2 = z2, n_for_zeta = 0, last_value = 0\<rparr> in
      bindC (RaiseZeta f n g) (\<lambda>g.
      bindC (Zipfian_Next e pos n (g\<lparr>eta := Eta f g\<rparr>)) (\<lambda>(_, pos, g). ret (pos, g)))))"

definition Zipfian_Last :: "'d ZipfianGenerator \<Rightarrow> u64" where
  "Zipfian_Last g = last_value g"

record 'd ScrambledZipfianGenerator =
  sz_base :: u64
  sz_num_items :: u64
  sz_generator :: "'d ZipfianGenerator"

definition ScrambledZipfianGenerator_new ::
  "'d env \<Rightarrow> nat \<Rightarrow> u64 \<Rightarrow> (nat \<times> 'd ScrambledZipfianGenerator) comp" where
  "ScrambledZipfianGenerator_new e pos n =
     bindC (ZipfianGenerator_new e pos 0 (n - 1) (kZipfianConst (fp_ops e))) (\<lambda>(pos, g).
       ret (pos, \<lparr>sz_base = 0, sz_num_items = n - 1 - 0 + 1, sz_generator = g\<rparr>))"

text \<open>A division by zero when there are no items; the constructor has excluded it.\<close>

definition Scramble :: "'d ScrambledZipfianGenerator \<Rightarrow> u64 \<Rightarrow> u64" where
  "Scramble g value = sz_base g + FNVHash64 value mod sz_num_items g"

definition Scrambled_Next ::
  "'d env \<Rightarrow> nat \<Rightarrow> 'd ScrambledZipfianGenerator \<Rightarrow> (u64 \<times> nat \<times> 'd ScrambledZipfianGenerator) comp" where
  "Scrambled_Next e pos g =
     bindC (Zipfian_Next e pos (num_items (sz_generator g)) (sz_generator g)) (\<lambda>(v, pos, z).
       ret (Scramble g v, pos, g\<lparr>sz_generator := z\<rparr>))"

definition Scrambled_Last :: "'d ScrambledZipfianGenerator \<Rightarrow> u64" where
  "Scrambled_Last g = Scramble g (Zipfian_Last (sz_generator g))"

text \<open>\<open>basis_\<close> is a reference to the counter of the workload, an argument here.\<close>

record 'd SkewedLatestGenerator =
  sl_zipfian :: "'d ZipfianGenerator"
  sl_last :: u64

definition SkewedLatest_Next ::
  "'d env \<Rightarrow> nat \<Rightarrow> CounterGenerator \<Rightarrow> 'd SkewedLatestGenerator \<Rightarrow>
   (u64 \<times> nat \<times> 'd SkewedLatestGenerator) comp" where
  "SkewedLatest_Next e pos basis g =
     (let top = Counter_Last basis in
      bindC (Zipfian_Next e pos top (sl_zipfian g)) (\<lambda>(v, pos, z).
        ret (top - v, pos, \<lparr>sl_zipfian = z, sl_last = top - v\<rparr>)))"

definition SkewedLatestGenerator_new ::
  "'d env \<Rightarrow> nat \<Rightarrow> CounterGenerator \<Rightarrow> (nat \<times> 'd SkewedLatestGenerator) comp" where
  "SkewedLatestGenerator_new e pos basis =
     bindC (ZipfianGenerator_new e pos 0 (Counter_Last basis - 1) (kZipfianConst (fp_ops e))) (\<lambda>(pos, z).
     bindC (SkewedLatest_Next e pos basis \<lparr>sl_zipfian = z, sl_last = 0\<rparr>) (\<lambda>(_, pos, g). ret (pos, g)))"

section \<open>A generator behind the interface\<close>

text \<open>What \<open>Generator<uint64_t> *\<close> may point to, and its virtual \<open>Next\<close>.\<close>

datatype 'd Generator =
    ConstG u64
  | UniformG UniformGenerator
  | ZipfianG "'d ZipfianGenerator"
  | ScrambledG "'d ScrambledZipfianGenerator"
  | LatestG "'d SkewedLatestGenerator"

fun Generator_Next ::
  "'d env \<Rightarrow> nat \<Rightarrow> CounterGenerator \<Rightarrow> 'd Generator \<Rightarrow> (u64 \<times> nat \<times> 'd Generator) comp" where
  "Generator_Next e pos basis (ConstG c) = ret (Const_Next c, pos, ConstG c)"
| "Generator_Next e pos basis (UniformG g) =
     (case Uniform_Next e g of (v, g') \<Rightarrow> ret (v, pos, UniformG g'))"
| "Generator_Next e pos basis (ZipfianG g) =
     bindC (Zipfian_Next e pos (num_items g) g) (\<lambda>(v, pos, g'). ret (v, pos, ZipfianG g'))"
| "Generator_Next e pos basis (ScrambledG g) =
     bindC (Scrambled_Next e pos g) (\<lambda>(v, pos, g'). ret (v, pos, ScrambledG g'))"
| "Generator_Next e pos basis (LatestG g) =
     bindC (SkewedLatest_Next e pos basis g) (\<lambda>(v, pos, g'). ret (v, pos, LatestG g'))"


section \<open>Exact arithmetic\<close>

lemma real_ops_simps [simp]:
  "d_add real_ops = (+)" "d_sub real_ops = (-)" "d_mul real_ops = (*)" "d_div real_ops = (/)"
  "d_pow real_ops = (powr)" "d_lt real_ops = (<)" "d_lit real_ops = of_rat"
  "d_of_u64 real_ops w = real (unat w)" "d_to_u64 real_ops x = of_int \<lfloor>x\<rfloor>"
  by (simp_all add: real_ops_def)

lemma of_rat_lits [simp]: "(of_rat (99 / 100) :: real) = 99 / 100" "(of_rat (1 / 2) :: real) = 1 / 2"
  by (simp_all add: of_rat_divide)

subsection \<open>The discrete generator\<close>

abbreviation weights :: "('v \<times> real) list \<Rightarrow> real" where
  "weights ps \<equiv> sum_list (map snd ps)"

lemma Discrete_choose_exact:
  assumes "0 < S"
  shows "0 \<le> c \<Longrightarrow> c < weights ps / S \<Longrightarrow>
    \<exists>i < length ps. Discrete_choose real_ops S c ps = ret (fst (ps ! i)) \<and>
      weights (take i ps) \<le> c * S \<and> c * S < weights (take (Suc i) ps)"
proof (induction ps arbitrary: c)
  case Nil
  then show ?case by simp
next
  case (Cons p ps)
  obtain v w where p: "p = (v, w)" by (cases p)
  show ?case
  proof (cases "c < w / S")
    case True
    then show ?thesis using Cons.prems assms
      by (intro exI [of _ 0]) (simp add: p pos_less_divide_eq)
  next
    case False
    then have "0 \<le> c - w / S" "c - w / S < weights ps / S"
      using Cons.prems(2) by (simp_all add: p add_divide_distrib)
    from Cons.IH [OF this] obtain i where i: "i < length ps"
      "Discrete_choose real_ops S (c - w / S) ps = ret (fst (ps ! i))"
      "weights (take i ps) \<le> (c - w / S) * S" "(c - w / S) * S < weights (take (Suc i) ps)" by blast
    have "(c - w / S) * S = c * S - w" using assms by (simp add: left_diff_distrib)
    with i False show ?thesis by (intro exI [of _ "Suc i"]) (simp add: p)
  qed
qed

definition discrete_of :: "('v \<times> real) list \<Rightarrow> ('v, real) DiscreteGenerator" where
  "discrete_of vs = fold (\<lambda>(v, w). AddValue real_ops v w) vs (DiscreteGenerator_new real_ops)"

lemma fold_AddValue:
  "dg_values (fold (\<lambda>(v, w). AddValue real_ops v w) vs g) = dg_values g @ vs \<and>
   dg_sum (fold (\<lambda>(v, w). AddValue real_ops v w) vs g) = dg_sum g + weights vs"
  by (induction vs arbitrary: g) (auto simp: AddValue_def Let_def)

lemma discrete_of_simps [simp]: "dg_values (discrete_of vs) = vs" "dg_sum (discrete_of vs) = weights vs"
  using fold_AddValue [of vs "DiscreteGenerator_new real_ops"]
  by (simp_all add: discrete_of_def DiscreteGenerator_new_def)

subsection \<open>The zipfian generator\<close>

lemma Zeta_loop_mono: "z \<le> Zeta_loop real_ops th n i z"
proof (induction n arbitrary: i z)
  case (Suc n)
  have "z \<le> z + 1 / real (unat i) powr th" by simp
  also have "\<dots> \<le> Zeta_loop real_ops th n (i + 1) (z + 1 / real (unat i) powr th)" by (rule Suc.IH)
  finally show ?case by simp
qed simp

lemma Zeta_loop_add:
  "Zeta_loop f th (m + n) i z = Zeta_loop f th n (i + of_nat m) (Zeta_loop f th m i z)"
  by (induction m arbitrary: i z) (simp_all add: add.assoc)

lemma Zeta_split:
  assumes "2 \<le> n"
  shows "Zeta f 0 n th z = Zeta_loop f th (unat n - 2) 3 (Zeta f 0 2 th z)"
proof -
  have "2 \<le> unat n" using assms by (simp add: word_le_nat_alt)
  then have "unat n = 2 + (unat n - 2)" by simp
  then have "Zeta_loop f th (unat n) 1 z = Zeta_loop f th (2 + (unat n - 2)) 1 z" by simp
  also have "\<dots> = Zeta_loop f th (unat n - 2) 3 (Zeta_loop f th 2 1 z)" by (subst Zeta_loop_add) simp
  finally show ?thesis by (simp add: Zeta_def)
qed

lemma Zeta_2: "Zeta real_ops 0 2 th 0 = 1 + (1 / 2) powr th"
proof -
  have "unat (2 :: u64) - unat (0 :: u64) = Suc (Suc 0)" by simp
  then show ?thesis by (simp only: Zeta_def Zeta_loop.simps) (simp add: powr_divide)
qed

text \<open>What the constructor establishes and \<open>Next\<close> keeps.\<close>

definition zipf_ok :: "real ZipfianGenerator \<Rightarrow> bool" where
  "zipf_ok g \<longleftrightarrow> 0 < theta g \<and> theta g < 1 \<and> 2 \<le> num_items g \<and> num_items g < kMaxNumItems \<and>
     n_for_zeta g = num_items g \<and> alpha g = 1 / (1 - theta g) \<and>
     zeta_2 g = Zeta real_ops 0 2 (theta g) 0 \<and> zeta_n g = Zeta real_ops 0 (num_items g) (theta g) 0 \<and>
     eta g = Eta real_ops g"

lemma zipf_zeta:
  assumes "zipf_ok g"
  shows "0 < zeta_2 g" and "zeta_2 g \<le> zeta_n g" and "num_items g = 2 \<Longrightarrow> zeta_n g = zeta_2 g"
    and "2 < num_items g \<Longrightarrow> zeta_2 g < zeta_n g"
proof -
  have z: "zeta_n g = Zeta_loop real_ops (theta g) (unat (num_items g) - 2) 3 (zeta_2 g)"
    using assms Zeta_split [of "num_items g" real_ops "theta g" 0] by (simp add: zipf_ok_def)
  show "0 < zeta_2 g" using assms Zeta_2 [of "theta g"] by (simp add: zipf_ok_def add_pos_pos)
  show "zeta_2 g \<le> zeta_n g" unfolding z by (rule Zeta_loop_mono)
  show "num_items g = 2 \<Longrightarrow> zeta_n g = zeta_2 g" unfolding z by simp
  assume "2 < num_items g"
  then have "2 < unat (num_items g)" by (simp add: word_less_nat_alt)
  then obtain m where m: "unat (num_items g) - 2 = Suc m" by (cases "unat (num_items g) - 2") auto
  have "zeta_2 g < zeta_2 g + 1 / 3 powr theta g" by simp
  also have "\<dots> \<le> zeta_n g" unfolding z m using Zeta_loop_mono [of _ "theta g" m 4] by simp
  finally show "zeta_2 g < zeta_n g" .
qed

text \<open>The value computed when the draw is past the first two items.\<close>

lemma zipf_tail:
  assumes ok: "zipf_ok g" and u: "u < 1" and uz: "\<not> u * zeta_n g < 1 + (1 / 2) powr theta g"
  defines "x \<equiv> real (unat (num_items g)) * (eta g * u - eta g + 1) powr alpha g"
  shows "2 \<le> x" and "x < real (unat (num_items g))"
proof -
  let ?n = "real (unat (num_items g))" and ?t = "1 - theta g"
  let ?q = "zeta_2 g / zeta_n g" and ?r = "(2 / real (unat (num_items g))) powr (1 - theta g)"
  have th: "0 < ?t" "alpha g = 1 / ?t" using ok by (simp_all add: zipf_ok_def)
  have "2 \<le> unat (num_items g)" using ok by (simp add: zipf_ok_def word_le_nat_alt)
  then have n2: "2 \<le> ?n" by linarith
  have zp: "0 < zeta_2 g" "0 < zeta_n g" using zipf_zeta [OF ok] by linarith+
  have z2: "zeta_2 g = 1 + (1 / 2) powr theta g" using ok Zeta_2 by (simp add: zipf_ok_def)
  then have qu: "?q \<le> u" using uz zp by (simp add: pos_divide_le_eq)
  have "num_items g \<noteq> 2"
  proof
    assume "num_items g = 2"
    then have "zeta_n g = zeta_2 g" by (rule zipf_zeta(3) [OF ok])
    with qu u zp show False by simp
  qed
  moreover have "2 \<le> num_items g" using ok by (simp add: zipf_ok_def)
  ultimately have n3: "2 < num_items g" by simp
  then have "2 < unat (num_items g)" by (simp add: word_less_nat_alt)
  then have n3': "2 < ?n" by linarith
  have q1: "?q < 1" using zipf_zeta(4) [OF ok n3] zp by simp
  have r: "0 < ?r" "?r < 1" using n3' th by (simp_all add: powr01_less_one)
  have eta: "eta g = (1 - ?r) / (1 - ?q)" using ok by (simp add: zipf_ok_def Eta_def)
  then have e0: "0 < eta g" using r q1 by simp
  have "eta g * (1 - u) \<le> eta g * (1 - ?q)" using qu e0 by (intro mult_left_mono) auto
  also have "\<dots> = 1 - ?r" unfolding eta using q1 by (metis diff_gt_0_iff_gt less_irrefl nonzero_eq_divide_eq)
  finally have lo: "?r \<le> eta g * u - eta g + 1" by (simp add: algebra_simps)
  have "0 < eta g * (1 - u)" using e0 u by simp
  then have hi: "eta g * u - eta g + 1 < 1" by (simp add: algebra_simps)
  have a0: "0 < alpha g" using th by simp
  have "?r powr alpha g = 2 / ?n" using th n2 by (simp add: powr_powr)
  moreover have "?r powr alpha g \<le> (eta g * u - eta g + 1) powr alpha g"
    using lo r a0 by (intro powr_mono2) auto
  ultimately have "2 / ?n \<le> (eta g * u - eta g + 1) powr alpha g" by simp
  then show "2 \<le> x" unfolding x_def using n2 by (simp add: pos_divide_le_eq mult.commute)
  have "(eta g * u - eta g + 1) powr alpha g < 1"
    using powr01_less_one [of "eta g * u - eta g + 1" "alpha g"] lo hi r(1) a0 by linarith
  then show "x < ?n" unfolding x_def using n2 by simp
qed


lemma zipf_next:
  assumes ok: "zipf_ok g" and f: "fp_ops e = real_ops" and u: "0 \<le> random_double e pos" "random_double e pos < 1"
    and b: "unat (base g) + unat (num_items g) < 2 ^ 64"
  shows "\<exists>v. Zipfian_Next e pos (num_items g) g = ret (v, Suc pos, g\<lparr>last_value := v\<rparr>) \<and>
    (v = 0 \<or> v = 1 \<or> unat (base g) + 2 \<le> unat v \<and> unat v < unat (base g) + unat (num_items g))"
proof -
  let ?u = "random_double e pos"
  let ?x = "real (unat (num_items g)) * (eta g * ?u - eta g + 1) powr alpha g"
  let ?v = "if ?u * zeta_n g < 1 then 0 else if ?u * zeta_n g < 1 + (1 / 2) powr theta g then 1
    else of_int \<lfloor>real (unat (base g)) + ?x\<rfloor> :: u64"
  have "Zipfian_Next e pos (num_items g) g = ret (?v, Suc pos, g\<lparr>last_value := ?v\<rparr>)"
    using ok f by (simp add: Zipfian_Next_def zipf_ok_def Let_def assertC_def)
  moreover have "unat (base g) + 2 \<le> unat ?v \<and> unat ?v < unat (base g) + unat (num_items g)"
    if uz: "\<not> ?u * zeta_n g < 1 + (1 / 2) powr theta g"
  proof -
    note x = zipf_tail [OF ok u(2) uz]
    have uz1: "\<not> ?u * zeta_n g < 1" using uz powr_ge_zero [of "1 / 2" "theta g"] by linarith
    let ?y = "\<lfloor>real (unat (base g)) + ?x\<rfloor>"
    have y: "int (unat (base g)) + 2 \<le> ?y" "?y < int (unat (base g)) + int (unat (num_items g))"
      using x by linarith+
    have "unat (of_int y :: u64) = nat y" if "0 \<le> y" "y < 2 ^ 64" for y :: int
      using that by (simp add: uint_word_of_int_eq take_bit_int_eq_self unat_eq_nat_uint)
    moreover have "int (unat (base g) + unat (num_items g)) < int (2 ^ 64)" using b by (simp only: of_nat_less_iff)
    then have "int (unat (base g)) + int (unat (num_items g)) < 2 ^ 64" by (simp only: of_nat_add of_nat_power of_nat_numeral)
    with y have "0 \<le> ?y" "?y < 2 ^ 64" by linarith+
    ultimately have "unat (of_int ?y :: u64) = nat ?y" by blast
    moreover have "?v = of_int ?y" using uz uz1 by (simp only: if_False)
    ultimately have "unat ?v = nat ?y" by (simp only:)
    moreover have "unat (base g) + 2 \<le> nat ?y" "nat ?y < unat (base g) + unat (num_items g)"
      using y by linarith+
    ultimately show ?thesis by (simp only: simp_thms)
  qed
  ultimately show ?thesis by (cases "?u * zeta_n g < 1 + (1 / 2) powr theta g") auto
qed

lemma zipf_new:
  assumes f: "fp_ops e = real_ops" and th: "0 < th" "th < 1"
    and n: "2 \<le> hi - lo + 1" "hi - lo + 1 < kMaxNumItems"
    and u: "0 \<le> random_double e pos" "random_double e pos < 1"
    and b: "unat lo + unat (hi - lo + 1) < 2 ^ 64"
  shows "\<exists>g. ZipfianGenerator_new e pos lo hi th = ret (Suc pos, g) \<and> zipf_ok g \<and> base g = lo \<and>
    num_items g = hi - lo + 1"
proof -
  let ?n = "hi - lo + 1"
  let ?g0 = "\<lparr>num_items = ?n, base = lo, theta = th, zeta_n = Zeta real_ops 0 ?n th 0, eta = 0,
     alpha = 1 / (1 - th), zeta_2 = Zeta real_ops 0 2 th 0, n_for_zeta = ?n, last_value = 0\<rparr>"
  let ?g = "?g0\<lparr>eta := Eta real_ops ?g0\<rparr>"
  have ok: "zipf_ok ?g" using n th by (simp add: zipf_ok_def Eta_def)
  obtain v where v: "Zipfian_Next e pos ?n ?g = ret (v, Suc pos, ?g\<lparr>last_value := v\<rparr>)"
    using zipf_next [OF ok f u] b by auto
  have "ZipfianGenerator_new e pos lo hi th = ret (Suc pos, ?g\<lparr>last_value := v\<rparr>)"
    using f n v by (simp add: ZipfianGenerator_new_def RaiseZeta_def Let_def)
  moreover have "zipf_ok (?g\<lparr>last_value := v\<rparr>)" using ok by (simp add: zipf_ok_def Eta_def)
  ultimately show ?thesis by auto
qed

section \<open>Properties\<close>

text \<open>
  C28: in exact arithmetic the operation chooser returns, for a draw \<open>u\<close> in \<open>[0, 1)\<close>, the value
  whose weight interval contains \<open>u\<close> times the sum of the weights: it never reaches its final
  assertion, and each value is chosen in proportion to its weight.
\<close>

theorem discrete_choice:
  "fp_ops e = real_ops \<Longrightarrow> vs \<noteq> [] \<Longrightarrow> \<forall>p \<in> set vs. 0 < snd p \<Longrightarrow>
   0 \<le> random_double e pos \<Longrightarrow> random_double e pos < 1 \<Longrightarrow>
   \<exists>i < length vs. \<exists>g'. Discrete_Next e pos (discrete_of vs) = ret (fst (vs ! i), Suc pos, g') \<and>
     weights (take i vs) \<le> random_double e pos * weights vs \<and>
     random_double e pos * weights vs < weights (take (Suc i) vs)"
proof -
  assume f: "fp_ops e = real_ops" and ne: "vs \<noteq> []" and pos: "\<forall>p \<in> set vs. 0 < snd p"
    and u: "0 \<le> random_double e pos" "random_double e pos < 1"
  have "0 < weights vs"
  proof (cases vs)
    case (Cons p ps)
    have "0 \<le> weights ps" using pos Cons by (intro sum_list_nonneg) (auto simp: less_imp_le)
    then show ?thesis using pos Cons by simp
  qed (use ne in simp)
  then show ?thesis
    using Discrete_choose_exact [of "weights vs" "random_double e pos" vs] u f
    by (auto simp: Discrete_Next_def Let_def)
qed

definition half_env :: "real env" where
  "half_env = \<lparr>fp_ops = real_ops, random_double = (\<lambda>_. 1 / 2), uniform_draw = (\<lambda>a b i. a),
     stod_value = (\<lambda>_. None)\<rparr>"

theorem discrete_choice_witness:
  "\<exists>i < 2. \<exists>g'. Discrete_Next half_env 0 (discrete_of [(''a'', 1), (''b'', 3)]) =
     ret (fst ([(''a'', 1 :: real), (''b'', 3)] ! i), 1, g') \<and> i = 1"
proof -
  have "\<exists>i < length [(''a'', 1 :: real), (''b'', 3)]. \<exists>g'.
     Discrete_Next half_env 0 (discrete_of [(''a'', 1), (''b'', 3)]) =
       ret (fst ([(''a'', 1 :: real), (''b'', 3)] ! i), Suc 0, g') \<and>
     weights (take i [(''a'', 1), (''b'', 3)]) \<le> random_double half_env 0 * weights [(''a'', 1), (''b'', 3)] \<and>
     random_double half_env 0 * weights [(''a'', 1), (''b'', 3)] < weights (take (Suc i) [(''a'', 1), (''b'', 3)])"
    by (rule discrete_choice) (simp_all add: half_env_def)
  then obtain i g' where i: "i < length [(''a'', 1 :: real), (''b'', 3)]"
     and r: "Discrete_Next half_env 0 (discrete_of [(''a'', 1), (''b'', 3)]) =
       ret (fst ([(''a'', 1 :: real), (''b'', 3)] ! i), Suc 0, g')"
     and w: "random_double half_env 0 * weights [(''a'', 1), (''b'', 3)] < weights (take (Suc i) [(''a'', 1), (''b'', 3)])"
    by blast
  have "i \<noteq> 0"
  proof
    assume "i = 0"
    with w show False by (simp add: half_env_def)
  qed
  then have "i = 1" using i by simp
  with r show ?thesis by (intro exI [of _ i]) simp
qed

text \<open>
  C27: in exact arithmetic a zipfian generator over \<open>[base, base + n)\<close> passes its assertions and
  returns \<open>0\<close>, \<open>1\<close>, or a value from \<open>base + 2\<close> to \<open>base + n - 1\<close>. For its two most frequent
  values the code drops \<open>base\<close>: a generator of scan lengths from 1 on also returns \<open>0\<close>. Rounding is not
  covered: with doubles the factor of \<open>num\<close> can become 1.
\<close>

theorem zipfian_range:
  "fp_ops e = real_ops \<Longrightarrow> 0 < th \<Longrightarrow> th < 1 \<Longrightarrow> 2 \<le> hi - lo + 1 \<Longrightarrow> hi - lo + 1 < kMaxNumItems \<Longrightarrow>
   unat lo + unat (hi - lo + 1) < 2 ^ 64 \<Longrightarrow>
   \<forall>i. 0 \<le> random_double e i \<and> random_double e i < 1 \<Longrightarrow>
   \<exists>g v g'. ZipfianGenerator_new e pos lo hi th = ret (Suc pos, g) \<and>
     Zipfian_Next e (Suc pos) (num_items g) g = ret (v, Suc (Suc pos), g') \<and>
     (v = 0 \<or> v = 1 \<or> unat lo + 2 \<le> unat v \<and> unat v < unat lo + unat (hi - lo + 1)) \<and>
     (random_double e (Suc pos) * zeta_n g < 1 \<longrightarrow> v = 0)"
proof -
  assume f: "fp_ops e = real_ops" and th: "0 < th" "th < 1"
    and n: "2 \<le> hi - lo + 1" "hi - lo + 1 < kMaxNumItems" "unat lo + unat (hi - lo + 1) < 2 ^ 64"
    and u: "\<forall>i. 0 \<le> random_double e i \<and> random_double e i < 1"
  obtain g where g: "ZipfianGenerator_new e pos lo hi th = ret (Suc pos, g)" "zipf_ok g" "base g = lo"
      "num_items g = hi - lo + 1"
    using zipf_new [OF f th n(1,2) _ _ n(3)] u by blast
  obtain v where v: "Zipfian_Next e (Suc pos) (num_items g) g = ret (v, Suc (Suc pos), g\<lparr>last_value := v\<rparr>)"
      "v = 0 \<or> v = 1 \<or> unat (base g) + 2 \<le> unat v \<and> unat v < unat (base g) + unat (num_items g)"
    using zipf_next [OF g(2) f, of "Suc pos"] u n(3) g by auto
  have "random_double e (Suc pos) * zeta_n g < 1 \<longrightarrow> v = 0"
    using v(1) f g(2) by (auto simp: Zipfian_Next_def zipf_ok_def Let_def assertC_def split: if_splits)
  with g v show ?thesis by auto
qed

theorem zipfian_range_witness:
  "\<exists>g v g'. ZipfianGenerator_new half_env 0 1 100 (1 / 2) = ret (1, g) \<and>
     Zipfian_Next half_env 1 (num_items g) g = ret (v, 2, g') \<and>
     (v = 0 \<or> v = 1 \<or> 3 \<le> unat v \<and> unat v < 101)"
proof -
  have k: "kMaxNumItems = 0xFFFFFFFFFF" by (simp add: kMaxNumItems_def drop_bit_eq_div)
  have "\<exists>g v g'. ZipfianGenerator_new half_env 0 1 100 (1 / 2) = ret (Suc 0, g) \<and>
     Zipfian_Next half_env (Suc 0) (num_items g) g = ret (v, Suc (Suc 0), g') \<and>
     (v = 0 \<or> v = 1 \<or> unat (1 :: u64) + 2 \<le> unat v \<and> unat v < unat (1 :: u64) + unat (100 - 1 + 1 :: u64)) \<and>
     (random_double half_env (Suc 0) * zeta_n g < 1 \<longrightarrow> v = 0)"
    by (rule zipfian_range) (simp_all add: half_env_def k)
  then obtain g v g' where r: "ZipfianGenerator_new half_env 0 1 100 (1 / 2) = ret (Suc 0, g)"
     "Zipfian_Next half_env (Suc 0) (num_items g) g = ret (v, Suc (Suc 0), g')"
     and v: "v = 0 \<or> v = 1 \<or> unat (1 :: u64) + 2 \<le> unat v \<and> unat v < unat (1 :: u64) + unat (100 - 1 + 1 :: u64)"
    by blast
  have "v = 0 \<or> v = 1 \<or> 3 \<le> unat v \<and> unat v < 101"
    using v by (simp only: unat_1) (auto simp: numeral_3_eq_3)
  with r show ?thesis by (intro exI [of _ g] exI [of _ v] exI [of _ g']) (simp add: numeral_2_eq_2)
qed

end
