(* ===== verification/Storeds_DB.thy ===== *)
theory Storeds_DB
  imports Prelude
begin

text \<open>
  The interface between the benchmark and its stores: the status codes of \<^verbatim>\<open>src/core/db.h\<close>, the
  virtual class \<open>StoredsBase\<close> (\<^verbatim>\<open>src/storeds/storeds_base.h\<close>) as a record of operations over the
  state of a store, and its client \<open>StoredsDB\<close> (\<^verbatim>\<open>src/db/storeds_db.cc\<close>). The contract the
  stores share is a family of locales; the client's lemmas are proved once inside them and each
  data structure's theory interprets the locale it satisfies.
\<close>

section \<open>The virtual interface\<close>

definition kOK :: int where "kOK = 0"
definition kErrorNoData :: int where "kErrorNoData = 1"
definition kErrorConflict :: int where "kErrorConflict = 2"

type_synonym scan_result = "(u64 \<times> string) list list"

record 's storeds_base =
  op_read :: "'s \<Rightarrow> u64 \<Rightarrow> outp \<Rightarrow> (int \<times> outp) comp"
  op_scan :: "'s \<Rightarrow> u64 \<Rightarrow> int \<Rightarrow> scan_result \<Rightarrow> (int \<times> scan_result) comp"
  op_update :: "'s \<Rightarrow> u64 \<Rightarrow> string \<Rightarrow> (int \<times> 's) comp"
  op_insert :: "'s \<Rightarrow> u64 \<Rightarrow> string \<Rightarrow> (int \<times> 's) comp"
  op_destroy :: "'s \<Rightarrow> 's comp"

section \<open>StoredsDB\<close>

text \<open>\<open>std::string::c_str\<close> read as a C string: the characters before the first NUL.\<close>

definition c_str :: "string \<Rightarrow> string" where
  "c_str s = takeWhile (\<lambda>c. c \<noteq> CHR 0x00) s"

text \<open>
  \<open>Read\<close> passes an uninitialised \<open>char *dummy\<close> and builds a \<open>std::string\<close> from whatever
  \<open>read\<close> left in it; the status of \<open>read\<close> is dropped.
\<close>

definition StoredsDB_Read ::
  "'s storeds_base \<Rightarrow> 's \<Rightarrow> string \<Rightarrow> u64 \<Rightarrow> string list option \<Rightarrow> (int \<times> (u64 \<times> string) list) comp" where
  "StoredsDB_Read storeds s table key flds =
     bindC (op_read storeds s key Unset) (\<lambda>(_, dummy).
       case dummy of
         StrP v \<Rightarrow> ret (kOK, [(key, v)])
       | NullP \<Rightarrow> crash NullDeref
       | RawP \<Rightarrow> crash UninitRead
       | Unset \<Rightarrow> crash UninitRead)"

definition StoredsDB_Scan ::
  "'s storeds_base \<Rightarrow> 's \<Rightarrow> string \<Rightarrow> u64 \<Rightarrow> int \<Rightarrow> string list option \<Rightarrow> scan_result \<Rightarrow>
   (int \<times> scan_result) comp" where
  "StoredsDB_Scan storeds s table key len flds result =
     bindC (op_scan storeds s key len result) (\<lambda>(_, result'). ret (kOK, result'))"

fun StoredsDB_Insert_loop ::
  "'s storeds_base \<Rightarrow> 's \<Rightarrow> u64 \<Rightarrow> (string \<times> string) list \<Rightarrow> 's comp" where
  "StoredsDB_Insert_loop storeds s key [] = ret s"
| "StoredsDB_Insert_loop storeds s key (field_pair # values) =
     bindC (op_insert storeds s key (c_str (snd field_pair))) (\<lambda>(_, s').
       StoredsDB_Insert_loop storeds s' key values)"

definition StoredsDB_Insert ::
  "'s storeds_base \<Rightarrow> 's \<Rightarrow> string \<Rightarrow> u64 \<Rightarrow> (string \<times> string) list \<Rightarrow> (int \<times> 's) comp" where
  "StoredsDB_Insert storeds s table key values =
     bindC (StoredsDB_Insert_loop storeds s key values) (\<lambda>s'. ret (kOK, s'))"

fun StoredsDB_Update_loop ::
  "'s storeds_base \<Rightarrow> 's \<Rightarrow> u64 \<Rightarrow> (string \<times> string) list \<Rightarrow> 's comp" where
  "StoredsDB_Update_loop storeds s key [] = ret s"
| "StoredsDB_Update_loop storeds s key (field_pair # values) =
     bindC (op_update storeds s key (c_str (snd field_pair))) (\<lambda>(_, s').
       StoredsDB_Update_loop storeds s' key values)"

definition StoredsDB_Update ::
  "'s storeds_base \<Rightarrow> 's \<Rightarrow> string \<Rightarrow> u64 \<Rightarrow> (string \<times> string) list \<Rightarrow> (int \<times> 's) comp" where
  "StoredsDB_Update storeds s table key values =
     bindC (StoredsDB_Update_loop storeds s key values) (\<lambda>s'. ret (kOK, s'))"

definition StoredsDB_Delete :: "'s storeds_base \<Rightarrow> 's \<Rightarrow> string \<Rightarrow> u64 \<Rightarrow> (int \<times> 's) comp" where
  "StoredsDB_Delete storeds s table key = crash (Thrown ''Delete: function not implemented!'')"

section \<open>A sequence of database calls\<close>

text \<open>
  What a client sends through \<open>StoredsDB\<close>, run against a store (\<open>db_run\<close>) and against a map
  (\<open>spec_run\<close>). The argument \<open>ins\<close> says what one insert does to the map; \<open>valid_run\<close> is what the
  stores need of the calls: reads and updates of present keys, values that fit the buffer, and
  inserted keys the store can hold.
\<close>

datatype db_op =
    DBRead u64
  | DBUpdate u64 "(string \<times> string) list"
  | DBInsert u64 "(string \<times> string) list"

datatype db_res = RRead int "(u64 \<times> string) list" | RDone int

fun db_step :: "'s storeds_base \<Rightarrow> 's \<Rightarrow> db_op \<Rightarrow> (db_res \<times> 's) comp" where
  "db_step storeds s (DBRead k) =
     bindC (StoredsDB_Read storeds s [] k None) (\<lambda>(st, r). ret (RRead st r, s))"
| "db_step storeds s (DBUpdate k vs) =
     bindC (StoredsDB_Update storeds s [] k vs) (\<lambda>(st, s'). ret (RDone st, s'))"
| "db_step storeds s (DBInsert k vs) =
     bindC (StoredsDB_Insert storeds s [] k vs) (\<lambda>(st, s'). ret (RDone st, s'))"

fun db_run :: "'s storeds_base \<Rightarrow> 's \<Rightarrow> db_op list \<Rightarrow> (db_res list \<times> 's) comp" where
  "db_run storeds s [] = ret ([], s)"
| "db_run storeds s (c # cs) =
     bindC (db_step storeds s c) (\<lambda>(r, s').
     bindC (db_run storeds s' cs) (\<lambda>(rs, s''). ret (r # rs, s'')))"

type_synonym kv_map = "u64 \<rightharpoonup> string"

fun write_fields ::
  "(kv_map \<Rightarrow> u64 \<Rightarrow> string \<Rightarrow> kv_map) \<Rightarrow> u64 \<Rightarrow> (string \<times> string) list \<Rightarrow> kv_map \<Rightarrow> kv_map" where
  "write_fields ins k [] m = m"
| "write_fields ins k (p # vs) m = write_fields ins k vs (ins m k (c_str (snd p)))"

abbreviation upsert :: "kv_map \<Rightarrow> u64 \<Rightarrow> string \<Rightarrow> kv_map" where
  "upsert m k v \<equiv> m(k \<mapsto> v)"

definition add_new :: "kv_map \<Rightarrow> u64 \<Rightarrow> string \<Rightarrow> kv_map" where
  "add_new m k v = (if m k = None then m(k \<mapsto> v) else m)"

fun spec_step :: "(kv_map \<Rightarrow> u64 \<Rightarrow> string \<Rightarrow> kv_map) \<Rightarrow> kv_map \<Rightarrow> db_op \<Rightarrow> db_res \<times> kv_map" where
  "spec_step ins m (DBRead k) = (RRead kOK [(k, the (m k))], m)"
| "spec_step ins m (DBUpdate k vs) = (RDone kOK, write_fields upsert k vs m)"
| "spec_step ins m (DBInsert k vs) = (RDone kOK, write_fields ins k vs m)"

fun spec_run :: "(kv_map \<Rightarrow> u64 \<Rightarrow> string \<Rightarrow> kv_map) \<Rightarrow> kv_map \<Rightarrow> db_op list \<Rightarrow> db_res list \<times> kv_map" where
  "spec_run ins m [] = ([], m)"
| "spec_run ins m (c # cs) =
     (let (r, m') = spec_step ins m c; (rs, m'') = spec_run ins m' cs in (r # rs, m''))"

definition fields_fit :: "(string \<times> string) list \<Rightarrow> bool" where
  "fields_fit vs \<longleftrightarrow> list_all (\<lambda>p. fits (c_str (snd p))) vs"

fun valid_step :: "(u64 \<Rightarrow> bool) \<Rightarrow> kv_map \<Rightarrow> db_op \<Rightarrow> bool" where
  "valid_step key_ok m (DBRead k) \<longleftrightarrow> m k \<noteq> None"
| "valid_step key_ok m (DBUpdate k vs) \<longleftrightarrow> m k \<noteq> None \<and> fields_fit vs"
| "valid_step key_ok m (DBInsert k vs) \<longleftrightarrow> key_ok k \<and> fields_fit vs"

fun valid_run ::
  "(u64 \<Rightarrow> bool) \<Rightarrow> (kv_map \<Rightarrow> u64 \<Rightarrow> string \<Rightarrow> kv_map) \<Rightarrow> kv_map \<Rightarrow> db_op list \<Rightarrow> bool" where
  "valid_run key_ok ins m [] \<longleftrightarrow> True"
| "valid_run key_ok ins m (c # cs) \<longleftrightarrow>
     valid_step key_ok m c \<and> valid_run key_ok ins (snd (spec_step ins m c)) cs"

lemma fields_fit_simps [simp]:
  "fields_fit []"
  "fields_fit (p # vs) \<longleftrightarrow> fits (c_str (snd p)) \<and> fields_fit vs"
  by (simp_all add: fields_fit_def)

lemma write_fields_upsert: "vs \<noteq> [] \<Longrightarrow> write_fields upsert k vs m = m(k \<mapsto> c_str (snd (last vs)))"
  by (induction vs arbitrary: m) (case_tac "vs = []", simp_all)

lemma write_fields_add_new:
  "m k = Some w \<Longrightarrow> write_fields add_new k vs m = m"
  by (induction vs) (simp_all add: add_new_def)

section \<open>The contracts\<close>

text \<open>
  \<open>rep s m\<close>: the store's state \<open>s\<close> is well formed and holds the map \<open>m\<close>. Reads and updates of
  present keys behave the same in every store; what an insert does is \<open>ins\<close>.
\<close>

locale kv_store =
  fixes storeds :: "'s storeds_base"
    and rep :: "'s \<Rightarrow> kv_map \<Rightarrow> bool"
    and key_ok :: "u64 \<Rightarrow> bool"
    and ins :: "kv_map \<Rightarrow> u64 \<Rightarrow> string \<Rightarrow> kv_map"
  assumes read_law: "rep s m \<Longrightarrow> m k = Some v \<Longrightarrow> op_read storeds s k r = ret (1, StrP v)"
    and update_law: "rep s m \<Longrightarrow> m k = Some w \<Longrightarrow> fits v \<Longrightarrow>
      \<exists>s'. op_update storeds s k v = ret (1, s') \<and> rep s' (m(k \<mapsto> v))"
    and insert_law: "rep s m \<Longrightarrow> key_ok k \<Longrightarrow> fits v \<Longrightarrow>
      \<exists>s'. op_insert storeds s k v = ret (1, s') \<and> rep s' (ins m k v)"
begin

lemma StoredsDB_Read_present:
  "rep s m \<Longrightarrow> m k = Some v \<Longrightarrow> StoredsDB_Read storeds s t k fs = ret (kOK, [(k, v)])"
  by (simp add: StoredsDB_Read_def read_law)

lemma StoredsDB_Update_loop_present:
  "rep s m \<Longrightarrow> m k \<noteq> None \<Longrightarrow> fields_fit vs \<Longrightarrow>
   \<exists>s'. StoredsDB_Update_loop storeds s k vs = ret s' \<and> rep s' (write_fields upsert k vs m)"
proof (induction vs arbitrary: s m)
  case (Cons p vs)
  then obtain s1 where "op_update storeds s k (c_str (snd p)) = ret (1, s1)"
      "rep s1 (m(k \<mapsto> c_str (snd p)))"
    using update_law [of s m k _ "c_str (snd p)"] by auto
  moreover have "(m(k \<mapsto> c_str (snd p))) k \<noteq> None" and "fields_fit vs"
    using Cons.prems by simp_all
  ultimately show ?case using Cons.IH by (simp del: fun_upd_apply)
qed simp

lemma StoredsDB_Insert_loop_ins:
  "rep s m \<Longrightarrow> key_ok k \<Longrightarrow> fields_fit vs \<Longrightarrow>
   \<exists>s'. StoredsDB_Insert_loop storeds s k vs = ret s' \<and> rep s' (write_fields ins k vs m)"
proof (induction vs arbitrary: s m)
  case (Cons p vs)
  then obtain s1 where "op_insert storeds s k (c_str (snd p)) = ret (1, s1)"
      "rep s1 (ins m k (c_str (snd p)))"
    using insert_law [of s m k "c_str (snd p)"] by auto
  moreover have "fields_fit vs" using Cons.prems by simp
  ultimately show ?case using Cons.IH Cons.prems(2) by simp
qed simp

lemma db_step_refines:
  assumes "rep s m" and "valid_step key_ok m c"
  shows "\<exists>s'. db_step storeds s c = ret (fst (spec_step ins m c), s') \<and> rep s' (snd (spec_step ins m c))"
proof (cases c)
  case (DBRead k)
  with assms StoredsDB_Read_present [of s m k] show ?thesis by auto
next
  case (DBUpdate k vs)
  with assms StoredsDB_Update_loop_present [of s m k vs] show ?thesis
    by (auto simp: StoredsDB_Update_def)
next
  case (DBInsert k vs)
  with assms StoredsDB_Insert_loop_ins [of s m k vs] show ?thesis
    by (auto simp: StoredsDB_Insert_def)
qed

lemma db_run_refines:
  "rep s m \<Longrightarrow> valid_run key_ok ins m cs \<Longrightarrow>
   \<exists>s'. db_run storeds s cs = ret (fst (spec_run ins m cs), s') \<and> rep s' (snd (spec_run ins m cs))"
proof (induction cs arbitrary: s m)
  case (Cons c cs)
  obtain s1 where "db_step storeds s c = ret (fst (spec_step ins m c), s1)"
      "rep s1 (snd (spec_step ins m c))"
    using db_step_refines [of s m c] Cons.prems by auto
  moreover from this(2) Cons obtain s2 where
      "db_run storeds s1 cs = ret (fst (spec_run ins (snd (spec_step ins m c)) cs), s2)"
      "rep s2 (snd (spec_run ins (snd (spec_step ins m c)) cs))"
    by fastforce
  ultimately show ?case by (simp add: case_prod_beta Let_def)
qed simp

end

text \<open>The stores whose insert overwrites: all but the linked list.\<close>

locale upsert_store = kv_store storeds rep key_ok upsert
  for storeds :: "'s storeds_base" and rep and key_ok
begin

lemma StoredsDB_Insert_upsert:
  "rep s m \<Longrightarrow> key_ok k \<Longrightarrow> vs \<noteq> [] \<Longrightarrow> fields_fit vs \<Longrightarrow>
   \<exists>s'. StoredsDB_Insert storeds s t k vs = ret (kOK, s') \<and> rep s' (m(k \<mapsto> c_str (snd (last vs))))"
  using StoredsDB_Insert_loop_ins [of s m k vs]
  by (auto simp: StoredsDB_Insert_def write_fields_upsert)

end

text \<open>The append-only list: a second insert of a key is not seen by reads.\<close>

locale log_store = kv_store storeds rep key_ok add_new
  for storeds :: "'s storeds_base" and rep and key_ok
begin

lemma StoredsDB_Insert_first:
  "rep s m \<Longrightarrow> key_ok k \<Longrightarrow> m k = None \<Longrightarrow> fields_fit (p # vs) \<Longrightarrow>
   \<exists>s'. StoredsDB_Insert storeds s t k (p # vs) = ret (kOK, s') \<and> rep s' (m(k \<mapsto> c_str (snd p)))"
  using StoredsDB_Insert_loop_ins [of s m k "p # vs"]
  by (auto simp: StoredsDB_Insert_def add_new_def write_fields_add_new)

end

text \<open>
  The ordered stores also scan: the entries with keys from \<open>k\<close> on, in key order. The loop stops
  when its counter, already incremented, equals \<open>len\<close>, so a negative \<open>len\<close> never stops it; what a
  \<open>len\<close> of zero does depends on the store.
\<close>

definition scan_prefix :: "int \<Rightarrow> 'a list \<Rightarrow> 'a list" where
  "scan_prefix len xs = (if 1 \<le> len then take (nat len) xs else xs)"

definition is_range :: "kv_map \<Rightarrow> u64 \<Rightarrow> (u64 \<times> string) list \<Rightarrow> bool" where
  "is_range m k xs \<longleftrightarrow> sorted_keys xs \<and> map_of xs = m |` {k..}"

locale scan_store = upsert_store +
  assumes scan_law: "rep s m \<Longrightarrow> m \<noteq> Map.empty \<Longrightarrow> len \<noteq> 0 \<Longrightarrow>
      \<exists>xs. is_range m k xs \<and> op_scan storeds s k len res = ret (1, res @ map (\<lambda>x. [x]) (scan_prefix len xs))"
begin

lemma StoredsDB_Scan_range:
  "rep s m \<Longrightarrow> m \<noteq> Map.empty \<Longrightarrow> len \<noteq> 0 \<Longrightarrow>
   \<exists>xs. is_range m k xs \<and>
     StoredsDB_Scan storeds s t k len fs res = ret (kOK, res @ map (\<lambda>x. [x]) (scan_prefix len xs))"
  using scan_law [of s m len k res] by (auto simp: StoredsDB_Scan_def)

end

end
