(* ===== verification/Core_Workload.thy ===== *)
theory Core_Workload
  imports Generators Storeds_DB
begin

text \<open>
  \<^verbatim>\<open>src/core/core_workload.{h,cc}\<close>: the workload, its initialisation from the properties, and the
  keys, values and operations it hands to the clients. A generator pointer is an option. The
  position in the sequence of \<open>RandomDouble\<close>, a static engine in the code, is a component of the
  workload here.
\<close>

section \<open>State\<close>

datatype Operation = INSERT | READ | UPDATE | SCAN | READMODIFYWRITE

record 'd CoreWorkload =
  table_name :: string
  field_count :: int
  read_all_fields :: bool
  write_all_fields :: bool
  field_len_generator :: "'d Generator option"
  key_generator :: "CounterGenerator option"
  op_chooser :: "(Operation, 'd) DiscreteGenerator"
  key_chooser :: "'d Generator option"
  field_chooser :: "'d Generator option"
  scan_len_chooser :: "'d Generator option"
  insert_key_sequence :: CounterGenerator
  ordered_inserts :: bool
  record_count :: u64
  rd_pos :: nat

definition CoreWorkload_new :: "'d double_ops \<Rightarrow> 'd CoreWorkload" where
  "CoreWorkload_new f = \<lparr>table_name = [], field_count = 0, read_all_fields = False,
     write_all_fields = False, field_len_generator = None, key_generator = None,
     op_chooser = DiscreteGenerator_new f, key_chooser = None, field_chooser = None,
     scan_len_chooser = None, insert_key_sequence = CounterGenerator_new 3, ordered_inserts = True,
     record_count = 0, rd_pos = 0\<rparr>"

section \<open>Property names\<close>

definition TABLENAME_PROPERTY :: string where "TABLENAME_PROPERTY = ''table''"
definition TABLENAME_DEFAULT :: string where "TABLENAME_DEFAULT = ''usertable''"
definition FIELD_COUNT_PROPERTY :: string where "FIELD_COUNT_PROPERTY = ''fieldcount''"
definition FIELD_COUNT_DEFAULT :: string where "FIELD_COUNT_DEFAULT = ''1''"
definition FIELD_LENGTH_DISTRIBUTION_PROPERTY :: string where
  "FIELD_LENGTH_DISTRIBUTION_PROPERTY = ''field_len_dist''"
definition FIELD_LENGTH_DISTRIBUTION_DEFAULT :: string where
  "FIELD_LENGTH_DISTRIBUTION_DEFAULT = ''constant''"
definition FIELD_LENGTH_PROPERTY :: string where "FIELD_LENGTH_PROPERTY = ''fieldlength''"
definition FIELD_LENGTH_DEFAULT :: string where "FIELD_LENGTH_DEFAULT = ''100''"
definition READ_ALL_FIELDS_PROPERTY :: string where "READ_ALL_FIELDS_PROPERTY = ''readallfields''"
definition READ_ALL_FIELDS_DEFAULT :: string where "READ_ALL_FIELDS_DEFAULT = ''true''"
definition WRITE_ALL_FIELDS_PROPERTY :: string where "WRITE_ALL_FIELDS_PROPERTY = ''writeallfields''"
definition WRITE_ALL_FIELDS_DEFAULT :: string where "WRITE_ALL_FIELDS_DEFAULT = ''false''"
definition READ_PROPORTION_PROPERTY :: string where "READ_PROPORTION_PROPERTY = ''readproportion''"
definition READ_PROPORTION_DEFAULT :: string where "READ_PROPORTION_DEFAULT = ''0.95''"
definition UPDATE_PROPORTION_PROPERTY :: string where "UPDATE_PROPORTION_PROPERTY = ''updateproportion''"
definition UPDATE_PROPORTION_DEFAULT :: string where "UPDATE_PROPORTION_DEFAULT = ''0.05''"
definition INSERT_PROPORTION_PROPERTY :: string where "INSERT_PROPORTION_PROPERTY = ''insertproportion''"
definition INSERT_PROPORTION_DEFAULT :: string where "INSERT_PROPORTION_DEFAULT = ''0.0''"
definition SCAN_PROPORTION_PROPERTY :: string where "SCAN_PROPORTION_PROPERTY = ''scanproportion''"
definition SCAN_PROPORTION_DEFAULT :: string where "SCAN_PROPORTION_DEFAULT = ''0.0''"
definition READMODIFYWRITE_PROPORTION_PROPERTY :: string where
  "READMODIFYWRITE_PROPORTION_PROPERTY = ''readmodifywriteproportion''"
definition READMODIFYWRITE_PROPORTION_DEFAULT :: string where
  "READMODIFYWRITE_PROPORTION_DEFAULT = ''0.0''"
definition REQUEST_DISTRIBUTION_PROPERTY :: string where
  "REQUEST_DISTRIBUTION_PROPERTY = ''requestdistribution''"
definition REQUEST_DISTRIBUTION_DEFAULT :: string where "REQUEST_DISTRIBUTION_DEFAULT = ''uniform''"
definition MAX_SCAN_LENGTH_PROPERTY :: string where "MAX_SCAN_LENGTH_PROPERTY = ''maxscanlength''"
definition MAX_SCAN_LENGTH_DEFAULT :: string where "MAX_SCAN_LENGTH_DEFAULT = ''1000''"
definition SCAN_LENGTH_DISTRIBUTION_PROPERTY :: string where
  "SCAN_LENGTH_DISTRIBUTION_PROPERTY = ''scanlengthdistribution''"
definition SCAN_LENGTH_DISTRIBUTION_DEFAULT :: string where
  "SCAN_LENGTH_DISTRIBUTION_DEFAULT = ''uniform''"
definition INSERT_ORDER_PROPERTY :: string where "INSERT_ORDER_PROPERTY = ''insertorder''"
definition INSERT_ORDER_DEFAULT :: string where "INSERT_ORDER_DEFAULT = ''hashed''"
definition INSERT_START_PROPERTY :: string where "INSERT_START_PROPERTY = ''insertstart''"
definition INSERT_START_DEFAULT :: string where "INSERT_START_DEFAULT = ''0''"
definition RECORD_COUNT_PROPERTY :: string where "RECORD_COUNT_PROPERTY = ''recordcount''"
definition OPERATION_COUNT_PROPERTY :: string where "OPERATION_COUNT_PROPERTY = ''operationcount''"

section \<open>Initialisation\<close>

definition stod :: "'d env \<Rightarrow> string \<Rightarrow> 'd comp" where
  "stod e s = (case stod_value e s of None \<Rightarrow> crash (Thrown ''invalid_argument'') | Some d \<Rightarrow> ret d)"

definition GetFieldLenGenerator ::
  "'d env \<Rightarrow> nat \<Rightarrow> Properties \<Rightarrow> (nat \<times> 'd Generator) comp" where
  "GetFieldLenGenerator e pos p =
     (let field_len_dist = GetProperty p FIELD_LENGTH_DISTRIBUTION_PROPERTY FIELD_LENGTH_DISTRIBUTION_DEFAULT in
      bindC (stoi (GetProperty p FIELD_LENGTH_PROPERTY FIELD_LENGTH_DEFAULT)) (\<lambda>field_len.
        if field_len_dist = ''constant'' then ret (pos, ConstG (ConstGenerator_new field_len))
        else if field_len_dist = ''uniform''
        then ret (pos, UniformG (UniformGenerator_new e 1 (of_int field_len)))
        else if field_len_dist = ''zipfian''
        then bindC (ZipfianGenerator_new e pos 1 (of_int field_len) (kZipfianConst (fp_ops e)))
          (\<lambda>(pos, g). ret (pos, ZipfianG g))
        else crash (Thrown (''Unknown field length distribution: '' @ field_len_dist))))"

text \<open>\<open>if (proportion > 0) op_chooser_.AddValue(op, proportion);\<close>\<close>

definition add_op ::
  "'d env \<Rightarrow> Operation \<Rightarrow> 'd \<Rightarrow> (Operation, 'd) DiscreteGenerator \<Rightarrow> (Operation, 'd) DiscreteGenerator" where
  "add_op e op proportion g =
     (if d_lt (fp_ops e) (d_lit (fp_ops e) 0) proportion then AddValue (fp_ops e) op proportion g else g)"

definition key_chooser_for ::
  "'d env \<Rightarrow> nat \<Rightarrow> Properties \<Rightarrow> string \<Rightarrow> 'd \<Rightarrow> u64 \<Rightarrow> CounterGenerator \<Rightarrow> (nat \<times> 'd Generator) comp" where
  "key_chooser_for e pos p request_dist insert_proportion count basis =
     (if request_dist = ''uniform'' then ret (pos, UniformG (UniformGenerator_new e 0 (count - 1)))
      else if request_dist = ''zipfian''
      then bindC (stoi (GetProperty p OPERATION_COUNT_PROPERTY [])) (\<lambda>op_count.
           let f = fp_ops e;
               new_keys = d_to_int f (d_mul f (d_mul f (d_of_int f op_count) insert_proportion) (d_lit f 2)) in
           bindC (ScrambledZipfianGenerator_new e pos (count + of_int new_keys)) (\<lambda>(pos, g).
             ret (pos, ScrambledG g)))
      else if request_dist = ''latest''
      then bindC (SkewedLatestGenerator_new e pos basis) (\<lambda>(pos, g). ret (pos, LatestG g))
      else crash (Thrown (''Unknown request distribution: '' @ request_dist)))"

definition scan_len_chooser_for ::
  "'d env \<Rightarrow> nat \<Rightarrow> string \<Rightarrow> int \<Rightarrow> (nat \<times> 'd Generator) comp" where
  "scan_len_chooser_for e pos scan_len_dist max_scan_len =
     (if scan_len_dist = ''uniform'' then ret (pos, UniformG (UniformGenerator_new e 1 (of_int max_scan_len)))
      else if scan_len_dist = ''zipfian''
      then bindC (ZipfianGenerator_new e pos 1 (of_int max_scan_len) (kZipfianConst (fp_ops e)))
        (\<lambda>(pos, g). ret (pos, ZipfianG g))
      else crash (Thrown (''Distribution not allowed for scan length: '' @ scan_len_dist)))"

definition Init :: "'d env \<Rightarrow> Properties \<Rightarrow> 'd CoreWorkload \<Rightarrow> 'd CoreWorkload comp" where
  "Init e p wl =
     (let wl = wl\<lparr>table_name := GetProperty p TABLENAME_PROPERTY TABLENAME_DEFAULT\<rparr> in
      bindC (stoi (GetProperty p FIELD_COUNT_PROPERTY FIELD_COUNT_DEFAULT)) (\<lambda>fields.
      bindC (GetFieldLenGenerator e (rd_pos wl) p) (\<lambda>(pos, flg).
      let wl = wl\<lparr>field_count := fields, field_len_generator := Some flg, rd_pos := pos\<rparr> in
      bindC (stod e (GetProperty p READ_PROPORTION_PROPERTY READ_PROPORTION_DEFAULT)) (\<lambda>read_proportion.
      bindC (stod e (GetProperty p UPDATE_PROPORTION_PROPERTY UPDATE_PROPORTION_DEFAULT)) (\<lambda>update_proportion.
      bindC (stod e (GetProperty p INSERT_PROPORTION_PROPERTY INSERT_PROPORTION_DEFAULT)) (\<lambda>insert_proportion.
      bindC (stod e (GetProperty p SCAN_PROPORTION_PROPERTY SCAN_PROPORTION_DEFAULT)) (\<lambda>scan_proportion.
      bindC (stod e (GetProperty p READMODIFYWRITE_PROPORTION_PROPERTY
        READMODIFYWRITE_PROPORTION_DEFAULT)) (\<lambda>readmodifywrite_proportion.
      bindC (stoi (GetProperty p RECORD_COUNT_PROPERTY [])) (\<lambda>records.
      let request_dist = GetProperty p REQUEST_DISTRIBUTION_PROPERTY REQUEST_DISTRIBUTION_DEFAULT in
      bindC (stoi (GetProperty p MAX_SCAN_LENGTH_PROPERTY MAX_SCAN_LENGTH_DEFAULT)) (\<lambda>max_scan_len.
      let scan_len_dist = GetProperty p SCAN_LENGTH_DISTRIBUTION_PROPERTY SCAN_LENGTH_DISTRIBUTION_DEFAULT in
      bindC (stoi (GetProperty p INSERT_START_PROPERTY INSERT_START_DEFAULT)) (\<lambda>insert_start.
      bindC (StrToBool (GetProperty p READ_ALL_FIELDS_PROPERTY READ_ALL_FIELDS_DEFAULT)) (\<lambda>read_all.
      bindC (StrToBool (GetProperty p WRITE_ALL_FIELDS_PROPERTY WRITE_ALL_FIELDS_DEFAULT)) (\<lambda>write_all.
      let wl = wl\<lparr>record_count := of_int records, read_all_fields := read_all, write_all_fields := write_all,
            ordered_inserts := GetProperty p INSERT_ORDER_PROPERTY INSERT_ORDER_DEFAULT \<noteq> ''hashed'',
            key_generator := Some (CounterGenerator_new (of_int insert_start)),
            op_chooser := add_op e READMODIFYWRITE readmodifywrite_proportion (add_op e SCAN scan_proportion
              (add_op e INSERT insert_proportion (add_op e UPDATE update_proportion
                (add_op e READ read_proportion (op_chooser wl))))),
            insert_key_sequence := Counter_Set (of_int records) (insert_key_sequence wl)\<rparr> in
      bindC (key_chooser_for e (rd_pos wl) p request_dist insert_proportion (record_count wl)
        (insert_key_sequence wl)) (\<lambda>(pos, kc).
      let wl = wl\<lparr>key_chooser := Some kc,
            field_chooser := Some (UniformG (UniformGenerator_new e 0 (of_int (field_count wl - 1))))\<rparr> in
      bindC (scan_len_chooser_for e pos scan_len_dist max_scan_len) (\<lambda>(pos, slc).
        ret (wl\<lparr>scan_len_chooser := Some slc, rd_pos := pos\<rparr>))))))))))))))))"

section \<open>Keys, values and operations\<close>

definition the_gen :: "'a option \<Rightarrow> 'a comp" where
  "the_gen g = (case g of None \<Rightarrow> crash NullDeref | Some x \<Rightarrow> ret x)"

definition BuildKeyName :: "'d CoreWorkload \<Rightarrow> u64 \<Rightarrow> u64" where
  "BuildKeyName wl key_num = (if ordered_inserts wl then key_num else Hash key_num)"

definition NextSequenceKey :: "'d CoreWorkload \<Rightarrow> (u64 \<times> 'd CoreWorkload) comp" where
  "NextSequenceKey wl =
     bindC (the_gen (key_generator wl)) (\<lambda>g.
     case Counter_Next g of (key_num, g') \<Rightarrow>
       ret (BuildKeyName wl key_num, wl\<lparr>key_generator := Some g'\<rparr>))"

partial_function (option) choose_key ::
  "'d env \<Rightarrow> CounterGenerator \<Rightarrow> nat \<Rightarrow> 'd Generator \<Rightarrow> (u64 \<times> nat \<times> 'd Generator) comp" where
  "choose_key e sq pos g =
     bindC (Generator_Next e pos sq g) (\<lambda>(key_num, pos, g).
       if Counter_Last sq < key_num then choose_key e sq pos g else ret (key_num, pos, g))"

definition NextTransactionKey :: "'d env \<Rightarrow> 'd CoreWorkload \<Rightarrow> (u64 \<times> 'd CoreWorkload) comp" where
  "NextTransactionKey e wl =
     bindC (the_gen (key_chooser wl)) (\<lambda>g.
     bindC (choose_key e (insert_key_sequence wl) (rd_pos wl) g) (\<lambda>(key_num, pos, g').
       ret (BuildKeyName wl key_num, wl\<lparr>key_chooser := Some g', rd_pos := pos\<rparr>)))"

definition NextOperation :: "'d env \<Rightarrow> 'd CoreWorkload \<Rightarrow> (Operation \<times> 'd CoreWorkload) comp" where
  "NextOperation e wl =
     bindC (Discrete_Next e (rd_pos wl) (op_chooser wl)) (\<lambda>(op, pos, g).
       ret (op, wl\<lparr>op_chooser := g, rd_pos := pos\<rparr>))"

definition NextFieldName :: "'d CoreWorkload \<Rightarrow> string" where
  "NextFieldName wl = ''field''"

definition NextScanLength :: "'d env \<Rightarrow> 'd CoreWorkload \<Rightarrow> (u64 \<times> 'd CoreWorkload) comp" where
  "NextScanLength e wl =
     bindC (the_gen (scan_len_chooser wl)) (\<lambda>g.
     bindC (Generator_Next e (rd_pos wl) (insert_key_sequence wl) g) (\<lambda>(n, pos, g').
       ret (n, wl\<lparr>scan_len_chooser := Some g', rd_pos := pos\<rparr>)))"

text \<open>\<open>pair.second.append(field_len_generator_->Next(), utils::FixedPrintChar())\<close>\<close>

definition field_value :: "'d env \<Rightarrow> 'd CoreWorkload \<Rightarrow> (string \<times> 'd CoreWorkload) comp" where
  "field_value e wl =
     bindC (the_gen (field_len_generator wl)) (\<lambda>g.
     bindC (Generator_Next e (rd_pos wl) (insert_key_sequence wl) g) (\<lambda>(n, pos, g').
       ret (replicate (unat n) FixedPrintChar, wl\<lparr>field_len_generator := Some g', rd_pos := pos\<rparr>)))"

fun BuildValues_loop ::
  "'d env \<Rightarrow> nat \<Rightarrow> (string \<times> string) list \<Rightarrow> 'd CoreWorkload \<Rightarrow> ((string \<times> string) list \<times> 'd CoreWorkload) comp" where
  "BuildValues_loop e 0 values wl = ret (values, wl)"
| "BuildValues_loop e (Suc n) values wl =
     bindC (field_value e wl) (\<lambda>(v, wl). BuildValues_loop e n (values @ [(''field'', v)]) wl)"

definition BuildValues ::
  "'d env \<Rightarrow> 'd CoreWorkload \<Rightarrow> ((string \<times> string) list \<times> 'd CoreWorkload) comp" where
  "BuildValues e wl = BuildValues_loop e (nat (field_count wl)) [] wl"

definition BuildUpdate ::
  "'d env \<Rightarrow> 'd CoreWorkload \<Rightarrow> ((string \<times> string) list \<times> 'd CoreWorkload) comp" where
  "BuildUpdate e wl = bindC (field_value e wl) (\<lambda>(v, wl). ret ([(NextFieldName wl, v)], wl))"

end
