(* ===== verification/Client.thy ===== *)
theory Client
  imports Core_Workload
begin

text \<open>
  \<^verbatim>\<open>src/core/client.h\<close> and the threads of \<^verbatim>\<open>src/ycsbc.cc\<close>: a client draws operations from the
  workload and sends them to the database. The threads share the workload and the database; a
  schedule is the sequence of thread numbers in which their operations run, one whole operation at a
  time. With one thread that is what the program does; what several threads do inside a store without
  a lock is not modelled. The lemmas follow the
  load phase and the transaction phase over any store that satisfies the contract: every key a
  transaction asks for has been loaded.
\<close>

section \<open>Transactions\<close>

text \<open>The fields argument of a read or scan.\<close>

definition fields_arg :: "'d CoreWorkload \<Rightarrow> string list option" where
  "fields_arg wl = (if \<not> read_all_fields wl then Some [''field'' @ NextFieldName wl] else None)"

definition update_values ::
  "'d env \<Rightarrow> 'd CoreWorkload \<Rightarrow> ((string \<times> string) list \<times> 'd CoreWorkload) comp" where
  "update_values e wl = (if write_all_fields wl then BuildValues e wl else BuildUpdate e wl)"

definition DoInsert ::
  "'d env \<Rightarrow> 's storeds_base \<Rightarrow> 'd CoreWorkload \<Rightarrow> 's \<Rightarrow> (bool \<times> 'd CoreWorkload \<times> 's) comp" where
  "DoInsert e db wl s =
     bindC (NextSequenceKey wl) (\<lambda>(key, wl).
     bindC (BuildValues e wl) (\<lambda>(pairs, wl).
     bindC (StoredsDB_Insert db s (table_name wl) key pairs) (\<lambda>(status, s). ret (status = kOK, wl, s))))"

definition TransactionRead ::
  "'d env \<Rightarrow> 's storeds_base \<Rightarrow> 'd CoreWorkload \<Rightarrow> 's \<Rightarrow> (int \<times> 'd CoreWorkload \<times> 's) comp" where
  "TransactionRead e db wl s =
     bindC (NextTransactionKey e wl) (\<lambda>(key, wl).
     bindC (StoredsDB_Read db s (table_name wl) key (fields_arg wl)) (\<lambda>(status, _). ret (status, wl, s)))"

definition TransactionReadModifyWrite ::
  "'d env \<Rightarrow> 's storeds_base \<Rightarrow> 'd CoreWorkload \<Rightarrow> 's \<Rightarrow> (int \<times> 'd CoreWorkload \<times> 's) comp" where
  "TransactionReadModifyWrite e db wl s =
     bindC (NextTransactionKey e wl) (\<lambda>(key, wl).
     bindC (StoredsDB_Read db s (table_name wl) key (fields_arg wl)) (\<lambda>_.
     bindC (update_values e wl) (\<lambda>(values, wl).
     bindC (StoredsDB_Update db s (table_name wl) key values) (\<lambda>(status, s). ret (status, wl, s)))))"

definition TransactionScan ::
  "'d env \<Rightarrow> 's storeds_base \<Rightarrow> 'd CoreWorkload \<Rightarrow> 's \<Rightarrow> (int \<times> 'd CoreWorkload \<times> 's) comp" where
  "TransactionScan e db wl s =
     bindC (NextTransactionKey e wl) (\<lambda>(key, wl).
     bindC (NextScanLength e wl) (\<lambda>(n, wl).
     let len = sint (ucast n :: 32 word) in
     bindC (StoredsDB_Scan db s (table_name wl) key len (fields_arg wl) []) (\<lambda>(status, _). ret (status, wl, s))))"

definition TransactionUpdate ::
  "'d env \<Rightarrow> 's storeds_base \<Rightarrow> 'd CoreWorkload \<Rightarrow> 's \<Rightarrow> (int \<times> 'd CoreWorkload \<times> 's) comp" where
  "TransactionUpdate e db wl s =
     bindC (NextTransactionKey e wl) (\<lambda>(key, wl).
     bindC (update_values e wl) (\<lambda>(values, wl).
     bindC (StoredsDB_Update db s (table_name wl) key values) (\<lambda>(status, s). ret (status, wl, s))))"

definition TransactionInsert ::
  "'d env \<Rightarrow> 's storeds_base \<Rightarrow> 'd CoreWorkload \<Rightarrow> 's \<Rightarrow> (int \<times> 'd CoreWorkload \<times> 's) comp" where
  "TransactionInsert e db wl s =
     bindC (NextSequenceKey wl) (\<lambda>(key, wl).
     bindC (BuildValues e wl) (\<lambda>(values, wl).
     bindC (StoredsDB_Insert db s (table_name wl) key values) (\<lambda>(status, s). ret (status, wl, s))))"

definition DoTransaction ::
  "'d env \<Rightarrow> 's storeds_base \<Rightarrow> 'd CoreWorkload \<Rightarrow> 's \<Rightarrow> (bool \<times> 'd CoreWorkload \<times> 's) comp" where
  "DoTransaction e db wl s =
     bindC (NextOperation e wl) (\<lambda>(op, wl).
     bindC (case op of
         READ \<Rightarrow> TransactionRead e db wl s
       | UPDATE \<Rightarrow> TransactionUpdate e db wl s
       | INSERT \<Rightarrow> TransactionInsert e db wl s
       | SCAN \<Rightarrow> TransactionScan e db wl s
       | READMODIFYWRITE \<Rightarrow> TransactionReadModifyWrite e db wl s) (\<lambda>(status, wl, s).
     bindC (assertC (0 \<le> status)) (\<lambda>_. ret (status = kOK, wl, s))))"

section \<open>Threads\<close>

text \<open>One operation of a thread, and the loop of \<open>DelegateClient\<close> with \<open>n\<close> operations to go.\<close>

definition client_op ::
  "'d env \<Rightarrow> 's storeds_base \<Rightarrow> bool \<Rightarrow> 'd CoreWorkload \<Rightarrow> 's \<Rightarrow> (bool \<times> 'd CoreWorkload \<times> 's) comp" where
  "client_op e db is_loading wl s = (if is_loading then DoInsert e db wl s else DoTransaction e db wl s)"

fun DelegateClient_loop ::
  "'d env \<Rightarrow> 's storeds_base \<Rightarrow> bool \<Rightarrow> nat \<Rightarrow> int \<Rightarrow> 'd CoreWorkload \<Rightarrow> 's \<Rightarrow> (int \<times> 'd CoreWorkload \<times> 's) comp" where
  "DelegateClient_loop e db is_loading 0 oks wl s = ret (oks, wl, s)"
| "DelegateClient_loop e db is_loading (Suc n) oks wl s =
     bindC (client_op e db is_loading wl s) (\<lambda>(ok, wl, s).
       DelegateClient_loop e db is_loading n (oks + (if ok then 1 else 0)) wl s)"

definition DelegateClient ::
  "'d env \<Rightarrow> 's storeds_base \<Rightarrow> 'd CoreWorkload \<Rightarrow> 's \<Rightarrow> int \<Rightarrow> bool \<Rightarrow> (int \<times> 'd CoreWorkload \<times> 's) comp" where
  "DelegateClient e db wl s num_ops is_loading = DelegateClient_loop e db is_loading (nat num_ops) 0 wl s"

text \<open>
  The threads of one phase: the next thread of the schedule runs one of its operations. \<open>oks\<close>
  and \<open>todo\<close> are the local variables of the threads; a phase ends when all have returned, and
  \<open>main\<close> adds up what they return.
\<close>

fun run_threads ::
  "'d env \<Rightarrow> 's storeds_base \<Rightarrow> bool \<Rightarrow> nat list \<Rightarrow> (nat \<Rightarrow> nat) \<Rightarrow> (nat \<Rightarrow> int) \<Rightarrow> 'd CoreWorkload \<Rightarrow> 's \<Rightarrow>
   ((nat \<Rightarrow> nat) \<times> (nat \<Rightarrow> int) \<times> 'd CoreWorkload \<times> 's) comp" where
  "run_threads e db is_loading [] todo oks wl s = ret (todo, oks, wl, s)"
| "run_threads e db is_loading (t # ts) todo oks wl s =
     (case todo t of
        0 \<Rightarrow> run_threads e db is_loading ts todo oks wl s
      | Suc n \<Rightarrow> bindC (client_op e db is_loading wl s) (\<lambda>(ok, wl, s).
          run_threads e db is_loading ts (todo(t := n))
            (oks(t := oks t + (if ok then 1 else 0))) wl s))"

definition run_phase ::
  "'d env \<Rightarrow> 's storeds_base \<Rightarrow> bool \<Rightarrow> int \<Rightarrow> int \<Rightarrow> nat list \<Rightarrow> 'd CoreWorkload \<Rightarrow> 's \<Rightarrow>
   (int \<times> 'd CoreWorkload \<times> 's) comp" where
  "run_phase e db is_loading num_threads total_ops sched wl s =
     bindC (run_threads e db is_loading sched
       (\<lambda>t. if int t < num_threads then nat (total_ops div num_threads) else 0) (\<lambda>_. 0) wl s) (\<lambda>(todo, oks, wl, s).
       ret (sum oks {0..<nat num_threads}, wl, s))"

text \<open>A schedule that runs every thread to its end.\<close>

definition complete :: "int \<Rightarrow> int \<Rightarrow> nat list \<Rightarrow> bool" where
  "complete num_threads total_ops sched \<longleftrightarrow>
     (\<forall>t \<in> set sched. int t < num_threads) \<and>
     (\<forall>t < nat num_threads. count_list sched t = nat (total_ops div num_threads))"

section \<open>Schedules\<close>

text \<open>
  As operations run whole, all threads run the same code on the same state, and only the number of
  operations matters.
\<close>

lemma DelegateClient_loop_oks:
  "DelegateClient_loop e db ld n k wl s =
     bindC (DelegateClient_loop e db ld n 0 wl s) (\<lambda>(oks, wl, s). ret (k + oks, wl, s))"
proof (induction n arbitrary: k wl s)
  case (Suc n)
  have "DelegateClient_loop e db ld n k' wl' s' =
      bindC (DelegateClient_loop e db ld n 0 wl' s') (\<lambda>(oks, wl, s). ret (k' + oks, wl, s))" for k' wl' s'
    by (rule Suc.IH)
  note IH = this
  show ?case
    unfolding DelegateClient_loop.simps bindC_assoc
  proof (rule bindC_cong [OF refl])
    fix x :: "bool \<times> 'a CoreWorkload \<times> 'b"
    obtain ok wl' s' where x: "x = (ok, wl', s')" by (cases x)
    let ?c = "if ok then 1 else 0 :: int"
    show "(case x of (ok, wl, s) \<Rightarrow> DelegateClient_loop e db ld n (k + (if ok then 1 else 0)) wl s) =
        bindC (case x of (ok, wl, s) \<Rightarrow> DelegateClient_loop e db ld n (0 + (if ok then 1 else 0)) wl s)
          (\<lambda>(oks, wl, s). ret (k + oks, wl, s))"
      unfolding x prod.case IH [of "k + ?c"] IH [of "0 + ?c"] bindC_assoc
      by (rule bindC_cong [OF refl]) auto
  qed
qed simp

lemma run_threads_loop:
  assumes "\<forall>t \<in> set sched. t < N" and "\<forall>t. count_list sched t \<le> todo t"
  shows "bindC (run_threads e db ld sched todo oks wl s) (\<lambda>(todo, oks, wl, s). ret (sum oks {0..<N}, wl, s)) =
    DelegateClient_loop e db ld (length sched) (sum oks {0..<N}) wl s"
  using assms
proof (induction sched arbitrary: todo oks wl s)
  case (Cons t ts)
  then obtain n where n: "todo t = Suc n"
    by (metis Suc_le_D count_list.simps(2) add.commute plus_1_eq_Suc le_trans le_add2 Suc_eq_plus1)
  have t: "t < N" and ts: "\<forall>u \<in> set ts. u < N" using Cons.prems by simp_all
  have c: "\<forall>u. count_list ts u \<le> (todo(t := n)) u"
  proof
    fix u
    show "count_list ts u \<le> (todo(t := n)) u"
      using Cons.prems(2) [rule_format, of u] n by (auto split: if_splits)
  qed
  have sum: "sum (oks(t := oks t + k)) {0..<N} = sum oks {0..<N} + k" for k :: int
    using t by (simp add: sum.remove [of "{0..<N}" t] )
  show ?case
    unfolding run_threads.simps n nat.case bindC_assoc length_Cons DelegateClient_loop.simps
  proof (rule bindC_cong [OF refl])
    fix x :: "bool \<times> 'a CoreWorkload \<times> 'b"
    obtain ok wl' s' where x: "x = (ok, wl', s')" by (cases x)
    show "bindC (case x of (ok, wl, s) \<Rightarrow> run_threads e db ld ts (todo(t := n))
            (oks(t := oks t + (if ok then 1 else 0))) wl s)
          (\<lambda>(todo, oks, wl, s). ret (sum oks {0..<N}, wl, s)) =
        (case x of (ok, wl, s) \<Rightarrow>
          DelegateClient_loop e db ld (length ts) (sum oks {0..<N} + (if ok then 1 else 0)) wl s)"
      unfolding x prod.case Cons.IH [OF ts c] sum ..
  qed
qed simp

lemma complete_length:
  assumes "complete num_threads total_ops sched"
  shows "length sched = nat num_threads * nat (total_ops div num_threads)"
proof -
  have s: "set sched \<subseteq> {0..<nat num_threads}" using assms by (auto simp: complete_def)
  have "length sched = (\<Sum>t\<in>{0..<nat num_threads}. count_list sched t)"
    using s by (subst sum_count_set [OF _ finite_atLeastLessThan, symmetric]) auto
  also have "\<dots> = (\<Sum>t\<in>{0..<nat num_threads}. nat (total_ops div num_threads))"
    using assms by (intro sum.cong) (auto simp: complete_def)
  finally show ?thesis by simp
qed

lemma run_phase_eq:
  assumes "complete num_threads total_ops sched"
  shows "run_phase e db ld num_threads total_ops sched wl s =
    DelegateClient_loop e db ld (nat num_threads * nat (total_ops div num_threads)) 0 wl s"
proof -
  let ?todo = "\<lambda>t. if int t < num_threads then nat (total_ops div num_threads) else 0"
  have "\<forall>t. count_list sched t \<le> ?todo t"
  proof
    fix t
    show "count_list sched t \<le> ?todo t"
    proof (cases "int t < num_threads")
      case True
      then show ?thesis using assms by (simp add: complete_def)
    next
      case False
      then have "t \<notin> set sched" using assms by (auto simp: complete_def)
      then show ?thesis by (simp add: count_list_0_iff)
    qed
  qed
  moreover have "\<forall>t \<in> set sched. t < nat num_threads" using assms by (auto simp: complete_def)
  ultimately show ?thesis
    using run_threads_loop [of sched "nat num_threads" ?todo e db ld "\<lambda>_. 0" wl s]
    by (simp add: run_phase_def complete_length [OF assms])
qed


section \<open>A workload that is ready\<close>

definition env_ok :: "real env \<Rightarrow> bool" where
  "env_ok e \<longleftrightarrow> fp_ops e = real_ops \<and> (\<forall>i. 0 \<le> random_double e i \<and> random_double e i < 1) \<and>
     (\<forall>a b i. a \<le> b \<longrightarrow> a \<le> uniform_draw e a b i \<and> uniform_draw e a b i \<le> b)"

text \<open>The key of the \<open>i\<close>-th record.\<close>

definition key_of :: "bool \<Rightarrow> u64 \<Rightarrow> u64" where
  "key_of ordered i = (if ordered then i else Hash i)"

text \<open>
  \<open>wl_ready ordered n j wl\<close>: values of a constant length that fits, keys chosen uniformly among the
  first \<open>n\<close>, record \<open>j\<close> next to be inserted, and operations other than scans.
\<close>

definition wl_ready :: "bool \<Rightarrow> u64 \<Rightarrow> nat \<Rightarrow> real CoreWorkload \<Rightarrow> bool" where
  "wl_ready ordered n j wl \<longleftrightarrow> ordered_inserts wl = ordered \<and> 1 \<le> field_count wl \<and>
     (\<exists>l. field_len_generator wl = Some (ConstG l) \<and> unat l < DEFAULT_VALUE_LEN) \<and>
     key_generator wl = Some \<lparr>counter = of_nat j\<rparr> \<and>
     (\<exists>g. key_chooser wl = Some (UniformG g) \<and> ug_min g = 0 \<and> ug_max g = n - 1) \<and>
     insert_key_sequence wl = \<lparr>counter = n\<rparr> \<and>
     (\<exists>vs. vs \<noteq> [] \<and> dg_values (op_chooser wl) = vs \<and> dg_sum (op_chooser wl) = weights vs \<and>
       (\<forall>p \<in> set vs. 0 < snd p \<and> fst p \<noteq> SCAN))"

lemma BuildKeyName_ready: "wl_ready ord n j wl \<Longrightarrow> BuildKeyName wl i = key_of ord i"
  by (simp add: wl_ready_def BuildKeyName_def key_of_def)

lemma fixed_value: "n < DEFAULT_VALUE_LEN \<Longrightarrow> fits (c_str (replicate n FixedPrintChar))"
proof -
  have "FixedPrintChar = CHR ''C''" by code_simp
  then show "n < DEFAULT_VALUE_LEN \<Longrightarrow> ?thesis" by (simp add: c_str_def fits_def)
qed

lemma field_value_ready:
  assumes "wl_ready ord n j wl"
  shows "\<exists>v. field_value e wl = ret (v, wl) \<and> fits (c_str v)"
proof -
  obtain l where l: "field_len_generator wl = Some (ConstG l)" "unat l < DEFAULT_VALUE_LEN"
    using assms by (auto simp: wl_ready_def)
  then have "wl\<lparr>field_len_generator := Some (ConstG l), rd_pos := rd_pos wl\<rparr> = wl" by (cases wl) simp
  with l fixed_value [OF l(2)] show ?thesis
    by (simp add: field_value_def the_gen_def Const_Next_def)
qed

lemma BuildValues_ready:
  assumes "wl_ready ord n j wl"
  shows "\<exists>vs. BuildValues e wl = ret (vs, wl) \<and> vs \<noteq> [] \<and> fields_fit vs"
proof -
  obtain v where v: "field_value e wl = ret (v, wl)" "fits (c_str v)"
    using field_value_ready [OF assms] by blast
  have loop: "BuildValues_loop e k vs wl = ret (vs @ replicate k (''field'', v), wl)" for k vs
    by (induction k arbitrary: vs) (simp_all add: v(1) flip: replicate_Suc replicate_append_same)
  have "1 \<le> field_count wl" using assms by (simp add: wl_ready_def)
  then obtain k where k: "nat (field_count wl) = Suc k" by (cases "nat (field_count wl)") auto
  have "fields_fit (replicate (Suc k) (''field'', v))" using v(2) by (simp add: fields_fit_def list_all_iff)
  then show ?thesis unfolding BuildValues_def k loop by auto
qed

lemma update_values_ready:
  assumes "wl_ready ord n j wl"
  shows "\<exists>vs. update_values e wl = ret (vs, wl) \<and> fields_fit vs"
  using BuildValues_ready [OF assms, of e] field_value_ready [OF assms, of e]
  by (auto simp: update_values_def BuildUpdate_def)

lemma NextSequenceKey_ready:
  assumes "wl_ready ord n j wl"
  shows "\<exists>wl'. NextSequenceKey wl = ret (key_of ord (of_nat j), wl') \<and> wl_ready ord n (Suc j) wl'"
  using assms BuildKeyName_ready [OF assms]
  by (auto simp: NextSequenceKey_def the_gen_def wl_ready_def Counter_Next_def add.commute)

lemma NextTransactionKey_ready:
  assumes ready: "wl_ready ord n j wl" and e: "env_ok e"
  shows "\<exists>i wl'. NextTransactionKey e wl = ret (key_of ord i, wl') \<and> i \<le> n - 1 \<and> wl_ready ord n j wl'"
proof -
  obtain g where g: "key_chooser wl = Some (UniformG g)" "ug_min g = 0" "ug_max g = n - 1"
    using ready by (auto simp: wl_ready_def)
  have sq: "insert_key_sequence wl = \<lparr>counter = n\<rparr>" using ready by (simp add: wl_ready_def)
  let ?i = "uniform_draw e 0 (n - 1) (ug_pos g)"
  have i: "?i \<le> n - 1" using e by (simp add: env_ok_def)
  let ?g = "g\<lparr>ug_pos := Suc (ug_pos g), ug_last := ?i\<rparr>"
  have "choose_key e \<lparr>counter = n\<rparr> (rd_pos wl) (UniformG g) = ret (?i, rd_pos wl, UniformG ?g)"
    using i g by (subst choose_key.simps) (auto simp: Uniform_Next_def Counter_Last_def Let_def)
  then have "NextTransactionKey e wl = ret (key_of ord ?i, wl\<lparr>key_chooser := Some (UniformG ?g), rd_pos := rd_pos wl\<rparr>)"
    using g sq BuildKeyName_ready [OF ready] by (simp add: NextTransactionKey_def the_gen_def)
  moreover have "wl_ready ord n j (wl\<lparr>key_chooser := Some (UniformG ?g), rd_pos := rd_pos wl\<rparr>)"
    using ready g by (auto simp: wl_ready_def)
  ultimately show ?thesis using i by blast
qed

lemma NextOperation_ready:
  assumes ready: "wl_ready ord n j wl" and e: "env_ok e"
  shows "\<exists>op wl'. NextOperation e wl = ret (op, wl') \<and> op \<noteq> SCAN \<and> wl_ready ord n j wl'"
proof -
  obtain vs where vs: "vs \<noteq> []" "dg_values (op_chooser wl) = vs" "dg_sum (op_chooser wl) = weights vs"
      "\<forall>p \<in> set vs. 0 < snd p \<and> fst p \<noteq> SCAN"
    using ready by (auto simp: wl_ready_def)
  let ?u = "random_double e (rd_pos wl)"
  have S: "0 < weights vs"
  proof (cases vs)
    case (Cons p ps)
    have "0 \<le> weights ps" using vs(4) Cons by (intro sum_list_nonneg) (auto simp: less_imp_le)
    then show ?thesis using vs(4) Cons by simp
  qed (use vs in simp)
  then obtain i where "i < length vs" "Discrete_choose real_ops (weights vs) ?u vs = ret (fst (vs ! i))"
    using Discrete_choose_exact [of "weights vs" ?u vs] e by (auto simp: env_ok_def)
  with vs e ready show ?thesis
    by (auto simp: NextOperation_def Discrete_Next_def Let_def env_ok_def wl_ready_def)
qed

section \<open>The benchmark over a store\<close>

context upsert_store
begin

text \<open>The store holds the first \<open>j\<close> records of the workload.\<close>

definition loaded :: "bool \<Rightarrow> nat \<Rightarrow> 's \<Rightarrow> bool" where
  "loaded ord j s \<longleftrightarrow> (\<exists>m. rep s m \<and> (\<forall>i < j. m (key_of ord (of_nat i)) \<noteq> None))"

lemma Insert_loaded:
  assumes "loaded ord j s" and "\<forall>k. key_ok k" and "vs \<noteq> []" and "fields_fit vs"
  shows "\<exists>s'. StoredsDB_Insert storeds s t (key_of ord (of_nat j)) vs = ret (kOK, s') \<and> loaded ord (Suc j) s'"
proof -
  obtain m where m: "rep s m" "\<forall>i < j. m (key_of ord (of_nat i)) \<noteq> None"
    using assms(1) by (auto simp: loaded_def)
  obtain s' where s': "StoredsDB_Insert storeds s t (key_of ord (of_nat j)) vs = ret (kOK, s')"
      "rep s' (m(key_of ord (of_nat j) \<mapsto> c_str (snd (last vs))))"
    using StoredsDB_Insert_upsert [OF m(1)] assms(2-4) by blast
  moreover have "loaded ord (Suc j) s'"
    unfolding loaded_def using s'(2) m(2) by (intro exI conjI) (auto simp: less_Suc_eq)
  ultimately show ?thesis by blast
qed

lemma Update_loaded:
  assumes "loaded ord j s" and "i < of_nat j" and "j < 2 ^ 64" and "fields_fit vs"
  shows "\<exists>s'. StoredsDB_Update storeds s t (key_of ord i) vs = ret (kOK, s') \<and> loaded ord j s'"
proof -
  obtain m where m: "rep s m" "\<forall>i < j. m (key_of ord (of_nat i)) \<noteq> None"
    using assms(1) by (auto simp: loaded_def)
  have i: "unat i < j" using assms(2,3) by (simp add: word_less_nat_alt unat_of_nat take_bit_nat_eq_self)
  moreover have "of_nat (unat i) = i" by simp
  ultimately have k: "m (key_of ord i) \<noteq> None" using m(2) by metis
  obtain s' where s': "StoredsDB_Update_loop storeds s (key_of ord i) vs = ret s'"
      "rep s' (write_fields upsert (key_of ord i) vs m)"
    using StoredsDB_Update_loop_present [OF m(1) k assms(4)] by blast
  have "write_fields upsert k vs m k' \<noteq> None" if "m k' \<noteq> None" for k k'
    using that by (cases "vs = []") (simp_all add: write_fields_upsert)
  then have "loaded ord j s'" using s'(2) m(2) unfolding loaded_def by blast
  with s'(1) show ?thesis by (simp add: StoredsDB_Update_def)
qed

lemma Read_loaded:
  assumes "loaded ord j s" and "i < of_nat j" and "j < 2 ^ 64"
  shows "\<exists>v. StoredsDB_Read storeds s t (key_of ord i) fs = ret (kOK, [(key_of ord i, v)])"
proof -
  obtain m where m: "rep s m" "\<forall>i < j. m (key_of ord (of_nat i)) \<noteq> None"
    using assms(1) by (auto simp: loaded_def)
  have "unat i < j" using assms(2,3) by (simp add: word_less_nat_alt unat_of_nat take_bit_nat_eq_self)
  moreover have "of_nat (unat i) = i" by simp
  ultimately have "m (key_of ord i) \<noteq> None" using m(2) by metis
  then show ?thesis using StoredsDB_Read_present [OF m(1)] by blast
qed

lemma DoInsert_ok:
  assumes "wl_ready ord n j wl" and "loaded ord j s" and "\<forall>k. key_ok k"
  shows "\<exists>wl' s'. DoInsert e storeds wl s = ret (True, wl', s') \<and> wl_ready ord n (Suc j) wl' \<and> loaded ord (Suc j) s'"
proof -
  obtain wl1 where 1: "NextSequenceKey wl = ret (key_of ord (of_nat j), wl1)" "wl_ready ord n (Suc j) wl1"
    using NextSequenceKey_ready [OF assms(1)] by blast
  obtain vs where vs: "BuildValues e wl1 = ret (vs, wl1)" "vs \<noteq> []" "fields_fit vs"
    using BuildValues_ready [OF 1(2)] by blast
  obtain s' where "StoredsDB_Insert storeds s (table_name wl1) (key_of ord (of_nat j)) vs = ret (kOK, s')"
      "loaded ord (Suc j) s'"
    using Insert_loaded [OF assms(2,3) vs(2,3)] by blast
  with 1 vs show ?thesis by (simp add: DoInsert_def)
qed

lemma DoTransaction_ok:
  assumes ready: "wl_ready ord n j wl" and ld: "loaded ord j s" and key: "\<forall>k. key_ok k" and e: "env_ok e"
    and n: "n - 1 < of_nat j" "j < 2 ^ 64"
  shows "\<exists>wl' s' j'. DoTransaction e storeds wl s = ret (True, wl', s') \<and> j' \<le> Suc j \<and> j \<le> j' \<and>
    wl_ready ord n j' wl' \<and> loaded ord j' s'"
proof -
  obtain op wl1 where op: "NextOperation e wl = ret (op, wl1)" "op \<noteq> SCAN" "wl_ready ord n j wl1"
    using NextOperation_ready [OF ready e] by blast
  obtain i wl2 where k: "NextTransactionKey e wl1 = ret (key_of ord i, wl2)" "i \<le> n - 1" "wl_ready ord n j wl2"
    using NextTransactionKey_ready [OF op(3) e] by blast
  have i: "i < of_nat j" using k(2) n(1) by simp
  obtain us where us: "update_values e wl2 = ret (us, wl2)" "fields_fit us"
    using update_values_ready [OF k(3)] by blast
  obtain s2 where up: "StoredsDB_Update storeds s (table_name wl2) (key_of ord i) us = ret (kOK, s2)" "loaded ord j s2"
    using Update_loaded [OF ld i n(2) us(2)] by blast
  obtain v where rd: "StoredsDB_Read storeds s (table_name wl2) (key_of ord i) (fields_arg wl2) =
      ret (kOK, [(key_of ord i, v)])"
    using Read_loaded [OF ld i n(2)] by blast
  have kOK: "0 \<le> kOK" by (simp add: kOK_def)
  show ?thesis
  proof (cases op)
    case INSERT
    obtain wl3 s3 where "DoInsert e storeds wl1 s = ret (True, wl3, s3)" "wl_ready ord n (Suc j) wl3"
        "loaded ord (Suc j) s3"
      using DoInsert_ok [OF op(3) ld key] by blast
    then have "TransactionInsert e storeds wl1 s = ret (kOK, wl3, s3)"
      by (auto simp: DoInsert_def TransactionInsert_def bindC_eq_ret)
    with op INSERT \<open>wl_ready ord n (Suc j) wl3\<close> \<open>loaded ord (Suc j) s3\<close> kOK show ?thesis
      by (intro exI [of _ wl3] exI [of _ s3] exI [of _ "Suc j"]) (simp add: DoTransaction_def)
  next
    case READ
    then show ?thesis using op(1) k rd ld kOK
      by (intro exI [of _ wl2] exI [of _ s] exI [of _ j]) (simp add: DoTransaction_def TransactionRead_def)
  next
    case UPDATE
    then show ?thesis using op(1) k us up kOK
      by (intro exI [of _ wl2] exI [of _ s2] exI [of _ j]) (simp add: DoTransaction_def TransactionUpdate_def)
  next
    case READMODIFYWRITE
    then show ?thesis using op(1) k us up rd kOK
      by (intro exI [of _ wl2] exI [of _ s2] exI [of _ j])
         (simp add: DoTransaction_def TransactionReadModifyWrite_def)
  qed (use op in simp)
qed

lemma load_ok:
  assumes "wl_ready ord n j wl" and "loaded ord j s" and "\<forall>k. key_ok k"
  shows "\<exists>wl' s'. DelegateClient_loop e storeds True c oks wl s = ret (oks + int c, wl', s') \<and>
    wl_ready ord n (j + c) wl' \<and> loaded ord (j + c) s'"
  using assms
proof (induction c arbitrary: j oks wl s)
  case (Suc c)
  obtain wl1 s1 where 1: "DoInsert e storeds wl s = ret (True, wl1, s1)" "wl_ready ord n (Suc j) wl1"
      "loaded ord (Suc j) s1"
    using DoInsert_ok [OF Suc.prems] by blast
  from Suc.IH [OF 1(2,3) Suc.prems(3), of "oks + 1"] 1(1) show ?case
    by (auto simp: client_op_def algebra_simps)
qed auto

lemma transactions_ok:
  assumes "wl_ready ord n j wl" and "loaded ord j s" and "\<forall>k. key_ok k" and "env_ok e"
    and "n \<le> of_nat j" and "0 < n" and "j + c < 2 ^ 64"
  shows "\<exists>wl' s'. DelegateClient_loop e storeds False c oks wl s = ret (oks + int c, wl', s') \<and>
    (\<exists>j'. loaded ord j' s' \<and> j \<le> j')"
  using assms
proof (induction c arbitrary: j oks wl s)
  case 0
  then show ?case by auto
next
  case (Suc c)
  have "n - 1 < of_nat j" 
  proof -
    have "n \<noteq> 0" "0 < unat n" using Suc.prems(6) by (simp_all add: word_neq_0_conv unat_gt_0)
    then have "n - 1 < n" by (simp add: word_less_nat_alt unat_minus_one)
    with Suc.prems(5) show ?thesis by simp
  qed
  then obtain wl1 s1 j1 where 1: "DoTransaction e storeds wl s = ret (True, wl1, s1)" "j1 \<le> Suc j" "j \<le> j1"
      "wl_ready ord n j1 wl1" "loaded ord j1 s1"
    using DoTransaction_ok [OF Suc.prems(1-4)] Suc.prems(7) by fastforce
  have "of_nat j \<le> (of_nat j1 :: u64)" using 1(2,3) Suc.prems(7)
    by (simp add: word_le_nat_alt unat_of_nat take_bit_nat_eq_self)
  then have n: "n \<le> of_nat j1" using Suc.prems(5) by simp
  have "j1 + c < 2 ^ 64" using 1(2) Suc.prems(7) by simp
  from Suc.IH [OF 1(4,5) Suc.prems(3,4) n Suc.prems(6) this, of "oks + 1"] 1(1,3) show ?case
    by (auto simp: client_op_def algebra_simps intro: le_trans)
qed

end


section \<open>Initialisation makes the workload ready\<close>

text \<open>
  Properties of a workload without scans over \<open>r\<close> records: uniform requests, keys from \<open>0\<close> on,
  values of a constant length below the buffer size, some operation with a positive proportion,
  and the other properties well formed.
\<close>

definition benchmark_props :: "real env \<Rightarrow> Properties \<Rightarrow> int \<Rightarrow> bool" where
  "benchmark_props e p r \<longleftrightarrow>
     stoi (GetProperty p RECORD_COUNT_PROPERTY []) = ret r \<and> 1 \<le> r \<and>
     GetProperty p REQUEST_DISTRIBUTION_PROPERTY REQUEST_DISTRIBUTION_DEFAULT = ''uniform'' \<and>
     stoi (GetProperty p INSERT_START_PROPERTY INSERT_START_DEFAULT) = ret 0 \<and>
     GetProperty p FIELD_LENGTH_DISTRIBUTION_PROPERTY FIELD_LENGTH_DISTRIBUTION_DEFAULT = ''constant'' \<and>
     (\<exists>l. stoi (GetProperty p FIELD_LENGTH_PROPERTY FIELD_LENGTH_DEFAULT) = ret l \<and> 0 \<le> l \<and>
       l < int DEFAULT_VALUE_LEN) \<and>
     (\<exists>f. stoi (GetProperty p FIELD_COUNT_PROPERTY FIELD_COUNT_DEFAULT) = ret f \<and> 1 \<le> f) \<and>
     (\<exists>d. stod e (GetProperty p SCAN_PROPORTION_PROPERTY SCAN_PROPORTION_DEFAULT) = ret d \<and> \<not> 0 < d) \<and>
     (\<exists>d d'. stod e (GetProperty p READ_PROPORTION_PROPERTY READ_PROPORTION_DEFAULT) = ret d \<and>
       stod e (GetProperty p UPDATE_PROPORTION_PROPERTY UPDATE_PROPORTION_DEFAULT) = ret d' \<and>
       (0 < d \<or> 0 < d')) \<and>
     returns (stod e (GetProperty p INSERT_PROPORTION_PROPERTY INSERT_PROPORTION_DEFAULT)) \<and>
     returns (stod e (GetProperty p READMODIFYWRITE_PROPORTION_PROPERTY READMODIFYWRITE_PROPORTION_DEFAULT)) \<and>
     returns (stoi (GetProperty p MAX_SCAN_LENGTH_PROPERTY MAX_SCAN_LENGTH_DEFAULT)) \<and>
     GetProperty p SCAN_LENGTH_DISTRIBUTION_PROPERTY SCAN_LENGTH_DISTRIBUTION_DEFAULT = ''uniform'' \<and>
     returns (StrToBool (GetProperty p READ_ALL_FIELDS_PROPERTY READ_ALL_FIELDS_DEFAULT)) \<and>
     returns (StrToBool (GetProperty p WRITE_ALL_FIELDS_PROPERTY WRITE_ALL_FIELDS_DEFAULT))"

definition chooser_ok :: "(Operation, real) DiscreteGenerator \<Rightarrow> bool" where
  "chooser_ok g \<longleftrightarrow> dg_sum g = weights (dg_values g) \<and> (\<forall>p \<in> set (dg_values g). 0 < snd p \<and> fst p \<noteq> SCAN)"

lemma add_op_ok:
  assumes "fp_ops e = real_ops" and "chooser_ok g" and "op \<noteq> SCAN \<or> \<not> 0 < d"
  shows "chooser_ok (add_op e op d g)" and "dg_values g \<noteq> [] \<Longrightarrow> dg_values (add_op e op d g) \<noteq> []"
    and "0 < d \<Longrightarrow> dg_values (add_op e op d g) \<noteq> []"
  using assms by (auto simp: add_op_def AddValue_def chooser_ok_def Let_def)

lemma chooser_ok_new: "chooser_ok (DiscreteGenerator_new real_ops)"
  by (simp add: chooser_ok_def DiscreteGenerator_new_def)

lemma stoi_range: "stoi s = ret n \<Longrightarrow> - (2 ^ 31) \<le> n \<and> n < 2 ^ 31"
  by (auto simp: stoi_def Let_def split: if_splits)

lemma Init_ready:
  assumes e: "env_ok e" and b: "benchmark_props e p r"
  shows "\<exists>wl. Init e p ((CoreWorkload_new real_ops)\<lparr>rd_pos := pos\<rparr>) = ret wl \<and>
    wl_ready (GetProperty p INSERT_ORDER_PROPERTY INSERT_ORDER_DEFAULT \<noteq> ''hashed'') (of_int r) 0 wl"
proof -
  have f: "fp_ops e = real_ops" using e by (simp add: env_ok_def)
  obtain l fc sp rp up where b':
      "stoi (GetProperty p FIELD_LENGTH_PROPERTY FIELD_LENGTH_DEFAULT) = ret l" "0 \<le> l" "l < int DEFAULT_VALUE_LEN"
      "stoi (GetProperty p FIELD_COUNT_PROPERTY FIELD_COUNT_DEFAULT) = ret fc" "1 \<le> fc"
      "stod e (GetProperty p SCAN_PROPORTION_PROPERTY SCAN_PROPORTION_DEFAULT) = ret sp" "\<not> 0 < sp"
      "stod e (GetProperty p READ_PROPORTION_PROPERTY READ_PROPORTION_DEFAULT) = ret rp"
      "stod e (GetProperty p UPDATE_PROPORTION_PROPERTY UPDATE_PROPORTION_DEFAULT) = ret up" "0 < rp \<or> 0 < up"
    using b unfolding benchmark_props_def by blast
  note b'' = b [unfolded benchmark_props_def]
  obtain ip mp ms ra wa where b3:
      "stod e (GetProperty p INSERT_PROPORTION_PROPERTY INSERT_PROPORTION_DEFAULT) = ret ip"
      "stod e (GetProperty p READMODIFYWRITE_PROPORTION_PROPERTY READMODIFYWRITE_PROPORTION_DEFAULT) = ret mp"
      "stoi (GetProperty p MAX_SCAN_LENGTH_PROPERTY MAX_SCAN_LENGTH_DEFAULT) = ret ms"
      "StrToBool (GetProperty p READ_ALL_FIELDS_PROPERTY READ_ALL_FIELDS_DEFAULT) = ret ra"
      "StrToBool (GetProperty p WRITE_ALL_FIELDS_PROPERTY WRITE_ALL_FIELDS_DEFAULT) = ret wa"
    using b unfolding benchmark_props_def returns_def by blast
  obtain wl where init: "Init e p ((CoreWorkload_new real_ops)\<lparr>rd_pos := pos\<rparr>) = ret wl" and wl:
      "wl = \<lparr>table_name = GetProperty p TABLENAME_PROPERTY TABLENAME_DEFAULT, field_count = fc,
        read_all_fields = ra, write_all_fields = wa, field_len_generator = Some (ConstG (of_int l)),
        key_generator = Some \<lparr>counter = 0\<rparr>,
        op_chooser = add_op e READMODIFYWRITE mp (add_op e SCAN sp (add_op e INSERT ip
          (add_op e UPDATE up (add_op e READ rp (DiscreteGenerator_new real_ops))))),
        key_chooser = Some (UniformG (UniformGenerator_new e 0 (of_int r - 1))),
        field_chooser = Some (UniformG (UniformGenerator_new e 0 (of_int (fc - 1)))),
        scan_len_chooser = Some (UniformG (UniformGenerator_new e 1 (of_int ms))),
        insert_key_sequence = \<lparr>counter = of_int r\<rparr>,
        ordered_inserts = GetProperty p INSERT_ORDER_PROPERTY INSERT_ORDER_DEFAULT \<noteq> ''hashed'',
        record_count = of_int r, rd_pos = pos\<rparr>"
    using b' b'' b3
    by (simp add: Init_def Let_def GetFieldLenGenerator_def key_chooser_for_def scan_len_chooser_for_def
        ConstGenerator_new_def CounterGenerator_new_def Counter_Set_def CoreWorkload_new_def)
  have l: "unat (of_int l :: u64) < DEFAULT_VALUE_LEN"
    using b'(2,3) by (simp add: DEFAULT_VALUE_LEN_def unat_eq_nat_uint uint_word_of_int_eq take_bit_int_eq_self)
  let ?g = "op_chooser wl"
  have "chooser_ok ?g" using f b'(7) chooser_ok_new by (auto simp: wl intro!: add_op_ok)
  moreover have "dg_values ?g \<noteq> []"
  proof -
    let ?h = "add_op e READ rp (DiscreteGenerator_new real_ops)"
    have h: "chooser_ok ?h" "chooser_ok (add_op e UPDATE up ?h)"
      "chooser_ok (add_op e INSERT ip (add_op e UPDATE up ?h))"
      "chooser_ok (add_op e SCAN sp (add_op e INSERT ip (add_op e UPDATE up ?h)))"
      using f b'(7) chooser_ok_new by (auto intro!: add_op_ok(1))
    have "dg_values (add_op e UPDATE up ?h) \<noteq> []"
      using b'(10) add_op_ok(3) [OF f chooser_ok_new, of READ rp] add_op_ok(2,3) [OF f h(1), of UPDATE up] by blast
    then have "dg_values (add_op e INSERT ip (add_op e UPDATE up ?h)) \<noteq> []"
      using add_op_ok(2) [OF f h(2), of INSERT ip] by blast
    then have "dg_values (add_op e SCAN sp (add_op e INSERT ip (add_op e UPDATE up ?h))) \<noteq> []"
      using add_op_ok(2) [OF f h(3), of SCAN sp] b'(7) by blast
    then show ?thesis using add_op_ok(2) [OF f h(4), of READMODIFYWRITE mp] by (simp add: wl)
  qed
  ultimately show ?thesis
    using l b'(5) f init unfolding wl_ready_def chooser_ok_def
    by (simp add: wl UniformGenerator_new_def Uniform_Next_def Let_def)
qed

text \<open>An environment and properties that satisfy these conditions.\<close>

definition bench_env :: "real env" where
  "bench_env = \<lparr>fp_ops = real_ops, random_double = (\<lambda>_. 1 / 2), uniform_draw = (\<lambda>a b i. b),
     stod_value = map_of [(''0.95'', 95 / 100), (''0.05'', 5 / 100), (''0.0'', 0)]\<rparr>"

definition bench_props :: "(string \<times> string) list \<Rightarrow> Properties" where
  "bench_props kvs = (map_of kvs)(RECORD_COUNT_PROPERTY \<mapsto> ''4'', OPERATION_COUNT_PROPERTY \<mapsto> ''6'')"

lemma env_ok_bench_env: "env_ok bench_env"
  by (simp add: env_ok_def bench_env_def)

lemmas property_names = TABLENAME_PROPERTY_def FIELD_COUNT_PROPERTY_def
  FIELD_LENGTH_DISTRIBUTION_PROPERTY_def FIELD_LENGTH_PROPERTY_def READ_ALL_FIELDS_PROPERTY_def
  WRITE_ALL_FIELDS_PROPERTY_def READ_PROPORTION_PROPERTY_def UPDATE_PROPORTION_PROPERTY_def
  INSERT_PROPORTION_PROPERTY_def SCAN_PROPORTION_PROPERTY_def READMODIFYWRITE_PROPORTION_PROPERTY_def
  REQUEST_DISTRIBUTION_PROPERTY_def MAX_SCAN_LENGTH_PROPERTY_def SCAN_LENGTH_DISTRIBUTION_PROPERTY_def
  INSERT_ORDER_PROPERTY_def INSERT_START_PROPERTY_def RECORD_COUNT_PROPERTY_def OPERATION_COUNT_PROPERTY_def

lemmas property_defaults = TABLENAME_DEFAULT_def FIELD_COUNT_DEFAULT_def
  FIELD_LENGTH_DISTRIBUTION_DEFAULT_def FIELD_LENGTH_DEFAULT_def READ_ALL_FIELDS_DEFAULT_def
  WRITE_ALL_FIELDS_DEFAULT_def READ_PROPORTION_DEFAULT_def UPDATE_PROPORTION_DEFAULT_def
  INSERT_PROPORTION_DEFAULT_def SCAN_PROPORTION_DEFAULT_def READMODIFYWRITE_PROPORTION_DEFAULT_def
  REQUEST_DISTRIBUTION_DEFAULT_def MAX_SCAN_LENGTH_DEFAULT_def SCAN_LENGTH_DISTRIBUTION_DEFAULT_def
  INSERT_ORDER_DEFAULT_def INSERT_START_DEFAULT_def

lemma bench_numbers:
  "stoi ''4'' = ret 4" "stoi ''6'' = ret 6" "stoi ''2'' = ret 2" "stoi ''0'' = ret 0" "stoi ''100'' = ret 100"
  "stoi ''1'' = ret 1" "stoi ''1000'' = ret 1000" "StrToBool ''true'' = ret True" "StrToBool ''false'' = ret False"
  by code_simp+

lemma benchmark_props_example:
  assumes "\<forall>(k, v) \<in> set kvs. k \<in> {''dbname'', ''type'', ''dbpath'', ''threadcount''}"
  shows "benchmark_props bench_env (bench_props kvs) 4"
proof -
  have "map_of kvs k = None" if "k \<notin> {''dbname'', ''type'', ''dbpath'', ''threadcount''}" for k
    using assms that by (auto simp: map_of_eq_None_iff)
  then show ?thesis
    by (simp add: benchmark_props_def bench_props_def GetProperty_def property_names property_defaults
        bench_numbers stod_def bench_env_def DEFAULT_VALUE_LEN_def)
      (rule exI [of _ "19 / 20"], simp, rule exI [of _ "1 / 20"], simp)
qed
end
