(* ===== verification/Command_Line.thy ===== *)
theory Command_Line
  imports Client
begin

text \<open>
  The programs around the clients: the command line of \<^verbatim>\<open>src/ycsbc*.cc\<close> (seven copies, of which one
  has an option more), the factories \<^verbatim>\<open>src/db/db_factory.cc\<close> and
  \<^verbatim>\<open>src/storeds/storeds_db_factory.cc\<close>, the \<open>main\<close> of \<^verbatim>\<open>src/ycsbc.cc\<close>, the self test
  \<^verbatim>\<open>src/ycsbc_test.cc\<close>, and the start barrier of \<^verbatim>\<open>src/ycsbc_lock_overhead.cc\<close>. The files named on
  the command line and the store a class name stands for are arguments.
\<close>

section \<open>The command line\<close>

text \<open>\<open>strncmp(str, pre, strlen(pre)) == 0\<close>\<close>

definition StrStartWith :: "string \<Rightarrow> string \<Rightarrow> bool" where
  "StrStartWith str pre \<longleftrightarrow> take (length pre) str = pre"

text \<open>
  The chain of \<open>strcmp\<close> tests over an option that takes a value: the property it sets, or \<open>None\<close> for
  the tests that follow.
\<close>

definition base_option :: "string \<Rightarrow> string option" where
  "base_option arg =
     (if arg = ''-threads'' then Some ''threadcount''
      else if arg = ''-db'' then Some ''dbname''
      else if arg = ''-type'' then Some ''type''
      else if arg = ''-dbpath'' then Some ''dbpath''
      else if arg = ''-host'' then Some ''host''
      else if arg = ''-port'' then Some ''port''
      else if arg = ''-slaves'' then Some ''slaves''
      else None)"

definition lock_overhead_option :: "string \<Rightarrow> string option" where
  "lock_overhead_option arg =
     (case base_option arg of Some name \<Rightarrow> Some name
      | None \<Rightarrow> if arg = ''-lcp'' then Some ''lock_contention_proportion'' else None)"

text \<open>
  The loop over the arguments: the properties, the last file name, and the arguments left. A
  \<open>utils::Exception\<close> of \<open>Load\<close> is not caught by the handler for \<open>const string &\<close>.
\<close>

fun parse_args ::
  "(string \<Rightarrow> string option) \<Rightarrow> (string \<Rightarrow> string option) \<Rightarrow> string list \<Rightarrow> Properties \<Rightarrow> string \<Rightarrow>
   (Properties \<times> string \<times> string list) comp" where
  "parse_args opts files [] props filename = ret (props, filename, [])"
| "parse_args opts files [a] props filename =
     (if StrStartWith a ''-'' then crash (Exited 0) else ret (props, filename, [a]))"
| "parse_args opts files (a # v # rest) props filename =
     (if \<not> StrStartWith a ''-'' then ret (props, filename, a # v # rest)
      else case opts a of
        Some name \<Rightarrow> parse_args opts files rest (SetProperty props name v) filename
      | None \<Rightarrow>
          if a = ''-P''
          then bindC (Load props (files v)) (\<lambda>props. parse_args opts files rest props v)
          else crash (Exited 0))"

definition parse_command_line ::
  "(string \<Rightarrow> string option) \<Rightarrow> (string \<Rightarrow> string option) \<Rightarrow> string list \<Rightarrow> (string \<times> Properties) comp" where
  "parse_command_line opts files argv =
     bindC (parse_args opts files (tl argv) Map.empty []) (\<lambda>(props, filename, rest).
       let argindex = length argv - length rest in
       if argindex = 1 \<or> argindex \<noteq> length argv then crash (Exited 0) else ret (filename, props))"

definition ParseCommandLine :: "(string \<Rightarrow> string option) \<Rightarrow> string list \<Rightarrow> (string \<times> Properties) comp" where
  "ParseCommandLine = parse_command_line base_option"

definition NonNumaParseCommandLine :: "(string \<Rightarrow> string option) \<Rightarrow> string list \<Rightarrow> (string \<times> Properties) comp" where
  "NonNumaParseCommandLine = parse_command_line base_option"

definition ParallelParseCommandLine :: "(string \<Rightarrow> string option) \<Rightarrow> string list \<Rightarrow> (string \<times> Properties) comp" where
  "ParallelParseCommandLine = parse_command_line base_option"

definition NonNumaParallelParseCommandLine ::
  "(string \<Rightarrow> string option) \<Rightarrow> string list \<Rightarrow> (string \<times> Properties) comp" where
  "NonNumaParallelParseCommandLine = parse_command_line base_option"

definition TestParseCommandLine :: "(string \<Rightarrow> string option) \<Rightarrow> string list \<Rightarrow> (string \<times> Properties) comp" where
  "TestParseCommandLine = parse_command_line base_option"

definition ParallelTestParseCommandLine ::
  "(string \<Rightarrow> string option) \<Rightarrow> string list \<Rightarrow> (string \<times> Properties) comp" where
  "ParallelTestParseCommandLine = parse_command_line base_option"

definition LockOverheadParseCommandLine ::
  "(string \<Rightarrow> string option) \<Rightarrow> string list \<Rightarrow> (string \<times> Properties) comp" where
  "LockOverheadParseCommandLine =
     parse_command_line lock_overhead_option"

section \<open>The factories\<close>

text \<open>The type names and the classes they stand for.\<close>

definition array_types :: "(string \<times> string) list" where
  "array_types =
    [(''array-dram'', ''ArrayDram''),
     (''array-pmem'', ''ArrayPmem''),
     (''array-pmem-tx'', ''ArrayPmemTx''),
     (''array-vmem'', ''ArrayVmem''),
     (''array-vmem-conc-mlock'', ''ArrayVmemConcurrentMLock''),
     (''array-vmem-conc-pmlock'', ''ArrayVmemConcurrentPMLock''),
     (''array-dram-conc-lock'', ''ArrayDramConcurrentLock''),
     (''array-dram-conc-mlock'', ''ArrayDramConcurrentMLock''),
     (''array-pmem-conc-lock'', ''ArrayPmemConcurrentLock''),
     (''array-pmem-conc-mlock'', ''ArrayPmemConcurrentMLock''),
     (''array-pmem-conc-vmlock'', ''ArrayPmemConcurrentVMLock''),
     (''array-pmem-tx-conc-lock'', ''ArrayPmemTxConcurrentLock''),
     (''array-pmem-tx-conc-mlock'', ''ArrayPmemTxConcurrentMLock'')]"

definition bt_types :: "(string \<times> string) list" where
  "bt_types =
    [(''bt-dram'', ''BTDram''),
     (''bt-pmem'', ''BTPmem''),
     (''bt-pmem-tx'', ''BTPmemTx''),
     (''bt-vmem'', ''BTVmem''),
     (''bt-dram-conc-mlock'', ''BTDramConcurrentMLock''),
     (''bt-pmem-conc-mlock'', ''BTPmemConcurrentMLock''),
     (''bt-pmem-tx-conc-mlock'', ''BTPmemTxConcurrentMLock''),
     (''bt-vmem-conc-mlock'', ''BTVmemConcurrentMLock'')]"

definition btree_types :: "(string \<times> string) list" where
  "btree_types =
    [(''btree-dram'', ''BTreeDram''),
     (''btree-pmem'', ''BTreePmem''),
     (''btree-pmem-tx'', ''BTreePmemTx''),
     (''btree-vmem'', ''BTreeVmem''),
     (''btree-memkind'', ''BTreeMemkind''),
     (''btree-vmem-conc-mlock'', ''BTreeVmemConcurrentMLock''),
     (''btree-dram-conc-lock'', ''BTreeDramConcurrentLock''),
     (''btree-dram-conc-mlock'', ''BTreeDramConcurrentMLock''),
     (''btree-pmem-conc-lock'', ''BTreePmemConcurrentLock''),
     (''btree-pmem-conc-mlock'', ''BTreePmemConcurrentMLock''),
     (''btree-pmem-tx-conc-lock'', ''BTreePmemTxConcurrentLock''),
     (''btree-pmem-tx-conc-mlock'', ''BTreePmemTxConcurrentMLock'')]"

definition bp_types :: "(string \<times> string) list" where
  "bp_types =
    [(''bp-dram'', ''BPDram''),
     (''bp-pmem'', ''BPPmem''),
     (''bp-pmem-tx'', ''BPPmemTx''),
     (''bp-vmem'', ''BPVmem''),
     (''bp-dram-conc-mlock'', ''BPDramConcurrentMLock''),
     (''bp-pmem-conc-mlock'', ''BPPmemConcurrentMLock''),
     (''bp-pmem-tx-conc-mlock'', ''BPPmemTxConcurrentMLock''),
     (''bp-vmem-conc-mlock'', ''BPVmemConcurrentMLock'')]"

definition bplustree_types :: "(string \<times> string) list" where
  "bplustree_types =
    [(''bplustree-dram'', ''BPlusTreeDram''),
     (''bplustree-pmem'', ''BPlusTreePmem''),
     (''bplustree-pmem-tx'', ''BPlusTreePmemTx''),
     (''bplustree-vmem'', ''BPlusTreeVmem''),
     (''bplustree-vmem-conc-mlock'', ''BPlusTreeVmemConcurrentMLock''),
     (''bplustree-dram-conc-lock'', ''BPlusTreeDramConcurrentLock''),
     (''bplustree-dram-conc-mlock'', ''BPlusTreeDramConcurrentMLock''),
     (''bplustree-pmem-conc-lock'', ''BPlusTreePmemConcurrentLock''),
     (''bplustree-pmem-conc-mlock'', ''BPlusTreePmemConcurrentMLock''),
     (''bplustree-pmem-tx-conc-lock'', ''BPlusTreePmemTxConcurrentLock''),
     (''bplustree-pmem-tx-conc-mlock'', ''BPlusTreePmemTxConcurrentMLock'')]"

definition hashtable_types :: "(string \<times> string) list" where
  "hashtable_types =
    [(''hashtable-dram'', ''HtDram''),
     (''hashtable-pmem'', ''HtPmem''),
     (''hashtable-pmem-tx'', ''HtPmemTx''),
     (''hashtable-vmem'', ''HtVmem''),
     (''hashtable-vmem-conc-mlock'', ''HtVmemConcurrentMLock''),
     (''hashtable-dram-conc-lock'', ''HtDramConcurrentLock''),
     (''hashtable-dram-conc-mlock'', ''HtDramConcurrentMLock''),
     (''hashtable-pmem-conc-lock'', ''HtPmemConcurrentLock''),
     (''hashtable-pmem-conc-mlock'', ''HtPmemConcurrentMLock''),
     (''hashtable-pmem-tx-conc-lock'', ''HtPmemTxConcurrentLock''),
     (''hashtable-pmem-tx-conc-mlock'', ''HtPmemTxConcurrentMLock'')]"

definition skiplist_types :: "(string \<times> string) list" where
  "skiplist_types =
    [(''skiplist-dram'', ''SkiplistDram''),
     (''skiplist-pmem'', ''SkiplistPmem''),
     (''skiplist-pmem-tx'', ''SkiplistPmemTx''),
     (''skiplist-vmem'', ''SkiplistVmem''),
     (''skiplist-vmem-conc-mlock'', ''SkiplistVmemConcurrentMLock''),
     (''skiplist-dram-conc-lock'', ''SkiplistDramConcurrentLock''),
     (''skiplist-dram-conc-mlock'', ''SkiplistDramConcurrentMLock''),
     (''skiplist-pmem-conc-lock'', ''SkiplistPmemConcurrentLock''),
     (''skiplist-pmem-conc-mlock'', ''SkiplistPmemConcurrentMLock''),
     (''skiplist-pmem-tx-conc-lock'', ''SkiplistPmemTxConcurrentLock''),
     (''skiplist-pmem-tx-conc-mlock'', ''SkiplistPmemTxConcurrentMLock'')]"

definition linkedlist_types :: "(string \<times> string) list" where
  "linkedlist_types =
    [(''linkedlist-dram'', ''LinkedlistDram''),
     (''linkedlist-dram-conc-mlock'', ''LinkedlistDramConcurrentMLock''),
     (''linkedlist-pmem'', ''LinkedlistPmem''),
     (''linkedlist-pmem-conc-mlock'', ''LinkedlistPmemConcurrentMLock''),
     (''linkedlist-pmem-tx'', ''LinkedlistPmemTx''),
     (''linkedlist-pmem-tx-conc-mlock'', ''LinkedlistPmemTxConcurrentMLock''),
     (''linkedlist-vmem'', ''LinkedlistVmem''),
     (''linkedlist-vmem-conc-mlock'', ''LinkedlistVmemConcurrentMLock'')]"

definition rbtree_types :: "(string \<times> string) list" where
  "rbtree_types =
    [(''rbtree-dram'', ''RbtreeDram''),
     (''rbtree-pmem'', ''RbtreePmem''),
     (''rbtree-pmem-tx'', ''RbtreePmemTx''),
     (''rbtree-vmem'', ''RbtreeVmem''),
     (''rbtree-vmem-conc-mlock'', ''RbtreeVmemConcurrentMLock''),
     (''rbtree-vmem-conc-pmlock'', ''RbtreeVmemConcurrentPMLock''),
     (''rbtree-dram-conc-lock'', ''RbtreeDramConcurrentLock''),
     (''rbtree-dram-conc-mlock'', ''RbtreeDramConcurrentMLock''),
     (''rbtree-pmem-conc-lock'', ''RbtreePmemConcurrentLock''),
     (''rbtree-pmem-conc-mlock'', ''RbtreePmemConcurrentMLock''),
     (''rbtree-pmem-conc-vmlock'', ''RbtreePmemConcurrentVMLock''),
     (''rbtree-pmem-tx-conc-lock'', ''RbtreePmemTxConcurrentLock''),
     (''rbtree-pmem-tx-conc-mlock'', ''RbtreePmemTxConcurrentMLock'')]"

definition hl_types :: "(string \<times> string) list" where
  "hl_types =
    [(''hl-dram'', ''HlDram''),
     (''hl-vmem'', ''HlVmem''),
     (''hl-pmem'', ''HlPmem''),
     (''hl-pmem-tx'', ''HlPmemTx''),
     (''hl-dram-conc-mlock'', ''HlDramConcurrentMLock''),
     (''hl-vmem-conc-mlock'', ''HlVmemConcurrentMLock''),
     (''hl-vmem-conc-pmlock'', ''HlVmemConcurrentPMLock''),
     (''hl-pmem-conc-mlock'', ''HlPmemConcurrentMLock''),
     (''hl-pmem-conc-vmlock'', ''HlPmemConcurrentVMLock''),
     (''hl-pmem-tx-conc-mlock'', ''HlPmemTxConcurrentMLock'')]"

definition store_types :: "(string \<times> string) list" where
  "store_types = array_types @ bt_types @ btree_types @ bp_types @ bplustree_types @ hashtable_types @
     skiplist_types @ linkedlist_types @ rbtree_types @ hl_types"

definition GetDB :: "string \<Rightarrow> string option" where
  "GetDB type = map_of store_types type"

text \<open>
  The database that \<open>CreateDB\<close> makes: the type and the path given to \<open>StoredsDB\<close>, or a null
  pointer for another \<open>dbname\<close>.
\<close>

definition CreateDB :: "Properties \<Rightarrow> (string \<times> string) option comp" where
  "CreateDB props =
     bindC (props_at props ''dbname'') (\<lambda>name.
       if name = ''storeds''
       then ret (Some (GetProperty props ''type'' ''array-dram'', GetProperty props ''dbpath'' ''/pmem/array.pmem''))
       else ret None)"

text \<open>A call through the null \<open>storeds_\<close> that an unknown type leaves.\<close>

definition null_ops :: "'s storeds_base" where
  "null_ops = \<lparr>op_read = (\<lambda>_ _ _. crash NullDeref), op_scan = (\<lambda>_ _ _ _. crash NullDeref),
     op_update = (\<lambda>_ _ _. crash NullDeref), op_insert = (\<lambda>_ _ _. crash NullDeref),
     op_destroy = (\<lambda>_. crash NullDeref)\<rparr>"

text \<open>\<open>open_store c path\<close>: the operations of class \<open>c\<close> and the object its constructor makes.\<close>

definition StoredsDB_new ::
  "(string \<Rightarrow> string \<Rightarrow> 's storeds_base \<times> 's) \<Rightarrow> string \<Rightarrow> string \<Rightarrow> 's storeds_base \<times> 's" where
  "StoredsDB_new open_store type path =
     (case GetDB type of Some c \<Rightarrow> open_store c path | None \<Rightarrow> (null_ops, snd (open_store [] path)))"

section \<open>main\<close>

text \<open>
  The \<open>main\<close> of \<^verbatim>\<open>ycsbc.cc\<close> and of its copy \<^verbatim>\<open>ycsbc_non_numa.cc\<close>, which binds the threads to other
  cores: the sums of the two phases. \<open>sched1\<close> and \<open>sched2\<close> say in which order the threads'
  operations run; what \<open>~StoredsDB\<close> does is \<open>op_destroy\<close>.
\<close>

definition run_main ::
  "(string \<times> Properties) comp \<Rightarrow> 'd env \<Rightarrow> (string \<Rightarrow> string \<Rightarrow> 's storeds_base \<times> 's) \<Rightarrow>
   nat list \<Rightarrow> nat list \<Rightarrow> (int \<times> int \<times> 's) comp" where
  "run_main parsed e open_store sched1 sched2 =
     bindC parsed (\<lambda>(file_name, props).
     bindC (stoi (GetProperty props ''threadcount'' ''1'')) (\<lambda>num_threads.
     bindC (CreateDB props) (\<lambda>db.
     case db of
       None \<Rightarrow> crash (Exited 0)
     | Some (type, path) \<Rightarrow>
         case StoredsDB_new open_store type path of (storeds, s) \<Rightarrow>
         bindC (Init e props (CoreWorkload_new (fp_ops e))) (\<lambda>wl.
         bindC (props_at props RECORD_COUNT_PROPERTY) (\<lambda>records.
         bindC (stoi records) (\<lambda>total_ops.
         bindC (run_phase e storeds True num_threads total_ops sched1 wl s) (\<lambda>(sum1, wl, s).
         bindC (props_at props OPERATION_COUNT_PROPERTY) (\<lambda>ops.
         bindC (stoi ops) (\<lambda>total_ops.
         bindC (run_phase e storeds False num_threads total_ops sched2 wl s) (\<lambda>(sum2, wl, s).
         bindC (op_destroy storeds s) (\<lambda>s. ret (sum1, sum2, s))))))))))))"

definition ycsbc_main ::
  "'d env \<Rightarrow> (string \<Rightarrow> string option) \<Rightarrow> (string \<Rightarrow> string \<Rightarrow> 's storeds_base \<times> 's) \<Rightarrow>
   nat list \<Rightarrow> nat list \<Rightarrow> string list \<Rightarrow> (int \<times> int \<times> 's) comp" where
  "ycsbc_main e files open_store sched1 sched2 argv =
     run_main (ParseCommandLine files argv) e open_store sched1 sched2"

definition non_numa_main ::
  "'d env \<Rightarrow> (string \<Rightarrow> string option) \<Rightarrow> (string \<Rightarrow> string \<Rightarrow> 's storeds_base \<times> 's) \<Rightarrow>
   nat list \<Rightarrow> nat list \<Rightarrow> string list \<Rightarrow> (int \<times> int \<times> 's) comp" where
  "non_numa_main e files open_store sched1 sched2 argv =
     run_main (NonNumaParseCommandLine files argv) e open_store sched1 sched2"

section \<open>The self tests\<close>

definition MAX_VAL :: nat where "MAX_VAL = 100"

text \<open>\<open>std::to_string\<close>\<close>

fun to_string :: "nat \<Rightarrow> string" where
  "to_string n = (if n < 10 then [char_of (48 + n)] else to_string (n div 10) @ [char_of (48 + n mod 10)])"

declare to_string.simps [simp del]

definition test_insert :: "'s storeds_base \<Rightarrow> string \<Rightarrow> nat \<Rightarrow> 's \<Rightarrow> 's comp" where
  "test_insert storeds tableName key s =
     bindC (StoredsDB_Insert storeds s tableName (of_nat key) [(''field'', to_string key)]) (\<lambda>(status, s).
     bindC (assertC (status = kOK)) (\<lambda>_. ret s))"

definition test_update :: "'s storeds_base \<Rightarrow> string \<Rightarrow> nat \<Rightarrow> 's \<Rightarrow> 's comp" where
  "test_update storeds tableName key s =
     bindC (StoredsDB_Update storeds s tableName (of_nat key) [(''field'', to_string (MAX_VAL - key))])
       (\<lambda>(status, s). bindC (assertC (status = kOK)) (\<lambda>_. ret s))"

text \<open>A read, and the number the value is compared with: a function of the key and the first result.\<close>

definition test_read ::
  "'s storeds_base \<Rightarrow> string \<Rightarrow> (nat \<Rightarrow> u64 \<Rightarrow> nat) \<Rightarrow> nat \<Rightarrow> 's \<Rightarrow> 's comp" where
  "test_read storeds tableName expected key s =
     bindC (StoredsDB_Read storeds s tableName (of_nat key) None) (\<lambda>(status, result).
     bindC (assertC (status = kOK)) (\<lambda>_.
     bindC (read_arr result 0) (\<lambda>r.
     bindC (assertC (to_string (expected key (fst r)) = snd r)) (\<lambda>_. ret s))))"

text \<open>The four loops of the self test, and the destruction of the database.\<close>

definition test_store :: "'s storeds_base \<Rightarrow> string \<Rightarrow> 's \<Rightarrow> 's comp" where
  "test_store storeds tableName s =
     bindC (for_loop 1 MAX_VAL (test_insert storeds tableName) s) (\<lambda>s.
     bindC (for_loop 1 MAX_VAL (test_read storeds tableName (\<lambda>_ k. unat k)) s) (\<lambda>s.
     bindC (for_loop 1 MAX_VAL (test_update storeds tableName) s) (\<lambda>s.
     bindC (for_loop 1 MAX_VAL (test_read storeds tableName (\<lambda>key _. MAX_VAL - key)) s) (\<lambda>s.
       op_destroy storeds s))))"

definition test_main ::
  "'d env \<Rightarrow> (string \<Rightarrow> string option) \<Rightarrow> (string \<Rightarrow> string \<Rightarrow> 's storeds_base \<times> 's) \<Rightarrow> string list \<Rightarrow> 's comp" where
  "test_main e files open_store argv =
     bindC (TestParseCommandLine files argv) (\<lambda>(file_name, props).
     bindC (CreateDB props) (\<lambda>db.
     case db of
       None \<Rightarrow> crash (Exited 0)
     | Some (type, path) \<Rightarrow>
         case StoredsDB_new open_store type path of (storeds, s) \<Rightarrow>
         bindC (Init e props (CoreWorkload_new (fp_ops e))) (\<lambda>_. test_store storeds ''ycsb_test'' s)))"

text \<open>
  \<open>type.substr(type.size() - n)\<close>: \<open>std::out_of_range\<close> when the type has fewer than \<open>n\<close> characters,
  since the subtraction wraps. Each thread of the parallel programs opens a file of its own, unless
  the store is in volatile memory.
\<close>

definition suffix_of :: "nat \<Rightarrow> string \<Rightarrow> string comp" where
  "suffix_of n s = (if length s < n then crash (Thrown ''out_of_range'') else ret (drop (length s - n) s))"

definition thread_props :: "Properties \<Rightarrow> bool \<Rightarrow> string \<Rightarrow> nat \<Rightarrow> Properties" where
  "thread_props props is_vmem dbpath t =
     (if \<not> is_vmem then SetProperty props ''dbpath'' (dbpath @ to_string t @ ''.pmem'') else props)"

definition run_test ::
  "'d env \<Rightarrow> (string \<Rightarrow> string \<Rightarrow> 's storeds_base \<times> 's) \<Rightarrow> nat \<Rightarrow> Properties \<Rightarrow> 's comp" where
  "run_test e open_store tid props =
     bindC (suffix_of 4 (GetProperty props ''type'' ''dram'')) (\<lambda>suffix.
     let props = thread_props props (suffix = ''vmem'') (GetProperty props ''dbpath'' ''/pmem/array'') tid in
     bindC (CreateDB props) (\<lambda>db.
     case db of
       None \<Rightarrow> crash (Exited 0)
     | Some (type, path) \<Rightarrow>
         case StoredsDB_new open_store type path of (storeds, s) \<Rightarrow>
         bindC (Init e props (CoreWorkload_new (fp_ops e))) (\<lambda>_.
           test_store storeds (''ycsb_test_'' @ to_string tid) s)))"

definition MAX_THREAD :: nat where "MAX_THREAD = 50"

text \<open>
  The tests of the threads share nothing but \<open>RandomDouble\<close>, which they do not use, so the order in
  which they run does not matter: they run one after the other here.
\<close>

fun run_tests ::
  "'d env \<Rightarrow> (string \<Rightarrow> string \<Rightarrow> 's storeds_base \<times> 's) \<Rightarrow> Properties \<Rightarrow> nat list \<Rightarrow> 's list comp" where
  "run_tests e open_store props [] = ret []"
| "run_tests e open_store props (i # is) =
     (if i < MAX_THREAD
      then bindC (run_test e open_store i props) (\<lambda>s.
           bindC (run_tests e open_store props is) (\<lambda>ss. ret (s # ss)))
      else crash OutOfBounds)"

definition parallel_test_main ::
  "'d env \<Rightarrow> (string \<Rightarrow> string option) \<Rightarrow> (string \<Rightarrow> string \<Rightarrow> 's storeds_base \<times> 's) \<Rightarrow> string list \<Rightarrow>
   's list comp" where
  "parallel_test_main e files open_store argv =
     bindC (ParallelTestParseCommandLine files argv) (\<lambda>(file_name, props).
     bindC (stoi (GetProperty props ''threadcount'' ''2'')) (\<lambda>num_threads.
       run_tests e open_store props [0..<nat num_threads]))"

section \<open>The parallel benchmark\<close>

text \<open>
  \<^verbatim>\<open>ycsbc_parallel.cc\<close> and its copy \<^verbatim>\<open>ycsbc_parallel_non_numa.cc\<close> give each thread a database and a
  workload of its own. What the threads still share is the engine of \<open>RandomDouble\<close>, without a lock:
  while \<open>main\<close> opens the databases its position \<open>pos\<close> goes from one to the next, but in the phases
  nothing can be said of which thread draws what. So an entry of a schedule is a thread, which runs
  its next operation, and the draws that this operation gets, whatever they are.
\<close>

definition is_vmem :: "string \<Rightarrow> bool comp" where
  "is_vmem type =
     bindC (suffix_of 4 type) (\<lambda>suffix.
       if suffix = ''vmem'' then ret True
       else bindC (suffix_of 7 type) (\<lambda>suffix. ret (suffix = ''memkind'')))"

type_synonym ('d, 's) thread_db = "'s storeds_base \<times> 'd CoreWorkload \<times> 's"

fun open_dbs ::
  "'d env \<Rightarrow> (string \<Rightarrow> string \<Rightarrow> 's storeds_base \<times> 's) \<Rightarrow> bool \<Rightarrow> string \<Rightarrow> nat list \<Rightarrow> Properties \<Rightarrow> nat \<Rightarrow>
   (Properties \<times> nat \<times> ('d, 's) thread_db list) comp" where
  "open_dbs e open_store vmem dbpath [] props pos = ret (props, pos, [])"
| "open_dbs e open_store vmem dbpath (t # ts) props pos =
     (let props = thread_props props vmem dbpath t in
      bindC (CreateDB props) (\<lambda>db.
      bindC (Init e props ((CoreWorkload_new (fp_ops e))\<lparr>rd_pos := pos\<rparr>)) (\<lambda>wl.
      case db of
        None \<Rightarrow> crash (Exited 0)
      | Some (type, path) \<Rightarrow>
          case StoredsDB_new open_store type path of (storeds, s) \<Rightarrow>
          bindC (open_dbs e open_store vmem dbpath ts props (rd_pos wl)) (\<lambda>(props, pos, dbs).
            ret (props, pos, (storeds, wl, s) # dbs)))))"

fun run_parallel ::
  "'d env \<Rightarrow> bool \<Rightarrow> (nat \<times> (nat \<Rightarrow> 'd)) list \<Rightarrow> (nat \<Rightarrow> nat) \<Rightarrow> (nat \<Rightarrow> int) \<Rightarrow> ('d, 's) thread_db list \<Rightarrow>
   ((nat \<Rightarrow> nat) \<times> (nat \<Rightarrow> int) \<times> ('d, 's) thread_db list) comp" where
  "run_parallel e is_loading [] todo oks dbs = ret (todo, oks, dbs)"
| "run_parallel e is_loading ((t, draws) # ts) todo oks dbs =
     (case todo t of
        0 \<Rightarrow> run_parallel e is_loading ts todo oks dbs
      | Suc n \<Rightarrow>
          case dbs ! t of (db, wl, s) \<Rightarrow>
          bindC (client_op (e\<lparr>random_double := draws\<rparr>) db is_loading wl s) (\<lambda>(ok, wl, s).
            run_parallel e is_loading ts (todo(t := n)) (oks(t := oks t + (if ok then 1 else 0)))
              (dbs[t := (db, wl, s)])))"

text \<open>Each thread runs all \<open>total_ops\<close> operations on its own database.\<close>

definition parallel_phase ::
  "'d env \<Rightarrow> bool \<Rightarrow> int \<Rightarrow> (nat \<times> (nat \<Rightarrow> 'd)) list \<Rightarrow> ('d, 's) thread_db list \<Rightarrow>
   (int \<times> ('d, 's) thread_db list) comp" where
  "parallel_phase e is_loading total_ops sched dbs =
     bindC (run_parallel e is_loading sched (\<lambda>t. if t < length dbs then nat total_ops else 0) (\<lambda>_. 0) dbs)
       (\<lambda>(todo, oks, dbs). ret (sum oks {0..<length dbs}, dbs))"

fun destroy_dbs :: "('d, 's) thread_db list \<Rightarrow> 's list comp" where
  "destroy_dbs [] = ret []"
| "destroy_dbs ((storeds, wl, s) # dbs) =
     bindC (op_destroy storeds s) (\<lambda>s. bindC (destroy_dbs dbs) (\<lambda>ss. ret (s # ss)))"

definition run_parallel_main ::
  "(string \<times> Properties) comp \<Rightarrow> 'd env \<Rightarrow> (string \<Rightarrow> string \<Rightarrow> 's storeds_base \<times> 's) \<Rightarrow>
   (nat \<times> (nat \<Rightarrow> 'd)) list \<Rightarrow> (nat \<times> (nat \<Rightarrow> 'd)) list \<Rightarrow> (int \<times> int \<times> 's list) comp" where
  "run_parallel_main parsed e open_store sched1 sched2 =
     bindC parsed (\<lambda>(file_name, props).
     bindC (stoi (GetProperty props ''threadcount'' ''1'')) (\<lambda>num_threads.
     bindC (is_vmem (GetProperty props ''type'' ''dram'')) (\<lambda>vmem.
     bindC (open_dbs e open_store vmem (GetProperty props ''dbpath'' ''/pmem/array'') [0..<nat num_threads] props 0)
       (\<lambda>(props, pos, dbs).
     bindC (props_at props RECORD_COUNT_PROPERTY) (\<lambda>records.
     bindC (stoi records) (\<lambda>total_ops.
     bindC (parallel_phase e True total_ops sched1 dbs) (\<lambda>(sum1, dbs).
     bindC (props_at props OPERATION_COUNT_PROPERTY) (\<lambda>ops.
     bindC (stoi ops) (\<lambda>total_ops.
     bindC (parallel_phase e False total_ops sched2 dbs) (\<lambda>(sum2, dbs).
     bindC (destroy_dbs dbs) (\<lambda>ss. ret (sum1, sum2, ss))))))))))))"

definition parallel_main ::
  "'d env \<Rightarrow> (string \<Rightarrow> string option) \<Rightarrow> (string \<Rightarrow> string \<Rightarrow> 's storeds_base \<times> 's) \<Rightarrow>
   (nat \<times> (nat \<Rightarrow> 'd)) list \<Rightarrow> (nat \<times> (nat \<Rightarrow> 'd)) list \<Rightarrow> string list \<Rightarrow> (int \<times> int \<times> 's list) comp" where
  "parallel_main e files open_store sched1 sched2 argv =
     run_parallel_main (ParallelParseCommandLine files argv) e open_store sched1 sched2"

definition non_numa_parallel_main ::
  "'d env \<Rightarrow> (string \<Rightarrow> string option) \<Rightarrow> (string \<Rightarrow> string \<Rightarrow> 's storeds_base \<times> 's) \<Rightarrow>
   (nat \<times> (nat \<Rightarrow> 'd)) list \<Rightarrow> (nat \<times> (nat \<Rightarrow> 'd)) list \<Rightarrow> string list \<Rightarrow> (int \<times> int \<times> 's list) comp" where
  "non_numa_parallel_main e files open_store sched1 sched2 argv =
     run_parallel_main (NonNumaParallelParseCommandLine files argv) e open_store sched1 sched2"

section \<open>The start barrier\<close>

text \<open>
  \<^verbatim>\<open>ycsbc_lock_overhead.cc\<close>: every thread increments \<open>start_barrier\<close> and spins until it equals
  \<open>num_threads + 1\<close>; \<open>main\<close> adds its own vote in the second phase only. A thread past the barrier
  runs its operations and returns (\<open>WDone\<close>); \<open>main\<close> joins the threads of a phase.
\<close>

datatype worker_pc = WVote | WSpin | WDone

datatype main_pc = LoadJoin | TransVote | TransSpin | TransJoin | Finished

record lo_state =
  start_barrier :: nat
  main_at :: main_pc
  worker_at :: "nat \<Rightarrow> worker_pc"

definition lo_init :: lo_state where
  "lo_init = \<lparr>start_barrier = 0, main_at = LoadJoin, worker_at = (\<lambda>_. WVote)\<rparr>"

inductive lo_step :: "nat \<Rightarrow> lo_state \<Rightarrow> lo_state \<Rightarrow> bool" for num_threads where
  vote: "t < num_threads \<Longrightarrow> worker_at s t = WVote \<Longrightarrow>
    lo_step num_threads s (s\<lparr>start_barrier := start_barrier s + 1, worker_at := (worker_at s)(t := WSpin)\<rparr>)"
| spin: "t < num_threads \<Longrightarrow> worker_at s t = WSpin \<Longrightarrow> start_barrier s \<noteq> num_threads + 1 \<Longrightarrow>
    lo_step num_threads s s"
| leave: "t < num_threads \<Longrightarrow> worker_at s t = WSpin \<Longrightarrow> start_barrier s = num_threads + 1 \<Longrightarrow>
    lo_step num_threads s (s\<lparr>worker_at := (worker_at s)(t := WDone)\<rparr>)"
| load_joined: "main_at s = LoadJoin \<Longrightarrow> \<forall>t < num_threads. worker_at s t = WDone \<Longrightarrow>
    lo_step num_threads s (s\<lparr>main_at := TransVote, worker_at := (\<lambda>_. WVote)\<rparr>)"
| main_vote: "main_at s = TransVote \<Longrightarrow>
    lo_step num_threads s (s\<lparr>main_at := TransSpin, start_barrier := start_barrier s + 1\<rparr>)"
| main_spin: "main_at s = TransSpin \<Longrightarrow> start_barrier s \<noteq> num_threads + 1 \<Longrightarrow> lo_step num_threads s s"
| main_leave: "main_at s = TransSpin \<Longrightarrow> start_barrier s = num_threads + 1 \<Longrightarrow>
    lo_step num_threads s (s\<lparr>main_at := TransJoin\<rparr>)"
| trans_joined: "main_at s = TransJoin \<Longrightarrow> \<forall>t < num_threads. worker_at s t = WDone \<Longrightarrow>
    lo_step num_threads s (s\<lparr>main_at := Finished\<rparr>)"

inductive lo_reachable :: "nat \<Rightarrow> lo_state \<Rightarrow> bool" for num_threads where
  lo_start: "lo_reachable num_threads lo_init"
| lo_next: "lo_reachable num_threads s \<Longrightarrow> lo_step num_threads s s' \<Longrightarrow> lo_reachable num_threads s'"

inductive_cases lo_stepE: "lo_step num_threads s s'"

section \<open>What the command line means\<close>

fun render_opts :: "(string \<times> string) list \<Rightarrow> string list" where
  "render_opts [] = []"
| "render_opts ((flag, v) # opts) = flag # v # render_opts opts"

text \<open>The options the programs promise, each with the property it names.\<close>

definition option_table :: "(string \<times> string) list" where
  "option_table = [(''-threads'', ''threadcount''), (''-db'', ''dbname''), (''-type'', ''type''),
     (''-dbpath'', ''dbpath''), (''-host'', ''host''), (''-port'', ''port''), (''-slaves'', ''slaves'')]"

definition known_flags :: "string set" where
  "known_flags = fst ` set option_table"

definition property_of :: "string \<Rightarrow> string" where
  "property_of flag = the (map_of option_table flag)"

lemma base_flags_dash: "flag \<in> known_flags \<Longrightarrow> StrStartWith flag ''-''"
  by (auto simp: known_flags_def option_table_def StrStartWith_def)

lemma base_flags_map: "flag \<in> known_flags \<Longrightarrow> base_option flag = Some (property_of flag)"
  by (auto simp: known_flags_def property_of_def option_table_def base_option_def)

lemma base_flags_None: "base_option flag = None \<longleftrightarrow> flag \<notin> known_flags"
  by (auto simp: known_flags_def option_table_def base_option_def)

lemma length_render_opts [simp]: "length (render_opts opts) = 2 * length opts"
  by (induction opts rule: render_opts.induct) auto

lemma parse_args_known:
  "\<forall>(flag, v) \<in> set opts. flag \<in> known_flags \<Longrightarrow>
   parse_args base_option files (render_opts opts @ rest) props f =
     parse_args base_option files rest (props ++ map_of (rev (map (\<lambda>(flag, v). (property_of flag, v)) opts))) f"
proof (induction opts arbitrary: props rule: render_opts.induct)
  case (2 flag v opts)
  have k: "flag \<in> known_flags" and ks: "\<forall>(flag, v) \<in> set opts. flag \<in> known_flags" using 2(2) by auto
  have upd: "props(property_of flag \<mapsto> v) ++ map_of xs = props ++ map_of (xs @ [(property_of flag, v)])" for xs
    by (rule ext) (simp add: map_add_def split: option.split)
  show ?case
    by (simp add: base_flags_dash [OF k] base_flags_map [OF k] 2(1) [OF ks] SetProperty_def upd del: map_of_append fun_upd_apply)
qed simp

text \<open>
  C30: The options given to the benchmark come back as properties: flags with their values, in any
  number and order, set exactly the properties that the table of options gives for the flags
  (\<open>-threads\<close> sets \<open>threadcount\<close>, \<open>-db\<close> sets \<open>dbname\<close> and so on), the last value of a flag winning.
\<close>

theorem ParseCommandLine_reads_back:
  assumes "opts \<noteq> []" and "\<forall>(flag, v) \<in> set opts. flag \<in> known_flags"
  shows "ParseCommandLine files (prog # render_opts opts) =
    ret ([], map_of (rev (map (\<lambda>(flag, v). (property_of flag, v)) opts)))"
  using parse_args_known [OF assms(2), of files "[]" Map.empty "[]"] assms(1)
  by (simp add: ParseCommandLine_def parse_command_line_def)

lemma ParseCommandLine_reads_back_witness:
  "ParseCommandLine (\<lambda>_. None) [''ycsbc'', ''-db'', ''storeds'', ''-type'', ''bt-dram'', ''-type'', ''btree-dram''] =
    ret ([], [''dbname'' \<mapsto> ''storeds'', ''type'' \<mapsto> ''btree-dram''])"
proof -
  have k: "property_of ''-db'' = ''dbname''" "property_of ''-type'' = ''type''"
    by (simp_all add: property_of_def option_table_def)
  have "\<forall>(flag, v) \<in> set [(''-db'', ''storeds''), (''-type'', ''bt-dram''), (''-type'', ''btree-dram'')].
      flag \<in> known_flags"
    by (simp add: known_flags_def option_table_def)
  from ParseCommandLine_reads_back [OF _ this, of "\<lambda>_. None" "''ycsbc''"] show ?thesis
    by (simp add: k fun_upd_twist)
qed

lemma parse_args_cases:
  "(\<exists>opts rest p f'. parse_args base_option files args props f = ret (p, f', rest) \<and>
     args = render_opts opts @ rest \<and> (\<forall>(flag, v) \<in> set opts. flag \<in> insert ''-P'' known_flags)) \<or>
   (\<exists>err. parse_args base_option files args props f = crash err \<and> (''-P'' \<notin> set args \<longrightarrow> err = Exited 0))"
proof (induction args arbitrary: props f rule: induct_list012)
  case 1
  show ?case by (intro disjI1 exI [of _ "[]"]) simp
next
  case (2 a)
  show ?case
  proof (cases "StrStartWith a ''-''")
    case False
    then show ?thesis by (intro disjI1 exI [of _ "[]"] exI [of _ "[a]"]) simp
  qed simp
next
  case (3 a v args)
  have more: "?case"
    if eq: "parse_args base_option files (a # v # args) props f = parse_args base_option files args p' f'"
      and a: "a \<in> insert ''-P'' known_flags" for p' f'
    using "3.IH"(1) [of p' f']
  proof (elim disjE exE conjE)
    fix opts rest p f2
    assume "parse_args base_option files args p' f' = ret (p, f2, rest)" "args = render_opts opts @ rest"
      "\<forall>(flag, v) \<in> set opts. flag \<in> insert ''-P'' known_flags"
    with eq a show ?thesis
      by (intro disjI1 exI [of _ "(a, v) # opts"] exI [of _ rest] exI [of _ p] exI [of _ f2]) auto
  qed (use eq in auto)
  consider "\<not> StrStartWith a ''-''" | "StrStartWith a ''-''" "a \<in> known_flags"
    | "StrStartWith a ''-''" "a \<notin> known_flags" "a = ''-P''" | "StrStartWith a ''-''" "a \<notin> known_flags" "a \<noteq> ''-P''"
    by blast
  then show ?case
  proof cases
    case 1
    then show ?thesis by (intro disjI1 exI [of _ "[]"] exI [of _ "a # v # args"]) simp
  next
    case 2
    then show ?thesis by (intro more) (simp_all add: base_flags_map)
  next
    case 3
    have N: "base_option ''-P'' = None" using 3 by (simp add: base_flags_None)
    show ?thesis
    proof (cases "files v")
      case None
      with 3 N show ?thesis by (intro disjI2) (simp add: Load_def)
    next
      case (Some c)
      with 3 N show ?thesis by (intro more) (simp_all add: Load_def)
    qed
  next
    case 4
    then show ?thesis by (intro disjI2) (simp add: base_flags_None [THEN iffD2])
  qed
qed

text \<open>
  C31: Any other command line ends the program: unless the arguments are one or more known options
  with their values, \<open>ParseCommandLine\<close> does not return; without a property file it exits with
  status 0 after printing the usage.
\<close>

theorem ParseCommandLine_rejects:
  assumes "\<nexists>opts. opts \<noteq> [] \<and> args = render_opts opts \<and>
    (\<forall>(flag, v) \<in> set opts. flag \<in> insert ''-P'' known_flags)"
  shows "\<exists>err. ParseCommandLine files (prog # args) = crash err \<and> (''-P'' \<notin> set args \<longrightarrow> err = Exited 0)"
proof -
  have no: "False" if "args = render_opts opts" "opts \<noteq> []" "\<forall>(flag, v) \<in> set opts. flag \<in> insert ''-P'' known_flags"
    for opts using assms that by blast
  show ?thesis
    using parse_args_cases [of files args Map.empty "[]"]
  proof (elim disjE exE conjE)
    fix opts rest p f
    assume a: "parse_args base_option files args Map.empty [] = ret (p, f, rest)" "args = render_opts opts @ rest"
      "\<forall>(flag, v) \<in> set opts. flag \<in> insert ''-P'' known_flags"
    then have "rest \<noteq> [] \<or> opts = []" using no by auto
    with a show ?thesis by (auto simp: ParseCommandLine_def parse_command_line_def Let_def)
  qed (auto simp: ParseCommandLine_def parse_command_line_def)
qed

lemma ParseCommandLine_rejects_witness:
  "\<exists>err. ParseCommandLine (\<lambda>_. None) [''ycsbc'', ''-db'', ''storeds'', ''-type''] = crash err \<and>
    (''-P'' \<notin> set [''-db'', ''storeds'', ''-type''] \<longrightarrow> err = Exited 0)"
proof (rule ParseCommandLine_rejects)
  show "\<nexists>opts. opts \<noteq> [] \<and> [''-db'', ''storeds'', ''-type''] = render_opts opts \<and>
    (\<forall>(flag, v) \<in> set opts. flag \<in> insert ''-P'' known_flags)"
  proof
    assume "\<exists>opts. opts \<noteq> [] \<and> [''-db'', ''storeds'', ''-type''] = render_opts opts \<and>
      (\<forall>(flag, v) \<in> set opts. flag \<in> insert ''-P'' known_flags)"
    then obtain opts where "[''-db'', ''storeds'', ''-type''] = render_opts opts" by blast
    then have "length [''-db'', ''storeds'', ''-type''] = 2 * length opts" by (metis length_render_opts)
    then show False by simp presburger
  qed
qed

lemmas family_defs = array_types_def bt_types_def btree_types_def bp_types_def bplustree_types_def
  hashtable_types_def skiplist_types_def linkedlist_types_def rbtree_types_def hl_types_def

lemma family_prefix:
  "take 3 ` set (map snd array_types) = {''Arr''}"
  "take 3 ` set (map snd bt_types) = {''BTD'', ''BTP'', ''BTV''}"
  "take 3 ` set (map snd btree_types) = {''BTr''}"
  "take 3 ` set (map snd bp_types) = {''BPD'', ''BPP'', ''BPV''}"
  "take 3 ` set (map snd bplustree_types) = {''BPl''}"
  "take 3 ` set (map snd hashtable_types) = {''HtD'', ''HtP'', ''HtV''}"
  "take 3 ` set (map snd skiplist_types) = {''Ski''}"
  "take 3 ` set (map snd linkedlist_types) = {''Lin''}"
  "take 3 ` set (map snd rbtree_types) = {''Rbt''}"
  "take 3 ` set (map snd hl_types) = {''HlD'', ''HlV'', ''HlP''}"
  by (simp_all add: family_defs insert_commute)

lemma family_distinct:
  "distinct (map snd array_types)" "distinct (map snd bt_types)" "distinct (map snd btree_types)"
  "distinct (map snd bp_types)" "distinct (map snd bplustree_types)" "distinct (map snd hashtable_types)"
  "distinct (map snd skiplist_types)" "distinct (map snd linkedlist_types)" "distinct (map snd rbtree_types)"
  "distinct (map snd hl_types)"
  by (simp_all add: family_defs)

lemma image_disjoint: "f ` A \<inter> f ` B = {} \<Longrightarrow> A \<inter> B = {}"
  by blast

lemma distinct_store_types: "distinct (map snd store_types)"
  unfolding store_types_def map_append distinct_append set_append Int_Un_distrib Un_empty
  by (intro conjI family_distinct; rule image_disjoint [of "take 3"]; simp only: family_prefix; simp)

text \<open>
  The factory knows 105 type names and gives each of them a class of its own, so the type named in
  the benchmark's output identifies the store that was measured.
\<close>

lemma GetDB_one_class_per_type:
  "length store_types = 105 \<and> inj_on GetDB (fst ` set store_types) \<and> None \<notin> GetDB ` fst ` set store_types"
proof -
  have one: "t = u" if "GetDB t = Some c" "GetDB u = Some c" for t u c
  proof -
    have "(t, c) \<in> set store_types" "(u, c) \<in> set store_types"
      using that by (auto simp: GetDB_def dest: map_of_SomeD)
    with distinct_store_types show "t = u" by (metis distinct_map inj_onD snd_conv prod.inject)
  qed
  have some: "\<exists>c. GetDB t = Some c" if "t \<in> fst ` set store_types" for t
    using that by (simp add: GetDB_def map_of_eq_None_iff flip: not_None_eq)
  have "inj_on GetDB (fst ` set store_types)" by (rule inj_onI) (metis some one)
  moreover have "None \<notin> GetDB ` fst ` set store_types" using some by (metis imageE option.distinct(1))
  moreover have "length store_types = 105" by (simp add: store_types_def family_defs)
  ultimately show ?thesis by blast
qed

lemma null_ops_simps [simp]:
  "op_insert null_ops s k v = crash NullDeref"
  by (simp add: null_ops_def)

text \<open>
  \<open>StoredsDB\<close> does not check the pointer the factory returns: with a type the factory does not
  know, the self test dereferences a null pointer at its first insert instead of reporting an error.
\<close>

lemma unknown_type_faults:
  assumes "TestParseCommandLine files argv = ret (f, props)" and "props ''dbname'' = Some ''storeds''"
    and "Init e props (CoreWorkload_new (fp_ops e)) = ret wl"
    and "GetDB (GetProperty props ''type'' ''array-dram'') = None"
  shows "test_main e files open_store argv = crash NullDeref"
proof -
  obtain m where m: "MAX_VAL = Suc m" by (simp add: MAX_VAL_def)
  show ?thesis
    using assms by (simp add: test_main_def CreateDB_def props_at_def StoredsDB_new_def test_store_def m
        test_insert_def StoredsDB_Insert_def)
qed

section \<open>The barrier never opens\<close>

lemma lo_load_inv:
  assumes "lo_reachable num_threads s" and "0 < num_threads"
  shows "main_at s = LoadJoin \<and> (\<forall>t < num_threads. worker_at s t \<noteq> WDone) \<and>
    start_barrier s = card {t. t < num_threads \<and> worker_at s t = WSpin}"
  using assms
proof (induction rule: lo_reachable.induct)
  case lo_start
  then show ?case by (simp add: lo_init_def)
next
  case (lo_next s s')
  let ?spin = "\<lambda>s. {t. t < num_threads \<and> worker_at s t = WSpin}"
  have inv: "main_at s = LoadJoin" "\<forall>t < num_threads. worker_at s t \<noteq> WDone" "start_barrier s = card (?spin s)"
    using lo_next.IH lo_next.prems by simp_all
  have "card (?spin s) \<le> card {..<num_threads}" by (rule card_mono) auto
  with inv(3) have le: "start_barrier s \<le> num_threads" by simp
  from lo_next.hyps(2) show ?case
  proof (cases rule: lo_step.cases)
    case (vote t)
    have "?spin s' = insert t (?spin s)" using vote by auto
    moreover have "t \<notin> ?spin s" using vote by simp
    ultimately show ?thesis using vote inv by auto
  qed (use inv le lo_next.prems in auto)
qed

text \<open>
  C25: In the lock-overhead benchmark the load phase never ends: with at least one thread, in every
  reachable state \<open>main\<close> still waits for the loading threads, none of which has passed the start
  barrier, since the barrier opens at \<open>num_threads + 1\<close> votes and \<open>main\<close> votes in the second phase
  only.
\<close>

theorem lock_overhead_hangs:
  assumes "lo_reachable num_threads s" and "0 < num_threads"
  shows "main_at s = LoadJoin \<and> start_barrier s \<le> num_threads \<and> (\<forall>t < num_threads. worker_at s t \<noteq> WDone) \<and>
    (\<exists>s'. lo_step num_threads s s')"
proof -
  have inv: "main_at s = LoadJoin" "\<forall>t < num_threads. worker_at s t \<noteq> WDone"
      "start_barrier s = card {t. t < num_threads \<and> worker_at s t = WSpin}"
    using lo_load_inv [OF assms] by simp_all
  have "card {t. t < num_threads \<and> worker_at s t = WSpin} \<le> card {..<num_threads}" by (rule card_mono) auto
  with inv(3) have le: "start_barrier s \<le> num_threads" by simp
  have "worker_at s 0 = WVote \<or> worker_at s 0 = WSpin" using inv(2) assms(2) by (cases "worker_at s 0") auto
  then have "\<exists>s'. lo_step num_threads s s'"
    using lo_step.vote [of 0 num_threads s] lo_step.spin [of 0 num_threads s] assms(2) le by auto
  with inv le show ?thesis by blast
qed

lemma lock_overhead_hangs_witness:
  "\<exists>s. lo_reachable 1 s \<and> start_barrier s = 1 \<and> main_at s = LoadJoin \<and> (\<forall>t < (1::nat). worker_at s t \<noteq> WDone)"
proof -
  have "lo_step 1 lo_init (lo_init\<lparr>start_barrier := start_barrier lo_init + 1,
      worker_at := (worker_at lo_init)(0 := WSpin)\<rparr>)"
    by (rule lo_step.vote) (simp_all add: lo_init_def)
  from lo_next [OF lo_start this] obtain s where s: "lo_reachable 1 s" "start_barrier s = 1"
    by (auto simp: lo_init_def)
  with lock_overhead_hangs [OF s(1)] show ?thesis by auto
qed

end
