(* ===== verification/Tree_Shape.thy ===== *)
theory Tree_Shape
  imports Prelude
begin

text \<open>
  The ghost trees behind the multiway search trees. A node \<open>GT a es ts\<close> lives at address \<open>a\<close> and has
  the entries \<open>es\<close> and, unless it is a leaf, one child more than entries. The content of the tree
  is its inorder list; the lemmas cut it at a child and at a key.
\<close>

datatype 'e gtree = GT (gt_addr: nat) (gt_entries: "'e list") (gt_kids: "'e gtree list")

fun interleave :: "'a list list \<Rightarrow> 'a list \<Rightarrow> 'a list" where
  "interleave [] es = es"
| "interleave (l # ls) [] = l"
| "interleave (l # ls) (e # es) = l @ e # interleave ls es"

fun inorder :: "'e gtree \<Rightarrow> 'e list" where
  "inorder (GT a es ts) = interleave (map inorder ts) es"

fun addrs :: "'e gtree \<Rightarrow> nat list" where
  "addrs (GT a es ts) = a # concat (map addrs ts)"

abbreviation kids_addrs :: "'e gtree list \<Rightarrow> nat list" where
  "kids_addrs ts \<equiv> concat (map addrs ts)"

text \<open>All leaves at depth \<open>d\<close>, and one child more than entries above them.\<close>

fun balanced :: "nat \<Rightarrow> 'e gtree \<Rightarrow> bool" where
  "balanced 0 (GT a es ts) \<longleftrightarrow> ts = []"
| "balanced (Suc d) (GT a es ts) \<longleftrightarrow> length ts = Suc (length es) \<and> (\<forall>t \<in> set ts. balanced d t)"

definition n_entries :: "'e gtree \<Rightarrow> nat" where
  "n_entries t = length (gt_entries t)"

text \<open>Every node but the root has at least \<open>m\<close> entries.\<close>

fun min_entries :: "nat \<Rightarrow> 'e gtree \<Rightarrow> bool" where
  "min_entries m (GT a es ts) \<longleftrightarrow> (\<forall>t \<in> set ts. m \<le> n_entries t \<and> min_entries m t)"

lemma n_entries_GT [simp]: "n_entries (GT a es ts) = length es"
  by (simp add: n_entries_def)

lemma balanced_kids: "balanced (Suc d) t \<Longrightarrow> gt_kids t \<noteq> []"
  by (cases t) auto

lemma gt_addr_in [simp]: "gt_addr t \<in> set (addrs t)"
  by (cases t) simp

text \<open>The part of an interleaving before a child, and the part after it.\<close>

fun before :: "'a list list \<Rightarrow> 'a list \<Rightarrow> 'a list" where
  "before (l # ls) (e # es) = l @ e # before ls es"
| "before _ _ = []"

definition after :: "'a list list \<Rightarrow> 'a list \<Rightarrow> 'a list" where
  "after ls es = (case es of [] \<Rightarrow> [] | e # es' \<Rightarrow> e # interleave ls es')"

lemma interleave_cut:
  "length ls1 = length es1 \<Longrightarrow>
   interleave (ls1 @ l # ls2) (es1 @ es2) = before ls1 es1 @ l @ after ls2 es2"
proof (induction ls1 es1 rule: list_induct2)
  case Nil
  then show ?case by (cases es2) (simp_all add: after_def)
qed simp

lemma interleave_two:
  "length ls1 = length es1 \<Longrightarrow>
   interleave (ls1 @ l # r # ls2) (es1 @ m # es2) = before ls1 es1 @ l @ m # r @ after ls2 es2"
proof (induction ls1 es1 rule: list_induct2)
  case Nil
  then show ?case by (cases es2) (simp_all add: after_def)
qed simp

lemma before_snoc:
  "length ls = length es \<Longrightarrow> before (ls @ [l]) (es @ [e]) = before ls es @ l @ [e]"
  by (induction ls es rule: list_induct2) simp_all

lemma before_last:
  assumes "length ls = length es" and "es \<noteq> []"
  shows "\<exists>xs. before ls es = xs @ [last es]"
proof -
  obtain es' e where es: "es = es' @ [e]" using assms(2) by (metis rev_exhaust)
  then obtain ls' l where "ls = ls' @ [l]" "length ls' = length es'"
    using assms(1) by (cases ls rule: rev_cases) auto
  then show ?thesis by (auto simp: es before_snoc)
qed

lemma after_hd: "es \<noteq> [] \<Longrightarrow> \<exists>xs. after ls es = hd es # xs"
  by (cases es) (auto simp: after_def)

text \<open>Cutting the children and the entries of a node at a position.\<close>

lemma cut_node:
  assumes "length ts = Suc (length es)" and "es = es1 @ es2"
  obtains ts1 t ts2 where "ts = ts1 @ t # ts2" and "length ts1 = length es1" and "length ts2 = length es2"
proof -
  have l: "length es1 < length ts" using assms by simp
  then have "ts = take (length es1) ts @ ts ! length es1 # drop (Suc (length es1)) ts"
    by (rule id_take_nth_drop)
  moreover have "length (take (length es1) ts) = length es1" using l by simp
  moreover have "length (drop (Suc (length es1)) ts) = length es2" using assms by simp
  ultimately show thesis by (rule that)
qed

text \<open>Searching and updating within a sorted list that is cut around the key.\<close>

lemma sorted_keys_append:
  "sorted_keys (xs @ ys) \<longleftrightarrow> sorted_keys xs \<and> sorted_keys ys \<and>
     (\<forall>x \<in> fst ` set xs. \<forall>y \<in> fst ` set ys. x < y)"
  by (auto simp: sorted_wrt_append)

lemma keys_below_last:
  "sorted_keys (xs @ [e]) \<Longrightarrow> fst e < k \<Longrightarrow> x \<in> fst ` set (xs @ [e]) \<Longrightarrow> x < k"
  by (auto simp: sorted_wrt_append dest: less_trans)

lemma keys_above_hd:
  "sorted_keys (e # xs) \<Longrightarrow> k < fst e \<Longrightarrow> x \<in> fst ` set (e # xs) \<Longrightarrow> k < x"
  by (auto dest: less_trans)

lemma map_of_cut:
  fixes k :: "'k::linorder"
  assumes "\<And>x. x \<in> fst ` set xs \<Longrightarrow> x < k" and "\<And>x. x \<in> fst ` set ys \<Longrightarrow> k < x"
  shows "map_of (xs @ zs @ ys) k = map_of zs k"
proof -
  have "k \<notin> fst ` set xs" "k \<notin> fst ` set ys" using assms(1) [of k] assms(2) [of k] by blast+
  then have "map_of xs k = None" "map_of ys k = None" by (simp_all add: map_of_eq_None_iff)
  then show ?thesis by (simp add: map_add_def split: option.splits)
qed

lemma upd_assoc_cut:
  assumes "\<And>x. x \<in> fst ` set xs \<Longrightarrow> x < k" and "\<And>x. x \<in> fst ` set ys \<Longrightarrow> k < x"
  shows "upd_assoc k v (xs @ zs @ ys) = xs @ upd_assoc k v zs @ ys"
proof -
  have "upd_assoc k v (zs @ ys) = upd_assoc k v zs @ ys"
    using assms(2) by (cases "ys = []") (auto intro: upd_assoc_append_less)
  then show ?thesis using assms(1) by (simp add: upd_assoc_append_greater)
qed


lemma before_keys:
  assumes "length ls = length es" and "sorted_keys (before ls es)"
    and "es \<noteq> [] \<Longrightarrow> fst (last es) < k" and "x \<in> fst ` set (before ls es)"
  shows "x < k"
proof (cases "es = []")
  case True
  with assms(1,4) show ?thesis by simp
next
  case False
  then obtain xs where "before ls es = xs @ [last es]" using before_last assms(1) by blast
  with assms False show ?thesis using keys_below_last by metis
qed

lemma after_keys:
  assumes "sorted_keys (after ls es)" and "es \<noteq> [] \<Longrightarrow> k < fst (hd es)"
    and "x \<in> fst ` set (after ls es)"
  shows "k < x"
proof (cases "es = []")
  case True
  with assms(3) show ?thesis by (simp add: after_def)
next
  case False
  then obtain xs where "after ls es = hd es # xs" using after_hd by blast
  with assms False show ?thesis using keys_above_hd by metis
qed

text \<open>A node cut at a child: what a search and an update below it amount to at the node.\<close>

lemma inorder_cut:
  "length ts1 = length es1 \<Longrightarrow>
   inorder (GT a (es1 @ es2) (ts1 @ t # ts2)) =
     before (map inorder ts1) es1 @ inorder t @ after (map inorder ts2) es2"
  by (simp add: interleave_cut)

lemma inorder_two:
  "length ts1 = length es1 \<Longrightarrow>
   inorder (GT a (es1 @ m # es2) (ts1 @ l # r # ts2)) =
     before (map inorder ts1) es1 @ inorder l @ m # inorder r @ after (map inorder ts2) es2"
  by (simp add: interleave_two)

lemma node_cut:
  assumes "length ts1 = length es1"
    and "sorted_keys (inorder (GT a (es1 @ es2) (ts1 @ t # ts2)))"
    and "es1 \<noteq> [] \<Longrightarrow> fst (last es1) < k" and "es2 \<noteq> [] \<Longrightarrow> k < fst (hd es2)"
  shows "map_of (inorder (GT a (es1 @ es2) (ts1 @ t # ts2))) k = map_of (inorder t) k"
    and "upd_assoc k v (inorder (GT a (es1 @ es2) (ts1 @ t # ts2))) =
      before (map inorder ts1) es1 @ upd_assoc k v (inorder t) @ after (map inorder ts2) es2"
    and "sorted_keys (inorder t)"
proof -
  have s: "sorted_keys (before (map inorder ts1) es1)" "sorted_keys (after (map inorder ts2) es2)"
    "sorted_keys (inorder t)"
    using assms(2) unfolding inorder_cut [OF assms(1)] sorted_keys_append by simp_all
  have b: "x < k" if "x \<in> fst ` set (before (map inorder ts1) es1)" for x
    by (rule before_keys [OF _ s(1) assms(3) that]) (simp_all add: assms(1))
  have a: "k < x" if "x \<in> fst ` set (after (map inorder ts2) es2)" for x
    by (rule after_keys [OF s(2) assms(4) that])
  show "map_of (inorder (GT a (es1 @ es2) (ts1 @ t # ts2))) k = map_of (inorder t) k"
    unfolding inorder_cut [OF assms(1)] by (rule map_of_cut [OF b a])
  show "upd_assoc k v (inorder (GT a (es1 @ es2) (ts1 @ t # ts2))) =
      before (map inorder ts1) es1 @ upd_assoc k v (inorder t) @ after (map inorder ts2) es2"
    unfolding inorder_cut [OF assms(1)] by (rule upd_assoc_cut [OF b a])
  show "sorted_keys (inorder t)" by (rule s(3))
qed


text \<open>An entry of the node itself.\<close>

lemma set_interleave:
  "ls = [] \<or> length ls = Suc (length es) \<Longrightarrow> set (interleave ls es) = \<Union> (set ` set ls) \<union> set es"
  by (induction ls es rule: interleave.induct) auto

lemma set_inorder:
  "ts = [] \<or> length ts = Suc (length es) \<Longrightarrow>
   set (inorder (GT a es ts)) = \<Union> (set ` inorder ` set ts) \<union> set es"
  by (simp add: set_interleave)

lemma balanced_lengths: "balanced d (GT a es ts) \<Longrightarrow> ts = [] \<or> length ts = Suc (length es)"
  by (cases d) auto

lemma node_hit:
  assumes "balanced d (GT a (es1 @ e # es2) ts)" and "sorted_keys (inorder (GT a (es1 @ e # es2) ts))"
  shows "map_of (inorder (GT a (es1 @ e # es2) ts)) (fst e) = Some (snd e)"
proof -
  have "e \<in> set (inorder (GT a (es1 @ e # es2) ts))"
    using set_inorder [OF balanced_lengths [OF assms(1)]] by simp
  then show ?thesis using sorted_keys_distinct [OF assms(2)] by (simp add: map_of_is_SomeI)
qed

lemma leaf_miss:
  assumes "sorted_keys (es1 @ es2)"
    and "es1 \<noteq> [] \<Longrightarrow> fst (last es1) < k" and "es2 \<noteq> [] \<Longrightarrow> k < fst (hd es2)"
  shows "map_of (es1 @ es2) k = None" and "upd_assoc k v (es1 @ es2) = es1 @ (k, v) # es2"
proof -
  have b: "x < k" if "x \<in> fst ` set es1" for x
  proof (cases es1 rule: rev_cases)
    case (snoc xs e)
    with assms that keys_below_last [of xs e k x] show ?thesis by (simp add: sorted_wrt_append)
  qed (use that in simp)
  have a: "k < x" if "x \<in> fst ` set es2" for x
  proof (cases es2)
    case (Cons e xs)
    with assms that keys_above_hd [of e xs k x] show ?thesis by (simp add: sorted_wrt_append)
  qed (use that in simp)
  show "map_of (es1 @ es2) k = None"
    using map_of_cut [of es1 k es2 "[]", OF b a] by simp
  show "upd_assoc k v (es1 @ es2) = es1 @ (k, v) # es2"
    using upd_assoc_cut [of es1 k es2 v "[]", OF b a] by simp
qed


text \<open>Replacing the value of an entry of the node.\<close>

lemma before_append:
  "length ls1 = length es1 \<Longrightarrow> before (ls1 @ ls2) (es1 @ es2) = before ls1 es1 @ before ls2 es2"
  by (induction ls1 es1 rule: list_induct2) simp_all

lemma upd_assoc_hit:
  assumes "sorted_keys (xs @ (k, w) # ys)"
  shows "upd_assoc k v (xs @ (k, w) # ys) = xs @ (k, v) # ys"
proof -
  have "x < k" if "x \<in> fst ` set xs" for x
    using assms that by (auto simp: sorted_wrt_append)
  then show ?thesis by (simp add: upd_assoc_append_greater)
qed

lemma node_set_value:
  assumes "balanced d (GT a (es1 @ (k, w) # es2) ts)"
    and "sorted_keys (inorder (GT a (es1 @ (k, w) # es2) ts))"
  shows "inorder (GT a (es1 @ (k, v) # es2) ts) = upd_assoc k v (inorder (GT a (es1 @ (k, w) # es2) ts))"
proof (cases d)
  case 0
  then show ?thesis using assms upd_assoc_hit [of es1 k w es2 v] by simp
next
  case (Suc d')
  then have "length ts = Suc (length (es1 @ (k, w) # es2))" using assms(1) by simp
  then obtain ts1 c ts2 where ts: "ts = ts1 @ c # ts2" "length ts1 = length es1"
      "length ts2 = length ((k, w) # es2)"
    using cut_node [OF _ refl] by metis
  have i: "inorder (GT a (es1 @ (k, x) # es2) ts) =
      (before (map inorder ts1) es1 @ inorder c) @ (k, x) # interleave (map inorder ts2) es2" for x
    unfolding ts(1) inorder_cut [OF ts(2)] by (simp add: after_def)
  show ?thesis using assms(2) unfolding i by (intro upd_assoc_hit [symmetric])
qed


text \<open>The two halves of a node that is cut at an entry.\<close>

lemma inorder_halves:
  assumes "lt = [] \<and> rt = [] \<or> length lt = Suc (length le) \<and> length rt = Suc (length re)"
  shows "inorder (GT a (le @ m # re) (lt @ rt)) = inorder (GT a le lt) @ m # inorder (GT b re rt)"
proof (cases "lt = []")
  case False
  then obtain lt' t r rs where lt: "lt = lt' @ [t]" "length lt' = length le" "rt = r # rs"
    using assms by (cases lt rule: rev_cases; cases rt) auto
  then show ?thesis
    using interleave_two [of "map inorder lt'" le "inorder t" "inorder r" "map inorder rs" m re]
      interleave_cut [of "map inorder lt'" le "inorder t" "[]" "[]"]
      interleave_cut [of "[]" "[]" "inorder r" "map inorder rs" re]
    by (simp add: after_def)
qed (use assms in simp)

text \<open>The halves of an array prefix.\<close>

lemma take_prefix: "take (length xs + n) A = B @ C \<Longrightarrow> length B = length xs \<Longrightarrow> take (length xs) A = B"
  by (metis append_eq_conv_conj take_take min.absorb1 le_add1)

lemma take_middle:
  "take (k + n) A = B @ C \<Longrightarrow> length B = k \<Longrightarrow> take n (drop k A) = C"
  by (metis append_eq_conv_conj take_drop add.commute)

lemma take_replicate_upd: "0 < n \<Longrightarrow> take (Suc 0) ((replicate n x)[0 := y]) = [y]"
  by (cases n) simp_all

end
