(* ===== verification/B_Tree.thy ===== *)
theory B_Tree
  imports Storeds_DB Tree_Shape
begin

text \<open>
  \<^verbatim>\<open>src/storeds/btree/btree_dram.cc\<close>: a B-tree of minimum degree \<open>BTREE_MIN_DEGREE\<close>, its nodes
  on an explicit heap with the arrays of the struct (an unwritten slot is \<open>None\<close>). A ghost tree
  that carries the address of each node says what the heap represents; the lemmas show that every
  operation works on it as on a sorted association list, keeps all leaves at one depth and the
  number of keys within the bounds, and touches no node outside the tree.
\<close>

section \<open>State\<close>

definition BTREE_MIN_DEGREE :: nat where "BTREE_MIN_DEGREE = 9"
definition BTREE_MAX_KEYS :: nat where "BTREE_MAX_KEYS = 2 * BTREE_MIN_DEGREE - 1"
definition BTREE_MAX_CHILDREN :: nat where "BTREE_MAX_CHILDREN = 2 * BTREE_MIN_DEGREE"
definition LEAF_NODE_TRUE_FLAG :: int where "LEAF_NODE_TRUE_FLAG = 1"
definition LEAF_NODE_FALSE_FLAG :: int where "LEAF_NODE_FALSE_FLAG = 0"

lemmas btree_consts = BTREE_MIN_DEGREE_def BTREE_MAX_KEYS_def BTREE_MAX_CHILDREN_def
  LEAF_NODE_TRUE_FLAG_def LEAF_NODE_FALSE_FLAG_def

record entry =
  ent_key :: u64
  ent_value :: string

record btree_dram_node =
  is_leaf :: int
  nk :: nat
  entries :: "entry option list"
  children :: "ptr option list"

record btree_dram =
  bt_heap :: "btree_dram_node heap"
  bt_root :: ptr

section \<open>Operations\<close>

definition bt_check :: "btree_dram \<Rightarrow> unit comp" where
  "bt_check s = assertC (bt_root s \<noteq> NULL)"

definition bt_is_node_full :: "nat \<Rightarrow> int" where
  "bt_is_node_full n = (if n = BTREE_MAX_KEYS then 1 else 0)"

definition bt_init :: btree_dram where
  "bt_init = \<lparr>bt_heap = empty_heap, bt_root = NULL\<rparr>"

definition bt_create_node :: "int \<Rightarrow> btree_dram_node heap \<Rightarrow> ptr \<times> btree_dram_node heap" where
  "bt_create_node leaf h = malloc h
     \<lparr>is_leaf = leaf, nk = 0, entries = replicate BTREE_MAX_KEYS None,
      children = replicate BTREE_MAX_CHILDREN None\<rparr>"

definition bt_scan :: "btree_dram \<Rightarrow> u64 \<Rightarrow> int \<Rightarrow> scan_result \<Rightarrow> (int \<times> scan_result) comp" where
  "bt_scan s key len result = crash (Thrown ''Scan: function not implemented!'')"

text \<open>\<open>while (i < nk && key > entries[i].key) i += 1;\<close>\<close>

function bt_find_index :: "entry option list \<Rightarrow> nat \<Rightarrow> u64 \<Rightarrow> nat \<Rightarrow> nat comp" where
  "bt_find_index es n key i =
     (if i < n
      then bindC (read_slot es i) (\<lambda>e.
             if key > ent_key e then bt_find_index es n key (i + 1) else ret i)
      else ret i)"
  by auto
termination by (relation "measure (\<lambda>(es, n, key, i). n - i)") auto

declare bt_find_index.simps [simp del]

text \<open>\<open>i < nk && key == entries[i].key\<close>\<close>

definition bt_key_at :: "btree_dram_node \<Rightarrow> u64 \<Rightarrow> nat \<Rightarrow> bool comp" where
  "bt_key_at n key i =
     (if i < nk n then bindC (read_slot (entries n) i) (\<lambda>e. ret (key = ent_key e)) else ret False)"

partial_function (option) bt_search ::
  "btree_dram_node heap \<Rightarrow> ptr \<Rightarrow> u64 \<Rightarrow> string option comp" where
  "bt_search h current_node key =
     bindC (load h current_node) (\<lambda>n.
     bindC (bt_find_index (entries n) (nk n) key 0) (\<lambda>i.
     bindC (bt_key_at n key i) (\<lambda>found.
       if found then bindC (read_slot (entries n) i) (\<lambda>e. ret (Some (ent_value e)))
       else if is_leaf n \<noteq> 0 then ret None
       else bindC (read_slot (children n) i) (\<lambda>c. bt_search h c key))))"

definition bt_read :: "btree_dram \<Rightarrow> u64 \<Rightarrow> outp \<Rightarrow> (int \<times> outp) comp" where
  "bt_read s key result =
     bindC (bt_check s) (\<lambda>_.
     bindC (bt_search (bt_heap s) (bt_root s) key) (\<lambda>r.
       ret (1, case r of None \<Rightarrow> NullP | Some v \<Rightarrow> StrP v)))"

definition bt_split_node ::
  "nat \<Rightarrow> ptr \<Rightarrow> ptr \<Rightarrow> btree_dram_node heap \<Rightarrow> btree_dram_node heap comp" where
  "bt_split_node idx parent child h =
     bindC (load h child) (\<lambda>c.
     let (sibling, h) = bt_create_node (is_leaf c) h in
     bindC (load h sibling) (\<lambda>sb.
     bindC (copy_loop (entries c) BTREE_MIN_DEGREE 0 (BTREE_MIN_DEGREE - 1) (entries sb)) (\<lambda>ses.
     bindC (if is_leaf c = LEAF_NODE_FALSE_FLAG
            then copy_loop (children c) BTREE_MIN_DEGREE 0 BTREE_MIN_DEGREE (children sb)
            else ret (children sb)) (\<lambda>scs.
     bindC (store h sibling (sb\<lparr>nk := BTREE_MIN_DEGREE - 1, entries := ses, children := scs\<rparr>)) (\<lambda>h.
     bindC (store h child (c\<lparr>nk := BTREE_MIN_DEGREE - 1\<rparr>)) (\<lambda>h.
     bindC (load h parent) (\<lambda>p.
     bindC (shift_loop (idx + 1) (nk p - idx) (children p)) (\<lambda>pcs.
     bindC (write_arr pcs (idx + 1) (Some sibling)) (\<lambda>pcs.
     bindC (shift_loop idx (nk p - idx) (entries p)) (\<lambda>pes.
     bindC (read_arr (entries c) (BTREE_MIN_DEGREE - 1)) (\<lambda>middle.
     bindC (write_arr pes idx middle) (\<lambda>pes.
       store h parent (p\<lparr>nk := nk p + 1, entries := pes, children := pcs\<rparr>)))))))))))))"

text \<open>
  The two downward loops of \<open>insert_not_full\<close>, over \<open>j = i + 1\<close>: one shifts the entries greater
  than the key, the other only skips them.
\<close>

fun bt_shift_greater ::
  "u64 \<Rightarrow> nat \<Rightarrow> entry option list \<Rightarrow> (nat \<times> entry option list) comp" where
  "bt_shift_greater key 0 es = ret (0, es)"
| "bt_shift_greater key (Suc i) es =
     bindC (read_slot es i) (\<lambda>e.
       if ent_key e > key
       then bindC (write_arr es (i + 1) (Some e)) (\<lambda>es'. bt_shift_greater key i es')
       else ret (Suc i, es))"

fun bt_skip_greater :: "u64 \<Rightarrow> nat \<Rightarrow> entry option list \<Rightarrow> nat comp" where
  "bt_skip_greater key 0 es = ret 0"
| "bt_skip_greater key (Suc i) es =
     bindC (read_slot es i) (\<lambda>e. if ent_key e > key then bt_skip_greater key i es else ret (Suc i))"

partial_function (option) bt_insert_not_full ::
  "btree_dram_node heap \<Rightarrow> ptr \<Rightarrow> u64 \<Rightarrow> string \<Rightarrow> btree_dram_node heap comp" where
  "bt_insert_not_full h node key value =
     bindC (load h node) (\<lambda>n.
     if is_leaf n \<noteq> 0
     then bindC (bt_shift_greater key (nk n) (entries n)) (\<lambda>(j, es).
          bindC (copy_value value) (\<lambda>v.
          bindC (write_arr es j (Some \<lparr>ent_key = key, ent_value = v\<rparr>)) (\<lambda>es.
            store h node (n\<lparr>entries := es, nk := nk n + 1\<rparr>))))
     else bindC (bt_skip_greater key (nk n) (entries n)) (\<lambda>j.
          bindC (read_slot (children n) j) (\<lambda>c.
          bindC (load h c) (\<lambda>cn.
          if bt_is_node_full (nk cn) \<noteq> 0
          then bindC (bt_split_node j node c h) (\<lambda>h.
               bindC (load h node) (\<lambda>n.
               bindC (read_slot (entries n) j) (\<lambda>e.
               bindC (read_slot (children n) (if ent_key e < key then j + 1 else j)) (\<lambda>c.
                 bt_insert_not_full h c key value))))
          else bt_insert_not_full h c key value))))"

partial_function (option) bt_update_if_found ::
  "btree_dram_node heap \<Rightarrow> ptr \<Rightarrow> u64 \<Rightarrow> string \<Rightarrow> (bool \<times> btree_dram_node heap) comp" where
  "bt_update_if_found h current_node key value =
     bindC (load h current_node) (\<lambda>n.
     bindC (bt_find_index (entries n) (nk n) key 0) (\<lambda>i.
     bindC (bt_key_at n key i) (\<lambda>found.
       if found
       then bindC (read_slot (entries n) i) (\<lambda>e.
            bindC (copy_value value) (\<lambda>v.
            bindC (write_arr (entries n) i (Some (e\<lparr>ent_value := v\<rparr>))) (\<lambda>es.
            bindC (store h current_node (n\<lparr>entries := es\<rparr>)) (\<lambda>h. ret (True, h)))))
       else if is_leaf n \<noteq> 0 then ret (False, h)
       else bindC (read_slot (children n) i) (\<lambda>c. bt_update_if_found h c key value))))"

definition bt_insert :: "btree_dram \<Rightarrow> u64 \<Rightarrow> string \<Rightarrow> (int \<times> btree_dram) comp" where
  "bt_insert s key value =
     (if bt_root s = NULL
      then let (root, h) = bt_create_node LEAF_NODE_TRUE_FLAG (bt_heap s) in
           bindC (load h root) (\<lambda>n.
           bindC (copy_value value) (\<lambda>v.
           bindC (write_arr (entries n) 0 (Some \<lparr>ent_key = key, ent_value = v\<rparr>)) (\<lambda>es.
           bindC (store h root (n\<lparr>entries := es, nk := 1\<rparr>)) (\<lambda>h.
             ret (1, s\<lparr>bt_heap := h, bt_root := root\<rparr>)))))
      else bindC (bt_update_if_found (bt_heap s) (bt_root s) key value) (\<lambda>(is_updated, h).
           if is_updated then ret (1, s\<lparr>bt_heap := h\<rparr>)
           else bindC (load h (bt_root s)) (\<lambda>r.
             if bt_is_node_full (nk r) \<noteq> 0
             then let (new_root, h) = bt_create_node LEAF_NODE_FALSE_FLAG h in
                  bindC (load h new_root) (\<lambda>n.
                  bindC (write_arr (children n) 0 (Some (bt_root s))) (\<lambda>cs.
                  bindC (store h new_root (n\<lparr>children := cs\<rparr>)) (\<lambda>h.
                  bindC (bt_split_node 0 new_root (bt_root s) h) (\<lambda>h.
                  bindC (load h new_root) (\<lambda>n.
                  bindC (read_slot (entries n) 0) (\<lambda>e.
                  bindC (read_slot (children n) (if ent_key e < key then 1 else 0)) (\<lambda>c.
                  bindC (bt_insert_not_full h c key value) (\<lambda>h.
                    ret (1, s\<lparr>bt_heap := h, bt_root := new_root\<rparr>)))))))))
             else bindC (bt_insert_not_full h (bt_root s) key value) (\<lambda>h.
                    ret (1, s\<lparr>bt_heap := h\<rparr>)))))"

definition bt_update :: "btree_dram \<Rightarrow> u64 \<Rightarrow> string \<Rightarrow> (int \<times> btree_dram) comp" where
  "bt_update s key value = bindC (bt_check s) (\<lambda>_. bt_insert s key value)"

partial_function (option) bt_recursive_free ::
  "ptr \<Rightarrow> btree_dram_node heap \<Rightarrow> btree_dram_node heap comp" where
  "bt_recursive_free current_node h =
     bindC (load h current_node) (\<lambda>n.
     if is_leaf n \<noteq> 0 then cfree h current_node
     else bindC (for_loop 0 (nk n + 1) (\<lambda>i h.
            bindC (load h current_node) (\<lambda>n.
            bindC (read_slot (children n) i) (\<lambda>c. bt_recursive_free c h))) h) (\<lambda>h.
          cfree h current_node))"

definition bt_destroy :: "btree_dram \<Rightarrow> btree_dram comp" where
  "bt_destroy s =
     bindC (bt_check s) (\<lambda>_.
     bindC (bt_recursive_free (bt_root s) (bt_heap s)) (\<lambda>h.
       ret (s\<lparr>bt_heap := h, bt_root := NULL\<rparr>)))"


section \<open>What the heap represents\<close>

type_synonym bt_tree = "(u64 \<times> string) gtree"

definition slot :: "u64 \<times> string \<Rightarrow> entry option" where
  "slot e = Some \<lparr>ent_key = fst e, ent_value = snd e\<rparr>"

text \<open>\<open>bt_node n es ts\<close>: the node record \<open>n\<close> holds the entries \<open>es\<close> and points to the trees \<open>ts\<close>.\<close>

definition bt_node :: "btree_dram_node \<Rightarrow> (u64 \<times> string) list \<Rightarrow> bt_tree list \<Rightarrow> bool" where
  "bt_node n es ts \<longleftrightarrow>
     nk n = length es \<and> length es \<le> BTREE_MAX_KEYS \<and>
     length (entries n) = BTREE_MAX_KEYS \<and> take (length es) (entries n) = map slot es \<and>
     length (children n) = BTREE_MAX_CHILDREN \<and>
     (if ts = [] then is_leaf n = LEAF_NODE_TRUE_FLAG
      else is_leaf n = LEAF_NODE_FALSE_FLAG \<and> length ts = Suc (length es) \<and>
        take (Suc (length es)) (children n) = map (\<lambda>t. Some (Some (gt_addr t))) ts)"

fun bt_tree :: "(nat \<rightharpoonup> btree_dram_node) \<Rightarrow> bt_tree \<Rightarrow> bool" where
  "bt_tree M (GT a es ts) \<longleftrightarrow>
     (\<exists>n. M a = Some n \<and> bt_node n es ts) \<and> (\<forall>t \<in> set ts. bt_tree M t)"

lemma bt_tree_agree:
  "(\<And>a. a \<in> set (addrs t) \<Longrightarrow> M' a = M a) \<Longrightarrow> bt_tree M t \<Longrightarrow> bt_tree M' t"
  by (induction M t rule: bt_tree.induct) auto

lemma bt_node_entry:
  "bt_node n es ts \<Longrightarrow> i < length es \<Longrightarrow>
   i < length (entries n) \<and> entries n ! i = slot (es ! i)"
proof -
  assume n: "bt_node n es ts" and i: "i < length es"
  then have "entries n ! i = take (length es) (entries n) ! i" by simp
  with n i show ?thesis by (simp add: bt_node_def)
qed

lemma bt_node_slot [simp]:
  "bt_node n es ts \<Longrightarrow> i < length es \<Longrightarrow>
   read_slot (entries n) i = ret \<lparr>ent_key = fst (es ! i), ent_value = snd (es ! i)\<rparr>"
  using bt_node_entry [of n es ts i] by (simp add: slot_def)

lemma bt_node_child:
  "bt_node n es (ts1 @ t # ts2) \<Longrightarrow> read_slot (children n) (length ts1) = ret (Some (gt_addr t))"
proof -
  assume n: "bt_node n es (ts1 @ t # ts2)"
  let ?ts = "ts1 @ t # ts2"
  have cs: "take (Suc (length es)) (children n) = map (\<lambda>t. Some (Some (gt_addr t))) ?ts"
    and l: "length ?ts = Suc (length es)" "Suc (length es) \<le> length (children n)"
    using n by (auto simp: bt_node_def btree_consts)
  have i: "length ts1 < Suc (length es)" using l(1) by simp
  have "children n ! length ts1 = take (Suc (length es)) (children n) ! length ts1"
    using i by simp
  also have "\<dots> = Some (Some (gt_addr t))" unfolding cs by (simp add: nth_append)
  finally show ?thesis using i l(2) by simp
qed

section \<open>Searching within a node\<close>

lemma bt_find_index_from:
  assumes n: "bt_node n es ts"
  shows "es = es1 @ es2 \<Longrightarrow> es2 = xs @ ys \<Longrightarrow> (\<And>e. e \<in> set xs \<Longrightarrow> fst e < k) \<Longrightarrow>
    (ys \<noteq> [] \<Longrightarrow> \<not> fst (hd ys) < k) \<Longrightarrow>
    bt_find_index (entries n) (length es) k (length es1) = ret (length es1 + length xs)"
proof (induction xs arbitrary: es1 es2)
  case Nil
  show ?case
  proof (cases ys)
    case Nil
    with Nil.prems show ?thesis by (subst bt_find_index.simps) simp
  next
    case (Cons y ys')
    with Nil.prems have "es ! length es1 = y" "length es1 < length es" by (auto simp: nth_append)
    with Cons Nil.prems(4) bt_node_slot [OF n] show ?thesis by (subst bt_find_index.simps) auto
  qed
next
  case (Cons x xs)
  then have "es ! length es1 = x" "length es1 < length es" "fst x < k" by (auto simp: nth_append)
  moreover have "bt_find_index (entries n) (length es) k (length (es1 @ [x])) =
      ret (length (es1 @ [x]) + length xs)"
    by (rule Cons.IH [of _ "xs @ ys"]) (use Cons.prems in auto)
  ultimately show ?case using bt_node_slot [OF n] by (subst bt_find_index.simps) auto
qed

lemma bt_find_index_cut:
  assumes n: "bt_node n es ts"
  obtains es1 es2 where "es = es1 @ es2" and
    "bt_find_index (entries n) (nk n) k 0 = ret (length es1)" and
    "es1 \<noteq> [] \<Longrightarrow> fst (last es1) < k" and "es2 \<noteq> [] \<Longrightarrow> \<not> fst (hd es2) < k"
proof -
  let ?xs = "takeWhile (\<lambda>e. fst e < k) es" and ?ys = "dropWhile (\<lambda>e. fst e < k) es"
  have "nk n = length es" using n by (simp add: bt_node_def)
  moreover have "bt_find_index (entries n) (length es) k (length ([] :: (u64 \<times> string) list)) =
      ret (length ([] :: (u64 \<times> string) list) + length ?xs)"
    by (rule bt_find_index_from [OF n, of "[]" es ?xs ?ys])
       (use hd_dropWhile [of "\<lambda>e. fst e < k" es] in \<open>auto dest: set_takeWhileD\<close>)
  ultimately show thesis
    using hd_dropWhile [of "\<lambda>e. fst e < k" es]
    by (intro that [of ?xs ?ys]) (auto dest: set_takeWhileD last_in_set)
qed

lemma bt_key_at_cut:
  assumes "bt_node n (es1 @ es2) ts" and "es2 \<noteq> [] \<Longrightarrow> \<not> fst (hd es2) < k"
  shows "bt_key_at n k (length es1) = ret (es2 \<noteq> [] \<and> fst (hd es2) = k)"
proof (cases es2)
  case Nil
  with assms show ?thesis by (simp add: bt_key_at_def bt_node_def)
next
  case (Cons e es)
  with bt_node_slot [OF assms(1), of "length es1"] assms(1) show ?thesis
    by (auto simp: bt_key_at_def bt_node_def)
qed

lemma bt_search_tree:
  "bt_tree (mem h) t \<Longrightarrow> balanced d t \<Longrightarrow> sorted_keys (inorder t) \<Longrightarrow>
   bt_search h (Some (gt_addr t)) k = ret (map_of (inorder t) k)"
proof (induction d arbitrary: t rule: less_induct)
  case (less d)
  note bal = less.prems(2) and so = less.prems(3)
  from less.prems(1)
  obtain a es ts n where t: "t = GT a es ts" and n: "mem h a = Some n" "bt_node n es ts"
      and ts: "\<forall>t \<in> set ts. bt_tree (mem h) t"
    by (cases t) auto
  obtain es1 es2 where es: "es = es1 @ es2"
      and i: "bt_find_index (entries n) (nk n) k 0 = ret (length es1)"
      and k: "es1 \<noteq> [] \<Longrightarrow> fst (last es1) < k" "es2 \<noteq> [] \<Longrightarrow> \<not> fst (hd es2) < k"
    using bt_find_index_cut [OF n(2)] by metis
  note at = bt_key_at_cut [OF n(2) [unfolded es] k(2)]
  show ?case
  proof (cases "es2 \<noteq> [] \<and> fst (hd es2) = k")
    case True
    then obtain e es' where e: "es2 = e # es'" "fst e = k" by (cases es2) auto
    have "map_of (inorder t) k = Some (snd e)"
      using node_hit bal so unfolding t es e(1) e(2) [symmetric] by blast
    then show ?thesis
      using t es e n i at bt_node_slot [OF n(2), of "length es1"]
      by (subst bt_search.simps) simp
  next
    case False
    then have k2: "es2 \<noteq> [] \<Longrightarrow> k < fst (hd es2)" using k(2) by fastforce
    show ?thesis
    proof (cases d)
      case 0
      then have l: "ts = []" using bal t by simp
      then have "map_of (inorder t) k = None"
        using leaf_miss(1) [OF _ k(1) k2] so t es by simp
      moreover have "is_leaf n \<noteq> 0" using n(2) l by (simp add: bt_node_def btree_consts)
      ultimately show ?thesis
        using t n i at False by (subst bt_search.simps) auto
    next
      case (Suc d')
      then have "length ts = Suc (length es)" using bal t by simp
      then obtain ts1 c ts2 where c: "ts = ts1 @ c # ts2" "length ts1 = length es1"
        using cut_node [OF _ es] by metis
      have "bt_search h (Some (gt_addr c)) k = ret (map_of (inorder c) k)"
        using less.IH [of d' c] ts bal so t Suc node_cut(3) [OF c(2) _ k(1) k2] unfolding c es by simp
      moreover have "map_of (inorder t) k = map_of (inorder c) k"
        using node_cut(1) [OF c(2) _ k(1) k2] so unfolding t c es by blast
      moreover have "is_leaf n = 0" using n(2) c by (simp add: bt_node_def btree_consts)
      ultimately show ?thesis
        using t n i at False bt_node_child [OF n(2) [unfolded c(1)]] c(2)
        by (subst bt_search.simps) simp
    qed
  qed
qed


section \<open>Steps on a subtree\<close>

text \<open>
  \<open>bt_sub h d t\<close>: the heap holds \<open>t\<close>, a well-formed subtree of height \<open>d\<close>. \<open>bt_step h t h' t' d\<close>:
  an operation turned it into \<open>t'\<close>, rooted at the same address, writing only its nodes and fresh
  ones.
\<close>

definition bt_sub :: "btree_dram_node heap \<Rightarrow> nat \<Rightarrow> bt_tree \<Rightarrow> bool" where
  "bt_sub h d t \<longleftrightarrow> bt_tree (mem h) t \<and> balanced d t \<and> min_entries (BTREE_MIN_DEGREE - 1) t \<and>
     distinct (addrs t) \<and> (\<forall>a \<in> set (addrs t). a < brk h)"

definition bt_step ::
  "btree_dram_node heap \<Rightarrow> bt_tree \<Rightarrow> btree_dram_node heap \<Rightarrow> bt_tree \<Rightarrow> nat \<Rightarrow> bool" where
  "bt_step h t h' t' d \<longleftrightarrow> bt_sub h' d t' \<and> heap_ok h' \<and> brk h \<le> brk h' \<and>
     gt_addr t' = gt_addr t \<and> n_entries t \<le> n_entries t' \<and>
     set (addrs t') \<subseteq> set (addrs t) \<union> {brk h..<brk h'} \<and>
     (\<forall>a. a < brk h \<longrightarrow> a \<notin> set (addrs t) \<longrightarrow> mem h' a = mem h a)"

lemma bt_step_trans:
  assumes 1: "bt_step h t h1 t1 d" and 2: "bt_step h1 t1 h2 t2 d"
  shows "bt_step h t h2 t2 d"
proof -
  have "mem h2 a = mem h a" if "a < brk h" "a \<notin> set (addrs t)" for a
  proof -
    have "a \<notin> set (addrs t1)" "a < brk h1" using 1 that unfolding bt_step_def by auto
    then show ?thesis using 1 2 that unfolding bt_step_def by simp
  qed
  moreover have "set (addrs t2) \<subseteq> set (addrs t) \<union> {brk h..<brk h2}"
    using 1 2 unfolding bt_step_def by fastforce
  ultimately show ?thesis using 1 2 unfolding bt_step_def by simp
qed

lemma bt_sub_kid:
  "bt_sub h (Suc d) (GT a es (ts1 @ c # ts2)) \<Longrightarrow> bt_sub h d c"
  by (auto simp: bt_sub_def)

lemma bt_step_kid:
  assumes h: "bt_sub h (Suc d) (GT a es (ts1 @ c # ts2))" and st: "bt_step h c h' c' d"
  shows "bt_step h (GT a es (ts1 @ c # ts2)) h' (GT a es (ts1 @ c' # ts2)) (Suc d)"
proof -
  let ?t = "GT a es (ts1 @ c # ts2)" and ?t' = "GT a es (ts1 @ c' # ts2)"
  have old: "x < brk h" if "x \<in> set (addrs ?t)" for x using h that unfolding bt_sub_def by blast
  have sub: "set (addrs c') \<subseteq> set (addrs c) \<union> {brk h..<brk h'}"
    and fr: "\<And>x. x < brk h \<Longrightarrow> x \<notin> set (addrs c) \<Longrightarrow> mem h' x = mem h x"
    and br: "brk h \<le> brk h'" and ad: "gt_addr c' = gt_addr c"
    and n: "n_entries c \<le> n_entries c'" and ok: "heap_ok h'"
    and c': "bt_tree (mem h') c'" "balanced d c'" "min_entries (BTREE_MIN_DEGREE - 1) c'" "distinct (addrs c')"
      "\<forall>x \<in> set (addrs c'). x < brk h'"
    using st by (auto simp: bt_step_def bt_sub_def)
  have dis: "distinct (a # kids_addrs ts1 @ addrs c @ kids_addrs ts2)" using h by (simp add: bt_sub_def)
  have same: "mem h' x = mem h x" if "x \<in> set (a # kids_addrs ts1 @ kids_addrs ts2)" for x
  proof -
    have "x \<notin> set (addrs c)" using that dis by auto
    moreover have "x < brk h" using old [of x] that by auto
    ultimately show ?thesis by (simp add: fr)
  qed
  have new: "x \<notin> set (addrs c')" if "x \<in> set (a # kids_addrs ts1 @ kids_addrs ts2)" for x
  proof -
    have "x \<notin> set (addrs c)" using that dis by auto
    moreover have "x < brk h" using old [of x] that by auto
    ultimately show ?thesis using sub by auto
  qed
  have "bt_tree (mem h') t" if "t \<in> set (ts1 @ ts2)" for t
  proof (rule bt_tree_agree)
    show "bt_tree (mem h) t" using h that by (auto simp: bt_sub_def)
    show "mem h' x = mem h x" if "x \<in> set (addrs t)" for x
      using same [of x] that \<open>t \<in> set (ts1 @ ts2)\<close> by auto
  qed
  moreover obtain n where "mem h a = Some n" "bt_node n es (ts1 @ c # ts2)"
    using h by (auto simp: bt_sub_def)
  moreover from this(2) have "bt_node n es (ts1 @ c' # ts2)" by (simp add: bt_node_def ad)
  ultimately have "bt_tree (mem h') ?t'" using same [of a] c'(1) by auto
  moreover have "distinct (addrs ?t')" using dis new c'(4) by auto
  moreover have "x < brk h'" if "x \<in> set (addrs ?t')" for x
  proof -
    have "x \<in> set (addrs c') \<or> x \<in> set (addrs ?t)" using that by auto
    then show ?thesis using c'(5) old [of x] br by (auto dest: less_le_trans)
  qed
  moreover have "balanced (Suc d) ?t'" "min_entries (BTREE_MIN_DEGREE - 1) ?t'"
    using h c' n by (auto simp: bt_sub_def)
  ultimately show ?thesis
    using br ok sub fr by (auto simp: bt_step_def bt_sub_def)
qed

text \<open>Rewriting one node without moving its links.\<close>

lemma bt_step_node:
  assumes h: "bt_sub h d (GT a es ts)" and ok: "heap_ok h" and n: "bt_node n es' ts"
    and l: "length es' = length es \<or> ts = []" "length es \<le> length es'"
  shows "bt_step h (GT a es ts) (h\<lparr>mem := (mem h)(a \<mapsto> n)\<rparr>) (GT a es' ts) d"
proof -
  let ?h = "h\<lparr>mem := (mem h)(a \<mapsto> n)\<rparr>"
  have "bt_tree (mem ?h) t" if "t \<in> set ts" for t
  proof (rule bt_tree_agree)
    show "bt_tree (mem h) t" using h that by (auto simp: bt_sub_def)
    show "mem ?h x = mem h x" if "x \<in> set (addrs t)" for x
      using h that \<open>t \<in> set ts\<close> by (auto simp: bt_sub_def)
  qed
  moreover have "balanced d (GT a es' ts)" using h l(1) by (cases d) (auto simp: bt_sub_def)
  ultimately show ?thesis
    using h ok n l(2) by (auto simp: bt_step_def bt_sub_def intro: heap_ok_upd)
qed

section \<open>Updating a key that is present\<close>

lemma bt_node_entries:
  "bt_node n es ts \<Longrightarrow> length es' = length es \<Longrightarrow> length E = BTREE_MAX_KEYS \<Longrightarrow>
   take (length es') E = map slot es' \<Longrightarrow> bt_node (n\<lparr>entries := E\<rparr>) es' ts"
  by (cases "ts = []") (simp_all add: bt_node_def)

lemma bt_node_set_value:
  assumes "bt_node n (es1 @ e # es2) ts"
  shows "bt_node (n\<lparr>entries := (entries n)[length es1 := slot (fst e, v)]\<rparr>) (es1 @ (fst e, v) # es2) ts"
proof -
  let ?i = "length es1" and ?es = "es1 @ e # es2"
  have "take (length ?es) ((entries n)[?i := slot (fst e, v)]) =
      (map slot ?es)[?i := slot (fst e, v)]"
    using assms by (simp only: bt_node_def take_update_swap)
  also have "\<dots> = map slot (es1 @ (fst e, v) # es2)" by (simp add: list_update_append)
  finally have "take (length (es1 @ (fst e, v) # es2)) ((entries n)[?i := slot (fst e, v)]) =
      map slot (es1 @ (fst e, v) # es2)" by simp
  moreover have "length ((entries n)[?i := slot (fst e, v)]) = BTREE_MAX_KEYS"
    using assms by (simp add: bt_node_def)
  ultimately show ?thesis by (intro bt_node_entries [OF assms]) simp_all
qed


lemma bt_update_if_found_tree:
  assumes "heap_ok h" and v: "fits v"
  shows "bt_sub h d t \<Longrightarrow> sorted_keys (inorder t) \<Longrightarrow>
   (case map_of (inorder t) k of
      None \<Rightarrow> bt_update_if_found h (Some (gt_addr t)) k v = ret (False, h)
    | Some w \<Rightarrow> \<exists>h' t'. bt_update_if_found h (Some (gt_addr t)) k v = ret (True, h') \<and>
        bt_step h t h' t' d \<and> inorder t' = upd_assoc k v (inorder t))"
proof (induction d arbitrary: t rule: less_induct)
  case (less d)
  note sub = less.prems(1) and so = less.prems(2)
  have bal: "balanced d t" using sub by (simp add: bt_sub_def)
  from sub
  obtain a es ts n where t: "t = GT a es ts" and n: "mem h a = Some n" "bt_node n es ts"
    by (cases t) (auto simp: bt_sub_def)
  obtain es1 es2 where es: "es = es1 @ es2"
      and i: "bt_find_index (entries n) (nk n) k 0 = ret (length es1)"
      and k: "es1 \<noteq> [] \<Longrightarrow> fst (last es1) < k" "es2 \<noteq> [] \<Longrightarrow> \<not> fst (hd es2) < k"
    using bt_find_index_cut [OF n(2)] by metis
  note at = bt_key_at_cut [OF n(2) [unfolded es] k(2)]
  show ?case
  proof (cases "es2 \<noteq> [] \<and> fst (hd es2) = k")
    case True
    then obtain w es' where e: "es2 = (k, w) # es'" by (cases es2) auto
    let ?n = "n\<lparr>entries := (entries n)[length es1 := slot (k, v)]\<rparr>"
    have m: "map_of (inorder t) k = Some w"
      using node_hit [of d a es1 "(k, w)" es' ts] bal so unfolding t es e by simp
    have "bt_node ?n (es1 @ (k, v) # es') ts"
      using bt_node_set_value [OF n(2) [unfolded es e]] by simp
    then have "bt_step h t (h\<lparr>mem := (mem h)(a \<mapsto> ?n)\<rparr>) (GT a (es1 @ (k, v) # es') ts) d"
      using sub unfolding t es e by (intro bt_step_node) (simp_all add: assms(1))
    moreover have "inorder (GT a (es1 @ (k, v) # es') ts) = upd_assoc k v (inorder t)"
      using bal so unfolding t es e by (rule node_set_value)
    moreover have "bt_update_if_found h (Some (gt_addr t)) k v = ret (True, h\<lparr>mem := (mem h)(a \<mapsto> ?n)\<rparr>)"
      using t es e n i at v bt_node_slot [OF n(2), of "length es1"] bt_node_entry [OF n(2), of "length es1"]
      by (subst bt_update_if_found.simps) (simp add: slot_def)
    ultimately show ?thesis using m by auto
  next
    case False
    then have k2: "es2 \<noteq> [] \<Longrightarrow> k < fst (hd es2)" using k(2) by fastforce
    show ?thesis
    proof (cases d)
      case 0
      then have l: "ts = []" using bal t by simp
      then have "map_of (inorder t) k = None"
        using leaf_miss(1) [OF _ k(1) k2] so t es by simp
      moreover have "is_leaf n \<noteq> 0" using n(2) l by (simp add: bt_node_def btree_consts)
      ultimately show ?thesis
        using t n i at False by (subst bt_update_if_found.simps) auto
    next
      case (Suc d')
      then have "length ts = Suc (length es)" using bal t by simp
      then obtain ts1 c ts2 where c: "ts = ts1 @ c # ts2" "length ts1 = length es1"
        using cut_node [OF _ es] by metis
      note cut = node_cut [OF c(2) so [unfolded t c(1) es] k(1) k2]
      have "is_leaf n = 0" using n(2) c by (simp add: bt_node_def btree_consts)
      then have run: "bt_update_if_found h (Some (gt_addr t)) k v = bt_update_if_found h (Some (gt_addr c)) k v"
        using t n i at False bt_node_child [OF n(2) [unfolded c(1)]] c(2)
        by (subst bt_update_if_found.simps) simp
      have csub: "bt_sub h d' c" using sub unfolding t c(1) Suc by (rule bt_sub_kid)
      have m: "map_of (inorder t) k = map_of (inorder c) k"
        using cut(1) unfolding t c(1) es by simp
      show ?thesis
      proof (cases "map_of (inorder c) k")
        case None
        then show ?thesis using less.IH [OF _ csub cut(3)] Suc m run by simp
      next
        case (Some w)
        then obtain h' c' where r: "bt_update_if_found h (Some (gt_addr c)) k v = ret (True, h')"
            "bt_step h c h' c' d'" "inorder c' = upd_assoc k v (inorder c)"
          using less.IH [OF _ csub cut(3)] Suc by auto
        have "bt_step h t h' (GT a es (ts1 @ c' # ts2)) d"
          using sub r(2) unfolding t c(1) Suc by (rule bt_step_kid)
        moreover have "inorder (GT a es (ts1 @ c' # ts2)) = upd_assoc k v (inorder t)"
          using cut(2) unfolding t c(1) es inorder_cut [OF c(2)] r(3) by simp
        ultimately show ?thesis using Some m run r(1) by auto
      qed
    qed
  qed
qed

section \<open>Splitting a full child\<close>

lemma bt_node_insert:
  assumes p: "bt_node p (es1 @ es2) (ts1 @ c # ts2)" and l: "length ts1 = length es1"
    and room: "length (es1 @ es2) < BTREE_MAX_KEYS" and ad: "gt_addr x = gt_addr c" "gt_addr y = s"
  shows "\<exists>pcs pes. shift_loop (length es1 + 1) (nk p - length es1) (children p) = ret pcs \<and>
     shift_loop (length es1) (nk p - length es1) (entries p) = ret pes \<and>
     length pcs = BTREE_MAX_CHILDREN \<and> length pes = BTREE_MAX_KEYS \<and>
     bt_node (p\<lparr>nk := nk p + 1, entries := pes[length es1 := slot m],
              children := pcs[length es1 + 1 := Some (Some s)]\<rparr>)
       (es1 @ m # es2) (ts1 @ x # y # ts2)"
proof -
  let ?es = "es1 @ es2" and ?ts = "ts1 @ c # ts2" and ?f = "\<lambda>t. Some (Some (gt_addr t)) :: ptr option"
  have nk: "nk p = length ?es" and le: "length (entries p) = BTREE_MAX_KEYS"
    and lc: "length (children p) = BTREE_MAX_CHILDREN" and lt: "length ?ts = Suc (length ?es)"
    and te: "take (length ?es) (entries p) = map slot ?es"
    and tc: "take (Suc (length ?es)) (children p) = map ?f ?ts"
    using p by (auto simp: bt_node_def)
  have e: "length es1 \<le> length ?es" "length ?es < length (entries p)" using room le by simp_all
  obtain pes where pes: "shift_loop (length es1) (length ?es - length es1) (entries p) = ret pes"
      "length pes = length (entries p)"
      "\<forall>x. take (Suc (length ?es)) (pes[length es1 := x]) =
        take (length es1) (map slot ?es) @ x # drop (length es1) (map slot ?es)"
    using shift_insert [OF te e(2) e(1)] by blast
  have c: "length es1 + 1 \<le> Suc (length ?es)" "Suc (length ?es) < length (children p)"
    using room lc by (simp_all add: btree_consts)
  obtain pcs where pcs: "shift_loop (length es1 + 1) (Suc (length ?es) - (length es1 + 1)) (children p) = ret pcs"
      "length pcs = length (children p)"
      "\<forall>x. take (Suc (Suc (length ?es))) (pcs[length es1 + 1 := x]) =
        take (length es1 + 1) (map ?f ?ts) @ x # drop (length es1 + 1) (map ?f ?ts)"
    using shift_insert [OF tc c(2) c(1)] by blast
  have "take (length (es1 @ m # es2)) (pes[length es1 := slot m]) = map slot (es1 @ m # es2)"
    using pes(3) by simp
  moreover have "take (Suc (length (es1 @ m # es2))) (pcs[length es1 + 1 := Some (Some s)]) =
      map ?f (ts1 @ x # y # ts2)"
    using pcs(3) l ad by simp
  moreover have "nk p - length es1 = length ?es - length es1"
    "nk p - length es1 = Suc (length ?es) - (length es1 + 1)" using nk by simp_all
  ultimately show ?thesis
    using p pes(1,2) pcs(1,2) nk le lc room lt
    by (intro exI [of _ pcs] exI [of _ pes]) (simp add: bt_node_def)
qed


text \<open>The halves of a full child: \<open>BTREE_MIN_DEGREE - 1\<close> entries each around the middle one.\<close>

lemma split_full:
  assumes "length es = BTREE_MAX_KEYS" and "ts = [] \<or> length ts = Suc (length es)"
  obtains le m re lt rt where "es = le @ m # re" and "length le = BTREE_MIN_DEGREE - 1"
    and "length re = BTREE_MIN_DEGREE - 1" and "ts = lt @ rt"
    and "if ts = [] then lt = [] \<and> rt = []
      else length lt = BTREE_MIN_DEGREE \<and> length rt = BTREE_MIN_DEGREE"
proof
  let ?d = "BTREE_MIN_DEGREE"
  show "es = take (?d - 1) es @ es ! (?d - 1) # drop ?d es"
    using assms(1) id_take_nth_drop [of "?d - 1" es] by (simp add: btree_consts)
  show "ts = take ?d ts @ drop ?d ts" by simp
  show "length (take (?d - 1) es) = ?d - 1" "length (drop ?d es) = ?d - 1"
    "if ts = [] then take ?d ts = [] \<and> drop ?d ts = []
      else length (take ?d ts) = ?d \<and> length (drop ?d ts) = ?d"
    using assms by (auto simp: btree_consts)
qed

text \<open>The left half stays in the child, the right half is copied into the new sibling.\<close>

lemma bt_node_left:
  assumes c: "bt_node c (le @ m # re) (lt @ rt)"
    and l: "length le = BTREE_MIN_DEGREE - 1"
    and t: "lt = [] \<and> rt = [] \<or> length lt = BTREE_MIN_DEGREE \<and> length rt = BTREE_MIN_DEGREE"
  shows "bt_node (c\<lparr>nk := BTREE_MIN_DEGREE - 1\<rparr>) le lt"
proof -
  have "take (length le + Suc (length re)) (entries c) = map slot le @ map slot (m # re)"
    using c by (simp add: bt_node_def)
  then have e: "take (length le) (entries c) = map slot le" by (rule take_prefix) simp
  have b: "length (entries c) = BTREE_MAX_KEYS" "length (children c) = BTREE_MAX_CHILDREN"
    "length le \<le> BTREE_MAX_KEYS"
    using c by (simp_all add: bt_node_def)
  show ?thesis
  proof (cases "lt = []")
    case True
    then have "is_leaf c = LEAF_NODE_TRUE_FLAG" using c t by (auto simp: bt_node_def btree_consts)
    then show ?thesis using True l e b by (simp add: bt_node_def)
  next
    case False
    then have lf: "is_leaf c = LEAF_NODE_FALSE_FLAG"
      and "take (length lt + length rt) (children c) =
        map (\<lambda>t. Some (Some (gt_addr t))) lt @ map (\<lambda>t. Some (Some (gt_addr t))) rt"
      using c by (auto simp: bt_node_def)
    from this(2) have "take (length lt) (children c) = map (\<lambda>t. Some (Some (gt_addr t))) lt"
      by (rule take_prefix) simp
    moreover have "length lt = Suc (length le)" using False t l by (simp add: btree_consts)
    ultimately show ?thesis using False l e b lf by (simp add: bt_node_def)
  qed
qed

lemma bt_node_right:
  assumes c: "bt_node c (le @ m # re) (lt @ rt)"
    and l: "length le = BTREE_MIN_DEGREE - 1" "length re = BTREE_MIN_DEGREE - 1"
    and t: "lt = [] \<and> rt = [] \<or> length lt = BTREE_MIN_DEGREE \<and> length rt = BTREE_MIN_DEGREE"
    and sb: "is_leaf sb = is_leaf c" "length (entries sb) = BTREE_MAX_KEYS"
      "length (children sb) = BTREE_MAX_CHILDREN"
  shows "\<exists>ses scs. copy_loop (entries c) BTREE_MIN_DEGREE 0 (BTREE_MIN_DEGREE - 1) (entries sb) = ret ses \<and>
     (if is_leaf c = LEAF_NODE_FALSE_FLAG
      then copy_loop (children c) BTREE_MIN_DEGREE 0 BTREE_MIN_DEGREE (children sb)
      else ret (children sb)) = ret scs \<and>
     bt_node (sb\<lparr>nk := BTREE_MIN_DEGREE - 1, entries := ses, children := scs\<rparr>) re rt"
proof -
  let ?d = "BTREE_MIN_DEGREE"
  obtain ses scs where ses: "ses = take (?d - 1) (drop ?d (entries c)) @ drop (?d - 1) (entries sb)"
    and scs: "scs = take ?d (drop ?d (children c)) @ drop ?d (children sb)" by blast
  have b: "length (entries c) = BTREE_MAX_KEYS" "length (children c) = BTREE_MAX_CHILDREN"
    using c by (simp_all add: bt_node_def)
  have ce: "copy_loop (entries c) ?d 0 (?d - 1) (entries sb) = ret ses"
    unfolding ses using b sb by (subst copy_loop_eq) (simp_all add: btree_consts)
  have cc: "copy_loop (children c) ?d 0 ?d (children sb) = ret scs"
    unfolding scs using b sb by (subst copy_loop_eq) (simp_all add: btree_consts)
  have "take (?d + length re) (entries c) = map slot (le @ [m]) @ map slot re"
    using c l by (simp add: bt_node_def btree_consts)
  then have "take (length re) (drop ?d (entries c)) = map slot re"
    by (rule take_middle) (simp add: l btree_consts)
  then have te: "take (length re) ses = map slot re" using l b by (simp add: ses btree_consts)
  have le: "length ses = BTREE_MAX_KEYS" "length scs = BTREE_MAX_CHILDREN"
    using b sb by (simp_all add: ses scs btree_consts)
  show ?thesis
  proof (cases "lt = []")
    case True
    then have "is_leaf c = LEAF_NODE_TRUE_FLAG" using c t by (auto simp: bt_node_def btree_consts)
    then show ?thesis using True t l te le ce sb
      by (intro exI [of _ ses] exI [of _ "children sb"]) (auto simp: bt_node_def btree_consts)
  next
    case False
    then have lf: "is_leaf c = LEAF_NODE_FALSE_FLAG" and lr: "length lt = ?d" "length rt = ?d"
      and "take (?d + length rt) (children c) =
        map (\<lambda>t. Some (Some (gt_addr t))) lt @ map (\<lambda>t. Some (Some (gt_addr t))) rt"
      using c t by (auto simp: bt_node_def)
    from this(4) have "take (length rt) (drop ?d (children c)) = map (\<lambda>t. Some (Some (gt_addr t))) rt"
      by (rule take_middle) (simp add: lr)
    then have "take (length rt) scs = map (\<lambda>t. Some (Some (gt_addr t))) rt"
      using lr b by (simp add: scs btree_consts)
    moreover have "length rt = Suc (length re)" "rt \<noteq> []" using lr l by (auto simp: btree_consts)
    moreover have "length re \<le> BTREE_MAX_KEYS" using l by (simp add: btree_consts)
    ultimately have "bt_node (sb\<lparr>nk := ?d - 1, entries := ses, children := scs\<rparr>) re rt"
      using te le lf sb(1) l(2) by (simp add: bt_node_def)
    then show ?thesis using ce cc lf by auto
  qed
qed


lemma bt_split_node_step:
  assumes sub: "bt_sub h (Suc d) (GT a (es1 @ es2) (ts1 @ c # ts2))" and ok: "heap_ok h"
    and l1: "length ts1 = length es1" and room: "length (es1 @ es2) < BTREE_MAX_KEYS"
    and full: "n_entries c = BTREE_MAX_KEYS"
  shows "\<exists>h' l m r. bt_split_node (length es1) (Some a) (Some (gt_addr c)) h = ret h' \<and>
     bt_step h (GT a (es1 @ es2) (ts1 @ c # ts2)) h' (GT a (es1 @ m # es2) (ts1 @ l # r # ts2)) (Suc d) \<and>
     inorder c = inorder l @ m # inorder r \<and>
     n_entries l = BTREE_MIN_DEGREE - 1 \<and> n_entries r = BTREE_MIN_DEGREE - 1"
proof -
  let ?d1 = "BTREE_MIN_DEGREE - 1" and ?s = "brk h"
  obtain ca ces cts where c: "c = GT ca ces cts" by (cases c)
  have bal: "balanced d c" and lts: "length (ts1 @ c # ts2) = Suc (length (es1 @ es2))"
    using sub by (auto simp: bt_sub_def)
  have "length ces = BTREE_MAX_KEYS" using full c by simp
  moreover have "cts = [] \<or> length cts = Suc (length ces)"
    using bal balanced_lengths unfolding c by blast
  ultimately obtain le m re lt rt where ces: "ces = le @ m # re" and le: "length le = ?d1" "length re = ?d1"
    and cts: "cts = lt @ rt"
    and lr': "if cts = [] then lt = [] \<and> rt = []
      else length lt = BTREE_MIN_DEGREE \<and> length rt = BTREE_MIN_DEGREE"
    by (rule split_full)
  then have lr: "lt = [] \<and> rt = [] \<or> length lt = BTREE_MIN_DEGREE \<and> length rt = BTREE_MIN_DEGREE"
    by presburger
  obtain pn cn where pn: "mem h a = Some pn" "bt_node pn (es1 @ es2) (ts1 @ c # ts2)"
    and cn: "mem h ca = Some cn" "bt_node cn (le @ m # re) (lt @ rt)"
    using sub unfolding bt_sub_def c ces cts by auto
  let ?l = "GT ca le lt" and ?r = "GT ?s re rt"
  let ?sb = "\<lparr>is_leaf = is_leaf cn, nk = 0, entries = replicate BTREE_MAX_KEYS None,
      children = replicate BTREE_MAX_CHILDREN None\<rparr>"
  obtain ses scs where right:
      "copy_loop (entries cn) BTREE_MIN_DEGREE 0 ?d1 (entries ?sb) = ret ses"
      "(if is_leaf cn = LEAF_NODE_FALSE_FLAG
        then copy_loop (children cn) BTREE_MIN_DEGREE 0 BTREE_MIN_DEGREE (children ?sb)
        else ret (children ?sb)) = ret scs"
      "bt_node (?sb\<lparr>nk := ?d1, entries := ses, children := scs\<rparr>) re rt"
    using bt_node_right [OF cn(2) le lr, of ?sb] by auto
  obtain pcs pes where par:
      "shift_loop (length es1 + 1) (nk pn - length es1) (children pn) = ret pcs"
      "shift_loop (length es1) (nk pn - length es1) (entries pn) = ret pes"
      "length pcs = BTREE_MAX_CHILDREN" "length pes = BTREE_MAX_KEYS"
      "bt_node (pn\<lparr>nk := nk pn + 1, entries := pes[length es1 := slot m],
         children := pcs[length es1 + 1 := Some (Some ?s)]\<rparr>) (es1 @ m # es2) (ts1 @ ?l # ?r # ts2)"
    using bt_node_insert [OF pn(2) l1 room, of ?l ?r ?s m] c by auto
  let ?sn = "?sb\<lparr>nk := ?d1, entries := ses, children := scs\<rparr>" and ?cn = "cn\<lparr>nk := ?d1\<rparr>"
  let ?pn = "pn\<lparr>nk := nk pn + 1, entries := pes[length es1 := slot m],
      children := pcs[length es1 + 1 := Some (Some ?s)]\<rparr>"
  let ?h = "h\<lparr>mem := (mem h)(?s \<mapsto> ?sn, ca \<mapsto> ?cn, a \<mapsto> ?pn), brk := Suc ?s\<rparr>"
  have old: "x < ?s" if "x \<in> set (addrs (GT a (es1 @ es2) (ts1 @ c # ts2)))" for x
    using sub that unfolding bt_sub_def by blast
  have dis: "distinct (a # kids_addrs ts1 @ (ca # kids_addrs lt @ kids_addrs rt) @ kids_addrs ts2)"
    using sub by (simp add: bt_sub_def c cts)
  have ne: "a < ?s" "ca < ?s" "a \<noteq> ca" using old [of a] old [of ca] dis c by auto
  have mid: "read_arr (entries cn) ?d1 = ret (slot m)"
    using bt_node_entry [OF cn(2), of "length le"] unfolding le(1) [symmetric] by simp
  have b: "length es1 < BTREE_MAX_KEYS" "Suc (length es1) < BTREE_MAX_CHILDREN"
    using room by (simp_all add: btree_consts)
  have "bt_split_node (length es1) (Some a) (Some (gt_addr c)) h = ret ?h"
    using pn(1) cn(1) ne right(1,2) par(1-4) mid c b
    by (simp add: bt_split_node_def bt_create_node_def malloc_def fun_upd_twist)
  moreover have "bt_step h (GT a (es1 @ es2) (ts1 @ c # ts2)) ?h (GT a (es1 @ m # es2) (ts1 @ ?l # ?r # ts2)) (Suc d)"
  proof -
    have tree: "bt_tree (mem ?h) t" if t: "t \<in> set ts1 \<union> set ts2 \<union> set lt \<union> set rt" for t
    proof (rule bt_tree_agree)
      show "bt_tree (mem h) t" using sub t by (auto simp: bt_sub_def c cts)
      fix x assume x: "x \<in> set (addrs t)"
      have "x < ?s" using t x by (intro old) (auto simp: c cts)
      moreover have "x \<noteq> a" "x \<noteq> ca" using dis t x by auto
      ultimately show "mem ?h x = mem h x" by simp
    qed
    have "bt_tree (mem ?h) (GT a (es1 @ m # es2) (ts1 @ ?l # ?r # ts2))"
      using tree par(5) right(3) bt_node_left [OF cn(2) le(1) lr] ne by auto
    moreover have "balanced d ?l" "balanced d ?r"
      using bal lr le by (cases d; auto simp: c cts btree_consts)+
    moreover have "min_entries ?d1 ?l" "min_entries ?d1 ?r"
      using sub by (auto simp: bt_sub_def c cts)
    moreover have "?s \<notin> set (a # kids_addrs ts1 @ (ca # kids_addrs lt @ kids_addrs rt) @ kids_addrs ts2)"
      using old [of ?s] by (auto simp: c cts)
    moreover have "x < Suc ?s" if "x \<in> set (addrs (GT a (es1 @ m # es2) (ts1 @ ?l # ?r # ts2)))" for x
    proof (cases "x = ?s")
      case False
      then have "x \<in> set (addrs (GT a (es1 @ es2) (ts1 @ c # ts2)))"
        using that by (auto simp: c cts)
      then have "x < ?s" by (rule old)
      then show ?thesis by simp
    qed simp
    moreover have "heap_ok ?h" using ok ne by (auto simp: heap_ok_def less_Suc_eq)
    moreover have "distinct (addrs (GT a (es1 @ m # es2) (ts1 @ ?l # ?r # ts2)))"
      using dis calculation(6) by auto
    moreover have "balanced (Suc d) (GT a (es1 @ m # es2) (ts1 @ ?l # ?r # ts2))"
      using sub calculation(2,3) by (simp add: bt_sub_def)
    moreover have "min_entries ?d1 (GT a (es1 @ m # es2) (ts1 @ ?l # ?r # ts2))"
      using sub calculation(4,5) le by (simp add: bt_sub_def)
    moreover have "set (addrs (GT a (es1 @ m # es2) (ts1 @ ?l # ?r # ts2))) \<subseteq>
        set (addrs (GT a (es1 @ es2) (ts1 @ c # ts2))) \<union> {?s..<brk ?h}"
      by (auto simp: c cts)
    ultimately show ?thesis
      unfolding bt_step_def bt_sub_def by (simp add: c)
  qed
  moreover have "inorder c = inorder ?l @ m # inorder ?r"
    unfolding c ces cts using lr le by (intro inorder_halves) (auto simp: btree_consts)
  ultimately show ?thesis using le by (intro exI [of _ ?h] exI [of _ ?l] exI [of _ m] exI [of _ ?r]) simp
qed


section \<open>Inserting a new key\<close>

lemma bt_skip_greater_cut:
  assumes n: "bt_node n es ts"
  shows "i \<le> length es \<Longrightarrow> \<exists>es1 es2. take i es = es1 @ es2 \<and>
     bt_skip_greater k i (entries n) = ret (length es1) \<and>
     (es1 \<noteq> [] \<longrightarrow> fst (last es1) \<le> k) \<and> (\<forall>e \<in> set es2. k < fst e)"
proof (induction i)
  case (Suc i)
  have i: "i < length es" using Suc.prems by simp
  note tk = take_Suc_conv_app_nth [OF i]
  show ?case
  proof (cases "k < fst (es ! i)")
    case True
    obtain es1 es2 where "take i es = es1 @ es2" "bt_skip_greater k i (entries n) = ret (length es1)"
        "es1 \<noteq> [] \<longrightarrow> fst (last es1) \<le> k" "\<forall>e \<in> set es2. k < fst e"
      using Suc by auto
    then show ?thesis using True bt_node_slot [OF n i] tk
      by (intro exI [of _ es1] exI [of _ "es2 @ [es ! i]"]) auto
  next
    case False
    then show ?thesis using bt_node_slot [OF n i] tk i
      by (intro exI [of _ "take (Suc i) es"] exI [of _ "[]"]) auto
  qed
qed simp

text \<open>The shifting loop moves the entries it skips one place up; the gap is then filled.\<close>

lemma bt_skip_greater_upd: "i \<le> m \<Longrightarrow> bt_skip_greater k i (A[m := x]) = bt_skip_greater k i A"
  by (induction i) (auto simp: read_slot_def read_arr_def intro!: bindC_cong)

lemma bt_shift_greater_eq:
  "i < length A \<Longrightarrow> bt_skip_greater k i A = ret j \<Longrightarrow>
   j \<le> i \<and> bt_shift_greater k i A = bindC (shift_loop j (i - j) A) (\<lambda>A'. ret (j, A'))"
proof (induction i arbitrary: A)
  case (Suc i)
  then obtain e where e: "A ! i = Some e" by (cases "A ! i") (auto simp: read_slot_def)
  show ?case
  proof (cases "k < ent_key e")
    case True
    let ?A = "A[Suc i := Some e]"
    have "bt_skip_greater k i A = ret j" using Suc.prems e True by simp
    then have "bt_skip_greater k i ?A = ret j" by (simp add: bt_skip_greater_upd)
    then have IH: "j \<le> i" "bt_shift_greater k i ?A = bindC (shift_loop j (i - j) ?A) (\<lambda>A'. ret (j, A'))"
      using Suc.IH [of ?A] Suc.prems(1) by simp_all
    then have "Suc i - j = Suc (i - j)" by simp
    then show ?thesis using IH Suc.prems(1) e True by (simp only: shift_loop.simps) simp
  next
    case False
    then have j: "j = Suc i" using Suc.prems e by simp
    show ?thesis unfolding j using False Suc.prems(1) e by simp
  qed
qed simp

text \<open>The leaf case.\<close>

lemma bt_insert_leaf:
  assumes sub: "bt_sub h 0 (GT a es [])" and ok: "heap_ok h" and so: "sorted_keys es"
    and room: "length es < BTREE_MAX_KEYS" and v: "fits v" and new: "map_of es k = None"
  shows "\<exists>h'. bt_insert_not_full h (Some a) k v = ret h' \<and>
     bt_step h (GT a es []) h' (GT a (upd_assoc k v es) []) 0"
proof -
  obtain n where n: "mem h a = Some n" "bt_node n es []" using sub by (auto simp: bt_sub_def)
  have nk: "nk n = length es" and ln: "length (entries n) = BTREE_MAX_KEYS"
    and te: "take (length es) (entries n) = map slot es"
    using n(2) by (simp_all add: bt_node_def)
  obtain es1 es2 where es: "es = es1 @ es2" and sk: "bt_skip_greater k (length es) (entries n) = ret (length es1)"
    and k: "es1 \<noteq> [] \<longrightarrow> fst (last es1) \<le> k" "\<forall>e \<in> set es2. k < fst e"
    using bt_skip_greater_cut [OF n(2), of "length es" k, simplified] by blast
  have "es1 \<noteq> [] \<Longrightarrow> fst (last es1) \<noteq> k"
    using new es by (auto simp: map_of_eq_None_iff map_add_def split: option.splits)
  with k(1) have k1: "es1 \<noteq> [] \<Longrightarrow> fst (last es1) < k" by fastforce
  have up: "upd_assoc k v es = es1 @ (k, v) # es2"
    using leaf_miss(2) [OF so [unfolded es] k1] k(2) unfolding es by (cases es2) auto
  have lt: "length es < length (entries n)" "length es1 \<le> length es" using room ln es by simp_all
  obtain es' where sh: "shift_loop (length es1) (length es - length es1) (entries n) = ret es'"
      "length es' = length (entries n)"
      "\<forall>x. take (Suc (length es)) (es'[length es1 := x]) =
        take (length es1) (map slot es) @ x # drop (length es1) (map slot es)"
    using shift_insert [OF te lt] by blast
  have gr: "bt_shift_greater k (nk n) (entries n) = ret (length es1, es')"
    using bt_shift_greater_eq [OF lt(1) sk] sh(1) nk by simp
  let ?n = "n\<lparr>entries := es'[length es1 := slot (k, v)], nk := nk n + 1\<rparr>"
  have "bt_node ?n (es1 @ (k, v) # es2) []"
    using n(2) sh(2,3) nk ln room es by (simp add: bt_node_def)
  then have "bt_step h (GT a es []) (h\<lparr>mem := (mem h)(a \<mapsto> ?n)\<rparr>) (GT a (upd_assoc k v es) []) 0"
    using es up by (intro bt_step_node [OF sub ok]) simp_all
  moreover have "bt_insert_not_full h (Some a) k v = ret (h\<lparr>mem := (mem h)(a \<mapsto> ?n)\<rparr>)"
    using n v gr sh(2) lt ln by (subst bt_insert_not_full.simps) (simp add: bt_node_def btree_consts slot_def)
  ultimately show ?thesis by blast
qed


text \<open>What an insertion below a child amounts to at its parent.\<close>

lemma bt_step_descend:
  assumes sub: "bt_sub h (Suc d) (GT a (es1 @ es2) (ts1 @ c # ts2))" and l: "length ts1 = length es1"
    and so: "sorted_keys (inorder (GT a (es1 @ es2) (ts1 @ c # ts2)))"
    and k: "es1 \<noteq> [] \<Longrightarrow> fst (last es1) < k" "es2 \<noteq> [] \<Longrightarrow> k < fst (hd es2)"
    and c': "bt_step h c h' c' d" "inorder c' = upd_assoc k v (inorder c)"
  shows "\<exists>t'. bt_step h (GT a (es1 @ es2) (ts1 @ c # ts2)) h' t' (Suc d) \<and>
     inorder t' = upd_assoc k v (inorder (GT a (es1 @ es2) (ts1 @ c # ts2)))"
proof (intro exI conjI)
  show "bt_step h (GT a (es1 @ es2) (ts1 @ c # ts2)) h' (GT a (es1 @ es2) (ts1 @ c' # ts2)) (Suc d)"
    by (rule bt_step_kid [OF sub c'(1)])
  show "inorder (GT a (es1 @ es2) (ts1 @ c' # ts2)) =
      upd_assoc k v (inorder (GT a (es1 @ es2) (ts1 @ c # ts2)))"
    using node_cut(2) [OF l so k] unfolding inorder_cut [OF l] c'(2) by simp
qed

lemma bt_new_key_entry:
  assumes "balanced d (GT a (es1 @ es2) ts)" and "map_of (inorder (GT a (es1 @ es2) ts)) k = None"
  shows "e \<in> set (es1 @ es2) \<Longrightarrow> fst e \<noteq> k"
  using set_inorder [OF balanced_lengths [OF assms(1)]] assms(2)
  by (auto simp: map_of_eq_None_iff image_iff)

text \<open>What \<open>insert_not_full\<close> needs of a subtree, and what it then does.\<close>

definition bt_ready :: "btree_dram_node heap \<Rightarrow> bt_tree \<Rightarrow> nat \<Rightarrow> u64 \<Rightarrow> bool" where
  "bt_ready h t d k \<longleftrightarrow> bt_sub h d t \<and> heap_ok h \<and> sorted_keys (inorder t) \<and>
     n_entries t < BTREE_MAX_KEYS \<and> map_of (inorder t) k = None"

definition bt_inserted ::
  "btree_dram_node heap comp \<Rightarrow> btree_dram_node heap \<Rightarrow> bt_tree \<Rightarrow> nat \<Rightarrow> u64 \<Rightarrow> string \<Rightarrow> bool" where
  "bt_inserted run h t d k v \<longleftrightarrow> (\<exists>h' t'. run = ret h' \<and> bt_step h t h' t' d \<and>
     inorder t' = upd_assoc k v (inorder t))"

lemma bt_insertedI:
  "run = ret h' \<Longrightarrow> bt_step h t h' t' d \<Longrightarrow> inorder t' = upd_assoc k v (inorder t) \<Longrightarrow>
   bt_inserted run h t d k v"
  by (auto simp: bt_inserted_def)

lemma bt_inserted_descend:
  assumes c: "bt_inserted run h c d k v" and sub: "bt_sub h (Suc d) (GT a (es1 @ es2) (ts1 @ c # ts2))"
    and l: "length ts1 = length es1"
    and so: "sorted_keys (inorder (GT a (es1 @ es2) (ts1 @ c # ts2)))"
    and k: "es1 \<noteq> [] \<Longrightarrow> fst (last es1) < k" "es2 \<noteq> [] \<Longrightarrow> k < fst (hd es2)"
  shows "bt_inserted run h (GT a (es1 @ es2) (ts1 @ c # ts2)) (Suc d) k v"
proof -
  obtain h' c' where r: "run = ret h'" "bt_step h c h' c' d" "inorder c' = upd_assoc k v (inorder c)"
    using c by (auto simp: bt_inserted_def)
  from bt_step_descend [OF sub l so k r(2,3)] r(1) show ?thesis by (auto simp: bt_inserted_def)
qed

lemma bt_ready_kid:
  assumes sub: "bt_sub h (Suc d) (GT a (es1 @ es2) (ts1 @ c # ts2))" and ok: "heap_ok h"
    and l: "length ts1 = length es1"
    and so: "sorted_keys (inorder (GT a (es1 @ es2) (ts1 @ c # ts2)))"
    and k: "es1 \<noteq> [] \<Longrightarrow> fst (last es1) < k" "es2 \<noteq> [] \<Longrightarrow> k < fst (hd es2)"
    and new: "map_of (inorder (GT a (es1 @ es2) (ts1 @ c # ts2))) k = None"
    and room: "n_entries c < BTREE_MAX_KEYS"
  shows "bt_ready h c d k"
  using bt_sub_kid [OF sub] ok room new node_cut(1,3) [OF l so k] by (simp add: bt_ready_def)

text \<open>Choosing the half of a split child.\<close>

lemma bt_insert_half:
  assumes IH: "\<And>h t. bt_ready h t d k \<Longrightarrow>
      bt_inserted (bt_insert_not_full h (Some (gt_addr t)) k v) h t d k v"
    and sub: "bt_sub h (Suc d) (GT a (es1 @ m # es2) (ts1 @ lt # rt # ts2))" and ok: "heap_ok h"
    and so: "sorted_keys (inorder (GT a (es1 @ m # es2) (ts1 @ lt # rt # ts2)))"
    and new: "map_of (inorder (GT a (es1 @ m # es2) (ts1 @ lt # rt # ts2))) k = None"
    and l: "length ts1 = length es1"
    and k1: "es1 \<noteq> [] \<Longrightarrow> fst (last es1) < k" and k2: "es2 \<noteq> [] \<Longrightarrow> k < fst (hd es2)"
    and n: "n_entries lt = BTREE_MIN_DEGREE - 1" "n_entries rt = BTREE_MIN_DEGREE - 1"
    and nd: "bt_node nd (es1 @ m # es2) (ts1 @ lt # rt # ts2)"
  shows "bt_inserted
     (bindC (read_slot (children nd) (if fst m < k then length es1 + 1 else length es1))
        (\<lambda>c. bt_insert_not_full h c k v))
     h (GT a (es1 @ m # es2) (ts1 @ lt # rt # ts2)) (Suc d) k v"
proof -
  have small: "BTREE_MIN_DEGREE - 1 < BTREE_MAX_KEYS" by (simp add: btree_consts)
  have bal: "balanced (Suc d) (GT a (es1 @ m # es2) (ts1 @ lt # rt # ts2))"
    using sub by (simp add: bt_sub_def)
  have mk: "fst m \<noteq> k" by (rule bt_new_key_entry [OF bal new]) simp
  show ?thesis
  proof (cases "fst m < k")
    case True
    have e: "GT a (es1 @ m # es2) (ts1 @ lt # rt # ts2) =
        GT a ((es1 @ [m]) @ es2) ((ts1 @ [lt]) @ rt # ts2)" by simp
    have l': "length (ts1 @ [lt]) = length (es1 @ [m])" using l by simp
    have k1': "es1 @ [m] \<noteq> [] \<Longrightarrow> fst (last (es1 @ [m])) < k" using True by simp
    have "bt_ready h rt d k"
      by (rule bt_ready_kid [OF sub [unfolded e] ok l' so [unfolded e] k1' k2 new [unfolded e]])
         (simp_all add: n(2) small del: One_nat_def)
    from bt_inserted_descend [OF IH [OF this] sub [unfolded e] l' so [unfolded e] k1' k2]
    show ?thesis
      using bt_node_child [of nd "es1 @ m # es2" "ts1 @ [lt]" rt ts2] nd l True by simp
  next
    case False
    then have k2': "m # es2 \<noteq> [] \<Longrightarrow> k < fst (hd (m # es2))" using mk by simp
    have "bt_ready h lt d k"
      by (rule bt_ready_kid [OF sub ok l so k1 k2' new]) (simp_all add: n(1) small del: One_nat_def)
    from bt_inserted_descend [OF IH [OF this] sub l so k1 k2'] show ?thesis
      using bt_node_child [OF nd] l False by simp
  qed
qed

lemma bt_insert_not_full_tree:
  assumes v: "fits v"
  shows "bt_ready h t d k \<Longrightarrow> bt_inserted (bt_insert_not_full h (Some (gt_addr t)) k v) h t d k v"
proof (induction d arbitrary: h t)
  case 0
  obtain a es ts where t: "t = GT a es ts" by (cases t)
  then have ts: "ts = []" using 0 by (simp add: bt_ready_def bt_sub_def)
  obtain h' where "bt_insert_not_full h (Some a) k v = ret h'"
      "bt_step h (GT a es []) h' (GT a (upd_assoc k v es) []) 0"
    using bt_insert_leaf [where h = h and a = a and es = es and k = k and v = v] 0 t ts v
    by (auto simp: bt_ready_def)
  then have "bt_inserted (bt_insert_not_full h (Some a) k v) h (GT a es []) 0 k v"
    by (rule bt_insertedI) simp
  then show ?case by (simp add: t ts)
next
  case (Suc d)
  obtain a es ts where t: "t = GT a es ts" by (cases t)
  have sub: "bt_sub h (Suc d) t" and ok: "heap_ok h" and so: "sorted_keys (inorder t)"
    and room: "length es < BTREE_MAX_KEYS" and new: "map_of (inorder t) k = None"
    using Suc.prems t by (simp_all add: bt_ready_def)
  from sub obtain n where n: "mem h a = Some n" "bt_node n es ts" and bal: "balanced (Suc d) (GT a es ts)"
    unfolding t by (auto simp: bt_sub_def)
  obtain es1 es2 where es: "es = es1 @ es2" and sk: "bt_skip_greater k (length es) (entries n) = ret (length es1)"
    and k: "es1 \<noteq> [] \<longrightarrow> fst (last es1) \<le> k" "\<forall>e \<in> set es2. k < fst e"
    using bt_skip_greater_cut [OF n(2), of "length es" k, simplified] by blast
  obtain ts1 c ts2 where c: "ts = ts1 @ c # ts2" and l: "length ts1 = length es1"
    using cut_node [OF _ es, of ts] bal by (metis balanced.simps(2))
  note sub = sub [unfolded t es c] and so = so [unfolded t es c] and new = new [unfolded t es c]
  have k1: "es1 \<noteq> [] \<Longrightarrow> fst (last es1) < k"
    using k(1) bt_new_key_entry [OF bal [unfolded es c] new, of "last es1"] by fastforce
  have k2: "es2 \<noteq> [] \<Longrightarrow> k < fst (hd es2)" using k(2) by auto
  obtain cn where cn: "mem h (gt_addr c) = Some cn" "nk cn = n_entries c" "n_entries c \<le> BTREE_MAX_KEYS"
    using bt_sub_kid [OF sub] by (cases c) (auto simp: bt_sub_def bt_node_def)
  have run: "bt_insert_not_full h (Some (gt_addr t)) k v =
     (if n_entries c = BTREE_MAX_KEYS
      then bindC (bt_split_node (length es1) (Some a) (Some (gt_addr c)) h) (\<lambda>h.
           bindC (load h (Some a)) (\<lambda>n.
           bindC (read_slot (entries n) (length es1)) (\<lambda>e.
           bindC (read_slot (children n) (if ent_key e < k then length es1 + 1 else length es1)) (\<lambda>c.
             bt_insert_not_full h c k v))))
      else bt_insert_not_full h (Some (gt_addr c)) k v)"
    using t n sk cn bt_node_child [OF n(2) [unfolded c]] l c
    by (subst bt_insert_not_full.simps) (simp add: bt_is_node_full_def bt_node_def btree_consts)
  show ?case
  proof (cases "n_entries c = BTREE_MAX_KEYS")
    case False
    then have "bt_ready h c d k"
      using bt_ready_kid [OF sub ok l so k1 k2 new] cn(3) by simp
    from bt_inserted_descend [OF Suc.IH [OF this] sub l so k1 k2] show ?thesis
      unfolding run using False t es c by simp
  next
    case True
    obtain h1 lt m rt where sp: "bt_split_node (length es1) (Some a) (Some (gt_addr c)) h = ret h1"
        "bt_step h (GT a (es1 @ es2) (ts1 @ c # ts2)) h1 (GT a (es1 @ m # es2) (ts1 @ lt # rt # ts2)) (Suc d)"
        "inorder c = inorder lt @ m # inorder rt"
        "n_entries lt = BTREE_MIN_DEGREE - 1" "n_entries rt = BTREE_MIN_DEGREE - 1"
      using bt_split_node_step [OF sub ok l room [unfolded es] True] by blast
    let ?t1 = "GT a (es1 @ m # es2) (ts1 @ lt # rt # ts2)"
    have sub1: "bt_sub h1 (Suc d) ?t1" and ok1: "heap_ok h1" using sp(2) by (simp_all add: bt_step_def)
    have in1: "inorder ?t1 = inorder (GT a (es1 @ es2) (ts1 @ c # ts2))"
      by (simp only: inorder_two [OF l] inorder_cut [OF l, of a es2 c ts2] sp(3) append_assoc append_Cons)
    obtain n1 where n1: "mem h1 a = Some n1" "bt_node n1 (es1 @ m # es2) (ts1 @ lt # rt # ts2)"
      using sub1 by (auto simp: bt_sub_def)
    have "bt_inserted (bt_insert_not_full h (Some (gt_addr t)) k v) h1 ?t1 (Suc d) k v"
      using bt_insert_half [OF Suc.IH sub1 ok1 so [folded in1] new [folded in1] l k1 k2 sp(4,5) n1(2)]
        True sp(1) n1(1) bt_node_slot [OF n1(2), of "length es1"]
      unfolding run by simp
    then show ?thesis
      using bt_step_trans [OF sp(2)] in1 unfolding t es c bt_inserted_def by metis
  qed
qed


section \<open>The tree as a store\<close>

definition bt_inv :: "btree_dram \<Rightarrow> nat \<Rightarrow> bt_tree \<Rightarrow> bool" where
  "bt_inv s d t \<longleftrightarrow> bt_root s = Some (gt_addr t) \<and> bt_sub (bt_heap s) d t \<and> heap_ok (bt_heap s) \<and>
     sorted_keys (inorder t) \<and> 1 \<le> n_entries t"

definition bt_rep :: "btree_dram \<Rightarrow> kv_map \<Rightarrow> bool" where
  "bt_rep s m \<longleftrightarrow>
     (bt_root s = NULL \<and> heap_ok (bt_heap s) \<and> m = Map.empty) \<or>
     (\<exists>d t. bt_inv s d t \<and> m = map_of (inorder t))"

lemma bt_inv_step:
  "bt_step h t h' t' d \<Longrightarrow> inorder t' = upd_assoc k v (inorder t) \<Longrightarrow> sorted_keys (inorder t) \<Longrightarrow>
   1 \<le> n_entries t \<Longrightarrow> bt_inv \<lparr>bt_heap = h', bt_root = Some (gt_addr t)\<rparr> d t'"
  unfolding bt_inv_def bt_step_def by (simp add: sorted_upd_assoc)

text \<open>The first insertion.\<close>

lemma bt_insert_empty:
  assumes "bt_root s = NULL" and ok: "heap_ok (bt_heap s)" and "fits v"
  shows "\<exists>s' t. bt_insert s k v = ret (1, s') \<and> bt_inv s' 0 t \<and> inorder t = [(k, v)]"
proof -
  let ?b = "brk (bt_heap s)"
  let ?n = "\<lparr>is_leaf = LEAF_NODE_TRUE_FLAG, nk = 1,
      entries = (replicate BTREE_MAX_KEYS None)[0 := slot (k, v)],
      children = replicate BTREE_MAX_CHILDREN None\<rparr>"
  let ?s = "s\<lparr>bt_heap := (bt_heap s)\<lparr>mem := (mem (bt_heap s))(?b \<mapsto> ?n), brk := Suc ?b\<rparr>,
      bt_root := Some ?b\<rparr>"
  have "bt_insert s k v = ret (1, ?s)"
    using assms by (simp add: bt_insert_def bt_create_node_def malloc_def slot_def btree_consts)
  moreover have "bt_node ?n [(k, v)] []"
    by (simp add: bt_node_def btree_consts take_replicate_upd)
  then have "bt_inv ?s 0 (GT ?b [(k, v)] [])"
    using ok by (simp add: bt_inv_def bt_sub_def)
  ultimately show ?thesis by (intro exI [of _ ?s] exI [of _ "GT ?b [(k, v)] []"]) simp
qed

text \<open>Growing the tree: the full root becomes the only child of a new root, which is then split.\<close>

lemma bt_grow:
  assumes sub: "bt_sub h d t" and ok: "heap_ok h" and full: "n_entries t = BTREE_MAX_KEYS"
  defines "n \<equiv> \<lparr>is_leaf = LEAF_NODE_FALSE_FLAG, nk = 0, entries = replicate BTREE_MAX_KEYS None,
      children = (replicate BTREE_MAX_CHILDREN None)[0 := Some (Some (gt_addr t))]\<rparr>"
  defines "h' \<equiv> h\<lparr>brk := Suc (brk h), mem := (mem h)(brk h \<mapsto> n)\<rparr>"
  shows "bt_sub h' (Suc d) (GT (brk h) [] [t])" and "heap_ok h'"
proof -
  have "bt_node n [] [t]" by (simp add: n_def bt_node_def btree_consts take_replicate_upd)
  moreover have "brk h \<notin> set (addrs t)" using sub by (auto simp: bt_sub_def)
  moreover have "bt_tree (mem h') t"
  proof (rule bt_tree_agree)
    show "bt_tree (mem h) t" using sub by (simp add: bt_sub_def)
    show "mem h' x = mem h x" if "x \<in> set (addrs t)" for x
      using that calculation(2) by (auto simp: h'_def)
  qed
  ultimately have "bt_tree (mem h') (GT (brk h) [] [t])" "distinct (addrs (GT (brk h) [] [t]))"
    using sub by (simp_all add: h'_def bt_sub_def)
  moreover have "balanced (Suc d) (GT (brk h) [] [t])"
    "min_entries (BTREE_MIN_DEGREE - 1) (GT (brk h) [] [t])"
    using sub full by (simp_all add: bt_sub_def btree_consts)
  moreover have "x < brk h'" if "x \<in> set (addrs (GT (brk h) [] [t]))" for x
    using sub that by (auto simp: bt_sub_def h'_def less_Suc_eq)
  ultimately show "bt_sub h' (Suc d) (GT (brk h) [] [t])" by (simp add: bt_sub_def)
  show "heap_ok h'" using ok by (auto simp: heap_ok_def h'_def less_Suc_eq)
qed

lemma bt_insert_grow:
  assumes sub: "bt_sub h d t" and ok: "heap_ok h" and full: "n_entries t = BTREE_MAX_KEYS"
    and so: "sorted_keys (inorder t)" and new: "map_of (inorder t) k = None" and v: "fits v"
  shows "\<exists>h' t'. (\<forall>f. (let (new_root, h) = bt_create_node LEAF_NODE_FALSE_FLAG h in
       bindC (load h new_root) (\<lambda>n.
       bindC (write_arr (children n) 0 (Some (Some (gt_addr t)))) (\<lambda>cs.
       bindC (store h new_root (n\<lparr>children := cs\<rparr>)) (\<lambda>h.
       bindC (bt_split_node 0 new_root (Some (gt_addr t)) h) (\<lambda>h.
       bindC (load h new_root) (\<lambda>n.
       bindC (read_slot (entries n) 0) (\<lambda>e.
       bindC (read_slot (children n) (if ent_key e < k then 1 else 0)) (\<lambda>c.
       bindC (bt_insert_not_full h c k v) (\<lambda>h. f h new_root))))))))) = (f h' (Some (gt_addr t')) :: 'r comp)) \<and>
     bt_sub h' (Suc d) t' \<and> heap_ok h' \<and> 1 \<le> n_entries t' \<and> inorder t' = upd_assoc k v (inorder t)"
proof -
  let ?b = "brk h" and ?t0 = "GT (brk h) [] [t]"
  let ?n = "\<lparr>is_leaf = LEAF_NODE_FALSE_FLAG, nk = 0, entries = replicate BTREE_MAX_KEYS None,
      children = (replicate BTREE_MAX_CHILDREN None)[0 := Some (Some (gt_addr t))]\<rparr>"
  let ?h0 = "h\<lparr>brk := Suc ?b, mem := (mem h)(?b \<mapsto> ?n)\<rparr>"
  note grow = bt_grow [OF sub ok full]
  obtain h1 lt m rt where sp: "bt_split_node 0 (Some ?b) (Some (gt_addr t)) ?h0 = ret h1"
      "bt_step ?h0 ?t0 h1 (GT ?b [m] [lt, rt]) (Suc d)" "inorder t = inorder lt @ m # inorder rt"
      "n_entries lt = BTREE_MIN_DEGREE - 1" "n_entries rt = BTREE_MIN_DEGREE - 1"
    using bt_split_node_step [of ?h0 d ?b "[]" "[]" "[]" t "[]"] grow full
    by (auto simp: btree_consts)
  let ?t1 = "GT ?b [m] [lt, rt]"
  have in1: "inorder ?t1 = inorder t" using sp(3) by simp
  have sub1: "bt_sub h1 (Suc d) ?t1" and ok1: "heap_ok h1" using sp(2) by (simp_all add: bt_step_def)
  obtain n1 where n1: "mem h1 ?b = Some n1" "bt_node n1 [m] [lt, rt]"
    using sub1 by (auto simp: bt_sub_def)
  note half = bt_insert_half [of d k v h1 ?b "[]" m "[]" "[]" lt rt "[]" n1,
      OF bt_insert_not_full_tree [OF v], unfolded append_Nil list.size(3) add_0]
  have "bt_inserted (bindC (read_slot (children n1) (if fst m < k then 1 else 0))
      (\<lambda>c. bt_insert_not_full h1 c k v)) h1 ?t1 (Suc d) k v"
    by (rule half) (simp_all only: sub1 ok1 in1 so new sp(4,5) n1(2) simp_thms)
  then obtain h2 t2 where 2: "bindC (read_slot (children n1) (if fst m < k then 1 else 0))
      (\<lambda>c. bt_insert_not_full h1 c k v) = ret h2" "bt_step h1 ?t1 h2 t2 (Suc d)"
      "inorder t2 = upd_assoc k v (inorder t)"
    using in1 by (auto simp: bt_inserted_def)
  from 2(1) obtain p where p: "read_slot (children n1) (if fst m < k then 1 else 0) = ret p"
      "bt_insert_not_full h1 p k v = ret h2"
    by (auto simp: bindC_eq_ret)
  have "gt_addr t2 = ?b" "bt_sub h2 (Suc d) t2" "heap_ok h2" "1 \<le> n_entries t2"
    using 2(2) by (simp_all add: bt_step_def)
  then show ?thesis
    using sp(1) n1(1) bt_node_slot [OF n1(2), of 0] p 2(3)
    by (intro exI [of _ h2] exI [of _ t2])
       (simp add: bt_create_node_def malloc_def btree_consts)
qed

lemma bt_insert_nonempty:
  assumes inv: "bt_inv s d t" and v: "fits v"
  shows "\<exists>s' d' t'. bt_insert s k v = ret (1, s') \<and> bt_inv s' d' t' \<and>
     inorder t' = upd_assoc k v (inorder t)"
proof -
  have r: "bt_root s = Some (gt_addr t)" and sub: "bt_sub (bt_heap s) d t" and ok: "heap_ok (bt_heap s)"
    and so: "sorted_keys (inorder t)" and ne: "1 \<le> n_entries t"
    using inv by (auto simp: bt_inv_def)
  obtain n where n: "mem (bt_heap s) (gt_addr t) = Some n" "nk n = n_entries t" "n_entries t \<le> BTREE_MAX_KEYS"
    using sub by (cases t) (auto simp: bt_sub_def bt_node_def)
  show ?thesis
  proof (cases "map_of (inorder t) k")
    case (Some w)
    then obtain h' t' where 1: "bt_update_if_found (bt_heap s) (Some (gt_addr t)) k v = ret (True, h')"
        "bt_step (bt_heap s) t h' t' d" "inorder t' = upd_assoc k v (inorder t)"
      using bt_update_if_found_tree [OF ok v sub so, of k] by auto
    then have "bt_insert s k v = ret (1, s\<lparr>bt_heap := h'\<rparr>)" using r by (simp add: bt_insert_def)
    moreover have "bt_inv (s\<lparr>bt_heap := h'\<rparr>) d t'"
      using 1(2,3) so ne r by (simp add: bt_inv_def bt_step_def)
    ultimately show ?thesis using 1(3) by blast
  next
    case None
    then have nf: "bt_update_if_found (bt_heap s) (Some (gt_addr t)) k v = ret (False, bt_heap s)"
      using bt_update_if_found_tree [OF ok v sub so, of k] by simp
    show ?thesis
    proof (cases "n_entries t = BTREE_MAX_KEYS")
      case True
      from bt_insert_grow [OF sub ok True so None v]
      obtain h' t' where g: "\<And>f. (let (new_root, h) = bt_create_node LEAF_NODE_FALSE_FLAG (bt_heap s) in
       bindC (load h new_root) (\<lambda>n.
       bindC (write_arr (children n) 0 (Some (Some (gt_addr t)))) (\<lambda>cs.
       bindC (store h new_root (n\<lparr>children := cs\<rparr>)) (\<lambda>h.
       bindC (bt_split_node 0 new_root (Some (gt_addr t)) h) (\<lambda>h.
       bindC (load h new_root) (\<lambda>n.
       bindC (read_slot (entries n) 0) (\<lambda>e.
       bindC (read_slot (children n) (if ent_key e < k then 1 else 0)) (\<lambda>c.
       bindC (bt_insert_not_full h c k v) (\<lambda>h. f h new_root))))))))) =
         (f h' (Some (gt_addr t')) :: (int \<times> btree_dram) comp)"
         "bt_sub h' (Suc d) t'" "heap_ok h'" "1 \<le> n_entries t'" "inorder t' = upd_assoc k v (inorder t)"
        by blast
      have "bt_insert s k v = ret (1, s\<lparr>bt_heap := h', bt_root := Some (gt_addr t')\<rparr>)"
        using r nf n True g(1) [of "\<lambda>h r. ret (1, s\<lparr>bt_heap := h, bt_root := r\<rparr>)"]
        by (simp add: bt_insert_def bt_is_node_full_def)
      moreover have "bt_inv (s\<lparr>bt_heap := h', bt_root := Some (gt_addr t')\<rparr>) (Suc d) t'"
        using g(2-5) so by (simp add: bt_inv_def)
      ultimately show ?thesis using g(5) by blast
    next
      case False
      then have "bt_ready (bt_heap s) t d k" using sub ok so None n(3) by (simp add: bt_ready_def)
      from bt_insert_not_full_tree [OF v this] obtain h' t' where
          1: "bt_insert_not_full (bt_heap s) (Some (gt_addr t)) k v = ret h'"
          "bt_step (bt_heap s) t h' t' d" "inorder t' = upd_assoc k v (inorder t)"
        by (auto simp: bt_inserted_def)
      then have "bt_insert s k v = ret (1, s\<lparr>bt_heap := h'\<rparr>)"
        using r nf n False by (simp add: bt_insert_def bt_is_node_full_def)
      moreover have "bt_inv (s\<lparr>bt_heap := h'\<rparr>) d t'"
        using 1(2,3) so ne r by (simp add: bt_inv_def bt_step_def)
      ultimately show ?thesis using 1(3) by blast
    qed
  qed
qed

lemma bt_read_present: "bt_rep s m \<Longrightarrow> m k = Some v \<Longrightarrow> bt_read s k r = ret (1, StrP v)"
  using bt_search_tree by (fastforce simp: bt_rep_def bt_inv_def bt_sub_def bt_read_def bt_check_def)

lemma bt_insert_ok:
  assumes "bt_rep s m" and "fits v"
  shows "\<exists>s'. bt_insert s k v = ret (1, s') \<and> bt_rep s' (m(k \<mapsto> v))"
proof (cases "bt_root s = NULL")
  case True
  with assms(1) have m: "m = Map.empty" "heap_ok (bt_heap s)" by (auto simp: bt_rep_def bt_inv_def)
  with bt_insert_empty [OF True m(2) assms(2), of k] obtain s' t where
      "bt_insert s k v = ret (1, s')" "bt_inv s' 0 t" "inorder t = [(k, v)]" by blast
  moreover from this(3) have "m(k \<mapsto> v) = map_of (inorder t)" using m by (simp add: fun_eq_iff)
  ultimately show ?thesis unfolding bt_rep_def by blast
next
  case False
  with assms(1) obtain d t where i: "bt_inv s d t" and m: "m = map_of (inorder t)"
    by (auto simp: bt_rep_def)
  obtain s' d' t' where "bt_insert s k v = ret (1, s')" "bt_inv s' d' t'"
      "inorder t' = upd_assoc k v (inorder t)"
    using bt_insert_nonempty [OF i assms(2)] by blast
  moreover from this(3) have "m(k \<mapsto> v) = map_of (inorder t')" by (simp add: m)
  ultimately show ?thesis unfolding bt_rep_def by blast
qed

lemma bt_update_ok:
  assumes "bt_rep s m" and "m k = Some w" and "fits v"
  shows "\<exists>s'. bt_update s k v = ret (1, s') \<and> bt_rep s' (m(k \<mapsto> v))"
proof -
  have "bt_root s \<noteq> NULL" using assms(1,2) by (auto simp: bt_rep_def bt_inv_def)
  then show ?thesis using bt_insert_ok [OF assms(1,3)] by (simp add: bt_update_def bt_check_def)
qed

definition bt_ops :: "btree_dram storeds_base" where
  "bt_ops = \<lparr>op_read = bt_read, op_scan = bt_scan, op_update = bt_update,
     op_insert = bt_insert, op_destroy = bt_destroy\<rparr>"

interpretation bt: upsert_store bt_ops bt_rep "\<lambda>_. True"
  by unfold_locales (simp_all add: bt_ops_def bt_read_present bt_insert_ok bt_update_ok)

section \<open>Destruction\<close>

lemma bt_recursive_free_tree:
  "bt_tree (mem h) t \<Longrightarrow> balanced d t \<Longrightarrow> distinct (addrs t) \<Longrightarrow>
   bt_recursive_free (Some (gt_addr t)) h = ret (h\<lparr>mem := mem h |` (- set (addrs t))\<rparr>)"
proof (induction d arbitrary: t h)
  case 0
  then obtain a es n where t: "t = GT a es []" and n: "mem h a = Some n" "bt_node n es []"
    by (cases t) auto
  have "(mem h)(a := None) = mem h |` (- {a})" by (auto simp: restrict_map_def)
  then show ?case using t n by (subst bt_recursive_free.simps) (simp add: bt_node_def btree_consts)
next
  case (Suc d)
  obtain a es ts where t: "t = GT a es ts" by (cases t)
  from Suc.prems(1) obtain n where n: "mem h a = Some n" "bt_node n es ts" unfolding t by auto
  have l: "length ts = Suc (length es)" and kids: "\<forall>t \<in> set ts. balanced d t \<and> bt_tree (mem h) t"
    and dis: "distinct (a # kids_addrs ts)"
    using Suc.prems unfolding t by auto
  have "ts \<noteq> []" using l by auto
  then have nk: "nk n = length es" and lf: "is_leaf n = 0"
    using n(2) by (simp_all add: bt_node_def btree_consts)
  let ?body = "\<lambda>i h. bindC (load h (Some a)) (\<lambda>n. bindC (read_slot (children n) i) (\<lambda>c. bt_recursive_free c h))"
  let ?P = "\<lambda>i g. g = h\<lparr>mem := mem h |` (- set (kids_addrs (take i ts)))\<rparr>"
  have "\<exists>g'. for_loop 0 (length ts) ?body h = ret g' \<and> ?P (0 + length ts) g'"
  proof (rule for_loop_inv)
    show "?P 0 h" by (simp add: restrict_map_def)
    fix j g assume j: "j < 0 + length ts" and P: "?P j g"
    obtain ts1 c ts2 where ts: "ts = ts1 @ c # ts2" "length ts1 = j"
      using j id_take_nth_drop [of j ts] by (metis add_0 length_take min.absorb4)
    have g: "mem g x = mem h x" if "x \<notin> set (kids_addrs ts1)" for x
      using that P ts by (simp add: restrict_map_def)
    have "bt_tree (mem g) c"
    proof (rule bt_tree_agree)
      show "bt_tree (mem h) c" using kids ts(1) by simp
      show "mem g x = mem h x" if "x \<in> set (addrs c)" for x
        using dis ts(1) that by (intro g) auto
    qed
    then have "bt_recursive_free (Some (gt_addr c)) g = ret (g\<lparr>mem := mem g |` (- set (addrs c))\<rparr>)"
      using kids dis ts(1) by (intro Suc.IH) auto
    moreover have "mem g a = Some n" using g [of a] dis ts(1) n(1) by auto
    moreover have "g\<lparr>mem := mem g |` (- set (addrs c))\<rparr> = h\<lparr>mem := mem h |` (- set (kids_addrs (take (Suc j) ts)))\<rparr>"
      using P ts by (auto simp: restrict_map_def fun_eq_iff)
    ultimately show "\<exists>g'. ?body j g = ret g' \<and> ?P (Suc j) g'"
      using bt_node_child [OF n(2) [unfolded ts(1)]] ts(2) by simp
  qed
  then have "for_loop 0 (nk n + 1) ?body h = ret (h\<lparr>mem := mem h |` (- set (kids_addrs ts))\<rparr>)"
    using nk l by simp
  then show ?case
    using t n lf dis
    by (subst bt_recursive_free.simps) (auto simp: restrict_map_def fun_eq_iff)
qed

lemma bt_destroy_inv:
  assumes "bt_inv s d t"
  shows "\<exists>s'. bt_destroy s = ret s' \<and> bt_root s' = NULL \<and>
     mem (bt_heap s') = mem (bt_heap s) |` (- set (addrs t))"
  using assms bt_recursive_free_tree [of "bt_heap s" t d]
  by (simp add: bt_inv_def bt_sub_def bt_destroy_def bt_check_def)


lemma bt_read_absent:
  "bt_rep s m \<Longrightarrow> m k = None \<Longrightarrow>
   bt_read s k r = (if m = Map.empty then crash AssertFail else ret (1, NullP)) \<and>
   \<not> returns (StoredsDB_Read bt_ops s tbl k fs)"
proof -
  assume rep: "bt_rep s m" and k: "m k = None"
  have r: "bt_read s k r = (if m = Map.empty then crash AssertFail else ret (1, NullP))" for r
  proof (cases "bt_root s = NULL")
    case True
    with rep show ?thesis by (auto simp: bt_rep_def bt_inv_def bt_read_def bt_check_def)
  next
    case False
    with rep obtain d t where i: "bt_inv s d t" and m: "m = map_of (inorder t)"
      by (auto simp: bt_rep_def)
    have "set (inorder t) \<noteq> {}"
    proof (cases t)
      case (GT a es ts)
      then have "set es \<subseteq> set (inorder t)" "es \<noteq> []"
        using i set_inorder [of ts es a] balanced_lengths [of d a es ts] by (auto simp: bt_inv_def bt_sub_def)
      then show ?thesis by auto
    qed
    then have "m \<noteq> Map.empty" by (cases "inorder t") (auto simp: m fun_eq_iff split: if_splits)
    then show ?thesis
      using bt_search_tree [of "bt_heap s" t d k] i k
      by (simp add: bt_read_def bt_check_def bt_inv_def bt_sub_def m)
  qed
  then show ?thesis by (simp add: StoredsDB_Read_def bt_ops_def)
qed

section \<open>Properties\<close>

lemma bt_rep_init: "bt_rep bt_init Map.empty"
  by (simp add: bt_rep_def bt_init_def)

text \<open>
  C5: from the empty tree, any valid sequence of database calls gives the results of a map, and
  the heap then holds a B-tree with that content.
\<close>

theorem bt_refines_map:
  "valid_run (\<lambda>_. True) upsert Map.empty cs \<Longrightarrow>
   \<exists>s'. db_run bt_ops bt_init cs = ret (fst (spec_run upsert Map.empty cs), s') \<and>
     bt_rep s' (snd (spec_run upsert Map.empty cs))"
  by (rule bt.db_run_refines [OF bt_rep_init])

theorem bt_refines_map_witness:
  "\<exists>s'. db_run bt_ops bt_init
      [DBInsert 3 [(''field'', ''a'')], DBInsert 1 [(''field'', ''b'')], DBUpdate 3 [(''field'', ''c'')],
       DBRead 3, DBRead 1] =
      ret ([RDone 0, RDone 0, RDone 0, RRead 0 [(3, ''c'')], RRead 0 [(1, ''b'')]], s')"
  using bt_refines_map [of "[DBInsert 3 [(''field'', ''a'')], DBInsert 1 [(''field'', ''b'')],
      DBUpdate 3 [(''field'', ''c'')], DBRead 3, DBRead 1]"]
  by (auto simp: fits_def DEFAULT_VALUE_LEN_def c_str_def kOK_def)

text \<open>
  C2: an insertion keeps the B-tree invariant (all leaves at one depth, between
  \<open>BTREE_MIN_DEGREE - 1\<close> and \<open>BTREE_MAX_KEYS\<close> entries in every node but the root, keys in order,
  no node shared) and its inorder content is the old one with the key set to the value.
\<close>

theorem bt_insert_keeps_invariant:
  "bt_inv s d t \<Longrightarrow> fits v \<Longrightarrow>
   \<exists>s' d' t'. bt_insert s k v = ret (1, s') \<and> bt_inv s' d' t' \<and>
     inorder t' = upd_assoc k v (inorder t)"
  by (rule bt_insert_nonempty)

theorem bt_insert_keeps_invariant_witness:
  "\<exists>s s' d t. bt_insert bt_init 5 ''x'' = ret (1, s) \<and> bt_insert s 2 ''y'' = ret (1, s') \<and>
     bt_inv s' d t \<and> inorder t = [(2, ''y''), (5, ''x'')]"
proof -
  obtain s t where s: "bt_insert bt_init 5 ''x'' = ret (1, s)" "bt_inv s 0 t" "inorder t = [(5, ''x'')]"
    using bt_insert_empty [of bt_init "''x''" 5]
    by (auto simp: bt_init_def fits_def DEFAULT_VALUE_LEN_def)
  show ?thesis
    using bt_insert_keeps_invariant [OF s(2), of "''y''" 2] s
    by (fastforce simp: fits_def DEFAULT_VALUE_LEN_def)
qed

text \<open>
  C35: destroying a non-empty tree frees each of its nodes exactly once, frees nothing else, and
  leaves the root null.
\<close>

theorem bt_destroy_frees:
  "bt_inv s d t \<Longrightarrow> \<exists>s'. bt_destroy s = ret s' \<and> bt_root s' = NULL \<and>
     mem (bt_heap s') = mem (bt_heap s) |` (- set (addrs t))"
  by (rule bt_destroy_inv)

theorem bt_destroy_frees_witness:
  "\<exists>s s'. bt_insert bt_init 5 ''x'' = ret (1, s) \<and> bt_destroy s = ret s' \<and> bt_root s' = NULL"
proof -
  obtain s t where s: "bt_insert bt_init 5 ''x'' = ret (1, s)" "bt_inv s 0 t"
    using bt_insert_empty [of bt_init "''x''" 5]
    by (auto simp: bt_init_def fits_def DEFAULT_VALUE_LEN_def)
  then show ?thesis using bt_destroy_frees [OF s(2)] by blast
qed

end
