(* ===== verification/RB_Tree.thy ===== *)
theory RB_Tree
  imports Storeds_DB Tree_Shape
begin

text \<open>
  \<^verbatim>\<open>src/storeds/rbtree/rbtree_dram.cc\<close>: a red-black tree with parent pointers on an explicit heap.
  Insertion walks down, links a red node and climbs back in \<open>fix_violation\<close>; the proofs follow it
  with a ghost tree and the path from the current node to the root. The lemmas show that the
  colour and black-height invariants and the order of keys are kept, that every pointer the
  rotations follow is valid, and that the tree is a map.
\<close>

section \<open>State\<close>

datatype rbtree_color = RED | BLACK

record rbtree_dram_node =
  rb_key :: u64
  rb_value :: string
  rb_left :: ptr
  rb_right :: ptr
  rb_parent :: ptr
  rb_color :: rbtree_color

record rbtree_dram =
  rb_heap :: "rbtree_dram_node heap"
  rb_root :: ptr

section \<open>Operations\<close>

definition rb_init :: rbtree_dram where
  "rb_init = \<lparr>rb_heap = empty_heap, rb_root = NULL\<rparr>"

definition rb_check :: "rbtree_dram \<Rightarrow> unit comp" where
  "rb_check s = assertC (rb_root s \<noteq> NULL)"

partial_function (option) rb_lookup ::
  "rbtree_dram_node heap \<Rightarrow> ptr \<Rightarrow> u64 \<Rightarrow> outp \<Rightarrow> outp comp" where
  "rb_lookup h current_node key result =
     (if current_node = NULL then ret result
      else bindC (load h current_node) (\<lambda>n.
        if rb_key n = key then ret (StrP (rb_value n))
        else if rb_key n > key then rb_lookup h (rb_left n) key result
        else rb_lookup h (rb_right n) key result))"

definition rb_scan :: "rbtree_dram \<Rightarrow> u64 \<Rightarrow> int \<Rightarrow> scan_result \<Rightarrow> (int \<times> scan_result) comp" where
  "rb_scan s key len result = crash (Thrown ''Scan: function not implemented!'')"

definition rb_read :: "rbtree_dram \<Rightarrow> u64 \<Rightarrow> outp \<Rightarrow> (int \<times> outp) comp" where
  "rb_read s key result =
     bindC (rb_check s) (\<lambda>_.
     bindC (rb_lookup (rb_heap s) (rb_root s) key result) (\<lambda>r. ret (1, r)))"

text \<open>\<open>p->field = x\<close>\<close>

definition rb_upd ::
  "ptr \<Rightarrow> (rbtree_dram_node \<Rightarrow> rbtree_dram_node) \<Rightarrow> rbtree_dram \<Rightarrow> rbtree_dram comp" where
  "rb_upd p f s = bindC (load (rb_heap s) p) (\<lambda>n.
     bindC (store (rb_heap s) p (f n)) (\<lambda>h. ret (s\<lparr>rb_heap := h\<rparr>)))"

definition rb_get :: "ptr \<Rightarrow> rbtree_dram \<Rightarrow> rbtree_dram_node comp" where
  "rb_get p s = load (rb_heap s) p"

text \<open>The three branches that hang \<open>x\<close> where \<open>ptr\<close> was, common to both rotations.\<close>

definition rb_replace :: "ptr \<Rightarrow> ptr \<Rightarrow> rbtree_dram \<Rightarrow> rbtree_dram comp" where
  "rb_replace ptr x s =
     bindC (rb_get ptr s) (\<lambda>n.
       if rb_parent n = NULL then ret (s\<lparr>rb_root := x\<rparr>)
       else bindC (rb_get (rb_parent n) s) (\<lambda>p.
         if ptr = rb_left p then rb_upd (rb_parent n) (\<lambda>p. p\<lparr>rb_left := x\<rparr>) s
         else rb_upd (rb_parent n) (\<lambda>p. p\<lparr>rb_right := x\<rparr>) s))"

definition rb_rotate_left :: "ptr \<Rightarrow> rbtree_dram \<Rightarrow> rbtree_dram comp" where
  "rb_rotate_left ptr s =
     bindC (rb_get ptr s) (\<lambda>n.
     let right_p = rb_right n in
     bindC (rb_get right_p s) (\<lambda>r.
     bindC (rb_upd ptr (\<lambda>n. n\<lparr>rb_right := rb_left r\<rparr>) s) (\<lambda>s.
     bindC (rb_get ptr s) (\<lambda>n.
     bindC (if rb_right n \<noteq> NULL then rb_upd (rb_right n) (\<lambda>c. c\<lparr>rb_parent := ptr\<rparr>) s else ret s) (\<lambda>s.
     bindC (rb_get ptr s) (\<lambda>n.
     bindC (rb_upd right_p (\<lambda>r. r\<lparr>rb_parent := rb_parent n\<rparr>) s) (\<lambda>s.
     bindC (rb_replace ptr right_p s) (\<lambda>s.
     bindC (rb_upd right_p (\<lambda>r. r\<lparr>rb_left := ptr\<rparr>) s) (\<lambda>s.
       rb_upd ptr (\<lambda>n. n\<lparr>rb_parent := right_p\<rparr>) s)))))))))"

definition rb_rotate_right :: "ptr \<Rightarrow> rbtree_dram \<Rightarrow> rbtree_dram comp" where
  "rb_rotate_right ptr s =
     bindC (rb_get ptr s) (\<lambda>n.
     let left_p = rb_left n in
     bindC (rb_get left_p s) (\<lambda>l.
     bindC (rb_upd ptr (\<lambda>n. n\<lparr>rb_left := rb_right l\<rparr>) s) (\<lambda>s.
     bindC (rb_get ptr s) (\<lambda>n.
     bindC (if rb_left n \<noteq> NULL then rb_upd (rb_left n) (\<lambda>c. c\<lparr>rb_parent := ptr\<rparr>) s else ret s) (\<lambda>s.
     bindC (rb_get ptr s) (\<lambda>n.
     bindC (rb_upd left_p (\<lambda>l. l\<lparr>rb_parent := rb_parent n\<rparr>) s) (\<lambda>s.
     bindC (rb_replace ptr left_p s) (\<lambda>s.
     bindC (rb_upd left_p (\<lambda>l. l\<lparr>rb_right := ptr\<rparr>) s) (\<lambda>s.
       rb_upd ptr (\<lambda>n. n\<lparr>rb_parent := left_p\<rparr>) s)))))))))"

definition rb_create_new_node ::
  "rbtree_dram_node \<Rightarrow> u64 \<Rightarrow> string \<Rightarrow> rbtree_dram \<Rightarrow> (ptr \<times> rbtree_dram) comp" where
  "rb_create_new_node junk key value s =
     (let (new_node, h) = malloc (rb_heap s) junk; s = s\<lparr>rb_heap := h\<rparr> in
      bindC (rb_upd new_node (\<lambda>n. n\<lparr>rb_left := NULL, rb_right := NULL, rb_parent := NULL,
        rb_color := RED, rb_key := key\<rparr>) s) (\<lambda>s.
      bindC (copy_value value) (\<lambda>v.
      bindC (rb_upd new_node (\<lambda>n. n\<lparr>rb_value := v\<rparr>) s) (\<lambda>s. ret (new_node, s)))))"

partial_function (option) rb_bst_upsert ::
  "rbtree_dram_node \<Rightarrow> ptr \<Rightarrow> u64 \<Rightarrow> string \<Rightarrow> rbtree_dram \<Rightarrow> (ptr \<times> rbtree_dram) comp" where
  "rb_bst_upsert junk current_node key value s =
     (if current_node = NULL then crash AssertFail
      else bindC (rb_get current_node s) (\<lambda>n.
        if key = rb_key n
        then bindC (copy_value value) (\<lambda>v.
             bindC (rb_upd current_node (\<lambda>n. n\<lparr>rb_value := v\<rparr>) s) (\<lambda>s. ret (NULL, s)))
        else if key < rb_key n
        then if rb_left n = NULL
             then bindC (rb_create_new_node junk key value s) (\<lambda>(new_node, s).
                  bindC (rb_upd current_node (\<lambda>n. n\<lparr>rb_left := new_node\<rparr>) s) (\<lambda>s.
                  bindC (rb_upd new_node (\<lambda>n. n\<lparr>rb_parent := current_node\<rparr>) s) (\<lambda>s.
                    ret (new_node, s))))
             else rb_bst_upsert junk (rb_left n) key value s
        else if rb_right n = NULL
             then bindC (rb_create_new_node junk key value s) (\<lambda>(new_node, s).
                  bindC (rb_upd current_node (\<lambda>n. n\<lparr>rb_right := new_node\<rparr>) s) (\<lambda>s.
                  bindC (rb_upd new_node (\<lambda>n. n\<lparr>rb_parent := current_node\<rparr>) s) (\<lambda>s.
                    ret (new_node, s))))
             else rb_bst_upsert junk (rb_right n) key value s))"

text \<open>\<open>uncle_pt != NULL && uncle_pt->color == RED\<close>\<close>

definition rb_is_red :: "ptr \<Rightarrow> rbtree_dram \<Rightarrow> bool comp" where
  "rb_is_red p s = (if p = NULL then ret False else bindC (rb_get p s) (\<lambda>n. ret (rb_color n = RED)))"

definition rb_set_color :: "ptr \<Rightarrow> rbtree_color \<Rightarrow> rbtree_dram \<Rightarrow> rbtree_dram comp" where
  "rb_set_color p c s = rb_upd p (\<lambda>n. n\<lparr>rb_color := c\<rparr>) s"

text \<open>The recolouring of a red uncle, and the exchange of colours after a rotation.\<close>

definition rb_recolor :: "ptr \<Rightarrow> ptr \<Rightarrow> ptr \<Rightarrow> rbtree_dram \<Rightarrow> rbtree_dram comp" where
  "rb_recolor grand_parent_pt parent_pt uncle_pt s =
     bindC (rb_set_color grand_parent_pt RED s) (\<lambda>s.
     bindC (rb_set_color parent_pt BLACK s) (\<lambda>s.
       rb_set_color uncle_pt BLACK s))"

definition rb_swap_colors :: "ptr \<Rightarrow> ptr \<Rightarrow> rbtree_dram \<Rightarrow> rbtree_dram comp" where
  "rb_swap_colors parent_pt grand_parent_pt s =
     bindC (rb_get parent_pt s) (\<lambda>p.
     bindC (rb_get grand_parent_pt s) (\<lambda>g.
     bindC (rb_set_color parent_pt (rb_color g) s) (\<lambda>s.
       rb_set_color grand_parent_pt (rb_color p) s)))"

text \<open>The condition of the loop, and its body: the next \<open>current_node\<close>.\<close>

definition rb_violation :: "ptr \<Rightarrow> rbtree_dram \<Rightarrow> bool comp" where
  "rb_violation current_node s =
     (if current_node = rb_root s then ret False
      else bindC (rb_get current_node s) (\<lambda>n.
        if rb_color n = BLACK then ret False
        else bindC (rb_get (rb_parent n) s) (\<lambda>p. ret (rb_color p = RED))))"

definition rb_fix_step :: "ptr \<Rightarrow> rbtree_dram \<Rightarrow> (ptr \<times> rbtree_dram) comp" where
  "rb_fix_step current_node s =
     bindC (rb_get current_node s) (\<lambda>n.
     let parent_pt = rb_parent n in
     bindC (rb_get parent_pt s) (\<lambda>p.
     let grand_parent_pt = rb_parent p in
     bindC (rb_get grand_parent_pt s) (\<lambda>g.
     if parent_pt = rb_left g
     then let uncle_pt = rb_right g in
          bindC (rb_is_red uncle_pt s) (\<lambda>red.
          if red
          then bindC (rb_recolor grand_parent_pt parent_pt uncle_pt s) (\<lambda>s. ret (grand_parent_pt, s))
          else bindC (if current_node = rb_right p
                      then bindC (rb_rotate_left parent_pt s) (\<lambda>s.
                           bindC (rb_get parent_pt s) (\<lambda>c. ret (rb_parent c, s)))
                      else ret (parent_pt, s)) (\<lambda>(parent_pt, s).
               bindC (rb_rotate_right grand_parent_pt s) (\<lambda>s.
               bindC (rb_swap_colors parent_pt grand_parent_pt s) (\<lambda>s. ret (parent_pt, s)))))
     else let uncle_pt = rb_left g in
          bindC (rb_is_red uncle_pt s) (\<lambda>red.
          if red
          then bindC (rb_recolor grand_parent_pt parent_pt uncle_pt s) (\<lambda>s. ret (grand_parent_pt, s))
          else bindC (if current_node = rb_left p
                      then bindC (rb_rotate_right parent_pt s) (\<lambda>s.
                           bindC (rb_get parent_pt s) (\<lambda>c. ret (rb_parent c, s)))
                      else ret (parent_pt, s)) (\<lambda>(parent_pt, s).
               bindC (rb_rotate_left grand_parent_pt s) (\<lambda>s.
               bindC (rb_swap_colors parent_pt grand_parent_pt s) (\<lambda>s. ret (parent_pt, s))))))))"

partial_function (option) rb_fix_loop :: "ptr \<Rightarrow> rbtree_dram \<Rightarrow> rbtree_dram comp" where
  "rb_fix_loop current_node s =
     bindC (rb_violation current_node s) (\<lambda>again.
       if again then bindC (rb_fix_step current_node s) (\<lambda>(c, s). rb_fix_loop c s)
       else ret s)"

definition rb_fix_violation :: "ptr \<Rightarrow> rbtree_dram \<Rightarrow> rbtree_dram comp" where
  "rb_fix_violation current_node s =
     bindC (rb_fix_loop current_node s) (\<lambda>s. rb_set_color (rb_root s) BLACK s)"

definition rb_insert ::
  "rbtree_dram_node \<Rightarrow> rbtree_dram \<Rightarrow> u64 \<Rightarrow> string \<Rightarrow> (int \<times> rbtree_dram) comp" where
  "rb_insert junk s key value =
     (if rb_root s = NULL
      then bindC (rb_create_new_node junk key value s) (\<lambda>(new_node, s).
           let s = s\<lparr>rb_root := new_node\<rparr> in
           bindC (rb_fix_violation (rb_root s) s) (\<lambda>s. ret (1, s)))
      else bindC (rb_bst_upsert junk (rb_root s) key value s) (\<lambda>(new_node, s).
           bindC (if new_node \<noteq> NULL then rb_fix_violation new_node s else ret s) (\<lambda>s.
             ret (1, s))))"

definition rb_update ::
  "rbtree_dram_node \<Rightarrow> rbtree_dram \<Rightarrow> u64 \<Rightarrow> string \<Rightarrow> (int \<times> rbtree_dram) comp" where
  "rb_update junk s key value = bindC (rb_check s) (\<lambda>_. rb_insert junk s key value)"

partial_function (option) rb_free_node ::
  "ptr \<Rightarrow> rbtree_dram_node heap \<Rightarrow> rbtree_dram_node heap comp" where
  "rb_free_node current h =
     (if current \<noteq> NULL
      then bindC (load h current) (\<lambda>n.
           bindC (rb_free_node (rb_left n) h) (\<lambda>h.
           bindC (load h current) (\<lambda>n.
           bindC (rb_free_node (rb_right n) h) (\<lambda>h. cfree h current))))
      else ret h)"

definition rb_destroy :: "rbtree_dram \<Rightarrow> rbtree_dram comp" where
  "rb_destroy s =
     bindC (rb_check s) (\<lambda>_.
     bindC (rb_free_node (rb_root s) (rb_heap s)) (\<lambda>h. ret (s\<lparr>rb_heap := h\<rparr>)))"

section \<open>Ghost trees and paths\<close>

datatype rbt = Lf | Nd rbt nat rbtree_color "u64 \<times> string" rbt

datatype rb_frame = FL nat rbtree_color "u64 \<times> string" rbt | FR rbt nat rbtree_color "u64 \<times> string"

fun rptr :: "rbt \<Rightarrow> ptr" where
  "rptr Lf = NULL"
| "rptr (Nd l a c e r) = Some a"

fun frame_addr :: "rb_frame \<Rightarrow> nat" where
  "frame_addr (FL a c e r) = a"
| "frame_addr (FR l a c e) = a"

fun frame_color :: "rb_frame \<Rightarrow> rbtree_color" where
  "frame_color (FL a c e r) = c"
| "frame_color (FR l a c e) = c"

definition up :: "rb_frame list \<Rightarrow> ptr" where
  "up fs = (case fs of [] \<Rightarrow> NULL | f # _ \<Rightarrow> Some (frame_addr f))"

fun rb_addrs :: "rbt \<Rightarrow> nat list" where
  "rb_addrs Lf = []"
| "rb_addrs (Nd l a c e r) = a # rb_addrs l @ rb_addrs r"

fun frame_addrs :: "rb_frame \<Rightarrow> nat list" where
  "frame_addrs (FL a c e r) = a # rb_addrs r"
| "frame_addrs (FR l a c e) = a # rb_addrs l"

abbreviation path_addrs :: "rb_frame list \<Rightarrow> nat list" where
  "path_addrs fs \<equiv> concat (map frame_addrs fs)"

fun rb_inorder :: "rbt \<Rightarrow> (u64 \<times> string) list" where
  "rb_inorder Lf = []"
| "rb_inorder (Nd l a c e r) = rb_inorder l @ e # rb_inorder r"

fun plug :: "rbt \<Rightarrow> rb_frame list \<Rightarrow> rbt" where
  "plug t [] = t"
| "plug t (FL a c e r # fs) = plug (Nd t a c e r) fs"
| "plug t (FR l a c e # fs) = plug (Nd l a c e t) fs"

text \<open>What the nodes of the heap hold, for a subtree and for a path.\<close>

fun rb_tree :: "(nat \<rightharpoonup> rbtree_dram_node) \<Rightarrow> ptr \<Rightarrow> rbt \<Rightarrow> bool" where
  "rb_tree M p Lf \<longleftrightarrow> True"
| "rb_tree M p (Nd l a c e r) \<longleftrightarrow>
     M a = Some \<lparr>rb_key = fst e, rb_value = snd e, rb_left = rptr l, rb_right = rptr r,
       rb_parent = p, rb_color = c\<rparr> \<and> rb_tree M (Some a) l \<and> rb_tree M (Some a) r"

fun rb_path :: "(nat \<rightharpoonup> rbtree_dram_node) \<Rightarrow> ptr \<Rightarrow> ptr \<Rightarrow> rb_frame list \<Rightarrow> bool" where
  "rb_path M root p [] \<longleftrightarrow> root = p"
| "rb_path M root p (FL a c e r # fs) \<longleftrightarrow>
     M a = Some \<lparr>rb_key = fst e, rb_value = snd e, rb_left = p, rb_right = rptr r,
       rb_parent = up fs, rb_color = c\<rparr> \<and> rb_tree M (Some a) r \<and> rb_path M root (Some a) fs"
| "rb_path M root p (FR l a c e # fs) \<longleftrightarrow>
     M a = Some \<lparr>rb_key = fst e, rb_value = snd e, rb_left = rptr l, rb_right = p,
       rb_parent = up fs, rb_color = c\<rparr> \<and> rb_tree M (Some a) l \<and> rb_path M root (Some a) fs"

text \<open>The tree \<open>t\<close> at the end of the path \<open>fs\<close>, all nodes distinct.\<close>

definition rb_at :: "rbtree_dram \<Rightarrow> rbt \<Rightarrow> rb_frame list \<Rightarrow> bool" where
  "rb_at s t fs \<longleftrightarrow> rb_tree (mem (rb_heap s)) (up fs) t \<and>
     rb_path (mem (rb_heap s)) (rb_root s) (rptr t) fs \<and>
     distinct (rb_addrs t @ path_addrs fs) \<and> heap_ok (rb_heap s)"

lemma up_simps [simp]: "up [] = NULL" "up (f # fs) = Some (frame_addr f)"
  by (simp_all add: up_def)

lemma rb_tree_agree:
  "(\<And>a. a \<in> set (rb_addrs t) \<Longrightarrow> M' a = M a) \<Longrightarrow> rb_tree M' p t = rb_tree M p t"
  by (induction M p t rule: rb_tree.induct) auto

lemma rb_path_agree:
  "(\<And>a. a \<in> set (path_addrs fs) \<Longrightarrow> M' a = M a) \<Longrightarrow> rb_path M' root p fs = rb_path M root p fs"
proof (induction M root p fs rule: rb_path.induct)
  case (2 M root p a c e r fs)
  then have "rb_tree M' (Some a) r = rb_tree M (Some a) r" by (intro rb_tree_agree) simp
  with 2 show ?case by simp
next
  case (3 M root p l a c e fs)
  then have "rb_tree M' (Some a) l = rb_tree M (Some a) l" by (intro rb_tree_agree) simp
  with 3 show ?case by simp
qed simp

lemma rb_at_plug: "rb_at s t fs \<longleftrightarrow> rb_at s (plug t fs) []"
proof (induction t fs rule: plug.induct)
  case (1 t)
  show ?case by simp
next
  case (2 t a c e r fs)
  have "rb_at s t (FL a c e r # fs) \<longleftrightarrow> rb_at s (Nd t a c e r) fs" by (auto simp: rb_at_def)
  with 2 show ?case by simp
next
  case (3 t l a c e fs)
  have "rb_at s t (FR l a c e # fs) \<longleftrightarrow> rb_at s (Nd l a c e t) fs" by (auto simp: rb_at_def)
  with 3 show ?case by simp
qed

lemma rb_at_move: "rb_at s t fs \<Longrightarrow> plug t fs = plug t' fs' \<Longrightarrow> rb_at s t' fs'"
  by (metis rb_at_plug)

lemma plug_append [simp]: "plug t (gs @ fs) = plug (plug t gs) fs"
  by (induction t gs rule: plug.induct) simp_all

section \<open>Heap steps\<close>

lemma rb_upd_ok [simp]:
  "mem (rb_heap s) a = Some n \<Longrightarrow>
   rb_upd (Some a) f s = ret (s\<lparr>rb_heap := (rb_heap s)\<lparr>mem := (mem (rb_heap s))(a \<mapsto> f n)\<rparr>\<rparr>)"
  by (simp add: rb_upd_def)

lemma rb_get_ok [simp]: "mem (rb_heap s) a = Some n \<Longrightarrow> rb_get (Some a) s = ret n"
  by (simp add: rb_get_def)

lemma rb_tree_frame [simp]:
  "x \<notin> set (rb_addrs t) \<Longrightarrow> rb_tree (M(x := n)) p t = rb_tree M p t"
  by (rule rb_tree_agree) auto

lemma rb_path_frame [simp]:
  "x \<notin> set (path_addrs fs) \<Longrightarrow> rb_path (M(x := n)) root p fs = rb_path M root p fs"
  by (rule rb_path_agree) auto

lemma rptr_other [simp]: "a \<notin> set (rb_addrs t) \<Longrightarrow> rptr t \<noteq> Some a"
  "a \<notin> set (rb_addrs t) \<Longrightarrow> Some a \<noteq> rptr t"
  by (cases t; simp)+

lemma rptr_NULL [simp]: "rptr t = NULL \<longleftrightarrow> t = Lf"
  by (cases t) simp_all

lemma heap_ok_mem_upd [simp]:
  "\<forall>x \<in> dom M. x < brk h \<Longrightarrow> heap_ok (h\<lparr>mem := M\<rparr>)"
  by (simp add: heap_ok_def)

lemma rb_rotate_left_ok:
  assumes "rb_at s (Nd l a c e (Nd rl b d f rr)) fs"
  shows "\<exists>s'. rb_rotate_left (Some a) s = ret s' \<and> rb_at s' (Nd (Nd l a c e rl) b d f rr) fs"
proof (cases fs)
  case Nil
  show ?thesis
    using assms by (cases rl) (auto simp: Nil rb_at_def rb_rotate_left_def rb_replace_def heap_ok_def Let_def)
next
  case (Cons g gs)
  show ?thesis
    using assms by (cases rl; cases g)
      (auto simp: Cons rb_at_def rb_rotate_left_def rb_replace_def heap_ok_def Let_def)
qed

lemma rb_rotate_right_ok:
  assumes "rb_at s (Nd (Nd ll b d f lr) a c e r) fs"
  shows "\<exists>s'. rb_rotate_right (Some a) s = ret s' \<and> rb_at s' (Nd ll b d f (Nd lr a c e r)) fs"
proof (cases fs)
  case Nil
  show ?thesis
    using assms by (cases lr) (auto simp: Nil rb_at_def rb_rotate_right_def rb_replace_def heap_ok_def Let_def)
next
  case (Cons g gs)
  show ?thesis
    using assms by (cases lr; cases g)
      (auto simp: Cons rb_at_def rb_rotate_right_def rb_replace_def heap_ok_def Let_def)
qed

lemma rb_set_color_ok:
  assumes "rb_at s (Nd l a c e r) fs"
  shows "\<exists>s'. rb_set_color (Some a) c' s = ret s' \<and> rb_at s' (Nd l a c' e r) fs"
  using assms by (auto simp: rb_at_def rb_set_color_def heap_ok_def)

lemma rb_at_set_value:
  assumes "rb_at s (Nd l a c e r) fs"
  shows "\<exists>s'. rb_upd (Some a) (\<lambda>n. n\<lparr>rb_value := v\<rparr>) s = ret s' \<and> rb_at s' (Nd l a c (fst e, v) r) fs"
  using assms by (auto simp: rb_at_def heap_ok_def)

section \<open>Lookup and plain insertion\<close>

abbreviation rb_sorted :: "rbt \<Rightarrow> bool" where
  "rb_sorted t \<equiv> sorted_keys (rb_inorder t)"

lemma rb_go_left:
  fixes k :: u64
  assumes "rb_sorted (Nd l a c e r)" and "k < fst e"
  shows "map_of (rb_inorder (Nd l a c e r)) k = map_of (rb_inorder l) k"
    and "upd_assoc k v (rb_inorder (Nd l a c e r)) = upd_assoc k v (rb_inorder l) @ e # rb_inorder r"
    and "rb_sorted l"
proof -
  have a: "k < x" if "x \<in> fst ` set (e # rb_inorder r)" for x
    using assms that by (auto simp: sorted_wrt_append dest: less_trans)
  show "map_of (rb_inorder (Nd l a c e r)) k = map_of (rb_inorder l) k"
    using map_of_cut [of "[]" k "e # rb_inorder r" "rb_inorder l", OF _ a] by simp
  show "upd_assoc k v (rb_inorder (Nd l a c e r)) = upd_assoc k v (rb_inorder l) @ e # rb_inorder r"
    using upd_assoc_cut [of "[]" k "e # rb_inorder r" v "rb_inorder l", OF _ a] by simp
  show "rb_sorted l" using assms(1) by (simp add: sorted_wrt_append)
qed

lemma rb_go_right:
  fixes k :: u64
  assumes "rb_sorted (Nd l a c e r)" and "fst e < k"
  shows "map_of (rb_inorder (Nd l a c e r)) k = map_of (rb_inorder r) k"
    and "upd_assoc k v (rb_inorder (Nd l a c e r)) = rb_inorder l @ e # upd_assoc k v (rb_inorder r)"
    and "rb_sorted r"
proof -
  have b: "x < k" if "x \<in> fst ` set (rb_inorder l @ [e])" for x
    using assms that by (auto simp: sorted_wrt_append dest: less_trans)
  show "map_of (rb_inorder (Nd l a c e r)) k = map_of (rb_inorder r) k"
    using map_of_cut [of "rb_inorder l @ [e]" k "[]" "rb_inorder r", OF b] by simp
  show "upd_assoc k v (rb_inorder (Nd l a c e r)) = rb_inorder l @ e # upd_assoc k v (rb_inorder r)"
    using upd_assoc_cut [of "rb_inorder l @ [e]" k "[]" v "rb_inorder r", OF b] by simp
  show "rb_sorted r" using assms(1) by (simp add: sorted_wrt_append)
qed

lemma rb_hit:
  assumes "rb_sorted (Nd l a c e r)"
  shows "map_of (rb_inorder (Nd l a c e r)) (fst e) = Some (snd e)"
    and "upd_assoc (fst e) v (rb_inorder (Nd l a c e r)) = rb_inorder (Nd l a c (fst e, v) r)"
proof -
  show "map_of (rb_inorder (Nd l a c e r)) (fst e) = Some (snd e)"
    using sorted_keys_distinct [OF assms] by (intro map_of_is_SomeI) simp_all
  show "upd_assoc (fst e) v (rb_inorder (Nd l a c e r)) = rb_inorder (Nd l a c (fst e, v) r)"
    using upd_assoc_hit [of "rb_inorder l" "fst e" "snd e" "rb_inorder r" v] assms by simp
qed

lemma rb_lookup_tree:
  "rb_tree (mem h) p t \<Longrightarrow> rb_sorted t \<Longrightarrow>
   rb_lookup h (rptr t) k r = ret (case map_of (rb_inorder t) k of Some v \<Rightarrow> StrP v | None \<Rightarrow> r)"
proof (induction t arbitrary: p)
  case Lf
  then show ?case by (simp add: rb_lookup.simps)
next
  case (Nd l a c e r')
  consider "fst e = k" | "k < fst e" | "fst e < k" by force
  then show ?case
  proof cases
    case 1
    then show ?thesis using Nd.prems rb_hit [OF Nd.prems(2)] by (subst rb_lookup.simps) auto
  next
    case 2
    then show ?thesis using Nd rb_go_left [OF Nd.prems(2) 2] by (subst rb_lookup.simps) auto
  next
    case 3
    then show ?thesis using Nd rb_go_right [OF Nd.prems(2) 3] by (subst rb_lookup.simps) auto
  qed
qed

text \<open>A new red node hung at an empty place.\<close>

lemma rb_create_new_node_ok:
  assumes "heap_ok (rb_heap s)" and "fits v"
  shows "\<exists>h'. rb_create_new_node junk k v s = ret (Some (brk (rb_heap s)), s\<lparr>rb_heap := h'\<rparr>) \<and> heap_ok h' \<and>
    brk h' = Suc (brk (rb_heap s)) \<and>
    mem h' = (mem (rb_heap s))(brk (rb_heap s) \<mapsto> \<lparr>rb_key = k, rb_value = v, rb_left = NULL,
      rb_right = NULL, rb_parent = NULL, rb_color = RED\<rparr>)"
proof -
  let ?n = "\<lparr>rb_key = k, rb_value = v, rb_left = NULL, rb_right = NULL, rb_parent = NULL, rb_color = RED\<rparr>"
  let ?h = "(rb_heap s)\<lparr>brk := Suc (brk (rb_heap s)), mem := (mem (rb_heap s))(brk (rb_heap s) \<mapsto> ?n)\<rparr>"
  have "rb_create_new_node junk k v s = ret (Some (brk (rb_heap s)), s\<lparr>rb_heap := ?h\<rparr>)"
    using assms by (cases junk) (simp add: rb_create_new_node_def malloc_def)
  moreover have "heap_ok ?h" using assms(1) by (auto simp: heap_ok_def less_Suc_eq)
  ultimately show ?thesis by (intro exI [of _ ?h]) simp
qed

lemma rb_at_below: "rb_at s t fs \<Longrightarrow> x \<in> set (rb_addrs t) \<or> x \<in> set (path_addrs fs) \<Longrightarrow> x < brk (rb_heap s)"
proof -
  assume at: "rb_at s t fs"
  have t: "x < brk h" if "rb_tree (mem h) p t" "heap_ok h" "x \<in> set (rb_addrs t)"
    for h :: "rbtree_dram_node heap" and p t x
    using that by (induction "mem h" p t rule: rb_tree.induct) (auto dest: heap_ok_less)
  have p: "x < brk h" if "rb_path (mem h) rt p fs" "heap_ok h" "x \<in> set (path_addrs fs)"
    for h :: "rbtree_dram_node heap" and rt p fs x
    using that by (induction "mem h" rt p fs rule: rb_path.induct) (auto dest: heap_ok_less t)
  assume "x \<in> set (rb_addrs t) \<or> x \<in> set (path_addrs fs)"
  with at t p show ?thesis by (auto simp only: rb_at_def)
qed

lemma rb_hang_left:
  assumes at: "rb_at s (Nd Lf a c e r) fs" and v: "fits v"
  shows "\<exists>s'. bindC (rb_create_new_node junk k v s) (\<lambda>(new_node, s).
      bindC (rb_upd (Some a) (\<lambda>n. n\<lparr>rb_left := new_node\<rparr>) s) (\<lambda>s.
      bindC (rb_upd new_node (\<lambda>n. n\<lparr>rb_parent := Some a\<rparr>) s) (\<lambda>s. ret (new_node, s)))) =
        ret (Some (brk (rb_heap s)), s') \<and>
      rb_at s' (Nd Lf (brk (rb_heap s)) RED (k, v) Lf) (FL a c e r # fs)"
proof -
  let ?b = "brk (rb_heap s)"
  have fresh: "?b \<notin> set (rb_addrs (Nd Lf a c e r))" "?b \<notin> set (path_addrs fs)"
    using rb_at_below [OF at, of ?b] by auto
  have ok: "heap_ok (rb_heap s)" using at by (simp add: rb_at_def)
  obtain h' where "rb_create_new_node junk k v s = ret (Some ?b, s\<lparr>rb_heap := h'\<rparr>)" "heap_ok h'"
    "brk h' = Suc ?b" "mem h' = (mem (rb_heap s))(?b \<mapsto> \<lparr>rb_key = k, rb_value = v, rb_left = NULL,
      rb_right = NULL, rb_parent = NULL, rb_color = RED\<rparr>)"
    using rb_create_new_node_ok [OF ok v, of junk k] by blast
  with at fresh show ?thesis by (auto simp: rb_at_def heap_ok_def less_Suc_eq)
qed

lemma rb_hang_right:
  assumes at: "rb_at s (Nd l a c e Lf) fs" and v: "fits v"
  shows "\<exists>s'. bindC (rb_create_new_node junk k v s) (\<lambda>(new_node, s).
      bindC (rb_upd (Some a) (\<lambda>n. n\<lparr>rb_right := new_node\<rparr>) s) (\<lambda>s.
      bindC (rb_upd new_node (\<lambda>n. n\<lparr>rb_parent := Some a\<rparr>) s) (\<lambda>s. ret (new_node, s)))) =
        ret (Some (brk (rb_heap s)), s') \<and>
      rb_at s' (Nd Lf (brk (rb_heap s)) RED (k, v) Lf) (FR l a c e # fs)"
proof -
  let ?b = "brk (rb_heap s)"
  have fresh: "?b \<notin> set (rb_addrs (Nd l a c e Lf))" "?b \<notin> set (path_addrs fs)"
    using rb_at_below [OF at, of ?b] by auto
  have ok: "heap_ok (rb_heap s)" using at by (simp add: rb_at_def)
  obtain h' where "rb_create_new_node junk k v s = ret (Some ?b, s\<lparr>rb_heap := h'\<rparr>)" "heap_ok h'"
    "brk h' = Suc ?b" "mem h' = (mem (rb_heap s))(?b \<mapsto> \<lparr>rb_key = k, rb_value = v, rb_left = NULL,
      rb_right = NULL, rb_parent = NULL, rb_color = RED\<rparr>)"
    using rb_create_new_node_ok [OF ok v, of junk k] by blast
  with at fresh show ?thesis by (auto simp: rb_at_def heap_ok_def less_Suc_eq)
qed

section \<open>The colour and black-height invariants\<close>

fun col :: "rbt \<Rightarrow> rbtree_color" where
  "col Lf = BLACK"
| "col (Nd l a c e r) = c"

fun bh :: "rbt \<Rightarrow> nat" where
  "bh Lf = 0"
| "bh (Nd l a c e r) = bh l + (if c = BLACK then 1 else 0)"

text \<open>No red node has a red child; every path to an empty place crosses as many black nodes.\<close>

fun inv_c :: "rbt \<Rightarrow> bool" where
  "inv_c Lf \<longleftrightarrow> True"
| "inv_c (Nd l a c e r) \<longleftrightarrow> inv_c l \<and> inv_c r \<and> (c = RED \<longrightarrow> col l = BLACK \<and> col r = BLACK)"

fun inv_h :: "rbt \<Rightarrow> bool" where
  "inv_h Lf \<longleftrightarrow> True"
| "inv_h (Nd l a c e r) \<longleftrightarrow> inv_h l \<and> inv_h r \<and> bh l = bh r"

fun sibling :: "rb_frame \<Rightarrow> rbt" where
  "sibling (FL a c e r) = r"
| "sibling (FR l a c e) = l"

text \<open>What a path promises to a subtree of black height \<open>n\<close> hung at its end.\<close>

fun path_inv :: "nat \<Rightarrow> rb_frame list \<Rightarrow> bool" where
  "path_inv n [] \<longleftrightarrow> True"
| "path_inv n (f # fs) \<longleftrightarrow>
     inv_c (sibling f) \<and> inv_h (sibling f) \<and> bh (sibling f) = n \<and>
     (frame_color f = RED \<longrightarrow> col (sibling f) = BLACK \<and> fs \<noteq> [] \<and> frame_color (hd fs) = BLACK) \<and>
     path_inv (n + (if frame_color f = BLACK then 1 else 0)) fs"

definition rb_balanced :: "rbt \<Rightarrow> bool" where
  "rb_balanced t \<longleftrightarrow> inv_c t \<and> inv_h t \<and> col t = BLACK"

lemma not_black [simp]: "c \<noteq> BLACK \<longleftrightarrow> c = RED" "c \<noteq> RED \<longleftrightarrow> c = BLACK"
  by (cases c; simp)+

lemma plug_balanced:
  "inv_c t \<Longrightarrow> inv_h t \<Longrightarrow> path_inv (bh t) fs \<Longrightarrow>
   col t = BLACK \<or> fs \<noteq> [] \<and> frame_color (hd fs) = BLACK \<Longrightarrow> rb_balanced (plug t fs)"
proof (induction t fs rule: plug.induct)
  case (1 t)
  then show ?case by (simp add: rb_balanced_def)
qed auto

lemma plug_path_inv:
  "inv_c (plug t fs) \<Longrightarrow> inv_h (plug t fs) \<Longrightarrow> col (plug t fs) = BLACK \<Longrightarrow>
   inv_c t \<and> inv_h t \<and> path_inv (bh t) fs \<and> (col t = RED \<longrightarrow> fs \<noteq> [] \<and> frame_color (hd fs) = BLACK)"
proof (induction t fs rule: plug.induct)
  case (1 t)
  then show ?case by simp
next
  case (2 t a c e r fs)
  then show ?case by (cases c) auto
next
  case (3 t l a c e fs)
  then show ?case by (cases c) auto
qed

lemma plug_inorder_cong: "rb_inorder t = rb_inorder t' \<Longrightarrow> rb_inorder (plug t fs) = rb_inorder (plug t' fs)"
  by (induction t fs arbitrary: t' rule: plug.induct) simp_all

lemma plug_addrs: "set (rb_addrs (plug t fs)) = set (rb_addrs t) \<union> set (path_addrs fs)"
  by (induction t fs rule: plug.induct) auto

section \<open>Insertion at the place found\<close>

text \<open>\<open>t'\<close> is \<open>t\<close> with another value at one node.\<close>

definition same_shape :: "rbt \<Rightarrow> rbt \<Rightarrow> bool" where
  "same_shape t t' \<longleftrightarrow> rptr t' = rptr t \<and> col t' = col t \<and> bh t' = bh t \<and> inv_c t' = inv_c t \<and>
     inv_h t' = inv_h t \<and> rb_addrs t' = rb_addrs t"

definition rb_upserted ::
  "rbtree_dram_node \<Rightarrow> rbtree_dram \<Rightarrow> rbt \<Rightarrow> rb_frame list \<Rightarrow> u64 \<Rightarrow> string \<Rightarrow> bool" where
  "rb_upserted junk s t fs k v \<longleftrightarrow>
     (if map_of (rb_inorder t) k = None
      then \<exists>s' gs. rb_bst_upsert junk (rptr t) k v s = ret (Some (brk (rb_heap s)), s') \<and>
        rb_at s' (Nd Lf (brk (rb_heap s)) RED (k, v) Lf) (gs @ fs) \<and> plug Lf gs = t \<and>
        rb_inorder (plug (Nd Lf (brk (rb_heap s)) RED (k, v) Lf) gs) = upd_assoc k v (rb_inorder t)
      else \<exists>s' t'. rb_bst_upsert junk (rptr t) k v s = ret (NULL, s') \<and> rb_at s' t' fs \<and>
        rb_inorder t' = upd_assoc k v (rb_inorder t) \<and> same_shape t t')"

lemma rb_upserted_left:
  assumes so: "rb_sorted (Nd l a c e r)" and lt: "k < fst e"
    and eq: "rb_bst_upsert junk (rptr (Nd l a c e r)) k v s = rb_bst_upsert junk (rptr l) k v s"
    and up: "rb_upserted junk s l (FL a c e r # fs) k v"
  shows "rb_upserted junk s (Nd l a c e r) fs k v"
proof (cases "map_of (rb_inorder l) k")
  case None
  with up obtain s' gs where "rb_bst_upsert junk (rptr l) k v s = ret (Some (brk (rb_heap s)), s')"
    "rb_at s' (Nd Lf (brk (rb_heap s)) RED (k, v) Lf) (gs @ FL a c e r # fs)" "plug Lf gs = l"
    "rb_inorder (plug (Nd Lf (brk (rb_heap s)) RED (k, v) Lf) gs) = upd_assoc k v (rb_inorder l)"
    by (auto simp: rb_upserted_def)
  then show ?thesis
    unfolding rb_upserted_def rb_go_left [OF so lt] eq using None
    by (simp, intro exI [of _ s'] exI [of _ "gs @ [FL a c e r]"]) simp
next
  case (Some w)
  with up obtain s' t' where "rb_bst_upsert junk (rptr l) k v s = ret (NULL, s')"
    "rb_at s' t' (FL a c e r # fs)" "rb_inorder t' = upd_assoc k v (rb_inorder l)" "same_shape l t'"
    by (auto simp: rb_upserted_def)
  then show ?thesis
    unfolding rb_upserted_def rb_go_left [OF so lt] eq using Some
    by (simp, intro exI [of _ s'] exI [of _ "Nd t' a c e r"]) (auto simp: same_shape_def elim: rb_at_move)
qed

lemma rb_upserted_right:
  assumes so: "rb_sorted (Nd l a c e r)" and lt: "fst e < k"
    and eq: "rb_bst_upsert junk (rptr (Nd l a c e r)) k v s = rb_bst_upsert junk (rptr r) k v s"
    and up: "rb_upserted junk s r (FR l a c e # fs) k v"
  shows "rb_upserted junk s (Nd l a c e r) fs k v"
proof (cases "map_of (rb_inorder r) k")
  case None
  with up obtain s' gs where "rb_bst_upsert junk (rptr r) k v s = ret (Some (brk (rb_heap s)), s')"
    "rb_at s' (Nd Lf (brk (rb_heap s)) RED (k, v) Lf) (gs @ FR l a c e # fs)" "plug Lf gs = r"
    "rb_inorder (plug (Nd Lf (brk (rb_heap s)) RED (k, v) Lf) gs) = upd_assoc k v (rb_inorder r)"
    by (auto simp: rb_upserted_def)
  then show ?thesis
    unfolding rb_upserted_def rb_go_right [OF so lt] eq using None
    by (simp, intro exI [of _ s'] exI [of _ "gs @ [FR l a c e]"]) simp
next
  case (Some w)
  with up obtain s' t' where "rb_bst_upsert junk (rptr r) k v s = ret (NULL, s')"
    "rb_at s' t' (FR l a c e # fs)" "rb_inorder t' = upd_assoc k v (rb_inorder r)" "same_shape r t'"
    by (auto simp: rb_upserted_def)
  then show ?thesis
    unfolding rb_upserted_def rb_go_right [OF so lt] eq using Some
    by (simp, intro exI [of _ s'] exI [of _ "Nd l a c e t'"]) (auto simp: same_shape_def elim: rb_at_move)
qed

lemma rb_bst_upsert_tree:
  "rb_at s t fs \<Longrightarrow> t \<noteq> Lf \<Longrightarrow> rb_sorted t \<Longrightarrow> fits v \<Longrightarrow> rb_upserted junk s t fs k v"
proof (induction t arbitrary: fs)
  case Lf
  then show ?case by simp
next
  case (Nd l a c e r)
  note at = Nd.prems(1) and so = Nd.prems(3) and v = Nd.prems(4)
  have n: "mem (rb_heap s) a = Some \<lparr>rb_key = fst e, rb_value = snd e, rb_left = rptr l,
      rb_right = rptr r, rb_parent = up fs, rb_color = c\<rparr>"
    using at by (simp add: rb_at_def)
  note unf = rb_bst_upsert.simps [of junk "Some a" k v s]
  consider "k = fst e" | "k < fst e" | "fst e < k" by force
  then show ?case
  proof cases
    case 1
    obtain s' where "rb_upd (Some a) (\<lambda>n. n\<lparr>rb_value := v\<rparr>) s = ret s'" "rb_at s' (Nd l a c (fst e, v) r) fs"
      using rb_at_set_value [OF at, of v] by blast
    moreover from this have "rb_bst_upsert junk (Some a) k v s = ret (NULL, s')"
      unfolding unf using n v 1 by (simp del: rb_upd_ok)
    ultimately show ?thesis
      unfolding rb_upserted_def using rb_hit [OF so] 1
      by (simp, intro exI [of _ s'] exI [of _ "Nd l a c (fst e, v) r"]) (simp add: same_shape_def)
  next
    case 2
    show ?thesis
    proof (cases "l = Lf")
      case True
      obtain s' where s': "bindC (rb_create_new_node junk k v s) (\<lambda>(new_node, s).
          bindC (rb_upd (Some a) (\<lambda>n. n\<lparr>rb_left := new_node\<rparr>) s) (\<lambda>s.
          bindC (rb_upd new_node (\<lambda>n. n\<lparr>rb_parent := Some a\<rparr>) s) (\<lambda>s. ret (new_node, s)))) =
            ret (Some (brk (rb_heap s)), s')"
          "rb_at s' (Nd Lf (brk (rb_heap s)) RED (k, v) Lf) (FL a c e r # fs)"
        using rb_hang_left [OF at [unfolded True] v, of junk k] unfolding True by blast
      moreover have "rb_bst_upsert junk (Some a) k v s = ret (Some (brk (rb_heap s)), s')"
        unfolding unf rb_get_ok [OF n] bindC_simps using 2 True s'(1) by auto
      ultimately show ?thesis
        unfolding rb_upserted_def rb_go_left [OF so 2] using True
        by (simp, intro exI [of _ s'] exI [of _ "[FL a c e r]"]) simp
    next
      case False
      have "rb_bst_upsert junk (rptr (Nd l a c e r)) k v s = rb_bst_upsert junk (rptr l) k v s"
        unfolding rptr.simps unf rb_get_ok [OF n] bindC_simps using 2 False by auto
      moreover have "rb_upserted junk s l (FL a c e r # fs) k v"
        by (rule Nd.IH(1)) (use at so v False 2 rb_go_left in \<open>auto elim: rb_at_move\<close>)
      ultimately show ?thesis using rb_upserted_left so 2 by blast
    qed
  next
    case 3
    show ?thesis
    proof (cases "r = Lf")
      case True
      obtain s' where s': "bindC (rb_create_new_node junk k v s) (\<lambda>(new_node, s).
          bindC (rb_upd (Some a) (\<lambda>n. n\<lparr>rb_right := new_node\<rparr>) s) (\<lambda>s.
          bindC (rb_upd new_node (\<lambda>n. n\<lparr>rb_parent := Some a\<rparr>) s) (\<lambda>s. ret (new_node, s)))) =
            ret (Some (brk (rb_heap s)), s')"
          "rb_at s' (Nd Lf (brk (rb_heap s)) RED (k, v) Lf) (FR l a c e # fs)"
        using rb_hang_right [OF at [unfolded True] v, of junk k] unfolding True by blast
      moreover have "rb_bst_upsert junk (Some a) k v s = ret (Some (brk (rb_heap s)), s')"
        unfolding unf rb_get_ok [OF n] bindC_simps using 3 True s'(1) by auto
      ultimately show ?thesis
        unfolding rb_upserted_def rb_go_right [OF so 3] using True
        by (simp, intro exI [of _ s'] exI [of _ "[FR l a c e]"]) simp
    next
      case False
      have "rb_bst_upsert junk (rptr (Nd l a c e r)) k v s = rb_bst_upsert junk (rptr r) k v s"
        unfolding rptr.simps unf rb_get_ok [OF n] bindC_simps using 3 False by auto
      moreover have "rb_upserted junk s r (FR l a c e # fs) k v"
        by (rule Nd.IH(2)) (use at so v False 3 rb_go_right in \<open>auto elim: rb_at_move\<close>)
      ultimately show ?thesis using rb_upserted_right so 3 by blast
    qed
  qed
qed

section \<open>Rebalancing\<close>

lemma rb_recolor_left:
  assumes "rb_at s (Nd (Nd pl p cp ep pr) g cg eg (Nd ul ua cu ue ur)) fs"
  shows "\<exists>s'. rb_recolor (Some g) (Some p) (Some ua) s = ret s' \<and>
    rb_at s' (Nd (Nd pl p BLACK ep pr) g RED eg (Nd ul ua BLACK ue ur)) fs"
  using assms by (auto simp: rb_at_def rb_recolor_def rb_set_color_def heap_ok_def)

lemma rb_recolor_right:
  assumes "rb_at s (Nd (Nd ul ua cu ue ur) g cg eg (Nd pl p cp ep pr)) fs"
  shows "\<exists>s'. rb_recolor (Some g) (Some p) (Some ua) s = ret s' \<and>
    rb_at s' (Nd (Nd ul ua BLACK ue ur) g RED eg (Nd pl p BLACK ep pr)) fs"
  using assms by (auto simp: rb_at_def rb_recolor_def rb_set_color_def heap_ok_def)

lemma rb_swap_colors_left:
  assumes "rb_at s (Nd x p cp ep (Nd y g cg eg z)) fs"
  shows "\<exists>s'. rb_swap_colors (Some p) (Some g) s = ret s' \<and> rb_at s' (Nd x p cg ep (Nd y g cp eg z)) fs"
  using assms by (auto simp: rb_at_def rb_swap_colors_def rb_set_color_def heap_ok_def)

lemma rb_swap_colors_right:
  assumes "rb_at s (Nd (Nd x g cg eg y) p cp ep z) fs"
  shows "\<exists>s'. rb_swap_colors (Some p) (Some g) s = ret s' \<and> rb_at s' (Nd (Nd x g cp eg y) p cg ep z) fs"
  using assms by (auto simp: rb_at_def rb_swap_colors_def rb_set_color_def heap_ok_def)

text \<open>What one round makes of the tree under the grandparent.\<close>

fun blacken :: "rbt \<Rightarrow> rbt" where
  "blacken Lf = Lf"
| "blacken (Nd l a c e r) = Nd l a BLACK e r"

fun rb_fix1 :: "rbt \<Rightarrow> rb_frame \<Rightarrow> rb_frame \<Rightarrow> rbt" where
  "rb_fix1 t (FL p cp ep sp) (FL g cg eg u) =
     (if col u = RED then Nd (Nd t p BLACK ep sp) g RED eg (blacken u)
      else Nd t p cg ep (Nd sp g cp eg u))"
| "rb_fix1 t (FR sp p cp ep) (FL g cg eg u) =
     (if col u = RED then Nd (Nd sp p BLACK ep t) g RED eg (blacken u)
      else case t of Nd l a c e r \<Rightarrow> Nd (Nd sp p cp ep l) a cg e (Nd r g c eg u) | Lf \<Rightarrow> Lf)"
| "rb_fix1 t (FR sp p cp ep) (FR u g cg eg) =
     (if col u = RED then Nd (blacken u) g RED eg (Nd sp p BLACK ep t)
      else Nd (Nd u g cp eg sp) p cg ep t)"
| "rb_fix1 t (FL p cp ep sp) (FR u g cg eg) =
     (if col u = RED then Nd (blacken u) g RED eg (Nd t p BLACK ep sp)
      else case t of Nd l a c e r \<Rightarrow> Nd (Nd u g c eg l) a cg e (Nd r p cp ep sp) | Lf \<Rightarrow> Lf)"

lemma rb_is_red_tree [simp]: "rb_tree (mem (rb_heap s)) p t \<Longrightarrow> rb_is_red (rptr t) s = ret (col t = RED)"
  by (cases t) (simp_all add: rb_is_red_def)

text \<open>The nodes a round looks at.\<close>

lemma rb_at_focus:
  "rb_at s (Nd l a c e r) fs \<Longrightarrow> rb_get (Some a) s = ret \<lparr>rb_key = fst e, rb_value = snd e,
     rb_left = rptr l, rb_right = rptr r, rb_parent = up fs, rb_color = c\<rparr>"
  by (simp add: rb_at_def)

lemma rb_at_parent:
  "rb_at s t (FL a c e r # fs) \<Longrightarrow> rb_get (Some a) s = ret \<lparr>rb_key = fst e, rb_value = snd e,
     rb_left = rptr t, rb_right = rptr r, rb_parent = up fs, rb_color = c\<rparr>"
  "rb_at s t (FR l a c e # fs) \<Longrightarrow> rb_get (Some a) s = ret \<lparr>rb_key = fst e, rb_value = snd e,
     rb_left = rptr l, rb_right = rptr t, rb_parent = up fs, rb_color = c\<rparr>"
  by (simp_all add: rb_at_def)

lemma rb_at_sibling:
  "rb_at s t (f # fs) \<Longrightarrow> rb_is_red (rptr (sibling f)) s = ret (col (sibling f) = RED)"
  by (cases f) (auto simp: rb_at_def)

lemma rb_at_distinct:
  "rb_at s (Nd l a c e r) (FL p cp ep sp # fs) \<Longrightarrow> rptr sp \<noteq> Some a"
  "rb_at s (Nd l a c e r) (FR sp p cp ep # fs) \<Longrightarrow> rptr sp \<noteq> Some a"
  by (cases sp; simp add: rb_at_def)+

lemma rb_fix_step_LL:
  assumes at: "rb_at s (Nd l a RED e r) (FL p RED ep sp # FL g cg eg u # fs)"
  shows "\<exists>s'. rb_fix_step (Some a) s = ret (rptr (rb_fix1 (Nd l a RED e r) (FL p RED ep sp) (FL g cg eg u)), s') \<and>
    rb_at s' (rb_fix1 (Nd l a RED e r) (FL p RED ep sp) (FL g cg eg u)) fs"
proof -
  have at_p: "rb_at s (Nd (Nd l a RED e r) p RED ep sp) (FL g cg eg u # fs)"
    and at_g: "rb_at s (Nd (Nd (Nd l a RED e r) p RED ep sp) g cg eg u) fs"
    using at by (auto elim: rb_at_move)
  note gets = rb_at_focus [OF at] rb_at_focus [OF at_p] rb_at_focus [OF at_g]
  have red: "rb_is_red (rptr u) s = ret (col u = RED)" using rb_at_sibling [OF at_p] by simp
  show ?thesis
  proof (cases "col u = RED")
    case True
    then obtain ul ua ue ur where u: "u = Nd ul ua RED ue ur" by (cases u) auto
    show ?thesis
      using rb_recolor_left [OF at_g [unfolded u]] gets red True unfolding u
      by (auto simp: rb_fix_step_def)
  next
    case False
    obtain s1 where s1: "rb_rotate_right (Some g) s = ret s1"
        "rb_at s1 (Nd (Nd l a RED e r) p RED ep (Nd sp g cg eg u)) fs"
      using rb_rotate_right_ok [OF at_g] by blast
    with rb_swap_colors_left [OF s1(2)] gets red False rb_at_distinct(1) [OF at] show ?thesis
      by (auto simp: rb_fix_step_def)
  qed
qed

lemma rb_fix_step_RL:
  assumes at: "rb_at s (Nd l a RED e r) (FR sp p RED ep # FL g cg eg u # fs)"
  shows "\<exists>s'. rb_fix_step (Some a) s = ret (rptr (rb_fix1 (Nd l a RED e r) (FR sp p RED ep) (FL g cg eg u)), s') \<and>
    rb_at s' (rb_fix1 (Nd l a RED e r) (FR sp p RED ep) (FL g cg eg u)) fs"
proof -
  have at_p: "rb_at s (Nd sp p RED ep (Nd l a RED e r)) (FL g cg eg u # fs)"
    and at_g: "rb_at s (Nd (Nd sp p RED ep (Nd l a RED e r)) g cg eg u) fs"
    using at by (auto elim: rb_at_move)
  note gets = rb_at_focus [OF at] rb_at_focus [OF at_p] rb_at_focus [OF at_g]
  have red: "rb_is_red (rptr u) s = ret (col u = RED)" using rb_at_sibling [OF at_p] by simp
  show ?thesis
  proof (cases "col u = RED")
    case True
    then obtain ul ua ue ur where u: "u = Nd ul ua RED ue ur" by (cases u) auto
    show ?thesis
      using rb_recolor_left [OF at_g [unfolded u]] gets red True unfolding u
      by (auto simp: rb_fix_step_def)
  next
    case False
    obtain s1 where s1: "rb_rotate_left (Some p) s = ret s1"
        "rb_at s1 (Nd (Nd sp p RED ep l) a RED e r) (FL g cg eg u # fs)"
      using rb_rotate_left_ok [OF at_p] by blast
    have at1: "rb_at s1 (Nd (Nd (Nd sp p RED ep l) a RED e r) g cg eg u) fs"
      and at2: "rb_at s1 (Nd sp p RED ep l) (FL a RED e r # FL g cg eg u # fs)"
      using s1(2) by (auto elim: rb_at_move)
    obtain s2 where s2: "rb_rotate_right (Some g) s1 = ret s2"
        "rb_at s2 (Nd (Nd sp p RED ep l) a RED e (Nd r g cg eg u)) fs"
      using rb_rotate_right_ok [OF at1] by blast
    with rb_swap_colors_left [OF s2(2)] gets red False s1(1) rb_at_focus [OF at2] show ?thesis
      by (auto simp: rb_fix_step_def)
  qed
qed

lemma rb_fix_step_RR:
  assumes at: "rb_at s (Nd l a RED e r) (FR sp p RED ep # FR u g cg eg # fs)"
  shows "\<exists>s'. rb_fix_step (Some a) s = ret (rptr (rb_fix1 (Nd l a RED e r) (FR sp p RED ep) (FR u g cg eg)), s') \<and>
    rb_at s' (rb_fix1 (Nd l a RED e r) (FR sp p RED ep) (FR u g cg eg)) fs"
proof -
  have at_p: "rb_at s (Nd sp p RED ep (Nd l a RED e r)) (FR u g cg eg # fs)"
    and at_g: "rb_at s (Nd u g cg eg (Nd sp p RED ep (Nd l a RED e r))) fs"
    using at by (auto elim: rb_at_move)
  note gets = rb_at_focus [OF at] rb_at_focus [OF at_p] rb_at_focus [OF at_g]
  have red: "rb_is_red (rptr u) s = ret (col u = RED)" using rb_at_sibling [OF at_p] by simp
  have up: "rptr u \<noteq> Some p" using rb_at_distinct(2) [OF at_p] .
  show ?thesis
  proof (cases "col u = RED")
    case True
    then obtain ul ua ue ur where u: "u = Nd ul ua RED ue ur" by (cases u) auto
    show ?thesis
      using rb_recolor_right [OF at_g [unfolded u]] gets red True up unfolding u
      by (auto simp: rb_fix_step_def)
  next
    case False
    obtain s1 where s1: "rb_rotate_left (Some g) s = ret s1"
        "rb_at s1 (Nd (Nd u g cg eg sp) p RED ep (Nd l a RED e r)) fs"
      using rb_rotate_left_ok [OF at_g] by blast
    with rb_swap_colors_right [OF s1(2)] gets red False up rb_at_distinct(2) [OF at] show ?thesis
      by (auto simp: rb_fix_step_def)
  qed
qed

lemma rb_fix_step_LR:
  assumes at: "rb_at s (Nd l a RED e r) (FL p RED ep sp # FR u g cg eg # fs)"
  shows "\<exists>s'. rb_fix_step (Some a) s = ret (rptr (rb_fix1 (Nd l a RED e r) (FL p RED ep sp) (FR u g cg eg)), s') \<and>
    rb_at s' (rb_fix1 (Nd l a RED e r) (FL p RED ep sp) (FR u g cg eg)) fs"
proof -
  have at_p: "rb_at s (Nd (Nd l a RED e r) p RED ep sp) (FR u g cg eg # fs)"
    and at_g: "rb_at s (Nd u g cg eg (Nd (Nd l a RED e r) p RED ep sp)) fs"
    using at by (auto elim: rb_at_move)
  note gets = rb_at_focus [OF at] rb_at_focus [OF at_p] rb_at_focus [OF at_g]
  have red: "rb_is_red (rptr u) s = ret (col u = RED)" using rb_at_sibling [OF at_p] by simp
  have up: "rptr u \<noteq> Some p" using rb_at_distinct(2) [OF at_p] .
  show ?thesis
  proof (cases "col u = RED")
    case True
    then obtain ul ua ue ur where u: "u = Nd ul ua RED ue ur" by (cases u) auto
    show ?thesis
      using rb_recolor_right [OF at_g [unfolded u]] gets red True up unfolding u
      by (auto simp: rb_fix_step_def)
  next
    case False
    obtain s1 where s1: "rb_rotate_right (Some p) s = ret s1"
        "rb_at s1 (Nd l a RED e (Nd r p RED ep sp)) (FR u g cg eg # fs)"
      using rb_rotate_right_ok [OF at_p] by blast
    have at1: "rb_at s1 (Nd u g cg eg (Nd l a RED e (Nd r p RED ep sp))) fs"
      and at2: "rb_at s1 (Nd r p RED ep sp) (FR l a RED e # FR u g cg eg # fs)"
      using s1(2) by (auto elim: rb_at_move)
    obtain s2 where s2: "rb_rotate_left (Some g) s1 = ret s2"
        "rb_at s2 (Nd (Nd u g cg eg l) a RED e (Nd r p RED ep sp)) fs"
      using rb_rotate_left_ok [OF at1] by blast
    with rb_swap_colors_right [OF s2(2)] gets red False up s1(1) rb_at_focus [OF at2] show ?thesis
      by (auto simp: rb_fix_step_def)
  qed
qed

lemmas rb_fix_step_cases = rb_fix_step_LL rb_fix_step_RL rb_fix_step_RR rb_fix_step_LR

lemma rb_fix_step_ok:
  assumes "rb_at s (Nd l a RED e r) (f1 # f2 # fs)" and "frame_color f1 = RED"
  shows "\<exists>s'. rb_fix_step (Some a) s = ret (rptr (rb_fix1 (Nd l a RED e r) f1 f2), s') \<and>
    rb_at s' (rb_fix1 (Nd l a RED e r) f1 f2) fs"
  using assms rb_fix_step_cases by (cases f1; cases f2) (simp_all del: rb_fix1.simps)

lemma blacken_facts [simp]:
  "rb_inorder (blacken t) = rb_inorder t" "rb_addrs (blacken t) = rb_addrs t"
  "col (blacken t) = BLACK" "inv_c t \<Longrightarrow> inv_c (blacken t)" "inv_h (blacken t) = inv_h t"
  "col t = RED \<Longrightarrow> bh (blacken t) = Suc (bh t)"
  by (cases t; simp)+

lemma rb_fix1_inorder:
  "rb_inorder (rb_fix1 (Nd l a c e r) f1 f2) = rb_inorder (plug (Nd l a c e r) [f1, f2])"
  by (cases f1; cases f2) simp_all

lemma rb_fix1_addrs:
  "set (rb_addrs (rb_fix1 (Nd l a c e r) f1 f2)) = set (rb_addrs (plug (Nd l a c e r) [f1, f2]))"
  by (cases f1; cases f2) auto

lemma rb_fix1_inv:
  assumes "inv_c (Nd l a RED e r)" and "inv_h (Nd l a RED e r)"
    and "path_inv (bh (Nd l a RED e r)) (f1 # f2 # fs)" and "frame_color f1 = RED"
  defines "t' \<equiv> rb_fix1 (Nd l a RED e r) f1 f2"
  shows "inv_c t'" and "inv_h t'" and "path_inv (bh t') fs" and "t' \<noteq> Lf"
proof -
  note [simp] = t'_def
  show "inv_c t'" "inv_h t'" "t' \<noteq> Lf"
    using assms(1-4) by (cases f1; cases f2; auto)+
  show "path_inv (bh t') fs"
    using assms(1-4) by (cases f1; cases f2) auto
qed

lemma rb_path_root: "rb_path M root p (f # fs) \<Longrightarrow> \<exists>x \<in> set (path_addrs (f # fs)). root = Some x"
proof (induction fs arbitrary: f p)
  case Nil
  then show ?case by (cases f) auto
next
  case (Cons g fs)
  then obtain q where "rb_path M root q (g # fs)" by (cases f) auto
  with Cons.IH show ?case by fastforce
qed

lemma rb_violation_ok:
  assumes at: "rb_at s (Nd l a c e r) fs"
  shows "rb_violation (Some a) s = ret (fs \<noteq> [] \<and> c = RED \<and> frame_color (hd fs) = RED)"
proof (cases fs)
  case Nil
  then show ?thesis using at by (simp add: rb_violation_def rb_at_def)
next
  case (Cons f gs)
  have "rb_root s \<noteq> Some a"
    using rb_path_root [of _ "rb_root s" _ f gs] at unfolding rb_at_def Cons by fastforce
  moreover have "\<exists>n. rb_get (Some (frame_addr f)) s = ret n \<and> rb_color n = frame_color f"
    using at unfolding rb_at_def Cons by (cases f) auto
  ultimately show ?thesis
    using rb_at_focus [OF at] Cons by (cases c) (auto simp: rb_violation_def)
qed

definition rb_near :: "rbt \<Rightarrow> rb_frame list \<Rightarrow> bool" where
  "rb_near t fs \<longleftrightarrow> t \<noteq> Lf \<and> inv_c t \<and> inv_h t \<and> path_inv (bh t) fs"

lemma rb_fix_loop_ok:
  "rb_at s t fs \<Longrightarrow> rb_near t fs \<Longrightarrow>
   \<exists>s' t' fs'. rb_fix_loop (rptr t) s = ret s' \<and> rb_at s' t' fs' \<and> rb_near t' fs' \<and>
     (fs' = [] \<or> col t' = BLACK \<or> frame_color (hd fs') = BLACK) \<and>
     rb_inorder (plug t' fs') = rb_inorder (plug t fs) \<and>
     set (rb_addrs (plug t' fs')) = set (rb_addrs (plug t fs))"
proof (induction "length fs" arbitrary: s t fs rule: less_induct)
  case less
  obtain l a c e r where t: "t = Nd l a c e r" using less.prems(2) by (cases t) (auto simp: rb_near_def)
  note at = less.prems(1) [unfolded t] and near = less.prems(2) [unfolded t]
  note viol = rb_violation_ok [OF at]
  show ?case
  proof (cases "fs \<noteq> [] \<and> c = RED \<and> frame_color (hd fs) = RED")
    case False
    then have "rb_fix_loop (rptr t) s = ret s"
      unfolding t rptr.simps using viol by (subst rb_fix_loop.simps) (simp only: bindC_simps if_False)
    with False less.prems t show ?thesis by (intro exI [of _ s] exI [of _ t] exI [of _ fs]) auto
  next
    case True
    then obtain f1 fs1 where f1: "fs = f1 # fs1" "frame_color f1 = RED" by (cases fs) auto
    with near obtain f2 gs where fs: "fs = f1 # f2 # gs" by (cases fs1) (auto simp: rb_near_def)
    have c: "c = RED" using True by simp
    let ?t' = "rb_fix1 (Nd l a RED e r) f1 f2"
    obtain s1 where s1: "rb_fix_step (Some a) s = ret (rptr ?t', s1)" "rb_at s1 ?t' gs"
      using rb_fix_step_ok [OF at [unfolded fs c] f1(2)] by blast
    have "rb_near ?t' gs"
      using rb_fix1_inv [of l a e r f1 f2 gs] near f1(2) unfolding rb_near_def fs c by blast
    with less.hyps [of gs s1 ?t'] s1(2) obtain s' t' fs' where
        3: "rb_fix_loop (rptr ?t') s1 = ret s'" "rb_at s' t' fs'" "rb_near t' fs'"
        "fs' = [] \<or> col t' = BLACK \<or> frame_color (hd fs') = BLACK"
        "rb_inorder (plug t' fs') = rb_inorder (plug ?t' gs)"
        "set (rb_addrs (plug t' fs')) = set (rb_addrs (plug ?t' gs))"
      unfolding fs by auto
    have "rb_fix_loop (rptr t) s = ret s'"
      unfolding t rptr.simps using viol True s1(1) 3(1) c by (subst rb_fix_loop.simps) simp
    moreover have "rb_inorder (plug ?t' gs) = rb_inorder (plug t fs)"
      unfolding t fs c using plug_inorder_cong [OF rb_fix1_inorder [of l a RED e r f1 f2], of gs]
        plug_append [of "Nd l a RED e r" "[f1, f2]" gs] by simp
    moreover have "set (rb_addrs (plug ?t' gs)) = set (rb_addrs (plug t fs))"
      unfolding t fs c plug_addrs rb_fix1_addrs by auto
    ultimately show ?thesis using 3 by metis
  qed
qed

lemma rb_fix_violation_ok:
  assumes "rb_at s t fs" and "rb_near t fs"
  shows "\<exists>s' t'. rb_fix_violation (rptr t) s = ret s' \<and> rb_at s' t' [] \<and> rb_balanced t' \<and>
    t' \<noteq> Lf \<and> rb_inorder t' = rb_inorder (plug t fs) \<and> set (rb_addrs t') = set (rb_addrs (plug t fs))"
proof -
  obtain s1 t1 fs1 where 1: "rb_fix_loop (rptr t) s = ret s1" "rb_at s1 t1 fs1" "rb_near t1 fs1"
     "fs1 = [] \<or> col t1 = BLACK \<or> frame_color (hd fs1) = BLACK"
     "rb_inorder (plug t1 fs1) = rb_inorder (plug t fs)"
     "set (rb_addrs (plug t1 fs1)) = set (rb_addrs (plug t fs))"
    using rb_fix_loop_ok [OF assms] by blast
  let ?T = "plug t1 fs1"
  have "rb_inorder t1 \<noteq> []" using 1(3) by (cases t1) (auto simp: rb_near_def)
  then have ne: "rb_inorder ?T \<noteq> []" by (induction t1 fs1 rule: plug.induct) simp_all
  then obtain l a c e r where T: "?T = Nd l a c e r" by (cases ?T) auto
  have at: "rb_at s1 (Nd l a c e r) []" using 1(2) rb_at_plug T by metis
  then have root: "rb_root s1 = Some a" by (simp add: rb_at_def)
  obtain s2 where s2: "rb_set_color (Some a) BLACK s1 = ret s2" "rb_at s2 (Nd l a BLACK e r) []"
    using rb_set_color_ok [OF at] by blast
  have "rb_balanced (Nd l a BLACK e r)"
  proof (cases "fs1 = []")
    case True
    with T 1(3) show ?thesis by (auto simp: rb_balanced_def rb_near_def)
  next
    case False
    with plug_balanced [of t1 fs1] 1(3,4) T show ?thesis by (auto simp: rb_balanced_def rb_near_def)
  qed
  with s2 1 root T show ?thesis
    by (intro exI [of _ s2] exI [of _ "Nd l a BLACK e r"]) (simp add: rb_fix_violation_def)
qed

section \<open>The map a tree holds\<close>

definition rb_inv :: "rbtree_dram \<Rightarrow> rbt \<Rightarrow> bool" where
  "rb_inv s t \<longleftrightarrow> rb_at s t [] \<and> rb_balanced t \<and> rb_sorted t"

definition rb_rep :: "rbtree_dram \<Rightarrow> kv_map \<Rightarrow> bool" where
  "rb_rep s m \<longleftrightarrow> (\<exists>t. rb_inv s t \<and> m = map_of (rb_inorder t))"

lemma rb_inv_root: "rb_inv s t \<Longrightarrow> rb_root s = rptr t"
  by (simp add: rb_inv_def rb_at_def)

lemma rb_inv_init: "rb_inv rb_init Lf"
  by (simp add: rb_inv_def rb_at_def rb_init_def rb_balanced_def)

lemma rb_insert_empty:
  assumes inv: "rb_inv s Lf" and v: "fits v"
  shows "\<exists>s' t'. rb_insert junk s k v = ret (1, s') \<and> rb_inv s' t' \<and> rb_inorder t' = [(k, v)] \<and>
    rb_addrs t' = [brk (rb_heap s)]"
proof -
  let ?b = "brk (rb_heap s)" and ?t = "Nd Lf (brk (rb_heap s)) RED (k, v) Lf"
  have ok: "heap_ok (rb_heap s)" using inv by (simp add: rb_inv_def rb_at_def)
  obtain h' where h': "rb_create_new_node junk k v s = ret (Some ?b, s\<lparr>rb_heap := h'\<rparr>)" "heap_ok h'"
    "mem h' = (mem (rb_heap s))(?b \<mapsto> \<lparr>rb_key = k, rb_value = v, rb_left = NULL,
      rb_right = NULL, rb_parent = NULL, rb_color = RED\<rparr>)"
    using rb_create_new_node_ok [OF ok v, of junk k] by blast
  let ?s = "s\<lparr>rb_heap := h', rb_root := Some ?b\<rparr>"
  have at: "rb_at ?s ?t []" using h' by (simp add: rb_at_def)
  have "rb_fix_loop (Some ?b) ?s = ret ?s"
    using rb_violation_ok [OF at] by (subst rb_fix_loop.simps) simp
  moreover obtain s' where s': "rb_set_color (Some ?b) BLACK ?s = ret s'" "rb_at s' (Nd Lf ?b BLACK (k, v) Lf) []"
    using rb_set_color_ok [OF at] by blast
  ultimately have "rb_insert junk s k v = ret (1, s')"
    using h'(1) rb_inv_root [OF inv] by (simp add: rb_insert_def rb_fix_violation_def)
  with s'(2) show ?thesis
    by (intro exI [of _ s'] exI [of _ "Nd Lf ?b BLACK (k, v) Lf"]) (simp add: rb_inv_def rb_balanced_def)
qed

lemma rb_insert_nonempty:
  assumes inv: "rb_inv s t" and ne: "t \<noteq> Lf" and v: "fits v"
  shows "\<exists>s' t'. rb_insert junk s k v = ret (1, s') \<and> rb_inv s' t' \<and>
    rb_inorder t' = upd_assoc k v (rb_inorder t) \<and> set (rb_addrs t) \<subseteq> set (rb_addrs t')"
proof -
  have at: "rb_at s t []" and bal: "rb_balanced t" and so: "rb_sorted t" and root: "rb_root s = rptr t"
    using inv rb_inv_root [OF inv] by (simp_all add: rb_inv_def)
  note ups = rb_bst_upsert_tree [OF at ne so v, of junk k, unfolded rb_upserted_def append_Nil2]
  let ?n = "Nd Lf (brk (rb_heap s)) RED (k, v) Lf"
  show ?thesis
  proof (cases "map_of (rb_inorder t) k")
    case (Some w)
    with ups obtain s' t' where "rb_bst_upsert junk (rptr t) k v s = ret (NULL, s')" "rb_at s' t' []"
      "rb_inorder t' = upd_assoc k v (rb_inorder t)" "same_shape t t'" by auto
    with bal so ne root show ?thesis
      by (intro exI [of _ s'] exI [of _ t'])
        (simp add: rb_insert_def rb_inv_def rb_balanced_def same_shape_def)
  next
    case None
    with ups obtain s1 gs where 1: "rb_bst_upsert junk (rptr t) k v s = ret (Some (brk (rb_heap s)), s1)"
      "rb_at s1 ?n gs" "plug Lf gs = t" "rb_inorder (plug ?n gs) = upd_assoc k v (rb_inorder t)"
      by auto
    have "path_inv (bh Lf) gs" using plug_path_inv [of Lf gs] bal 1(3) by (simp add: rb_balanced_def)
    then have "rb_near ?n gs" by (simp add: rb_near_def)
    with rb_fix_violation_ok [OF 1(2)] obtain s' t' where
        2: "rb_fix_violation (rptr ?n) s1 = ret s'" "rb_at s' t' []" "rb_balanced t'"
          "rb_inorder t' = rb_inorder (plug ?n gs)" "set (rb_addrs t') = set (rb_addrs (plug ?n gs))"
      by blast
    have "set (rb_addrs t) \<subseteq> set (rb_addrs t')" using 2(5) 1(3) plug_addrs by auto
    with 1 2 so ne root show ?thesis
      by (intro exI [of _ s'] exI [of _ t']) (simp add: rb_insert_def rb_inv_def)
  qed
qed

lemma rb_read_present: "rb_rep s m \<Longrightarrow> m k = Some v \<Longrightarrow> rb_read s k r = ret (1, StrP v)"
proof -
  assume "rb_rep s m" and k: "m k = Some v"
  then obtain t where t: "rb_inv s t" "m = map_of (rb_inorder t)" by (auto simp: rb_rep_def)
  moreover have "t \<noteq> Lf" using t(2) k by (cases t) auto
  moreover have "rb_tree (mem (rb_heap s)) NULL t" using t(1) by (simp add: rb_inv_def rb_at_def)
  ultimately show ?thesis
    using rb_lookup_tree [of "rb_heap s" NULL t k r] rb_inv_root [OF t(1)] k
    by (simp add: rb_read_def rb_check_def rb_inv_def)
qed

lemma rb_insert_ok:
  assumes "rb_rep s m" and v: "fits v"
  shows "\<exists>s'. rb_insert junk s k v = ret (1, s') \<and> rb_rep s' (m(k \<mapsto> v))"
proof -
  obtain t where t: "rb_inv s t" "m = map_of (rb_inorder t)" using assms(1) by (auto simp: rb_rep_def)
  have "\<exists>s' t'. rb_insert junk s k v = ret (1, s') \<and> rb_inv s' t' \<and> rb_inorder t' = upd_assoc k v (rb_inorder t)"
  proof (cases "t = Lf")
    case True
    with rb_insert_empty [OF t(1) [unfolded True] v, of junk k] show ?thesis by auto
  next
    case False
    with rb_insert_nonempty [OF t(1) _ v, of junk k] show ?thesis by blast
  qed
  then show ?thesis unfolding rb_rep_def t(2) by (metis map_of_upd_assoc)
qed

lemma rb_update_ok:
  assumes "rb_rep s m" and "m k = Some w" and "fits v"
  shows "\<exists>s'. rb_update junk s k v = ret (1, s') \<and> rb_rep s' (m(k \<mapsto> v))"
proof -
  obtain t where t: "rb_inv s t" "m = map_of (rb_inorder t)" using assms(1) by (auto simp: rb_rep_def)
  with assms(2) have "t \<noteq> Lf" by (cases t) auto
  with rb_inv_root [OF t(1)] rb_insert_ok [OF assms(1,3), of junk k] show ?thesis
    by (simp add: rb_update_def rb_check_def)
qed

definition rb_ops :: "rbtree_dram_node \<Rightarrow> rbtree_dram storeds_base" where
  "rb_ops junk = \<lparr>op_read = rb_read, op_scan = rb_scan, op_update = rb_update junk,
     op_insert = rb_insert junk, op_destroy = rb_destroy\<rparr>"

interpretation rb: upsert_store "rb_ops junk" rb_rep "\<lambda>_. True"
  by unfold_locales (simp_all add: rb_ops_def rb_read_present rb_insert_ok rb_update_ok)

section \<open>Height\<close>

fun rb_height :: "rbt \<Rightarrow> nat" where
  "rb_height Lf = 0"
| "rb_height (Nd l a c e r) = Suc (max (rb_height l) (rb_height r))"

lemma rb_height_bh:
  "inv_c t \<Longrightarrow> inv_h t \<Longrightarrow> rb_height t \<le> 2 * bh t + (if col t = RED then 1 else 0)"
proof (induction t)
  case (Nd l a c e r)
  then show ?case by (cases c) (auto split: if_splits)
qed simp

lemma bh_size: "inv_h t \<Longrightarrow> 2 ^ bh t \<le> Suc (length (rb_inorder t))"
proof (induction t)
  case (Nd l a c e r)
  then have "2 ^ bh l \<le> Suc (length (rb_inorder l))" "2 ^ bh l \<le> Suc (length (rb_inorder r))" by auto
  then show ?case by simp
qed simp

lemma rb_height_bound: "rb_balanced t \<Longrightarrow> 2 ^ (rb_height t div 2) \<le> Suc (length (rb_inorder t))"
proof -
  assume b: "rb_balanced t"
  then have "rb_height t div 2 \<le> bh t" using rb_height_bh [of t] by (simp add: rb_balanced_def)
  then have "(2::nat) ^ (rb_height t div 2) \<le> 2 ^ bh t" by (simp add: power_increasing)
  with bh_size b show ?thesis unfolding rb_balanced_def by (meson le_trans)
qed

section \<open>Destruction\<close>

lemma rb_free_node_tree:
  "rb_tree (mem h) p t \<Longrightarrow> distinct (rb_addrs t) \<Longrightarrow>
   rb_free_node (rptr t) h = ret (h\<lparr>mem := mem h |` (- set (rb_addrs t))\<rparr>)"
proof (induction t arbitrary: h p)
  case Lf
  then show ?case by (subst rb_free_node.simps) (simp add: restrict_map_def)
next
  case (Nd l a c e r)
  let ?h1 = "h\<lparr>mem := mem h |` (- set (rb_addrs l))\<rparr>"
  have 1: "rb_free_node (rptr l) h = ret ?h1" using Nd.IH(1) [of h "Some a"] Nd.prems by simp
  have "rb_tree (mem ?h1) (Some a) r = rb_tree (mem h) (Some a) r"
    by (rule rb_tree_agree) (use Nd.prems(2) in \<open>auto simp: restrict_map_def\<close>)
  then have 2: "rb_free_node (rptr r) ?h1 = ret (?h1\<lparr>mem := mem ?h1 |` (- set (rb_addrs r))\<rparr>)"
    using Nd.IH(2) [of ?h1 "Some a"] Nd.prems by simp
  show ?case
    using Nd.prems 1 2
    by (subst rb_free_node.simps) (auto simp: restrict_map_def fun_eq_iff)
qed

lemma rb_destroy_inv:
  assumes "rb_inv s t" and "t \<noteq> Lf"
  shows "rb_destroy s = ret (s\<lparr>rb_heap := (rb_heap s)\<lparr>mem := mem (rb_heap s) |` (- set (rb_addrs t))\<rparr>\<rparr>)"
  using assms rb_inv_root [OF assms(1)] rb_free_node_tree [of "rb_heap s" NULL t]
  by (simp add: rb_destroy_def rb_check_def rb_inv_def rb_at_def)

section \<open>Properties\<close>

lemma rb_rep_init: "rb_rep rb_init Map.empty"
  using rb_inv_init by (fastforce simp: rb_rep_def)

text \<open>
  C7: from the empty tree, any valid sequence of database calls gives the results of a map, and
  the heap then holds a balanced red-black tree with that content.
\<close>

theorem rb_refines_map:
  "valid_run (\<lambda>_. True) upsert Map.empty cs \<Longrightarrow>
   \<exists>s'. db_run (rb_ops junk) rb_init cs = ret (fst (spec_run upsert Map.empty cs), s') \<and>
     rb_rep s' (snd (spec_run upsert Map.empty cs))"
  by (rule rb.db_run_refines [OF rb_rep_init])

theorem rb_refines_map_witness:
  "\<forall>junk. \<exists>s'. db_run (rb_ops junk) rb_init
      [DBInsert 3 [(''field'', ''a'')], DBInsert 1 [(''field'', ''b'')], DBInsert 2 [(''field'', ''d'')],
       DBUpdate 3 [(''field'', ''c'')], DBRead 3, DBRead 1] =
      ret ([RDone 0, RDone 0, RDone 0, RDone 0, RRead 0 [(3, ''c'')], RRead 0 [(1, ''b'')]], s')"
proof
  fix junk
  show "\<exists>s'. db_run (rb_ops junk) rb_init
      [DBInsert 3 [(''field'', ''a'')], DBInsert 1 [(''field'', ''b'')], DBInsert 2 [(''field'', ''d'')],
       DBUpdate 3 [(''field'', ''c'')], DBRead 3, DBRead 1] =
      ret ([RDone 0, RDone 0, RDone 0, RDone 0, RRead 0 [(3, ''c'')], RRead 0 [(1, ''b'')]], s')"
    using rb_refines_map [of "[DBInsert 3 [(''field'', ''a'')], DBInsert 1 [(''field'', ''b'')],
      DBInsert 2 [(''field'', ''d'')], DBUpdate 3 [(''field'', ''c'')], DBRead 3, DBRead 1]" junk]
    by (auto simp: fits_def DEFAULT_VALUE_LEN_def c_str_def kOK_def)
qed

text \<open>
  C3: an insertion into a red-black tree returns (the rebalancing loop ends, and none of its
  rotations follows a null pointer) with a red-black tree: black root, no red node with a red
  child, equal black heights, keys in order, parent pointers right, no node shared. Its content is
  the old one with the key set to the value, and its height is at most
  \<open>2 * log2 (n + 1) + 1\<close> for \<open>n\<close> records.
\<close>

theorem rb_insert_keeps_invariants:
  "rb_inv s t \<Longrightarrow> t \<noteq> Lf \<Longrightarrow> fits v \<Longrightarrow>
   \<exists>s' t'. rb_insert junk s k v = ret (1, s') \<and> rb_at s' t' [] \<and> rb_balanced t' \<and>
     rb_sorted t' \<and> rb_inorder t' = upd_assoc k v (rb_inorder t) \<and>
     2 ^ (rb_height t' div 2) \<le> Suc (length (rb_inorder t'))"
  using rb_insert_nonempty [of s t v junk k] rb_height_bound by (fastforce simp: rb_inv_def)

theorem rb_insert_keeps_invariants_witness:
  "\<forall>junk. \<exists>s s' t. rb_insert junk rb_init 5 ''x'' = ret (1, s) \<and> rb_insert junk s 2 ''y'' = ret (1, s') \<and>
     rb_at s' t [] \<and> rb_balanced t \<and> rb_inorder t = [(2, ''y''), (5, ''x'')]"
proof
  fix junk
  obtain s t where s: "rb_insert junk rb_init 5 ''x'' = ret (1, s)" "rb_inv s t" "rb_inorder t = [(5, ''x'')]"
    using rb_insert_empty [OF rb_inv_init, of "''x''" junk 5] by (auto simp: fits_def DEFAULT_VALUE_LEN_def)
  then have "t \<noteq> Lf" by auto
  with rb_insert_keeps_invariants [OF s(2), of "''y''" junk 2] s
  show "\<exists>s s' t. rb_insert junk rb_init 5 ''x'' = ret (1, s) \<and> rb_insert junk s 2 ''y'' = ret (1, s') \<and>
     rb_at s' t [] \<and> rb_balanced t \<and> rb_inorder t = [(2, ''y''), (5, ''x'')]"
    by (fastforce simp: fits_def DEFAULT_VALUE_LEN_def)
qed

text \<open>
  Destroying a non-empty tree frees each of its nodes exactly once and nothing else, but the
  root pointer keeps pointing to its freed node, so a later read is a use after free.
\<close>

lemma rb_destroy_dangles:
  "rb_inv s t \<Longrightarrow> t \<noteq> Lf \<Longrightarrow>
   \<exists>s'. rb_destroy s = ret s' \<and> mem (rb_heap s') = mem (rb_heap s) |` (- set (rb_addrs t)) \<and>
     rb_root s' = rptr t \<and> rb_read s' k r = crash WildDeref"
proof -
  assume inv: "rb_inv s t" and ne: "t \<noteq> Lf"
  obtain l a c e r' where t: "t = Nd l a c e r'" using ne by (cases t) auto
  let ?s = "s\<lparr>rb_heap := (rb_heap s)\<lparr>mem := mem (rb_heap s) |` (- set (rb_addrs t))\<rparr>\<rparr>"
  have "rb_root ?s = Some a" using rb_inv_root [OF inv] t by simp
  moreover have "rb_lookup (rb_heap ?s) (Some a) k r = crash WildDeref"
    by (subst rb_lookup.simps) (simp add: t)
  ultimately have "rb_read ?s k r = crash WildDeref" by (simp add: rb_read_def rb_check_def)
  then show ?thesis using rb_destroy_inv [OF inv ne] rb_inv_root [OF inv] by auto
qed

lemma rb_destroy_dangles_example:
  "\<forall>junk. \<exists>s s'. rb_insert junk rb_init 5 ''x'' = ret (1, s) \<and> rb_destroy s = ret s' \<and>
     rb_read s' 5 Unset = crash WildDeref"
proof
  fix junk
  obtain s t where s: "rb_insert junk rb_init 5 ''x'' = ret (1, s)" "rb_inv s t" "rb_inorder t = [(5, ''x'')]"
    using rb_insert_empty [OF rb_inv_init, of "''x''" junk 5] by (auto simp: fits_def DEFAULT_VALUE_LEN_def)
  then have "t \<noteq> Lf" by auto
  with s rb_destroy_dangles [OF s(2), of 5 Unset]
  show "\<exists>s s'. rb_insert junk rb_init 5 ''x'' = ret (1, s) \<and> rb_destroy s = ret s' \<and>
     rb_read s' 5 Unset = crash WildDeref" by blast
qed

end
