(* ===== verification/Skip_List.thy ===== *)
theory Skip_List
  imports Storeds_DB Tree_Shape
begin

text \<open>
  \<^verbatim>\<open>src/storeds/skiplist/skiplist_dram.cc\<close>: a skip list of \<open>SKIPLIST_LEVELS_NUM\<close> levels over an
  explicit heap. A slot of \<open>next\<close> is \<open>None\<close> until it is written: \<open>insert_node\<close> writes only the
  levels the coin flips of \<^verbatim>\<open>rand\<close> choose, whose results are part of the state. The lemmas show
  that every level is a sorted list and a part of the one below it, that the operations work on
  the lowest level as on a sorted map, and that no operation reads a slot never written.
\<close>

section \<open>State\<close>

definition SKIPLIST_LEVELS_NUM :: nat where "SKIPLIST_LEVELS_NUM = 16"
definition SKIPLIST_BASE_LEVEL :: nat where "SKIPLIST_BASE_LEVEL = 0"

record sk_entry =
  ske_key :: u64
  ske_value :: string

record sk_dram_node =
  sk_entry :: "sk_entry option"
  sk_next :: "ptr option list"

record skiplist_dram =
  sk_heap :: "sk_dram_node heap"
  sk_head :: ptr
  sk_rand :: "nat \<Rightarrow> u32"

section \<open>Operations\<close>

definition sk_check :: "skiplist_dram \<Rightarrow> unit comp" where
  "sk_check s = assertC (sk_head s \<noteq> NULL)"

definition sk_init :: "(nat \<Rightarrow> u32) \<Rightarrow> (int \<times> skiplist_dram) comp" where
  "sk_init rnd =
     (let (p, h) = malloc empty_heap
        \<lparr>sk_entry = None, sk_next = replicate SKIPLIST_LEVELS_NUM None\<rparr> in
      bindC (load h p) (\<lambda>n.
      bindC (store h p (n\<lparr>sk_next := replicate SKIPLIST_LEVELS_NUM (Some NULL)\<rparr>)) (\<lambda>h.
      let s = \<lparr>sk_heap = h, sk_head = p, sk_rand = rnd\<rparr> in
      bindC (sk_check s) (\<lambda>_. ret (1, s)))))"

text \<open>\<open>p->next[level]\<close> and \<open>p->entry\<close>.\<close>

definition sk_get_next :: "sk_dram_node heap \<Rightarrow> ptr \<Rightarrow> nat \<Rightarrow> ptr comp" where
  "sk_get_next h p level = bindC (load h p) (\<lambda>n. read_slot (sk_next n) level)"

definition sk_set_next :: "sk_dram_node heap \<Rightarrow> ptr \<Rightarrow> nat \<Rightarrow> ptr \<Rightarrow> sk_dram_node heap comp" where
  "sk_set_next h p level q =
     bindC (load h p) (\<lambda>n.
     bindC (write_arr (sk_next n) level (Some q)) (\<lambda>nx. store h p (n\<lparr>sk_next := nx\<rparr>)))"

definition sk_get_entry :: "sk_dram_node heap \<Rightarrow> ptr \<Rightarrow> sk_entry comp" where
  "sk_get_entry h p =
     bindC (load h p) (\<lambda>n. case sk_entry n of None \<Rightarrow> crash UninitRead | Some e \<Rightarrow> ret e)"

text \<open>\<open>find\<close>: on each level, from the highest, walk to the last node with a smaller key.\<close>

partial_function (option) sk_walk ::
  "sk_dram_node heap \<Rightarrow> ptr \<Rightarrow> nat \<Rightarrow> u64 \<Rightarrow> ptr comp" where
  "sk_walk h active_node level key =
     bindC (sk_get_next h active_node level) (\<lambda>current_node.
       if current_node = NULL then ret active_node
       else bindC (sk_get_entry h current_node) (\<lambda>e.
         if ske_key e < key then sk_walk h current_node level key else ret active_node))"

fun sk_find_loop ::
  "sk_dram_node heap \<Rightarrow> u64 \<Rightarrow> nat \<Rightarrow> ptr \<Rightarrow> ptr option list \<Rightarrow> ptr option list comp" where
  "sk_find_loop h key 0 active_node path = ret path"
| "sk_find_loop h key (Suc level) active_node path =
     bindC (sk_walk h active_node level key) (\<lambda>a.
     bindC (write_arr path level (Some a)) (\<lambda>path'. sk_find_loop h key level a path'))"

definition sk_find :: "sk_dram_node heap \<Rightarrow> ptr \<Rightarrow> u64 \<Rightarrow> ptr option list comp" where
  "sk_find h head key =
     sk_find_loop h key SKIPLIST_LEVELS_NUM head (replicate SKIPLIST_LEVELS_NUM None)"

text \<open>\<open>path[SKIPLIST_BASE_LEVEL]->next[SKIPLIST_BASE_LEVEL]\<close>\<close>

definition sk_candidate :: "sk_dram_node heap \<Rightarrow> ptr option list \<Rightarrow> ptr comp" where
  "sk_candidate h path =
     bindC (read_slot path SKIPLIST_BASE_LEVEL) (\<lambda>p. sk_get_next h p SKIPLIST_BASE_LEVEL)"

definition sk_key_at :: "sk_dram_node heap \<Rightarrow> ptr \<Rightarrow> u64 \<Rightarrow> bool comp" where
  "sk_key_at h p key =
     (if p \<noteq> NULL then bindC (sk_get_entry h p) (\<lambda>e. ret (ske_key e = key)) else ret False)"

partial_function (option) sk_scan_loop ::
  "sk_dram_node heap \<Rightarrow> ptr \<Rightarrow> int \<Rightarrow> int \<Rightarrow> scan_result \<Rightarrow> scan_result comp" where
  "sk_scan_loop h possible_found len_count len result =
     (if possible_found = NULL then ret result
      else bindC (sk_get_entry h possible_found) (\<lambda>e.
        let result' = result @ [[(ske_key e, ske_value e)]] in
        if len_count + 1 = len then ret result'
        else bindC (sk_get_next h possible_found SKIPLIST_BASE_LEVEL) (\<lambda>p.
               sk_scan_loop h p (len_count + 1) len result')))"

definition sk_scan :: "skiplist_dram \<Rightarrow> u64 \<Rightarrow> int \<Rightarrow> scan_result \<Rightarrow> (int \<times> scan_result) comp" where
  "sk_scan s key len result =
     bindC (sk_check s) (\<lambda>_.
     bindC (sk_find (sk_heap s) (sk_head s) key) (\<lambda>path.
     bindC (sk_candidate (sk_heap s) path) (\<lambda>p.
     bindC (sk_scan_loop (sk_heap s) p 0 len result) (\<lambda>r. ret (1, r)))))"

definition sk_read :: "skiplist_dram \<Rightarrow> u64 \<Rightarrow> outp \<Rightarrow> (int \<times> outp) comp" where
  "sk_read s key result =
     bindC (sk_check s) (\<lambda>_.
     bindC (sk_find (sk_heap s) (sk_head s) key) (\<lambda>path.
     bindC (sk_candidate (sk_heap s) path) (\<lambda>p.
     bindC (sk_key_at (sk_heap s) p key) (\<lambda>found.
       if found then bindC (sk_get_entry (sk_heap s) p) (\<lambda>e. ret (1, StrP (ske_value e)))
       else ret (1, result)))))"

text \<open>
  \<open>do { ... } while (++current_level < SKIPLIST_LEVELS_NUM && !(rand() % 2))\<close>; the result of
  \<^verbatim>\<open>rand\<close> that ends or continues the loop after the \<open>i\<close>-th round is \<open>rnd i\<close>. The loop returns
  how often it called \<^verbatim>\<open>rand\<close>.
\<close>

function sk_insert_node ::
  "(nat \<Rightarrow> u32) \<Rightarrow> ptr \<Rightarrow> ptr option list \<Rightarrow> nat \<Rightarrow> sk_dram_node heap \<Rightarrow>
   (nat \<times> sk_dram_node heap) comp" where
  "sk_insert_node rnd new_node path level h =
     bindC (read_slot path level) (\<lambda>p.
     bindC (sk_get_next h p level) (\<lambda>q.
     bindC (sk_set_next h new_node level q) (\<lambda>h.
     bindC (sk_set_next h p level new_node) (\<lambda>h.
       if level + 1 < SKIPLIST_LEVELS_NUM
       then if rnd level mod 2 = 0 then sk_insert_node rnd new_node path (level + 1) h
            else ret (level + 1, h)
       else ret (level, h)))))"
  by auto
termination
  by (relation "measure (\<lambda>(rnd, new_node, path, level, h). SKIPLIST_LEVELS_NUM - level)") auto

declare sk_insert_node.simps [simp del]

definition sk_insert :: "skiplist_dram \<Rightarrow> u64 \<Rightarrow> string \<Rightarrow> (int \<times> skiplist_dram) comp" where
  "sk_insert s key value =
     bindC (sk_check s) (\<lambda>_.
     bindC (sk_find (sk_heap s) (sk_head s) key) (\<lambda>path.
     bindC (sk_candidate (sk_heap s) path) (\<lambda>p.
     bindC (sk_key_at (sk_heap s) p key) (\<lambda>found.
       if found
       then bindC (load (sk_heap s) p) (\<lambda>n.
            bindC (sk_get_entry (sk_heap s) p) (\<lambda>e.
            bindC (copy_value value) (\<lambda>v.
            bindC (store (sk_heap s) p (n\<lparr>sk_entry := Some (e\<lparr>ske_value := v\<rparr>)\<rparr>)) (\<lambda>h.
              ret (1, s\<lparr>sk_heap := h\<rparr>)))))
       else let (new_node, h) = malloc (sk_heap s)
              \<lparr>sk_entry = None, sk_next = replicate SKIPLIST_LEVELS_NUM None\<rparr> in
            bindC (load h new_node) (\<lambda>n.
            bindC (copy_value value) (\<lambda>v.
            bindC (store h new_node (n\<lparr>sk_entry := Some \<lparr>ske_key = key, ske_value = v\<rparr>\<rparr>)) (\<lambda>h.
            bindC (sk_insert_node (sk_rand s) new_node path SKIPLIST_BASE_LEVEL h) (\<lambda>(calls, h).
              ret (1, s\<lparr>sk_heap := h, sk_rand := \<lambda>i. sk_rand s (i + calls)\<rparr>)))))))))"

definition sk_update :: "skiplist_dram \<Rightarrow> u64 \<Rightarrow> string \<Rightarrow> (int \<times> skiplist_dram) comp" where
  "sk_update s key value = sk_insert s key value"

definition sk_remove_level ::
  "ptr \<Rightarrow> ptr option list \<Rightarrow> nat \<Rightarrow> sk_dram_node heap \<Rightarrow> sk_dram_node heap comp" where
  "sk_remove_level possible_remove path i h =
     bindC (read_slot path i) (\<lambda>p.
     bindC (sk_get_next h p i) (\<lambda>q.
       if q \<noteq> NULL
       then bindC (sk_get_entry h q) (\<lambda>e.
            bindC (sk_get_entry h possible_remove) (\<lambda>r.
              if ske_key e = ske_key r
              then bindC (sk_get_next h possible_remove i) (\<lambda>x. sk_set_next h p i x)
              else ret h))
       else ret h))"

definition sk_remove_node :: "ptr option list \<Rightarrow> sk_dram_node heap \<Rightarrow> sk_dram_node heap comp" where
  "sk_remove_node path h =
     bindC (sk_candidate h path) (\<lambda>possible_remove.
     bindC (for_loop SKIPLIST_BASE_LEVEL SKIPLIST_LEVELS_NUM (sk_remove_level possible_remove path) h) (\<lambda>h.
       cfree h possible_remove))"

definition sk_remove_free :: "ptr \<Rightarrow> u64 \<Rightarrow> sk_dram_node heap \<Rightarrow> sk_dram_node heap comp" where
  "sk_remove_free head key h =
     bindC (sk_find h head key) (\<lambda>path.
     bindC (sk_candidate h path) (\<lambda>p.
     bindC (sk_key_at h p key) (\<lambda>found.
       if found then sk_remove_node path h else ret h)))"

partial_function (option) sk_destroy_loop ::
  "ptr \<Rightarrow> sk_dram_node heap \<Rightarrow> sk_dram_node heap comp" where
  "sk_destroy_loop head h =
     bindC (sk_get_next h head 0) (\<lambda>next.
       if next = NULL then ret h
       else bindC (sk_get_entry h next) (\<lambda>e.
            bindC (sk_remove_free head (ske_key e) h) (\<lambda>h. sk_destroy_loop head h)))"

definition sk_destroy :: "skiplist_dram \<Rightarrow> skiplist_dram comp" where
  "sk_destroy s =
     bindC (sk_check s) (\<lambda>_.
     bindC (sk_destroy_loop (sk_head s) (sk_heap s)) (\<lambda>h.
     bindC (cfree h (sk_head s)) (\<lambda>h.
       ret (s\<lparr>sk_heap := h, sk_head := NULL\<rparr>))))"


section \<open>The levels\<close>

type_synonym sk_mem = "nat \<rightharpoonup> sk_dram_node"

definition nxt :: "sk_mem \<Rightarrow> nat \<Rightarrow> nat \<Rightarrow> ptr option" where
  "nxt M l a = (case M a of None \<Rightarrow> None
     | Some n \<Rightarrow> if l < length (sk_next n) then sk_next n ! l else None)"

definition ent :: "sk_mem \<Rightarrow> nat \<Rightarrow> sk_entry option" where
  "ent M a = (case M a of None \<Rightarrow> None | Some n \<Rightarrow> sk_entry n)"

definition k_of :: "sk_mem \<Rightarrow> nat \<Rightarrow> u64" where
  "k_of M a = ske_key (the (ent M a))"

definition sk_valid :: "sk_mem \<Rightarrow> nat \<Rightarrow> bool" where
  "sk_valid M a \<longleftrightarrow> (\<exists>n. M a = Some n \<and> length (sk_next n) = SKIPLIST_LEVELS_NUM)"

text \<open>\<open>links M l a as\<close>: on level \<open>l\<close>, the nodes \<open>as\<close> follow \<open>a\<close> and end the list.\<close>

fun links :: "sk_mem \<Rightarrow> nat \<Rightarrow> nat \<Rightarrow> nat list \<Rightarrow> bool" where
  "links M l a [] \<longleftrightarrow> nxt M l a = Some NULL"
| "links M l a (b # bs) \<longleftrightarrow> nxt M l a = Some (Some b) \<and> links M l b bs"

text \<open>
  \<open>sk_lists M hp L\<close>: level \<open>l\<close> is the list \<open>L l\<close> after the head node, sorted by key, and its nodes
  are on the level below too.
\<close>

definition sk_lists :: "sk_mem \<Rightarrow> nat \<Rightarrow> (nat \<Rightarrow> nat list) \<Rightarrow> bool" where
  "sk_lists M hp L \<longleftrightarrow>
     (\<forall>l < SKIPLIST_LEVELS_NUM. links M l hp (L l) \<and> sorted_wrt (<) (map (k_of M) (L l)) \<and> hp \<notin> set (L l)) \<and>
     (\<forall>l. Suc l < SKIPLIST_LEVELS_NUM \<longrightarrow> set (L (Suc l)) \<subseteq> set (L l)) \<and>
     (\<forall>a \<in> set (L 0). ent M a \<noteq> None) \<and> sk_valid M hp \<and> (\<forall>a \<in> set (L 0). sk_valid M a)"

definition sk_pairs :: "sk_mem \<Rightarrow> nat list \<Rightarrow> (u64 \<times> string) list" where
  "sk_pairs M as = map (\<lambda>a. (k_of M a, ske_value (the (ent M a)))) as"

definition sk_rep :: "skiplist_dram \<Rightarrow> kv_map \<Rightarrow> bool" where
  "sk_rep s m \<longleftrightarrow> heap_ok (sk_heap s) \<and> (\<exists>hp L. sk_head s = Some hp \<and> sk_lists (mem (sk_heap s)) hp L \<and>
     m = map_of (sk_pairs (mem (sk_heap s)) (L 0)))"

lemma sk_get_next_eq [simp]: "nxt (mem h) l a = Some q \<Longrightarrow> sk_get_next h (Some a) l = ret q"
  by (auto simp: nxt_def sk_get_next_def split: option.splits if_splits)

lemma sk_get_entry_eq [simp]: "ent (mem h) a = Some e \<Longrightarrow> sk_get_entry h (Some a) = ret e"
  by (auto simp: ent_def sk_get_entry_def split: option.splits)

lemma links_append:
  "links M l a (xs @ ys) \<Longrightarrow> links M l (last (a # xs)) ys"
  by (induction xs arbitrary: a) auto

lemma links_agree:
  "(\<And>x. x \<in> set (a # as) \<Longrightarrow> nxt M' l x = nxt M l x) \<Longrightarrow> links M' l a as = links M l a as"
  by (induction as arbitrary: a) auto

lemma sk_lists_base:
  assumes "sk_lists M hp L" and "l < SKIPLIST_LEVELS_NUM"
  shows "set (L l) \<subseteq> set (L 0)"
  using assms(2)
proof (induction l)
  case (Suc l)
  then have "set (L (Suc l)) \<subseteq> set (L l)" using assms(1) by (simp add: sk_lists_def)
  with Suc show ?case by simp
qed simp

lemma sk_lists_level:
  assumes "sk_lists M hp L" and "l < SKIPLIST_LEVELS_NUM"
  shows "links M l hp (L l)" and "sorted_wrt (<) (map (k_of M) (L l))" and "hp \<notin> set (L l)"
    and "a \<in> set (L l) \<Longrightarrow> ent M a \<noteq> None" and "a \<in> set (L l) \<Longrightarrow> sk_valid M a" and "sk_valid M hp"
  using assms sk_lists_base [OF assms] by (auto simp: sk_lists_def)

section \<open>Finding a key\<close>

definition below :: "sk_mem \<Rightarrow> u64 \<Rightarrow> nat list \<Rightarrow> nat list" where
  "below M k as = takeWhile (\<lambda>a. k_of M a < k) as"

definition from_key :: "sk_mem \<Rightarrow> u64 \<Rightarrow> nat list \<Rightarrow> nat list" where
  "from_key M k as = dropWhile (\<lambda>a. k_of M a < k) as"

definition pred_of :: "sk_mem \<Rightarrow> u64 \<Rightarrow> nat \<Rightarrow> nat list \<Rightarrow> nat" where
  "pred_of M k hp as = last (hp # below M k as)"

lemma below_from [simp]: "below M k as @ from_key M k as = as"
  by (simp add: below_def from_key_def)

lemma below_less: "a \<in> set (below M k as) \<Longrightarrow> k_of M a < k"
  by (auto simp: below_def dest: set_takeWhileD)

lemma from_key_ge:
  "sorted_wrt (<) (map (k_of M) as) \<Longrightarrow> a \<in> set (from_key M k as) \<Longrightarrow> k \<le> k_of M a"
proof (induction as)
  case (Cons b bs)
  then show ?case by (cases "k_of M b < k") (auto simp: from_key_def not_less dest: order.strict_implies_order order_trans)
qed (simp add: from_key_def)

lemma sk_walk_links:
  "links (mem h) l a as \<Longrightarrow> (\<And>x. x \<in> set as \<Longrightarrow> ent (mem h) x \<noteq> None) \<Longrightarrow>
   sk_walk h (Some a) l k = ret (Some (last (a # below (mem h) k as)))"
proof (induction as arbitrary: a)
  case Nil
  then show ?case by (subst sk_walk.simps) (simp add: below_def)
next
  case (Cons b bs)
  then obtain e where e: "ent (mem h) b = Some e" by fastforce
  then have k: "k_of (mem h) b = ske_key e" by (simp add: k_of_def)
  show ?case
  proof (cases "ske_key e < k")
    case True
    then have "sk_walk h (Some a) l k = sk_walk h (Some b) l k"
      using Cons.prems(1) e by (subst sk_walk.simps) simp
    also have "\<dots> = ret (Some (last (b # below (mem h) k bs)))"
      using Cons by simp
    finally show ?thesis using True k by (simp add: below_def)
  next
    case False
    then show ?thesis using Cons.prems(1) e k by (subst sk_walk.simps) (simp add: below_def)
  qed
qed

text \<open>Starting a level from a node of it that is before the key gives the same predecessor.\<close>

lemma pred_of_from:
  assumes li: "links M l hp as" and so: "sorted_wrt (<) (map (k_of M) as)"
    and a: "a = hp \<or> a \<in> set as \<and> k_of M a < k"
  shows "\<exists>vs. links M l a vs \<and> set vs \<subseteq> set as \<and> last (a # below M k vs) = pred_of M k hp as"
proof (cases "a = hp")
  case True
  then show ?thesis using li by (intro exI [of _ as]) (simp add: pred_of_def)
next
  case False
  then obtain us vs where as: "as = us @ a # vs" and k: "k_of M a < k"
    using a by (auto dest: split_list)
  have "\<forall>u \<in> set us. k_of M u < k"
    using so k by (auto simp: as sorted_wrt_append dest: less_trans)
  then have "below M k as = us @ a # below M k vs"
    using k by (simp add: as below_def takeWhile_append2)
  moreover have "links M l a vs" using links_append [of M l hp "us @ [a]" vs] li as by simp
  ultimately show ?thesis by (intro exI [of _ vs]) (auto simp: pred_of_def as)
qed

lemma pred_of_cases: "pred_of M k hp as = hp \<or> pred_of M k hp as \<in> set as \<and> k_of M (pred_of M k hp as) < k"
proof (cases "below M k as = []")
  case False
  then have "last (below M k as) \<in> set (below M k as)" by simp
  then have "last (below M k as) \<in> set as \<and> k_of M (last (below M k as)) < k"
    unfolding below_def by (rule set_takeWhileD)
  then show ?thesis using False by (simp add: pred_of_def)
qed (simp add: pred_of_def)

lemma sk_find_loop_lists:
  assumes li: "sk_lists (mem h) hp L"
  shows "n \<le> SKIPLIST_LEVELS_NUM \<Longrightarrow> length path = SKIPLIST_LEVELS_NUM \<Longrightarrow>
    a = hp \<or> (\<forall>l < n. a \<in> set (L l)) \<and> k_of (mem h) a < k \<Longrightarrow>
    \<exists>path'. sk_find_loop h k n (Some a) path = ret path' \<and> length path' = SKIPLIST_LEVELS_NUM \<and>
      (\<forall>l < n. path' ! l = Some (Some (pred_of (mem h) k hp (L l)))) \<and> (\<forall>l \<ge> n. path' ! l = path ! l)"
proof (induction n arbitrary: a path)
  case (Suc n)
  let ?M = "mem h"
  have n: "n < SKIPLIST_LEVELS_NUM" using Suc.prems(1) by simp
  note lev = sk_lists_level [OF li n]
  let ?p = "pred_of ?M k hp (L n)"
  obtain vs where vs: "links ?M n a vs" "set vs \<subseteq> set (L n)" "last (a # below ?M k vs) = ?p"
    using pred_of_from [OF lev(1,2), of a k] Suc.prems(3) by auto
  have w: "sk_walk h (Some a) n k = ret (Some ?p)"
    using sk_walk_links [OF vs(1), of k] vs(2,3) lev(4) by auto
  have "?p \<in> set (L l)" if "?p \<noteq> hp" "l \<le> n" for l
    using that(2)
  proof (induction l rule: inc_induct)
    case base
    then show ?case using that(1) pred_of_cases [of ?M k hp "L n"] by auto
  next
    case (step l)
    then have "Suc l < SKIPLIST_LEVELS_NUM" using n by simp
    then have "set (L (Suc l)) \<subseteq> set (L l)" using li by (simp add: sk_lists_def)
    then show ?case using step by blast
  qed
  then have "?p = hp \<or> (\<forall>l < n. ?p \<in> set (L l)) \<and> k_of ?M ?p < k"
    using pred_of_cases [of ?M k hp "L n"] by auto
  then obtain path' where p': "sk_find_loop h k n (Some ?p) (path[n := Some (Some ?p)]) = ret path'"
      "length path' = SKIPLIST_LEVELS_NUM" "\<forall>l < n. path' ! l = Some (Some (pred_of ?M k hp (L l)))"
      "\<forall>l \<ge> n. path' ! l = path[n := Some (Some ?p)] ! l"
    using Suc.IH [of "path[n := Some (Some ?p)]" ?p] n Suc.prems(2) by auto
  have "path' ! n = Some (Some ?p)" using p'(4) n Suc.prems(2) by simp
  then show ?case using w p' n Suc.prems(2) by (auto simp: less_Suc_eq)
qed simp

lemma sk_find_lists:
  assumes li: "sk_lists (mem h) hp L"
  shows "\<exists>path. sk_find h (Some hp) k = ret path \<and> length path = SKIPLIST_LEVELS_NUM \<and>
    (\<forall>l < SKIPLIST_LEVELS_NUM. path ! l = Some (Some (pred_of (mem h) k hp (L l))))"
  using sk_find_loop_lists [OF li, of SKIPLIST_LEVELS_NUM "replicate SKIPLIST_LEVELS_NUM None" hp k]
  by (auto simp: sk_find_def)

definition first_ptr :: "nat list \<Rightarrow> ptr" where
  "first_ptr as = (case as of [] \<Rightarrow> NULL | a # _ \<Rightarrow> Some a)"

lemma nxt_pred:
  assumes "links M l hp as"
  shows "nxt M l (pred_of M k hp as) = Some (first_ptr (from_key M k as))"
proof -
  have "links M l (pred_of M k hp as) (from_key M k as)"
    using assms links_append [of M l hp "below M k as" "from_key M k as"] by (simp add: pred_of_def)
  then show ?thesis by (cases "from_key M k as") (simp_all add: first_ptr_def)
qed

lemma sk_candidate_lists:
  assumes li: "sk_lists (mem h) hp L" and p: "length path = SKIPLIST_LEVELS_NUM"
    "path ! 0 = Some (Some (pred_of (mem h) k hp (L 0)))"
  shows "sk_candidate h path = ret (first_ptr (from_key (mem h) k (L 0)))"
proof -
  have "0 < SKIPLIST_LEVELS_NUM" by (simp add: SKIPLIST_LEVELS_NUM_def)
  then show ?thesis
    using p nxt_pred [OF sk_lists_level(1) [OF li]] by (simp add: sk_candidate_def SKIPLIST_BASE_LEVEL_def)
qed


section \<open>Reading and scanning\<close>

lemma sk_pairs_append [simp]: "sk_pairs M (xs @ ys) = sk_pairs M xs @ sk_pairs M ys"
  by (simp add: sk_pairs_def)

lemma sk_pairs_keys: "map fst (sk_pairs M as) = map (k_of M) as"
  by (simp add: sk_pairs_def)

lemma sk_pairs_set: "fst ` set (sk_pairs M as) = k_of M ` set as"
  using arg_cong [OF sk_pairs_keys [of M as], of set] by simp

lemma sk_pairs_below: "x \<in> fst ` set (sk_pairs M (below M k as)) \<Longrightarrow> x < k"
  by (auto simp: sk_pairs_def dest: below_less)

lemma from_key_rest:
  assumes "sorted_wrt (<) (map (k_of M) as)" and "from_key M k as = a # bs" and "b \<in> set bs"
  shows "k < k_of M b"
proof -
  have "sorted_wrt (<) (map (k_of M) (below M k as @ a # bs))"
    using assms(1) below_from [of M k as] assms(2) by metis
  then have "k_of M a < k_of M b" using assms(3) by (simp add: sorted_wrt_append)
  moreover have "k \<le> k_of M a" using from_key_ge [OF assms(1)] assms(2) by simp
  ultimately show ?thesis by simp
qed

lemma sk_pairs_lookup:
  assumes so: "sorted_wrt (<) (map (k_of M) as)"
  shows "map_of (sk_pairs M as) k = (case from_key M k as of [] \<Rightarrow> None
    | a # _ \<Rightarrow> if k_of M a = k then Some (ske_value (the (ent M a))) else None)"
proof -
  have as: "sk_pairs M as = sk_pairs M (below M k as) @ sk_pairs M (from_key M k as)"
    by (simp flip: sk_pairs_append)
  have "map_of (sk_pairs M as) k = map_of (sk_pairs M (from_key M k as)) k"
    unfolding as using map_of_cut [of "sk_pairs M (below M k as)" k "[]"] sk_pairs_below by fastforce
  also have "\<dots> = (case from_key M k as of [] \<Rightarrow> None
    | a # _ \<Rightarrow> if k_of M a = k then Some (ske_value (the (ent M a))) else None)"
  proof (cases "from_key M k as")
    case (Cons a bs)
    have "k \<notin> fst ` set (sk_pairs M bs)"
      by (auto simp: sk_pairs_def dest: from_key_rest [OF so Cons])
    then have "map_of (sk_pairs M bs) k = None" by (simp add: map_of_eq_None_iff)
    then show ?thesis by (simp add: Cons sk_pairs_def)
  qed (simp add: sk_pairs_def)
  finally show ?thesis .
qed

lemma levels_pos [simp]: "0 < SKIPLIST_LEVELS_NUM"
  by (simp add: SKIPLIST_LEVELS_NUM_def)

lemma sk_key_at_lists:
  assumes li: "sk_lists (mem h) hp L"
  shows "sk_key_at h (first_ptr (from_key (mem h) k (L 0))) k =
     ret (map_of (sk_pairs (mem h) (L 0)) k \<noteq> None)"
proof (cases "from_key (mem h) k (L 0)")
  case Nil
  then show ?thesis
    using sk_pairs_lookup [OF sk_lists_level(2) [OF li levels_pos]]
    by (simp add: sk_key_at_def first_ptr_def)
next
  case (Cons a bs)
  then have "a \<in> set (L 0)" using below_from [of "mem h" k "L 0"] by (metis in_set_conv_decomp)
  then obtain e where "ent (mem h) a = Some e" using sk_lists_level(4) [OF li levels_pos] by fastforce
  then show ?thesis
    using Cons sk_pairs_lookup [OF sk_lists_level(2) [OF li levels_pos], of k]
    by (simp add: sk_key_at_def first_ptr_def k_of_def)
qed

text \<open>What \<open>find\<close> and the test of its result give, in one fact.\<close>

lemma sk_find_candidate:
  assumes li: "sk_lists (mem h) hp L"
  obtains path where "sk_find h (Some hp) k = ret path" and "length path = SKIPLIST_LEVELS_NUM"
    and "\<And>l. l < SKIPLIST_LEVELS_NUM \<Longrightarrow> path ! l = Some (Some (pred_of (mem h) k hp (L l)))"
    and "sk_candidate h path = ret (first_ptr (from_key (mem h) k (L 0)))"
  using sk_find_lists [OF li, of k] sk_candidate_lists [OF li, of _ k] levels_pos by metis

lemma sk_found_entry:
  assumes li: "sk_lists (mem h) hp L" and k: "map_of (sk_pairs (mem h) (L 0)) k = Some v"
  obtains a bs e where "from_key (mem h) k (L 0) = a # bs" and "a \<in> set (L 0)"
    and "ent (mem h) a = Some e" and "ske_key e = k" and "ske_value e = v"
proof -
  note lk = sk_pairs_lookup [OF sk_lists_level(2) [OF li levels_pos], of k]
  then obtain a bs where f: "from_key (mem h) k (L 0) = a # bs" and v: "k_of (mem h) a = k"
      "ske_value (the (ent (mem h) a)) = v"
    using k by (auto split: list.splits if_splits)
  then have a: "a \<in> set (L 0)" using below_from [of "mem h" k "L 0"] by (metis in_set_conv_decomp)
  then obtain e where "ent (mem h) a = Some e" using sk_lists_level(4) [OF li levels_pos] by fastforce
  then show thesis using that [OF f a] v by (simp add: k_of_def)
qed

lemma sk_read_eq:
  assumes hp: "sk_head s = Some hp" and li: "sk_lists (mem (sk_heap s)) hp L"
  shows "sk_read s k r = (case map_of (sk_pairs (mem (sk_heap s)) (L 0)) k of
     None \<Rightarrow> ret (1, r) | Some v \<Rightarrow> ret (1, StrP v))"
proof -
  obtain path where p: "sk_find (sk_heap s) (Some hp) k = ret path"
      "sk_candidate (sk_heap s) path = ret (first_ptr (from_key (mem (sk_heap s)) k (L 0)))"
    by (rule sk_find_candidate [OF li])
  show ?thesis
  proof (cases "map_of (sk_pairs (mem (sk_heap s)) (L 0)) k")
    case None
    then show ?thesis using hp p sk_key_at_lists [OF li, of k] by (simp add: sk_read_def sk_check_def)
  next
    case (Some v)
    then obtain a bs e where "from_key (mem (sk_heap s)) k (L 0) = a # bs"
        "ent (mem (sk_heap s)) a = Some e" "ske_value e = v"
      by (rule sk_found_entry [OF li])
    then show ?thesis
      using hp p Some sk_key_at_lists [OF li, of k]
      by (simp add: sk_read_def sk_check_def first_ptr_def)
  qed
qed

lemma sk_scan_loop_links:
  "links (mem h) 0 a as \<Longrightarrow> (\<And>x. x \<in> set as \<Longrightarrow> ent (mem h) x \<noteq> None) \<Longrightarrow> nxt (mem h) 0 a = Some p \<Longrightarrow>
   0 \<le> c \<Longrightarrow> len \<le> 0 \<or> c < len \<Longrightarrow>
   sk_scan_loop h p c len res =
     ret (res @ map (\<lambda>x. [x]) (sk_pairs (mem h) (if 1 \<le> len then take (nat (len - c)) as else as)))"
proof (induction as arbitrary: a p c res)
  case Nil
  then show ?case by (subst sk_scan_loop.simps) (simp add: sk_pairs_def)
next
  case (Cons b bs)
  then obtain e where e: "ent (mem h) b = Some e" "p = Some b" by fastforce
  then have ke: "k_of (mem h) b = ske_key e" by (simp add: k_of_def)
  obtain q where q: "nxt (mem h) 0 b = Some q" using Cons.prems(1) by (cases bs) auto
  show ?case
  proof (cases "c + 1 = len")
    case True
    then have "nat (len - c) = 1" by simp
    then show ?thesis using e ke True Cons.prems(4)
      by (subst sk_scan_loop.simps) (simp add: sk_pairs_def)
  next
    case False
    have "sk_scan_loop h q (c + 1) len (res @ [[(ske_key e, ske_value e)]]) =
        ret ((res @ [[(ske_key e, ske_value e)]]) @ map (\<lambda>x. [x])
          (sk_pairs (mem h) (if 1 \<le> len then take (nat (len - (c + 1))) bs else bs)))"
      using Cons.prems q False by (intro Cons.IH [of b]) auto
    moreover have "1 \<le> len \<Longrightarrow> nat (len - c) = Suc (nat (len - (c + 1)))"
      using Cons.prems(5) False by auto
    ultimately show ?thesis using e ke q False
      by (subst sk_scan_loop.simps) (simp add: sk_pairs_def SKIPLIST_BASE_LEVEL_def)
  qed
qed

lemma sk_scan_eq:
  fixes k :: u64
  assumes hp: "sk_head s = Some hp" and li: "sk_lists (mem (sk_heap s)) hp L"
  defines "xs \<equiv> sk_pairs (mem (sk_heap s)) (from_key (mem (sk_heap s)) k (L 0))"
  shows "sk_scan s k len res = ret (1, res @ map (\<lambda>x. [x]) (scan_prefix len xs))"
    and "is_range (map_of (sk_pairs (mem (sk_heap s)) (L 0))) k xs"
proof -
  let ?M = "mem (sk_heap s)"
  note lev = sk_lists_level [OF li levels_pos]
  obtain path where p: "sk_find (sk_heap s) (Some hp) k = ret path"
      "sk_candidate (sk_heap s) path = ret (first_ptr (from_key ?M k (L 0)))"
    by (rule sk_find_candidate [OF li])
  have sub: "set (from_key ?M k (L 0)) \<subseteq> set (L 0)"
    using below_from [of ?M k "L 0"] by (metis set_append sup_ge2)
  have "links ?M 0 (pred_of ?M k hp (L 0)) (from_key ?M k (L 0))"
    using links_append [of ?M 0 hp "below ?M k (L 0)" "from_key ?M k (L 0)"] lev(1)
    by (simp add: pred_of_def)
  then have "sk_scan_loop (sk_heap s) (first_ptr (from_key ?M k (L 0))) 0 len res =
      ret (res @ map (\<lambda>x. [x]) (sk_pairs ?M
        (if 1 \<le> len then take (nat (len - 0)) (from_key ?M k (L 0)) else from_key ?M k (L 0))))"
    using lev(4) sub nxt_pred [OF lev(1)] by (intro sk_scan_loop_links) auto
  then show "sk_scan s k len res = ret (1, res @ map (\<lambda>x. [x]) (scan_prefix len xs))"
    using hp p by (simp add: sk_scan_def sk_check_def xs_def scan_prefix_def sk_pairs_def take_map)
  have so: "sorted_wrt (<) (map (k_of ?M) (below ?M k (L 0) @ from_key ?M k (L 0)))"
    using lev(2) by simp
  have "map_of xs j = (map_of (sk_pairs ?M (L 0)) |` {k..}) j" for j
  proof (cases "k \<le> j")
    case True
    have "j \<notin> fst ` set (sk_pairs ?M (below ?M k (L 0)))" using sk_pairs_below True by fastforce
    then have "map_of (sk_pairs ?M (below ?M k (L 0))) j = None" by (simp add: map_of_eq_None_iff)
    moreover have "sk_pairs ?M (L 0) = sk_pairs ?M (below ?M k (L 0)) @ xs"
      unfolding xs_def by (simp flip: sk_pairs_append)
    ultimately show ?thesis using True by (simp add: map_add_def split: option.splits)
  next
    case False
    then have "j \<notin> fst ` set xs"
      using from_key_ge [OF lev(2)] by (auto simp: xs_def sk_pairs_def)
    then show ?thesis using False by (simp add: map_of_eq_None_iff)
  qed
  then show "is_range (map_of (sk_pairs ?M (L 0))) k xs"
    using so unfolding map_append sorted_wrt_append
    by (simp add: is_range_def xs_def sk_pairs_keys fun_eq_iff)
qed


section \<open>Inserting\<close>

definition set_nxt :: "sk_mem \<Rightarrow> nat \<Rightarrow> nat \<Rightarrow> ptr \<Rightarrow> sk_mem" where
  "set_nxt M p l q = M(p \<mapsto> (the (M p))\<lparr>sk_next := (sk_next (the (M p)))[l := Some q]\<rparr>)"

lemma sk_set_next_eq:
  "sk_valid (mem h) p \<Longrightarrow> l < SKIPLIST_LEVELS_NUM \<Longrightarrow>
   sk_set_next h (Some p) l q = ret (h\<lparr>mem := set_nxt (mem h) p l q\<rparr>)"
  by (auto simp: sk_valid_def sk_set_next_def set_nxt_def)

lemma set_nxt_simps:
  assumes "sk_valid M p"
  shows "l < SKIPLIST_LEVELS_NUM \<Longrightarrow>
      nxt (set_nxt M p l q) l' a = (if a = p \<and> l' = l then Some q else nxt M l' a)"
    and "ent (set_nxt M p l q) = ent M" and "sk_valid (set_nxt M p l q) a = sk_valid M a"
    and "k_of (set_nxt M p l q) = k_of M" and "set_nxt M p l q a = None \<longleftrightarrow> M a = None"
  using assms by (auto simp: sk_valid_def nxt_def ent_def set_nxt_def k_of_def fun_eq_iff)

text \<open>Linking a node on one level leaves the other levels as they are.\<close>

lemma links_insert:
  assumes li: "links M l hp as" and p: "sk_valid M (pred_of M k hp as)" and new: "sk_valid M new"
    and n: "new \<noteq> hp" "new \<notin> set as" and d: "hp \<notin> set as" "distinct as" and l: "l < SKIPLIST_LEVELS_NUM"
  defines "M' \<equiv> set_nxt (set_nxt M new l (first_ptr (from_key M k as))) (pred_of M k hp as) l (Some new)"
  shows "links M' l hp (below M k as @ new # from_key M k as)"
    and "l' \<noteq> l \<Longrightarrow> links M' l' x xs = links M l' x xs"
proof -
  let ?p = "pred_of M k hp as" and ?q = "first_ptr (from_key M k as)"
  have p': "sk_valid (set_nxt M new l ?q) ?p" using p by (simp add: set_nxt_simps(3) [OF new])
  have nx: "nxt M' j a = (if a = ?p \<and> j = l then Some (Some new)
      else if a = new \<and> j = l then Some ?q else nxt M j a)" for j a
    unfolding M'_def using l by (simp add: set_nxt_simps(1) [OF p'] set_nxt_simps(1) [OF new])
  show "links M' l' x xs = links M l' x xs" if "l' \<noteq> l"
    by (rule links_agree) (simp add: nx that)
  have pn: "?p \<noteq> new" using n pred_of_cases [of M k hp as] by auto
  have gen: "links M' l a (xs @ new # ys)"
    if "links M l a (xs @ ys)" "?p = last (a # xs)" "distinct (a # xs @ ys)" "new \<notin> set (a # xs @ ys)"
      "?q = first_ptr ys" for a xs ys
    using that
  proof (induction xs arbitrary: a)
    case Nil
    have "links M' l y zs = links M l y zs" if "y \<noteq> ?p" "?p \<notin> set zs" "y \<noteq> new" "new \<notin> set zs" for y zs
      by (rule links_agree) (use that in \<open>auto simp: nx\<close>)
    then show ?case using Nil pn by (cases ys) (auto simp: nx first_ptr_def)
  next
    case (Cons b bs)
    have "last (b # bs) \<in> set (b # bs)" by (rule last_in_set) simp
    then have "a \<noteq> ?p" using Cons.prems by auto
    then show ?case using Cons by (auto simp: nx)
  qed
  show "links M' l hp (below M k as @ new # from_key M k as)"
    by (rule gen) (use li d n in \<open>simp_all add: pred_of_def\<close>)
qed

lemma sk_sorted_distinct: "sorted_wrt (<) (map (k_of M) as) \<Longrightarrow> distinct as"
  using strict_sorted_iff [of "map (k_of M) as"] by (simp add: distinct_map)

definition sk_ready :: "sk_mem \<Rightarrow> nat \<Rightarrow> (nat \<Rightarrow> nat list) \<Rightarrow> nat \<Rightarrow> u64 \<Rightarrow> nat \<Rightarrow> bool" where
  "sk_ready M hp L new k j \<longleftrightarrow> sk_lists M hp L \<and> sk_valid M new \<and> ent M new \<noteq> None \<and> k_of M new = k \<and>
     new \<noteq> hp \<and> (\<forall>l. j \<le> l \<longrightarrow> l < SKIPLIST_LEVELS_NUM \<longrightarrow> new \<notin> set (L l)) \<and>
     (\<forall>a \<in> set (L 0). a \<noteq> new \<longrightarrow> k_of M a \<noteq> k) \<and> (0 < j \<longrightarrow> new \<in> set (L (j - 1)))"

definition sk_add :: "sk_mem \<Rightarrow> nat \<Rightarrow> u64 \<Rightarrow> nat list \<Rightarrow> nat list" where
  "sk_add M new k as = below M k as @ new # from_key M k as"

lemma set_sk_add: "set (sk_add M new k as) = insert new (set as)"
proof -
  have "set as = set (below M k as) \<union> set (from_key M k as)"
    using below_from [of M k as] by (metis set_append)
  then show ?thesis by (auto simp: sk_add_def)
qed

lemma sorted_sk_add:
  assumes so: "sorted_wrt (<) (map (k_of M) as)" and k: "k_of M new = k" and new: "\<forall>a \<in> set as. k_of M a \<noteq> k"
  shows "sorted_wrt (<) (map (k_of M) (sk_add M new k as))"
proof -
  have "sorted_wrt (<) (map (k_of M) (below M k as @ from_key M k as))" using so by simp
  moreover have "k < k_of M a" if "a \<in> set (from_key M k as)" for a
  proof -
    have "a \<in> set as" using that below_from [of M k as] by (metis UnCI set_append)
    then show ?thesis using from_key_ge [OF so that] new by fastforce
  qed
  ultimately show ?thesis
    unfolding sk_add_def map_append sorted_wrt_append
    by (auto simp: k dest: below_less)
qed

lemma sk_ready_step:
  assumes r: "sk_ready M hp L new k j" and j: "j < SKIPLIST_LEVELS_NUM"
  defines "p \<equiv> pred_of M k hp (L j)"
  defines "M' \<equiv> set_nxt (set_nxt M new j (first_ptr (from_key M k (L j)))) p j (Some new)"
  defines "L' \<equiv> L(j := sk_add M new k (L j))"
  shows "sk_ready M' hp L' new k (Suc j)" and "sk_valid M p" and "ent M' = ent M"
    and "M' a = None \<longleftrightarrow> M a = None"
proof -
  have li: "sk_lists M hp L" and new: "sk_valid M new" "ent M new \<noteq> None" "k_of M new = k" "new \<noteq> hp"
    and nj: "\<And>l. j \<le> l \<Longrightarrow> l < SKIPLIST_LEVELS_NUM \<Longrightarrow> new \<notin> set (L l)"
    and nk: "\<And>a. a \<in> set (L 0) \<Longrightarrow> a \<noteq> new \<Longrightarrow> k_of M a \<noteq> k" and nl: "0 < j \<Longrightarrow> new \<in> set (L (j - 1))"
    using r by (auto simp: sk_ready_def)
  note lev = sk_lists_level [OF li j]
  show pv: "sk_valid M p" using pred_of_cases [of M k hp "L j"] lev(5,6) unfolding p_def by auto
  have p': "sk_valid (set_nxt M new j (first_ptr (from_key M k (L j)))) p"
    using pv by (simp add: set_nxt_simps(3) [OF new(1)])
  have en: "ent M' = ent M" "k_of M' = k_of M"
    unfolding M'_def by (simp_all add: set_nxt_simps [OF p'] set_nxt_simps [OF new(1)])
  have va: "sk_valid M' a = sk_valid M a" for a
    unfolding M'_def by (simp add: set_nxt_simps [OF p'] set_nxt_simps [OF new(1)])
  show "ent M' = ent M" by (rule en)
  show "M' a = None \<longleftrightarrow> M a = None"
    unfolding M'_def by (simp add: set_nxt_simps [OF p'] set_nxt_simps [OF new(1)])
  have newj: "new \<notin> set (L j)" using nj j by simp
  note ins = links_insert [OF lev(1) pv [unfolded p_def] new(1) new(4) newj lev(3)
      sk_sorted_distinct [OF lev(2)] j, folded p_def, folded M'_def]
  have nkj: "\<forall>a \<in> set (L j). k_of M a \<noteq> k"
    using nk sk_lists_base [OF li j] newj by blast
  have "sk_lists M' hp L'"
    unfolding sk_lists_def
  proof (intro conjI allI impI)
    fix l assume l: "l < SKIPLIST_LEVELS_NUM"
    note levl = sk_lists_level [OF li l]
    show "links M' l hp (L' l)"
      using ins(1) ins(2) [of l hp "L l"] levl(1) by (cases "l = j") (simp_all add: L'_def sk_add_def)
    show "sorted_wrt (<) (map (k_of M') (L' l))"
      using levl(2) sorted_sk_add [OF lev(2) new(3) nkj] by (simp add: L'_def en)
    show "hp \<notin> set (L' l)" using levl(3) lev(3) new(4) by (simp add: L'_def set_sk_add)
  next
    fix l assume l: "Suc l < SKIPLIST_LEVELS_NUM"
    have "set (L (Suc l)) \<subseteq> set (L l)" using li l by (simp add: sk_lists_def)
    then show "set (L' (Suc l)) \<subseteq> set (L' l)"
      using nl by (auto simp: L'_def set_sk_add)
  next
    show "\<forall>a \<in> set (L' 0). ent M' a \<noteq> None" "\<forall>a \<in> set (L' 0). sk_valid M' a" "sk_valid M' hp"
      using li new by (auto simp: L'_def set_sk_add en va sk_lists_def)
  qed
  then show "sk_ready M' hp L' new k (Suc j)"
    using new nj nk unfolding sk_ready_def en va by (auto simp: L'_def set_sk_add)
qed


lemma pred_of_cong: "ent M' = ent M \<Longrightarrow> pred_of M' k hp as = pred_of M k hp as"
  by (simp add: pred_of_def below_def k_of_def)

lemma sk_insert_node_lists:
  assumes path: "length path = SKIPLIST_LEVELS_NUM"
  shows "n = SKIPLIST_LEVELS_NUM - j \<Longrightarrow> j < SKIPLIST_LEVELS_NUM \<Longrightarrow> sk_ready (mem h) hp L new k j \<Longrightarrow>
    (\<And>l. j \<le> l \<Longrightarrow> l < SKIPLIST_LEVELS_NUM \<Longrightarrow> path ! l = Some (Some (pred_of (mem h) k hp (L l)))) \<Longrightarrow>
    \<exists>calls h' L'. sk_insert_node rnd (Some new) path j h = ret (calls, h') \<and>
      sk_lists (mem h') hp L' \<and> L' 0 = (if j = 0 then sk_add (mem h) new k (L 0) else L 0) \<and>
      ent (mem h') = ent (mem h) \<and> brk h' = brk h \<and> dom (mem h') = dom (mem h)"
proof (induction n arbitrary: j h L)
  case 0
  then show ?case by simp
next
  case (Suc n)
  let ?M = "mem h" and ?p = "pred_of (mem h) k hp (L j)"
  let ?M1 = "set_nxt ?M new j (first_ptr (from_key ?M k (L j)))"
  obtain M' L1 where M': "M' = set_nxt ?M1 ?p j (Some new)"
    and L1: "L1 = L(j := sk_add ?M new k (L j))" by blast
  note j = Suc.prems(2) and r = Suc.prems(3)
  note st = sk_ready_step [OF r j, folded M' L1]
  have li: "sk_lists ?M hp L" and new: "sk_valid ?M new" using r by (simp_all add: sk_ready_def)
  have pj: "read_slot path j = ret (Some ?p)" using Suc.prems(4) [of j] j path by simp
  have nx: "sk_get_next h (Some ?p) j = ret (first_ptr (from_key ?M k (L j)))"
    using nxt_pred [OF sk_lists_level(1) [OF li j]] by simp
  have s1: "sk_set_next h (Some new) j q = ret (h\<lparr>mem := set_nxt ?M new j q\<rparr>)" for q
    by (rule sk_set_next_eq [OF new j])
  have s2: "sk_set_next (h\<lparr>mem := ?M1\<rparr>) (Some ?p) j (Some new) = ret (h\<lparr>mem := M'\<rparr>)"
    using sk_set_next_eq [of "h\<lparr>mem := ?M1\<rparr>" ?p j "Some new"] j st(2)
    by (simp add: set_nxt_simps(3) [OF new] M')
  have run: "sk_insert_node rnd (Some new) path j h =
      (if j + 1 < SKIPLIST_LEVELS_NUM
       then if rnd j mod 2 = 0 then sk_insert_node rnd (Some new) path (j + 1) (h\<lparr>mem := M'\<rparr>)
            else ret (j + 1, h\<lparr>mem := M'\<rparr>)
       else ret (j, h\<lparr>mem := M'\<rparr>))"
    using pj nx s1 s2 by (subst sk_insert_node.simps) simp
  have nn: "n = SKIPLIST_LEVELS_NUM - Suc j" using Suc.prems(1) by simp
  have fin: "sk_lists M' hp L1" "L1 0 = (if j = 0 then sk_add ?M new k (L 0) else L 0)"
    "ent M' = ent ?M"
    using st(1,3) by (simp_all add: sk_ready_def L1)
  have do: "dom M' = dom ?M" by (simp only: dom_def st(4) simp_thms)
  show ?case
  proof (cases "j + 1 < SKIPLIST_LEVELS_NUM \<and> rnd j mod 2 = 0")
    case False
    then obtain calls where "sk_insert_node rnd (Some new) path j h = ret (calls, h\<lparr>mem := M'\<rparr>)"
      using run by metis
    then show ?thesis using fin do by (intro exI [of _ calls] exI [of _ "h\<lparr>mem := M'\<rparr>"] exI [of _ L1]) simp
  next
    case True
    have "path ! l = Some (Some (pred_of M' k hp (L1 l)))" if "Suc j \<le> l" "l < SKIPLIST_LEVELS_NUM" for l
      using Suc.prems(4) [of l] that unfolding pred_of_cong [OF st(3)] by (simp add: L1)
    then obtain calls h' L' where r': "sk_insert_node rnd (Some new) path (Suc j) (h\<lparr>mem := M'\<rparr>) = ret (calls, h')"
        "sk_lists (mem h') hp L'" "L' 0 = L1 0" "ent (mem h') = ent M'" "brk h' = brk h"
        "dom (mem h') = dom M'"
      using Suc.IH [of "Suc j" "h\<lparr>mem := M'\<rparr>" L1] nn True st(1) by auto
    then show ?thesis using True fin do
      by (intro exI [of _ calls] exI [of _ h'] exI [of _ L']) (simp add: run)
  qed
qed

lemma sk_lists_agree:
  assumes li: "sk_lists M hp L" and ag: "\<And>a. a = hp \<or> a \<in> set (L 0) \<Longrightarrow> M' a = M a"
  shows "sk_lists M' hp L"
proof -
  have nx: "nxt M' l a = nxt M l a" "ent M' a = ent M a" "k_of M' a = k_of M a" "sk_valid M' a = sk_valid M a"
    if "a = hp \<or> a \<in> set (L 0)" for l a
    using ag [OF that] by (simp_all add: nxt_def ent_def k_of_def sk_valid_def)
  have "links M' l hp (L l) \<and> sorted_wrt (<) (map (k_of M') (L l)) \<and> hp \<notin> set (L l)"
    if l: "l < SKIPLIST_LEVELS_NUM" for l
  proof -
    note lev = sk_lists_level [OF li l] and b = sk_lists_base [OF li l]
    have "links M' l hp (L l) = links M l hp (L l)"
      by (rule links_agree) (use b in \<open>auto intro: nx\<close>)
    moreover have "map (k_of M') (L l) = map (k_of M) (L l)"
      using b by (auto intro: nx)
    ultimately show ?thesis using lev(1-3) by (simp only: simp_thms)
  qed
  then show ?thesis using li nx unfolding sk_lists_def by auto
qed

lemma sk_pairs_agree:
  "(\<And>a. a \<in> set as \<Longrightarrow> ent M' a = ent M a) \<Longrightarrow> sk_pairs M' as = sk_pairs M as"
  by (auto simp: sk_pairs_def k_of_def)

lemma sk_pairs_add:
  assumes so: "sorted_wrt (<) (map (k_of M) as)" and new: "ent M new = Some \<lparr>ske_key = k, ske_value = v\<rparr>"
    and k: "map_of (sk_pairs M as) k = None"
  shows "map_of (sk_pairs M (sk_add M new k as)) = (map_of (sk_pairs M as))(k \<mapsto> v)"
proof
  fix j
  have "map_of (sk_pairs M as) = map_of (sk_pairs M (below M k as) @ sk_pairs M (from_key M k as))"
    by (simp flip: sk_pairs_append)
  moreover have "sk_pairs M [new] = [(k, v)]" using new by (simp add: sk_pairs_def k_of_def)
  then have "sk_pairs M (sk_add M new k as) = sk_pairs M (below M k as) @ (k, v) # sk_pairs M (from_key M k as)"
    using sk_pairs_append [of M "[new]" "from_key M k as"] by (simp add: sk_add_def)
  ultimately show "map_of (sk_pairs M (sk_add M new k as)) j = ((map_of (sk_pairs M as))(k \<mapsto> v)) j"
    using k by (auto simp: map_add_def split: option.splits)
qed

lemma sk_insert_new:
  assumes hp: "sk_head s = Some hp" and li: "sk_lists (mem (sk_heap s)) hp L" and ok: "heap_ok (sk_heap s)"
    and v: "fits v" and k: "map_of (sk_pairs (mem (sk_heap s)) (L 0)) k = None"
  shows "\<exists>s' L'. sk_insert s k v = ret (1, s') \<and> sk_head s' = Some hp \<and> heap_ok (sk_heap s') \<and>
    sk_lists (mem (sk_heap s')) hp L' \<and>
    map_of (sk_pairs (mem (sk_heap s')) (L' 0)) = (map_of (sk_pairs (mem (sk_heap s)) (L 0)))(k \<mapsto> v)"
proof -
  let ?h = "sk_heap s" and ?M = "mem (sk_heap s)" and ?b = "brk (sk_heap s)"
  let ?n = "\<lparr>sk_entry = Some \<lparr>ske_key = k, ske_value = v\<rparr>, sk_next = replicate SKIPLIST_LEVELS_NUM None\<rparr>"
  let ?h1 = "?h\<lparr>brk := Suc ?b, mem := ?M(?b \<mapsto> ?n)\<rparr>"
  obtain path where p: "sk_find ?h (Some hp) k = ret path" "length path = SKIPLIST_LEVELS_NUM"
      "\<And>l. l < SKIPLIST_LEVELS_NUM \<Longrightarrow> path ! l = Some (Some (pred_of ?M k hp (L l)))"
      "sk_candidate ?h path = ret (first_ptr (from_key ?M k (L 0)))"
    using sk_find_candidate [OF li, of k] by metis
  have fresh: "a \<noteq> ?b" if "a = hp \<or> a \<in> set (L 0)" for a
  proof -
    have "sk_valid ?M a" using that li by (auto simp: sk_lists_def)
    then show ?thesis using ok by (auto simp: sk_valid_def heap_ok_def)
  qed
  have ag: "mem ?h1 a = ?M a" if "a = hp \<or> a \<in> set (L 0)" for a using fresh [OF that] by simp
  have li1: "sk_lists (mem ?h1) hp L" by (rule sk_lists_agree [OF li ag])
  have e1: "ent (mem ?h1) a = ent ?M a" if "a \<in> set (L 0)" for a using ag that by (simp add: ent_def)
  have ke: "k_of (mem ?h1) a = k_of ?M a" if "a \<in> set (L 0)" for a
    using e1 [OF that] by (simp add: k_of_def)
  have new: "ent (mem ?h1) ?b = Some \<lparr>ske_key = k, ske_value = v\<rparr>" by (simp add: ent_def)
  have pairs: "sk_pairs (mem ?h1) (L 0) = sk_pairs ?M (L 0)" by (rule sk_pairs_agree) (rule e1)
  have "k \<notin> k_of ?M ` set (L 0)" using k by (simp add: map_of_eq_None_iff sk_pairs_set)
  then have nk: "k_of ?M a \<noteq> k" if "a \<in> set (L 0)" for a using that by blast
  have "?b \<notin> set (L l)" if "l < SKIPLIST_LEVELS_NUM" for l
    using fresh sk_lists_base [OF li that] by blast
  then have r: "sk_ready (mem ?h1) hp L ?b k 0"
    using li1 new fresh nk ke by (auto simp: sk_ready_def sk_valid_def k_of_def)
  have "path ! l = Some (Some (pred_of (mem ?h1) k hp (L l)))" if "l < SKIPLIST_LEVELS_NUM" for l
  proof -
    have "below (mem ?h1) k (L l) = below ?M k (L l)"
      unfolding below_def using ke sk_lists_base [OF li that] by (intro takeWhile_cong) auto
    then show ?thesis using p(3) [OF that] by (simp add: pred_of_def)
  qed
  then obtain calls h' L' where r': "sk_insert_node (sk_rand s) (Some ?b) path 0 ?h1 = ret (calls, h')"
      "sk_lists (mem h') hp L'" "L' 0 = sk_add (mem ?h1) ?b k (L 0)" "ent (mem h') = ent (mem ?h1)"
      "brk h' = brk ?h1" "dom (mem h') = dom (mem ?h1)"
    using sk_insert_node_lists [OF p(2) refl levels_pos r, of "sk_rand s"] by auto
  let ?s = "s\<lparr>sk_heap := h', sk_rand := \<lambda>i. sk_rand s (i + calls)\<rparr>"
  have "sk_insert s k v = ret (1, ?s)"
    using hp p(1,4) sk_key_at_lists [OF li, of k] k v r'(1)
    by (simp add: sk_insert_def sk_check_def malloc_def SKIPLIST_BASE_LEVEL_def Let_def)
  moreover have "heap_ok h'" using ok r'(5,6) by (auto simp: heap_ok_def less_Suc_eq)
  moreover have "map_of (sk_pairs (mem h') (L' 0)) = (map_of (sk_pairs ?M (L 0)))(k \<mapsto> v)"
  proof -
    have "sk_pairs (mem h') (L' 0) = sk_pairs (mem ?h1) (L' 0)" by (rule sk_pairs_agree) (simp add: r'(4))
    also have "map_of \<dots> = (map_of (sk_pairs (mem ?h1) (L 0)))(k \<mapsto> v)"
      unfolding r'(3) by (rule sk_pairs_add [OF sk_lists_level(2) [OF li1 levels_pos] new]) (simp only: pairs k)
    finally show ?thesis by (simp only: pairs)
  qed
  ultimately show ?thesis using hp r'(2) by (intro exI [of _ ?s] exI [of _ L']) simp
qed


lemma sk_insert_present:
  assumes hp: "sk_head s = Some hp" and li: "sk_lists (mem (sk_heap s)) hp L" and ok: "heap_ok (sk_heap s)"
    and v: "fits v" and k: "map_of (sk_pairs (mem (sk_heap s)) (L 0)) k = Some w"
  shows "\<exists>s'. sk_insert s k v = ret (1, s') \<and> sk_head s' = Some hp \<and> heap_ok (sk_heap s') \<and>
    sk_lists (mem (sk_heap s')) hp L \<and>
    map_of (sk_pairs (mem (sk_heap s')) (L 0)) = (map_of (sk_pairs (mem (sk_heap s)) (L 0)))(k \<mapsto> v)"
proof -
  let ?h = "sk_heap s" and ?M = "mem (sk_heap s)"
  obtain path where p: "sk_find ?h (Some hp) k = ret path"
      "sk_candidate ?h path = ret (first_ptr (from_key ?M k (L 0)))"
    by (rule sk_find_candidate [OF li])
  obtain a bs e where a: "from_key ?M k (L 0) = a # bs" "a \<in> set (L 0)" "ent ?M a = Some e" "ske_key e = k"
    by (rule sk_found_entry [OF li k])
  obtain n where n: "?M a = Some n" "sk_entry n = Some e" using a(3) by (auto simp: ent_def split: option.splits)
  obtain M' where M': "M' = ?M(a \<mapsto> n\<lparr>sk_entry := Some (e\<lparr>ske_value := v\<rparr>)\<rparr>)" by blast
  let ?s = "s\<lparr>sk_heap := ?h\<lparr>mem := M'\<rparr>\<rparr>"
  have nx: "nxt M' = nxt ?M" using n by (auto simp: M' nxt_def fun_eq_iff)
  have en: "ent M' x = (if x = a then Some (e\<lparr>ske_value := v\<rparr>) else ent ?M x)" for x
    by (simp add: M' ent_def)
  have ke: "k_of M' = k_of ?M" using a(3) by (auto simp: k_of_def en fun_eq_iff)
  have va: "sk_valid M' x = sk_valid ?M x" for x using n by (auto simp: M' sk_valid_def)
  have links': "links M' l x xs = links ?M l x xs" for l x xs by (rule links_agree) (simp add: nx)
  have "sk_insert s k v = ret (1, ?s)"
    using hp p sk_key_at_lists [OF li, of k] k v a n
    by (simp add: sk_insert_def sk_check_def first_ptr_def M')
  moreover have "sk_lists M' hp L" using li by (simp add: sk_lists_def links' ke en va)
  moreover have "heap_ok (?h\<lparr>mem := M'\<rparr>)" using ok n by (auto simp: M' heap_ok_def)
  moreover have "map_of (sk_pairs M' (L 0)) = (map_of (sk_pairs ?M (L 0)))(k \<mapsto> v)"
  proof -
    have d: "distinct (map (k_of ?M) (L 0))"
      using sk_lists_level(2) [OF li levels_pos] by (simp add: strict_sorted_iff)
    have e: "sk_pairs M' (L 0) =
        map (\<lambda>x. (k_of ?M x, if x = a then v else ske_value (the (ent ?M x)))) (L 0)"
      by (simp add: sk_pairs_def ke en)
    have ka: "k_of ?M a = k" using a by (simp add: k_of_def)
    show ?thesis
      using map_of_update_one [OF a(2) d, of v "\<lambda>x. ske_value (the (ent ?M x))"]
      unfolding e ka unfolding sk_pairs_def .
  qed
  ultimately show ?thesis using hp by (intro exI [of _ ?s]) simp
qed

section \<open>The list as a store\<close>

lemma sk_rep_read: "sk_rep s m \<Longrightarrow> m k = Some v \<Longrightarrow> sk_read s k r = ret (1, StrP v)"
  by (auto simp: sk_rep_def sk_read_eq)

lemma sk_rep_insert:
  assumes "sk_rep s m" and v: "fits v"
  shows "\<exists>s'. sk_insert s k v = ret (1, s') \<and> sk_rep s' (m(k \<mapsto> v))"
proof -
  obtain hp L where s: "heap_ok (sk_heap s)" "sk_head s = Some hp" "sk_lists (mem (sk_heap s)) hp L"
    and m: "m = map_of (sk_pairs (mem (sk_heap s)) (L 0))"
    using assms(1) by (auto simp: sk_rep_def)
  show ?thesis
  proof (cases "m k")
    case None
    then show ?thesis
      using sk_insert_new [OF s(2,3,1) v, of k] unfolding m sk_rep_def by metis
  next
    case (Some w)
    then show ?thesis
      using sk_insert_present [OF s(2,3,1) v, of k w] unfolding m sk_rep_def by metis
  qed
qed

lemma sk_rep_scan:
  assumes "sk_rep s m"
  shows "\<exists>xs. is_range m k xs \<and> sk_scan s k len res = ret (1, res @ map (\<lambda>x. [x]) (scan_prefix len xs))"
  using assms sk_scan_eq unfolding sk_rep_def by blast

lemma sk_rep_init: "\<exists>s. sk_init rnd = ret (1, s) \<and> sk_rep s Map.empty"
proof -
  let ?n = "\<lparr>sk_entry = None, sk_next = replicate SKIPLIST_LEVELS_NUM (Some NULL)\<rparr>"
  let ?s = "\<lparr>sk_heap = \<lparr>mem = [0 \<mapsto> ?n], brk = 1\<rparr>, sk_head = Some 0, sk_rand = rnd\<rparr>"
  have "sk_init rnd = ret (1, ?s)"
    by (simp add: sk_init_def malloc_def empty_heap_def sk_check_def Let_def)
  moreover have "sk_lists [0 \<mapsto> ?n] 0 (\<lambda>_. [])"
    by (simp add: sk_lists_def nxt_def sk_valid_def)
  then have "sk_rep ?s Map.empty"
    by (auto simp: sk_rep_def heap_ok_def sk_pairs_def intro: exI [of _ "\<lambda>_. []"])
  ultimately show ?thesis by blast
qed

definition sk_ops :: "skiplist_dram storeds_base" where
  "sk_ops = \<lparr>op_read = sk_read, op_scan = sk_scan, op_update = sk_update,
     op_insert = sk_insert, op_destroy = sk_destroy\<rparr>"

interpretation sk: scan_store sk_ops sk_rep "\<lambda>_. True"
  by unfold_locales (simp_all add: sk_ops_def sk_rep_read sk_rep_insert sk_update_def sk_rep_scan)

section \<open>Removing and destroying\<close>

lemma links_remove:
  assumes li: "links M l hp (xs @ a # ys)" and p: "sk_valid M (last (hp # xs))"
    and d: "distinct (hp # xs @ a # ys)" and l: "l < SKIPLIST_LEVELS_NUM"
  shows "links (set_nxt M (last (hp # xs)) l (first_ptr ys)) l hp (xs @ ys)"
    and "l' \<noteq> l \<Longrightarrow> links (set_nxt M (last (hp # xs)) l (first_ptr ys)) l' x zs = links M l' x zs"
proof -
  let ?p = "last (hp # xs)"
  obtain M' where M': "M' = set_nxt M ?p l (first_ptr ys)" by blast
  have nx: "nxt M' j b = (if b = ?p \<and> j = l then Some (first_ptr ys) else nxt M j b)" for j b
    unfolding M' by (rule set_nxt_simps(1) [OF p l])
  show "l' \<noteq> l \<Longrightarrow> links (set_nxt M ?p l (first_ptr ys)) l' x zs = links M l' x zs"
    unfolding M' [symmetric] by (rule links_agree) (simp add: nx)
  have gen: "links M' l b (us @ ys)"
    if "links M l b (us @ a # ys)" "?p = last (b # us)" "distinct (b # us @ a # ys)" for b us
    using that
  proof (induction us arbitrary: b)
    case Nil
    have "links M' l y zs = links M l y zs" if "y \<noteq> ?p" "?p \<notin> set zs" for y zs
      by (rule links_agree) (use that in \<open>auto simp: nx\<close>)
    then show ?case using Nil by (cases ys) (auto simp: nx first_ptr_def)
  next
    case (Cons c cs)
    have "last (c # cs) \<in> set (c # cs)" by (rule last_in_set) simp
    then have "b \<noteq> ?p" using Cons.prems by auto
    then show ?case using Cons by (auto simp: nx)
  qed
  show "links (set_nxt M ?p l (first_ptr ys)) l hp (xs @ ys)"
    unfolding M' [symmetric] by (rule gen) (use li d in simp_all)
qed

lemma sk_remove_level_lists:
  assumes li: "sk_lists M0 hp L" and a: "from_key M0 k (L 0) = a # rest" and ka: "k_of M0 a = k"
    and path: "length path = SKIPLIST_LEVELS_NUM"
      "\<And>l. l < SKIPLIST_LEVELS_NUM \<Longrightarrow> path ! l = Some (Some (pred_of M0 k hp (L l)))"
    and i: "i < SKIPLIST_LEVELS_NUM"
    and h: "links (mem h) i hp (L i)" "ent (mem h) = ent M0" "\<And>x. sk_valid (mem h) x = sk_valid M0 x"
  shows "\<exists>M'. sk_remove_level (Some a) path i h = ret (h\<lparr>mem := M'\<rparr>) \<and>
     links M' i hp (filter (\<lambda>x. x \<noteq> a) (L i)) \<and> ent M' = ent M0 \<and> (\<forall>x. sk_valid M' x = sk_valid M0 x) \<and>
     dom M' = dom (mem h) \<and> (\<forall>l' x zs. l' \<noteq> i \<longrightarrow> links M' l' x zs = links (mem h) l' x zs)"
proof -
  let ?M = "mem h" and ?p = "pred_of M0 k hp (L i)"
  note lev = sk_lists_level [OF li i] and lev0 = sk_lists_level [OF li levels_pos]
  have ke: "k_of ?M = k_of M0" by (simp add: k_of_def h(2) fun_eq_iff)
  have pe: "pred_of ?M k hp (L i) = ?p" by (rule pred_of_cong [OF h(2)])
  have fe: "from_key ?M k (L i) = from_key M0 k (L i)" "below ?M k (L i) = below M0 k (L i)"
    by (simp_all add: from_key_def below_def ke)
  have nx: "sk_get_next h (Some ?p) i = ret (first_ptr (from_key M0 k (L i)))"
    using nxt_pred [OF h(1), of k] by (simp add: pe fe)
  have rp: "read_slot path i = ret (Some ?p)" using path i by simp
  have "a \<in> set (L 0)" using a below_from [of M0 k "L 0"] by (metis in_set_conv_decomp)
  then obtain r where r: "ent M0 a = Some r" "ske_key r = k" using lev0(4) ka by (fastforce simp: k_of_def)
  show ?thesis
  proof (cases "a \<in> set (L i)")
    case False
    have "sk_remove_level (Some a) path i h = ret h"
    proof (cases "from_key M0 k (L i)")
      case Nil
      then show ?thesis using rp nx by (simp add: sk_remove_level_def first_ptr_def)
    next
      case (Cons b bs)
      then have b: "b \<in> set (L i)" using below_from [of M0 k "L i"] by (metis in_set_conv_decomp)
      then have "b \<in> set (L 0)" "b \<noteq> a" using sk_lists_base [OF li i] False by auto
      then have "k_of M0 b \<noteq> k"
        using lev0(2) \<open>a \<in> set (L 0)\<close> ka by (auto simp: strict_sorted_iff distinct_map inj_on_def)
      moreover obtain e where "ent M0 b = Some e" using lev(4) [OF b] by auto
      ultimately show ?thesis
        using rp nx Cons r h(2) by (simp add: sk_remove_level_def first_ptr_def k_of_def)
    qed
    moreover have "filter (\<lambda>x. x \<noteq> a) (L i) = L i" using False by (metis (mono_tags) filter_True)
    ultimately show ?thesis using h by (intro exI [of _ ?M]) simp
  next
    case True
    have "a \<notin> set (below M0 k (L i))" using ka below_less [of a M0 k "L i"] by auto
    then have af: "a \<in> set (from_key M0 k (L i))"
      using True below_from [of M0 k "L i"] by (metis UnE set_append)
    obtain ys where ys: "from_key M0 k (L i) = a # ys"
    proof (cases "from_key M0 k (L i)")
      case (Cons b bs)
      then have "b = a" using from_key_rest [OF lev(2) Cons, of a] af ka by auto
      then show thesis using that Cons by blast
    qed (use af in simp)
    have Li: "L i = below M0 k (L i) @ a # ys" using below_from [of M0 k "L i"] ys by simp
    obtain xs where xs: "xs = below M0 k (L i)" by blast
    have lp: "?p = last (hp # xs)" by (simp add: pred_of_def xs)
    have d: "distinct (hp # xs @ a # ys)"
      using lev(3) sk_sorted_distinct [OF lev(2)] Li unfolding xs by (metis distinct.simps(2))
    have lh: "links ?M i hp (xs @ a # ys)" using h(1) Li unfolding xs by metis
    have na: "nxt ?M i a = Some (first_ptr ys)"
      using links_append [of ?M i hp "xs @ [a]" ys] lh by (cases ys) (simp_all add: first_ptr_def)
    have pv: "sk_valid ?M (last (hp # xs))"
      using pred_of_cases [of M0 k hp "L i"] lev(5,6) h(3) unfolding lp by metis
    note rem = links_remove [OF lh pv d i]
    obtain M' where M': "M' = set_nxt ?M (last (hp # xs)) i (first_ptr ys)" by blast
    have "sk_remove_level (Some a) path i h = ret (h\<lparr>mem := M'\<rparr>)"
      using rp nx ys r h(2) na sk_set_next_eq [OF pv i] lp
      by (simp add: sk_remove_level_def first_ptr_def M')
    moreover have "filter (\<lambda>x. x \<noteq> a) (L i) = xs @ ys"
    proof -
      have "filter (\<lambda>x. x \<noteq> a) (xs @ a # ys) = xs @ ys"
      proof -
        have "filter (\<lambda>x. x \<noteq> a) xs = xs" "filter (\<lambda>x. x \<noteq> a) ys = ys"
          using d by (auto simp: filter_id_conv)
        then show ?thesis by simp
      qed
      then show ?thesis using Li xs by metis
    qed
    moreover have "dom M' = dom ?M"
      unfolding M' dom_def by (simp only: set_nxt_simps(5) [OF pv])
    ultimately show ?thesis
      using rem set_nxt_simps(2,3) [OF pv] h(2,3) unfolding M' [symmetric]
      by (intro exI [of _ M']) (simp add: M')
  qed
qed


lemma sk_remove_node_lists:
  assumes li: "sk_lists (mem h) hp L" and a: "from_key (mem h) k (L 0) = a # rest" and ka: "k_of (mem h) a = k"
    and path: "length path = SKIPLIST_LEVELS_NUM"
      "\<And>l. l < SKIPLIST_LEVELS_NUM \<Longrightarrow> path ! l = Some (Some (pred_of (mem h) k hp (L l)))"
  shows "\<exists>h'. sk_remove_node path h = ret h' \<and> brk h' = brk h \<and>
     sk_lists (mem h') hp (\<lambda>l. filter (\<lambda>x. x \<noteq> a) (L l)) \<and>
     (\<forall>x. x \<noteq> a \<longrightarrow> ent (mem h') x = ent (mem h) x) \<and> dom (mem h') = dom (mem h) - {a}"
proof -
  let ?M0 = "mem h"
  let ?P = "\<lambda>i (g :: sk_dram_node heap). (\<forall>l < SKIPLIST_LEVELS_NUM. links (mem g) l hp (if l < i then filter (\<lambda>x. x \<noteq> a) (L l) else L l)) \<and>
      ent (mem g) = ent ?M0 \<and> (\<forall>x. sk_valid (mem g) x = sk_valid ?M0 x) \<and>
      dom (mem g) = dom ?M0 \<and> brk g = brk h"
  have "\<exists>g. for_loop 0 SKIPLIST_LEVELS_NUM (sk_remove_level (Some a) path) h = ret g \<and>
      ?P (0 + SKIPLIST_LEVELS_NUM) g"
  proof (rule for_loop_inv)
    show "?P 0 h" using sk_lists_level(1) [OF li] by simp
    fix i g assume i: "i < 0 + SKIPLIST_LEVELS_NUM" and P: "?P i g"
    from P have "\<forall>l < SKIPLIST_LEVELS_NUM. links (mem g) l hp (if l < i then filter (\<lambda>x. x \<noteq> a) (L l) else L l)"
      by (rule conjunct1)
    from this [rule_format, of i] i have "links (mem g) i hp (L i)" by simp
    then obtain M' where M': "sk_remove_level (Some a) path i g = ret (g\<lparr>mem := M'\<rparr>)"
        "links M' i hp (filter (\<lambda>x. x \<noteq> a) (L i))" "ent M' = ent ?M0"
        "\<forall>x. sk_valid M' x = sk_valid ?M0 x" "dom M' = dom (mem g)"
        "\<forall>l' x zs. l' \<noteq> i \<longrightarrow> links M' l' x zs = links (mem g) l' x zs"
      using sk_remove_level_lists [OF li a ka path, of i g] P i by auto
    have "?P (Suc i) (g\<lparr>mem := M'\<rparr>)"
      using P M' by (auto simp: less_Suc_eq)
    with M'(1) show "\<exists>g'. sk_remove_level (Some a) path i g = ret g' \<and> ?P (Suc i) g'" by blast
  qed
  then obtain g where g: "for_loop 0 SKIPLIST_LEVELS_NUM (sk_remove_level (Some a) path) h = ret g"
      "\<And>l. l < SKIPLIST_LEVELS_NUM \<Longrightarrow> links (mem g) l hp (filter (\<lambda>x. x \<noteq> a) (L l))"
      "ent (mem g) = ent ?M0" "\<And>x. sk_valid (mem g) x = sk_valid ?M0 x"
      "dom (mem g) = dom ?M0" "brk g = brk h"
    by auto
  have a0: "a \<in> set (L 0)" using a below_from [of ?M0 k "L 0"] by (metis in_set_conv_decomp)
  then have ah: "a \<noteq> hp" using sk_lists_level(3) [OF li levels_pos] by auto
  have "sk_valid ?M0 a" using sk_lists_level(5) [OF li levels_pos a0] .
  then have "sk_valid (mem g) a" by (simp only: g(4))
  then obtain n where n: "mem g a = Some n" by (auto simp: sk_valid_def)
  have ke: "k_of (mem g) = k_of ?M0" by (simp add: k_of_def g(3) fun_eq_iff)
  have "sk_lists (mem g) hp (\<lambda>l. filter (\<lambda>x. x \<noteq> a) (L l))"
    using li g(2) unfolding sk_lists_def g(3,4) ke
    by (auto simp: sorted_wrt_filter sorted_wrt_map)
  then have "sk_lists ((mem g)(a := None)) hp (\<lambda>l. filter (\<lambda>x. x \<noteq> a) (L l))"
    by (rule sk_lists_agree) (use ah in auto)
  moreover have "sk_candidate h path = ret (Some a)"
    using sk_candidate_lists [OF li path(1) path(2) [OF levels_pos]] a by (simp add: first_ptr_def)
  then have "sk_remove_node path h = ret (g\<lparr>mem := (mem g)(a := None)\<rparr>)"
    using g(1) n by (simp add: sk_remove_node_def SKIPLIST_BASE_LEVEL_def)
  moreover have "ent ((mem g)(a := None)) x = ent ?M0 x" if "x \<noteq> a" for x
    using that g(3) by (simp add: ent_def fun_eq_iff)
  moreover have "dom ((mem g)(a := None)) = dom ?M0 - {a}" using g(5) by auto
  ultimately show ?thesis using g(6) by (intro exI [of _ "g\<lparr>mem := (mem g)(a := None)\<rparr>"]) simp
qed

lemma sk_remove_free_lists:
  assumes li: "sk_lists (mem h) hp L" and k: "map_of (sk_pairs (mem h) (L 0)) k = Some v"
  shows "\<exists>h' a. sk_remove_free (Some hp) k h = ret h' \<and> brk h' = brk h \<and> a \<in> set (L 0) \<and> k_of (mem h) a = k \<and>
     sk_lists (mem h') hp (\<lambda>l. filter (\<lambda>x. x \<noteq> a) (L l)) \<and>
     (\<forall>x. x \<noteq> a \<longrightarrow> ent (mem h') x = ent (mem h) x) \<and> dom (mem h') = dom (mem h) - {a}"
proof -
  obtain path where p: "sk_find h (Some hp) k = ret path" "length path = SKIPLIST_LEVELS_NUM"
      "\<And>l. l < SKIPLIST_LEVELS_NUM \<Longrightarrow> path ! l = Some (Some (pred_of (mem h) k hp (L l)))"
      "sk_candidate h path = ret (first_ptr (from_key (mem h) k (L 0)))"
    using sk_find_candidate [OF li, of k] by metis
  obtain a bs e where a: "from_key (mem h) k (L 0) = a # bs" "a \<in> set (L 0)" "ent (mem h) a = Some e" "ske_key e = k"
    by (rule sk_found_entry [OF li k])
  have ka: "k_of (mem h) a = k" using a by (simp add: k_of_def)
  have "sk_remove_free (Some hp) k h = sk_remove_node path h"
    using p(1,4) sk_key_at_lists [OF li, of k] k by (simp add: sk_remove_free_def)
  then show ?thesis using sk_remove_node_lists [OF li a(1) ka p(2,3)] a(2) ka by auto
qed

lemma sk_destroy_loop_lists:
  "sk_lists (mem h) hp L \<Longrightarrow> n = length (L 0) \<Longrightarrow>
   \<exists>h'. sk_destroy_loop (Some hp) h = ret h' \<and> dom (mem h') = dom (mem h) - set (L 0) \<and> brk h' = brk h"
proof (induction n arbitrary: h L)
  case 0
  then show ?case using sk_lists_level(1) [OF 0(1) levels_pos]
    by (subst sk_destroy_loop.simps) simp
next
  case (Suc n)
  then obtain a as where L0: "L 0 = a # as" by (cases "L 0") auto
  note lev = sk_lists_level [OF Suc.prems(1) levels_pos]
  obtain e where e: "ent (mem h) a = Some e" using lev(4) [of a] L0 by auto
  have "map_of (sk_pairs (mem h) (L 0)) (ske_key e) = Some (ske_value e)"
    using e by (simp add: L0 sk_pairs_def k_of_def)
  from sk_remove_free_lists [OF Suc.prems(1) this]
  obtain h1 b where h1: "sk_remove_free (Some hp) (ske_key e) h = ret h1" "brk h1 = brk h" "b \<in> set (L 0)"
      "k_of (mem h) b = ske_key e" "sk_lists (mem h1) hp (\<lambda>l. filter (\<lambda>x. x \<noteq> b) (L l))"
      "dom (mem h1) = dom (mem h) - {b}"
    by blast
  have "b = a"
    using h1(3,4) lev(2) e L0 by (auto simp: k_of_def)
  moreover have "filter (\<lambda>x. x \<noteq> a) as = as"
    using sk_sorted_distinct [OF lev(2)] L0 by (auto simp: filter_id_conv)
  ultimately have "length (filter (\<lambda>x. x \<noteq> b) (L 0)) = n" using Suc.prems(2) L0 by simp
  with Suc.IH [OF h1(5)] obtain h' where h': "sk_destroy_loop (Some hp) h1 = ret h'"
      "dom (mem h') = dom (mem h1) - set (filter (\<lambda>x. x \<noteq> b) (L 0))" "brk h' = brk h1"
    by auto
  have "sk_destroy_loop (Some hp) h = sk_destroy_loop (Some hp) h1"
    using lev(1) L0 e h1(1) by (subst sk_destroy_loop.simps) simp
  moreover have "dom (mem h') = dom (mem h) - set (L 0)" using h'(2) h1(3,6) by auto
  ultimately show ?case using h' h1(2) by simp
qed

lemma sk_destroy_lists:
  "sk_head s = Some hp \<Longrightarrow> sk_lists (mem (sk_heap s)) hp L \<Longrightarrow>
   \<exists>s'. sk_destroy s = ret s' \<and> sk_head s' = NULL \<and>
     dom (mem (sk_heap s')) = dom (mem (sk_heap s)) - set (hp # L 0)"
proof -
  assume hp: "sk_head s = Some hp" and li: "sk_lists (mem (sk_heap s)) hp L"
  obtain h' where h': "sk_destroy_loop (Some hp) (sk_heap s) = ret h'"
      "dom (mem h') = dom (mem (sk_heap s)) - set (L 0)"
    using sk_destroy_loop_lists [OF li refl] by blast
  have "hp \<in> dom (mem h')"
    using sk_lists_level(3,6) [OF li levels_pos] h'(2) by (auto simp: sk_valid_def)
  then obtain n where n: "mem h' hp = Some n" by blast
  then have "sk_destroy s = ret (s\<lparr>sk_heap := h'\<lparr>mem := (mem h')(hp := None)\<rparr>, sk_head := NULL\<rparr>)"
    using hp h'(1) by (simp add: sk_destroy_def sk_check_def)
  moreover have "dom ((mem h')(hp := None)) = dom (mem (sk_heap s)) - set (hp # L 0)" using h'(2) by auto
  ultimately show ?thesis by simp
qed

section \<open>Properties\<close>

text \<open>
  C8: whatever \<^verbatim>\<open>rand\<close> returns, any valid sequence of database calls on a fresh skip list gives
  the results of a map.
\<close>

theorem sk_refines_map:
  "sk_init rnd = ret (c, s) \<Longrightarrow> valid_run (\<lambda>_. True) upsert Map.empty cs \<Longrightarrow>
   \<exists>s'. db_run sk_ops s cs = ret (fst (spec_run upsert Map.empty cs), s') \<and>
     sk_rep s' (snd (spec_run upsert Map.empty cs))"
  using sk_rep_init [of rnd] by (intro sk.db_run_refines) auto

theorem sk_refines_map_witness:
  "\<exists>s s'. sk_init (\<lambda>_. 0) = ret (1, s) \<and>
     db_run sk_ops s [DBInsert 3 [(''field'', ''a'')], DBInsert 1 [(''field'', ''b'')], DBRead 3] =
       ret ([RDone 0, RDone 0, RRead 0 [(3, ''a'')]], s')"
proof -
  obtain s where s: "sk_init (\<lambda>_. 0) = ret (1, s)" using sk_rep_init by blast
  show ?thesis
    using s sk_refines_map [OF s, of "[DBInsert 3 [(''field'', ''a'')], DBInsert 1 [(''field'', ''b'')], DBRead 3]"]
    by (auto simp: fits_def DEFAULT_VALUE_LEN_def c_str_def kOK_def)
qed

text \<open>
  C16: a scan of the skip list appends, one entry per row and in key order, the entries with keys
  from the given one on: the first \<open>len\<close> of them, and all of them when \<open>len\<close> is below one.
\<close>

theorem sk_scan_range:
  "sk_rep s m \<Longrightarrow>
   \<exists>xs. sorted_keys xs \<and> map_of xs = m |` {k..} \<and>
     sk_scan s k len res = ret (1, res @ map (\<lambda>x. [x]) (if 1 \<le> len then take (nat len) xs else xs))"
  using sk_rep_scan [of s m k len res] by (auto simp: is_range_def scan_prefix_def)

theorem sk_scan_range_witness:
  "\<exists>s. sk_init (\<lambda>_. 0) = ret (1, s) \<and> sk_scan s 5 10 [] = ret (1, [])"
proof -
  obtain s where s: "sk_init (\<lambda>_. 0) = ret (1, s)" "sk_rep s Map.empty" using sk_rep_init by blast
  then show ?thesis using sk_scan_range [OF s(2), of 5 10 "[]"] by (auto simp: restrict_map_def)
qed

text \<open>
  C34: destroying a skip list terminates and frees every node and the head exactly once, whatever
  levels the nodes are linked on.
\<close>

theorem sk_destroy_frees:
  "sk_head s = Some hp \<Longrightarrow> sk_lists (mem (sk_heap s)) hp L \<Longrightarrow>
   \<exists>s'. sk_destroy s = ret s' \<and> sk_head s' = NULL \<and>
     dom (mem (sk_heap s')) = dom (mem (sk_heap s)) - set (hp # L 0)"
  by (rule sk_destroy_lists)

theorem sk_destroy_frees_witness:
  "\<exists>s s'. sk_init (\<lambda>_. 0) = ret (1, s) \<and> sk_destroy s = ret s' \<and> sk_head s' = NULL"
proof -
  obtain s where s: "sk_init (\<lambda>_. 0) = ret (1, s)" "sk_rep s Map.empty" using sk_rep_init by blast
  then show ?thesis using sk_destroy_frees unfolding sk_rep_def by blast
qed

end
