(* ===== verification/Hash_Table.thy ===== *)
theory Hash_Table
  imports Storeds_DB
begin

text \<open>
  \<^verbatim>\<open>src/storeds/hashmap/ht_dram.cc\<close>: a chained hash table. The entries live on an explicit heap,
  the table and its bucket array are blocks held through one pointer each. The lemmas show that
  the buckets partition the keys by hash, that the table is a map, and what \<open>destroy\<close> frees.
\<close>

section \<open>State\<close>

definition HASH_FUNC_COEFF_P :: u64 where "HASH_FUNC_COEFF_P = 32212254719"
definition INIT_BUCKETS_NUM :: nat where "INIT_BUCKETS_NUM = 1333334"

record dram_entry =
  de_key :: u64
  de_value :: string
  de_next :: ptr

record dram_buckets =
  nbuckets :: u64
  bucket :: "(nat \<Rightarrow> ptr) block"

record dram_hashtable =
  seed :: u32
  hash_fun_coeff_a :: u32
  hash_fun_coeff_b :: u32
  hash_fun_coeff_p :: u64
  buckets :: "dram_buckets block"

record ht_dram =
  ht_heap :: "dram_entry heap"
  root_p :: "dram_hashtable block"

section \<open>Operations\<close>

definition ht_check :: "ht_dram \<Rightarrow> unit comp" where
  "ht_check s =
     (if root_p s = NullBlock then crash AssertFail
      else bindC (deref (root_p s)) (\<lambda>r. assertC (buckets r \<noteq> NullBlock)))"

definition hash_function :: "dram_hashtable \<Rightarrow> dram_buckets \<Rightarrow> u64 \<Rightarrow> u64" where
  "hash_function r b value =
     ((value * ucast (hash_fun_coeff_a r) + ucast (hash_fun_coeff_b r)) mod hash_fun_coeff_p r)
       mod nbuckets b"

definition ht_reinit :: "ht_dram \<Rightarrow> u64 \<Rightarrow> int \<times> ht_dram" where
  "ht_reinit s new_len = (1, s)"

text \<open>
  \<open>do a = rand(); while (a == 0);\<close>: \<open>rnd i\<close> is the \<open>i\<close>-th result of \<^verbatim>\<open>rand\<close>; the coefficient and
  the number of the next call.
\<close>

partial_function (option) ht_init_coeff :: "(nat \<Rightarrow> u32) \<Rightarrow> nat \<Rightarrow> (u32 \<times> nat) comp" where
  "ht_init_coeff rnd i =
     (if rnd i = 0 then ht_init_coeff rnd (Suc i) else ret (rnd i, Suc i))"

definition ht_init :: "u32 \<Rightarrow> (nat \<Rightarrow> u32) \<Rightarrow> (int \<times> ht_dram) comp" where
  "ht_init time rnd =
     bindC (ht_init_coeff rnd 0) (\<lambda>(a, i).
       ret (1, \<lparr>ht_heap = empty_heap, root_p = LiveBlock
         \<lparr>seed = time, hash_fun_coeff_a = a, hash_fun_coeff_b = rnd i,
          hash_fun_coeff_p = HASH_FUNC_COEFF_P,
          buckets = LiveBlock \<lparr>nbuckets = of_nat INIT_BUCKETS_NUM, bucket = LiveBlock (\<lambda>_. NULL)\<rparr>\<rparr>\<rparr>))"

definition ht_scan :: "ht_dram \<Rightarrow> u64 \<Rightarrow> int \<Rightarrow> scan_result \<Rightarrow> (int \<times> scan_result) comp" where
  "ht_scan s key len result = crash (Thrown ''Scan: function not implemented!'')"

text \<open>The array \<open>bucket\<close> has the \<open>INIT_BUCKETS_NUM\<close> elements \<open>calloc\<close> made.\<close>

definition bucket_get :: "dram_buckets \<Rightarrow> nat \<Rightarrow> ptr comp" where
  "bucket_get b i = bindC (deref (bucket b)) (\<lambda>f.
     if i < INIT_BUCKETS_NUM then ret (f i) else crash OutOfBounds)"

definition bucket_set :: "dram_buckets \<Rightarrow> nat \<Rightarrow> ptr \<Rightarrow> dram_buckets comp" where
  "bucket_set b i p = bindC (deref (bucket b)) (\<lambda>f.
     if i < INIT_BUCKETS_NUM then ret (b\<lparr>bucket := LiveBlock (f(i := p))\<rparr>) else crash OutOfBounds)"

definition ht_read :: "ht_dram \<Rightarrow> u64 \<Rightarrow> outp \<Rightarrow> (int \<times> outp) comp" where
  "ht_read s key result =
     bindC (ht_check s) (\<lambda>_.
     bindC (deref (root_p s)) (\<lambda>r.
     bindC (deref (buckets r)) (\<lambda>b.
     bindC (bucket_get b (unat (hash_function r b key))) (\<lambda>head.
     bindC (search_chain de_next de_key (ht_heap s) head key) (\<lambda>p.
       if p = NULL then ret (1, result)
       else bindC (load (ht_heap s) p) (\<lambda>n. ret (1, StrP (de_value n))))))))"

text \<open>\<open>new_entry\<close> allocates a second block for \<open>next\<close>; \<open>junk\<close> is what \<^verbatim>\<open>malloc\<close> leaves in a block.\<close>

definition ht_new_entry ::
  "dram_entry \<Rightarrow> dram_entry heap \<Rightarrow> u64 \<Rightarrow> string \<Rightarrow> (ptr \<times> dram_entry heap) comp" where
  "ht_new_entry junk h key value =
     (let (entry_p, h1) = malloc h junk in
      bindC (load h1 entry_p) (\<lambda>n.
      bindC (copy_value value) (\<lambda>v.
      bindC (store h1 entry_p (n\<lparr>de_key := key, de_value := v\<rparr>)) (\<lambda>h2.
      let (next_p, h3) = malloc h2 junk in
      bindC (load h3 entry_p) (\<lambda>n'.
      bindC (store h3 entry_p (n'\<lparr>de_next := next_p\<rparr>)) (\<lambda>h4. ret (entry_p, h4)))))))"

definition ht_insert :: "dram_entry \<Rightarrow> ht_dram \<Rightarrow> u64 \<Rightarrow> string \<Rightarrow> (int \<times> ht_dram) comp" where
  "ht_insert junk s key value =
     bindC (ht_check s) (\<lambda>_.
     bindC (deref (root_p s)) (\<lambda>r.
     bindC (deref (buckets r)) (\<lambda>b.
     let hash_value = unat (hash_function r b key) in
     bindC (bucket_get b hash_value) (\<lambda>head.
     bindC (search_chain de_next de_key (ht_heap s) head key) (\<lambda>p.
       if p \<noteq> NULL
       then bindC (load (ht_heap s) p) (\<lambda>n.
            bindC (copy_value value) (\<lambda>v.
            bindC (store (ht_heap s) p (n\<lparr>de_value := v\<rparr>)) (\<lambda>h.
              ret (1, s\<lparr>ht_heap := h\<rparr>))))
       else bindC (ht_new_entry junk (ht_heap s) key value) (\<lambda>(entry_p, h).
            bindC (bucket_get b hash_value) (\<lambda>first.
            bindC (load h entry_p) (\<lambda>n.
            bindC (store h entry_p (n\<lparr>de_next := first\<rparr>)) (\<lambda>h'.
            bindC (bucket_set b hash_value entry_p) (\<lambda>b'.
              ret (1, s\<lparr>ht_heap := h', root_p := LiveBlock (r\<lparr>buckets := LiveBlock b'\<rparr>)\<rparr>)))))))))))"

definition ht_update :: "dram_entry \<Rightarrow> ht_dram \<Rightarrow> u64 \<Rightarrow> string \<Rightarrow> (int \<times> ht_dram) comp" where
  "ht_update junk s key value = ht_insert junk s key value"

definition free_entry_chain :: "dram_entry heap \<Rightarrow> ptr \<Rightarrow> dram_entry heap comp" where
  "free_entry_chain h head = free_chain de_next h head"

text \<open>\<open>for (i = 0; i < INIT_BUCKETS_NUM; i++)\<close>, from \<open>i\<close> with \<open>n\<close> iterations to go.\<close>

fun ht_destroy_loop :: "dram_buckets \<Rightarrow> nat \<Rightarrow> nat \<Rightarrow> dram_entry heap \<Rightarrow> dram_entry heap comp" where
  "ht_destroy_loop b i 0 h = ret h"
| "ht_destroy_loop b i (Suc n) h =
     bindC (bucket_get b i) (\<lambda>entry_p.
     bindC (if entry_p \<noteq> NULL then free_entry_chain h entry_p else ret h) (\<lambda>h'.
       ht_destroy_loop b (Suc i) n h'))"

definition ht_destroy :: "ht_dram \<Rightarrow> ht_dram comp" where
  "ht_destroy s =
     bindC (ht_check s) (\<lambda>_.
     bindC (deref (root_p s)) (\<lambda>r.
     bindC (deref (buckets r)) (\<lambda>b.
     bindC (ht_destroy_loop b 0 INIT_BUCKETS_NUM (ht_heap s)) (\<lambda>h.
     bindC (free_block (bucket b)) (\<lambda>_.
     bindC (free_block (buckets r)) (\<lambda>_.
     bindC (free_block (root_p s)) (\<lambda>root'.
       ret (s\<lparr>ht_heap := h, root_p := root'\<rparr>))))))))"

section \<open>The table as a map\<close>

text \<open>
  \<open>ht_inv s r b f B\<close>: the table is alive with coefficients \<open>r\<close>, buckets \<open>b\<close> and array \<open>f\<close>, and
  bucket \<open>i\<close> is the chain of nodes \<open>B i\<close>, all of whose keys hash to \<open>i\<close>.
\<close>

definition ht_inv ::
  "ht_dram \<Rightarrow> dram_hashtable \<Rightarrow> dram_buckets \<Rightarrow> (nat \<Rightarrow> ptr) \<Rightarrow> (nat \<Rightarrow> nat list) \<Rightarrow> bool" where
  "ht_inv s r b f B \<longleftrightarrow>
     root_p s = LiveBlock r \<and> buckets r = LiveBlock b \<and> bucket b = LiveBlock f \<and>
     nbuckets b = of_nat INIT_BUCKETS_NUM \<and> heap_ok (ht_heap s) \<and>
     (\<forall>i. chain de_next (mem (ht_heap s)) (f i) (B i) NULL \<and> distinct (B i) \<and>
        (\<forall>a \<in> set (B i). unat (hash_function r b (de_key (the (mem (ht_heap s) a)))) = i))"

definition ht_map :: "ht_dram \<Rightarrow> dram_hashtable \<Rightarrow> dram_buckets \<Rightarrow> (nat \<Rightarrow> nat list) \<Rightarrow> kv_map" where
  "ht_map s r b B k =
     map_of (assoc_of de_key de_value (mem (ht_heap s)) (B (unat (hash_function r b k)))) k"

definition ht_rep :: "ht_dram \<Rightarrow> kv_map \<Rightarrow> bool" where
  "ht_rep s m \<longleftrightarrow> (\<exists>r b f B. ht_inv s r b f B \<and> m = ht_map s r b B)"

lemma hash_function_less:
  "nbuckets b = of_nat INIT_BUCKETS_NUM \<Longrightarrow> unat (hash_function r b k) < INIT_BUCKETS_NUM"
  by (simp add: hash_function_def INIT_BUCKETS_NUM_def unat_mod)

lemma ht_inv_live:
  assumes "ht_inv s r b f B"
  shows "ht_check s = ret ()" and "root_p s = LiveBlock r" and "buckets r = LiveBlock b"
    and "bucket b = LiveBlock f" and "heap_ok (ht_heap s)"
    and "chain de_next (mem (ht_heap s)) (f i) (B i) NULL" and "distinct (B i)"
    and "bucket_get b (unat (hash_function r b k)) = ret (f (unat (hash_function r b k)))"
    and "unat (hash_function r b k) < INIT_BUCKETS_NUM"
    and "a \<in> set (B i) \<Longrightarrow> unat (hash_function r b (de_key (the (mem (ht_heap s) a)))) = i"
  using assms hash_function_less [of b r k]
  by (auto simp: ht_inv_def ht_check_def bucket_get_def)

lemma ht_inv_disjoint: "ht_inv s r b f B \<Longrightarrow> a \<in> set (B i) \<Longrightarrow> a \<in> set (B j) \<Longrightarrow> i = j"
  using ht_inv_live(10) by metis

lemma ht_inv_allocated: "ht_inv s r b f B \<Longrightarrow> a \<in> set (B i) \<Longrightarrow> a < brk (ht_heap s)"
  using chain_allocated [OF ht_inv_live(6)] ht_inv_live(5) heap_ok_less by metis

lemma ht_read_eq:
  assumes "ht_inv s r b f B"
  shows "ht_read s k res = (case ht_map s r b B k of Some v \<Rightarrow> ret (1, StrP v) | None \<Rightarrow> ret (1, res))"
proof -
  let ?i = "unat (hash_function r b k)"
  note c = ht_inv_live(6) [OF assms, of ?i]
  show ?thesis
  proof (cases "ht_map s r b B k")
    case None
    then have "search_chain de_next de_key (ht_heap s) (f ?i) k = ret NULL"
      using search_chain_missing [OF c] by (simp add: ht_map_def)
    then show ?thesis using None by (simp add: ht_read_def ht_inv_live [OF assms])
  next
    case (Some v)
    then have v: "map_of (assoc_of de_key de_value (mem (ht_heap s)) (B ?i)) k = Some v"
      by (simp add: ht_map_def)
    obtain a n where "search_chain de_next de_key (ht_heap s) (f ?i) k = ret (Some a)"
        "mem (ht_heap s) a = Some n" "v = de_value n"
      using search_chain_found [OF c v] by metis
    then show ?thesis using Some by (simp add: ht_read_def ht_inv_live [OF assms])
  qed
qed


lemma hash_function_upd [simp]:
  "hash_function (r\<lparr>buckets := x\<rparr>) b = hash_function r b"
  "hash_function r (b\<lparr>bucket := y\<rparr>) = hash_function r b"
  by (simp_all add: hash_function_def fun_eq_iff)

subsection \<open>Inserting a key already present\<close>

lemma ht_insert_present:
  assumes inv: "ht_inv s r b f B" and v: "fits v" and k: "ht_map s r b B k = Some w"
  shows "\<exists>s'. ht_insert junk s k v = ret (1, s') \<and> ht_inv s' r b f B \<and>
     ht_map s' r b B = (ht_map s r b B)(k \<mapsto> v)"
proof -
  let ?i = "unat (hash_function r b k)" and ?h = "ht_heap s"
  note c = ht_inv_live(6) [OF inv, of ?i]
  have k': "map_of (assoc_of de_key de_value (mem ?h) (B ?i)) k = Some w"
    using k by (simp add: ht_map_def)
  obtain a n where a: "search_chain de_next de_key ?h (f ?i) k = ret (Some a)" "a \<in> set (B ?i)"
      "mem ?h a = Some n" "de_key n = k" "find_key de_key (mem ?h) k (B ?i) = Some a"
    using search_chain_found [OF c k'] by metis
  let ?n = "n\<lparr>de_value := v\<rparr>"
  let ?s = "s\<lparr>ht_heap := ?h\<lparr>mem := (mem ?h)(a \<mapsto> ?n)\<rparr>\<rparr>"
  have "ht_insert junk s k v = ret (1, ?s)"
    using a v by (simp add: ht_insert_def ht_inv_live [OF inv])
  moreover have "ht_inv ?s r b f B"
    using inv a(3) by (auto simp: ht_inv_def chain_upd_same_next heap_ok_def) (metis option.sel)
  moreover have "ht_map ?s r b B = (ht_map s r b B)(k \<mapsto> v)"
  proof
    fix j
    let ?j = "unat (hash_function r b j)"
    show "ht_map ?s r b B j = ((ht_map s r b B)(k \<mapsto> v)) j"
    proof (cases "?j = ?i")
      case True
      have "map_of (assoc_of de_key de_value ((mem ?h)(a \<mapsto> ?n)) (B ?i)) =
          (map_of (assoc_of de_key de_value (mem ?h) (B ?i)))(k \<mapsto> de_value ?n)"
        using a(4) by (intro assoc_upd_found [OF a(5)]) (simp_all add: ht_inv_live(7) [OF inv])
      then show ?thesis using True by (simp add: ht_map_def)
    next
      case False
      then have "a \<notin> set (B ?j)" "j \<noteq> k" using ht_inv_disjoint [OF inv a(2)] by auto
      then show ?thesis by (simp add: ht_map_def contents_frame)
    qed
  qed
  ultimately show ?thesis by blast
qed

subsection \<open>Inserting a new key\<close>

lemma ht_new_entry_eq:
  assumes "fits v"
  shows "ht_new_entry junk h k v = ret (Some (brk h), h\<lparr>
     mem := (mem h)(Suc (brk h) \<mapsto> junk,
       brk h \<mapsto> junk\<lparr>de_key := k, de_value := v, de_next := Some (Suc (brk h))\<rparr>),
     brk := Suc (Suc (brk h))\<rparr>)"
  using assms by (simp add: ht_new_entry_def malloc_def fun_upd_twist)

lemma ht_inv_add:
  assumes inv: "ht_inv s r b f B" and i: "i = unat (hash_function r b k)"
    and old: "\<And>a. a < brk (ht_heap s) \<Longrightarrow> mem h' a = mem (ht_heap s) a"
    and new: "mem h' a0 = Some n" "de_key n = k" "de_next n = f i" "brk (ht_heap s) \<le> a0"
    and ok: "heap_ok h'"
  defines "b' \<equiv> b\<lparr>bucket := LiveBlock (f(i := Some a0))\<rparr>"
  defines "r' \<equiv> r\<lparr>buckets := LiveBlock b'\<rparr>"
  defines "B' \<equiv> B(i := a0 # B i)"
  defines "s' \<equiv> s\<lparr>ht_heap := h', root_p := LiveBlock r'\<rparr>"
  shows "ht_inv s' r' b' (f(i := Some a0)) B'"
    and "ht_map s r b B k = None \<Longrightarrow> ht_map s' r' b' B' = (ht_map s r b B)(k \<mapsto> de_value n)"
proof -
  have agree: "mem h' a = mem (ht_heap s) a" if "a \<in> set (B j)" for a j
    using old ht_inv_allocated [OF inv that] by blast
  have fresh: "a0 \<notin> set (B j)" for j
    using ht_inv_allocated [OF inv] new(4) by (meson not_le)
  have ch: "chain de_next (mem h') (f j) (B j) NULL" for j
    using ht_inv_live(6) [OF inv, of j] by (subst chain_agree [OF agree]) auto
  have co: "assoc_of de_key de_value (mem h') (B j) = assoc_of de_key de_value (mem (ht_heap s)) (B j)" for j
    by (rule contents_agree) (rule agree)
  show "ht_inv s' r' b' (f(i := Some a0)) B'"
    using inv ch fresh new i ok
    by (auto simp: ht_inv_def s'_def r'_def b'_def B'_def agree)
  show "ht_map s' r' b' B' = (ht_map s r b B)(k \<mapsto> de_value n)"
    using i new(1,2) by (auto simp: ht_map_def s'_def r'_def b'_def B'_def co fun_eq_iff)
qed

lemma ht_insert_new:
  assumes inv: "ht_inv s r b f B" and v: "fits v" and k: "ht_map s r b B k = None"
  shows "\<exists>s' r' b' f' B'. ht_insert junk s k v = ret (1, s') \<and> ht_inv s' r' b' f' B' \<and>
     ht_map s' r' b' B' = (ht_map s r b B)(k \<mapsto> v) \<and>
     brk (ht_heap s') = brk (ht_heap s) + 2 \<and> mem (ht_heap s') (Suc (brk (ht_heap s))) = Some junk \<and>
     (\<forall>i. Suc (brk (ht_heap s)) \<notin> set (B' i)) \<and>
     (\<exists>i. brk (ht_heap s) \<in> set (B' i))"
proof -
  let ?i = "unat (hash_function r b k)" and ?h = "ht_heap s" and ?b = "brk (ht_heap s)"
  let ?n = "junk\<lparr>de_key := k, de_value := v, de_next := f ?i\<rparr>"
  let ?h' = "?h\<lparr>mem := (mem ?h)(Suc ?b \<mapsto> junk, ?b \<mapsto> ?n), brk := Suc (Suc ?b)\<rparr>"
  let ?b' = "b\<lparr>bucket := LiveBlock (f(?i := Some ?b))\<rparr>"
  let ?s = "s\<lparr>ht_heap := ?h', root_p := LiveBlock (r\<lparr>buckets := LiveBlock ?b'\<rparr>)\<rparr>"
  have "search_chain de_next de_key ?h (f ?i) k = ret NULL"
    using search_chain_missing [OF ht_inv_live(6) [OF inv, of ?i]] k by (simp add: ht_map_def)
  then have run: "ht_insert junk s k v = ret (1, ?s)"
    using v by (simp add: ht_insert_def ht_new_entry_eq bucket_set_def Let_def ht_inv_live [OF inv])
  have ok: "heap_ok ?h'" using ht_inv_live(5) [OF inv] by (auto simp: heap_ok_def less_Suc_eq)
  have add: "ht_inv ?s (r\<lparr>buckets := LiveBlock ?b'\<rparr>) ?b' (f(?i := Some ?b)) (B(?i := ?b # B ?i))"
    "ht_map ?s (r\<lparr>buckets := LiveBlock ?b'\<rparr>) ?b' (B(?i := ?b # B ?i)) =
      (ht_map s r b B)(k \<mapsto> de_value ?n)"
    using ht_inv_add [OF inv refl, of ?h' ?b ?n] ok k by simp_all
  moreover have "Suc ?b \<notin> set ((B(?i := ?b # B ?i)) j)" for j
    using ht_inv_allocated [OF inv, of "Suc ?b"] by auto
  moreover have "?b \<in> set ((B(?i := ?b # B ?i)) ?i)" by simp
  ultimately show ?thesis
    using run by (intro exI conjI) (assumption | simp)+
qed


subsection \<open>Initialisation\<close>

lemma ht_init_coeff_first:
  "rnd (i + n) \<noteq> 0 \<Longrightarrow> (\<And>j. j < n \<Longrightarrow> rnd (i + j) = 0) \<Longrightarrow>
   ht_init_coeff rnd i = ret (rnd (i + n), Suc (i + n))"
proof (induction n arbitrary: i)
  case 0
  then show ?case by (simp add: ht_init_coeff.simps)
next
  case (Suc n)
  have "rnd (i + 0) = 0" by (rule Suc.prems(2)) simp
  moreover have "ht_init_coeff rnd (Suc i) = ret (rnd (Suc i + n), Suc (Suc i + n))"
    using Suc.prems(1) Suc.prems(2) [of "Suc _"] by (intro Suc.IH) simp_all
  ultimately show ?case by (subst ht_init_coeff.simps) simp
qed

lemma ht_init_coeff_total:
  assumes "\<exists>i. rnd i \<noteq> 0"
  shows "ht_init_coeff rnd 0 = ret (rnd (LEAST i. rnd i \<noteq> 0), Suc (LEAST i. rnd i \<noteq> 0))"
proof -
  obtain l where l_def: "l = (LEAST i. rnd i \<noteq> 0)" by blast
  have "rnd l \<noteq> 0" unfolding l_def by (rule LeastI_ex [OF assms])
  moreover have "\<And>j. j < l \<Longrightarrow> rnd j = 0" unfolding l_def using not_less_Least by blast
  ultimately show ?thesis unfolding l_def [symmetric]
    using ht_init_coeff_first [of rnd 0 l] by simp
qed

lemma ht_init_coeff_returned:
  "ht_init_coeff rnd i = Some y \<Longrightarrow> \<exists>j \<ge> i. rnd j \<noteq> 0 \<and> y = Inr (rnd j, Suc j)"
proof (erule ht_init_coeff.raw_induct [rotated])
  fix g :: "(nat \<Rightarrow> u32) \<Rightarrow> nat \<Rightarrow> (u32 \<times> nat) comp" and rnd :: "nat \<Rightarrow> u32" and i y
  assume IH: "\<And>rnd i y. g rnd i = Some y \<Longrightarrow> \<exists>j \<ge> i. rnd j \<noteq> 0 \<and> y = Inr (rnd j, Suc j)"
    and y: "(if rnd i = 0 then g rnd (Suc i) else ret (rnd i, Suc i)) = Some y"
  show "\<exists>j \<ge> i. rnd j \<noteq> 0 \<and> y = Inr (rnd j, Suc j)"
  proof (cases "rnd i = 0")
    case True
    with y IH [of rnd "Suc i" y] obtain j where "j \<ge> Suc i" "rnd j \<noteq> 0" "y = Inr (rnd j, Suc j)"
      by auto
    then show ?thesis by (intro exI [of _ j]) simp
  next
    case False
    with y show ?thesis by auto
  qed
qed

lemma ht_rep_init:
  assumes "ht_init time rnd = ret (c, s)"
  shows "c = 1 \<and> ht_rep s Map.empty"
proof -
  obtain a i where s: "c = 1" "s = \<lparr>ht_heap = empty_heap, root_p = LiveBlock
         \<lparr>seed = time, hash_fun_coeff_a = a, hash_fun_coeff_b = rnd i,
          hash_fun_coeff_p = HASH_FUNC_COEFF_P,
          buckets = LiveBlock \<lparr>nbuckets = of_nat INIT_BUCKETS_NUM, bucket = LiveBlock (\<lambda>_. NULL)\<rparr>\<rparr>\<rparr>"
    using assms by (auto simp: ht_init_def bindC_eq_ret)
  have "ht_inv s (case root_p s of LiveBlock r \<Rightarrow> r)
      \<lparr>nbuckets = of_nat INIT_BUCKETS_NUM, bucket = LiveBlock (\<lambda>_. NULL)\<rparr> (\<lambda>_. NULL) (\<lambda>_. [])"
    by (simp add: s ht_inv_def)
  moreover have "ht_map s r b (\<lambda>_. []) = Map.empty" for r b
    by (simp add: ht_map_def fun_eq_iff)
  ultimately show ?thesis using s(1) unfolding ht_rep_def by metis
qed

subsection \<open>The contract\<close>

lemma ht_rep_insert:
  assumes "ht_rep s m" and "fits v"
  shows "\<exists>s'. ht_insert junk s k v = ret (1, s') \<and> ht_rep s' (m(k \<mapsto> v))"
proof -
  obtain r b f B where inv: "ht_inv s r b f B" and m: "m = ht_map s r b B"
    using assms(1) by (auto simp: ht_rep_def)
  show ?thesis
  proof (cases "m k")
    case None
    then show ?thesis
      using ht_insert_new [OF inv assms(2), of k junk] unfolding m ht_rep_def by metis
  next
    case (Some w)
    then show ?thesis
      using ht_insert_present [OF inv assms(2), of k w junk] unfolding m ht_rep_def by metis
  qed
qed

definition ht_ops :: "dram_entry \<Rightarrow> ht_dram storeds_base" where
  "ht_ops junk = \<lparr>op_read = ht_read, op_scan = ht_scan, op_update = ht_update junk,
     op_insert = ht_insert junk, op_destroy = ht_destroy\<rparr>"

lemma ht_rep_read: "ht_rep s m \<Longrightarrow> m k = Some v \<Longrightarrow> ht_read s k r = ret (1, StrP v)"
  by (auto simp: ht_rep_def ht_read_eq)

interpretation ht: upsert_store "ht_ops junk" ht_rep "\<lambda>_. True" for junk
  by unfold_locales (simp_all add: ht_ops_def ht_update_def ht_rep_read ht_rep_insert)

subsection \<open>Destruction\<close>

lemma ht_destroy_loop_eq:
  assumes inv: "ht_inv s r b f B"
  shows "i + n \<le> INIT_BUCKETS_NUM \<Longrightarrow> mem h = mem (ht_heap s) |` (- (\<Union>j<i. set (B j))) \<Longrightarrow>
   ht_destroy_loop b i n h = ret (h\<lparr>mem := mem (ht_heap s) |` (- (\<Union>j<i + n. set (B j)))\<rparr>)"
proof (induction n arbitrary: i h)
  case 0
  then show ?case by simp
next
  case (Suc n)
  let ?M = "mem (ht_heap s)"
  have g: "bucket_get b i = ret (f i)"
    using Suc.prems(1) ht_inv_live(4) [OF inv] by (simp add: bucket_get_def)
  have "mem h a = ?M a" if "a \<in> set (B i)" for a
  proof -
    have "a \<notin> (\<Union>j<i. set (B j))" using ht_inv_disjoint [OF inv that] by blast
    then show ?thesis by (simp add: Suc.prems(2) restrict_map_def)
  qed
  then have "chain de_next (mem h) (f i) (B i) NULL = chain de_next ?M (f i) (B i) NULL"
    by (rule chain_agree)
  then have c: "chain de_next (mem h) (f i) (B i) NULL"
    using ht_inv_live(6) [OF inv, of i] by simp
  have "mem h |` (- set (B i)) = ?M |` (- (\<Union>j<Suc i. set (B j)))"
    unfolding Suc.prems(2) by (auto simp: restrict_map_def fun_eq_iff less_Suc_eq)
  then have fr: "free_chain de_next h (f i) = ret (h\<lparr>mem := ?M |` (- (\<Union>j<Suc i. set (B j)))\<rparr>)"
    by (simp only: free_chain_ok [OF c ht_inv_live(7) [OF inv]])
  have "(if f i \<noteq> NULL then free_entry_chain h (f i) else ret h) = free_chain de_next h (f i)"
    by (simp add: free_entry_chain_def)
  then show ?case
    using Suc.prems(1) by (simp add: g fr Suc.IH del: UN_insert lessThan_Suc)
qed

lemma ht_destroy_eq:
  assumes inv: "ht_inv s r b f B"
  shows "\<exists>s'. ht_destroy s = ret s' \<and> root_p s' = FreedBlock \<and>
    mem (ht_heap s') = mem (ht_heap s) |` (- (\<Union>j. set (B j)))"
proof -
  have "set (B j) = {}" if "\<not> j < INIT_BUCKETS_NUM" for j
  proof (rule ccontr)
    assume "set (B j) \<noteq> {}"
    then obtain a where "a \<in> set (B j)" by (cases "B j") auto
    with ht_inv_live(9,10) [OF inv] that show False by metis
  qed
  then have "(\<Union>j<0 + INIT_BUCKETS_NUM. set (B j)) = (\<Union>j. set (B j))" by force
  moreover have "ht_destroy_loop b 0 INIT_BUCKETS_NUM (ht_heap s) =
      ret ((ht_heap s)\<lparr>mem := mem (ht_heap s) |` (- (\<Union>j<0 + INIT_BUCKETS_NUM. set (B j)))\<rparr>)"
    by (rule ht_destroy_loop_eq [OF inv]) (simp_all add: restrict_map_def)
  ultimately show ?thesis by (simp add: ht_destroy_def ht_inv_live [OF inv])
qed

section \<open>Properties\<close>

text \<open>
  C18: from a freshly initialised table, any valid sequence of database calls gives the results of
  a map, whatever coefficients were drawn and whatever \<^verbatim>\<open>malloc\<close> leaves in its blocks.
\<close>

theorem ht_refines_map:
  "ht_init time rnd = ret (c, s) \<Longrightarrow> valid_run (\<lambda>_. True) upsert Map.empty cs \<Longrightarrow>
   \<exists>s'. db_run (ht_ops junk) s cs = ret (fst (spec_run upsert Map.empty cs), s') \<and>
     ht_rep s' (snd (spec_run upsert Map.empty cs))"
  by (rule ht.db_run_refines) (auto dest: ht_rep_init)

theorem ht_refines_map_witness:
  "\<forall>junk. \<exists>s s'. ht_init 5 (\<lambda>i. of_nat i) = ret (1, s) \<and>
    db_run (ht_ops junk) s [DBInsert 3 [(''field'', ''a'')], DBInsert 3 [(''field'', ''b'')], DBRead 3] =
      ret ([RDone 0, RDone 0, RRead 0 [(3, ''b'')]], s')"
proof
  fix junk
  have "ht_init_coeff (\<lambda>i. of_nat i) 0 = ret (1, 2)"
    using ht_init_coeff_first [of "\<lambda>i. of_nat i" 0 1] by simp
  then obtain s where s: "ht_init 5 (\<lambda>i. of_nat i) = ret (1, s)" by (simp add: ht_init_def)
  show "\<exists>s s'. ht_init 5 (\<lambda>i. of_nat i) = ret (1, s) \<and>
    db_run (ht_ops junk) s [DBInsert 3 [(''field'', ''a'')], DBInsert 3 [(''field'', ''b'')], DBRead 3] =
      ret ([RDone 0, RDone 0, RRead 0 [(3, ''b'')]], s')"
    using s ht_refines_map [OF s,
        of "[DBInsert 3 [(''field'', ''a'')], DBInsert 3 [(''field'', ''b'')], DBRead 3]" junk]
    by (auto simp: fits_def DEFAULT_VALUE_LEN_def c_str_def kOK_def)
qed

text \<open>
  Initialisation returns exactly when \<^verbatim>\<open>rand\<close> eventually gives a value other than zero, and
  then the multiplier of the hash function is the first such value.
\<close>

lemma ht_init_returns:
  "if \<exists>i. rnd i \<noteq> 0
   then \<exists>s r. ht_init time rnd = ret (1, s) \<and> root_p s = LiveBlock r \<and>
     hash_fun_coeff_a r = rnd (LEAST i. rnd i \<noteq> 0) \<and>
     hash_fun_coeff_b r = rnd (Suc (LEAST i. rnd i \<noteq> 0))
   else ht_init time rnd = None"
proof (cases "\<exists>i. rnd i \<noteq> 0")
  case True
  then show ?thesis using ht_init_coeff_total [OF True] by (simp add: ht_init_def)
next
  case False
  then have "ht_init_coeff rnd 0 = None"
    using ht_init_coeff_returned [of rnd 0] by (cases "ht_init_coeff rnd 0") auto
  then show ?thesis using False by (simp add: ht_init_def)
qed

text \<open>
  Destroying a table after inserting a new key succeeds, frees the nodes of every bucket
  exactly once, and leaves behind the second block that \<open>new_entry\<close> allocated for the new key:
  one block leaks per key.
\<close>

lemma ht_destroy_leaks:
  "ht_rep s m \<Longrightarrow> m k = None \<Longrightarrow> fits v \<Longrightarrow>
   \<exists>s1 s2. ht_insert junk s k v = ret (1, s1) \<and> ht_destroy s1 = ret s2 \<and> root_p s2 = FreedBlock \<and>
     mem (ht_heap s1) (brk (ht_heap s)) \<noteq> None \<and> mem (ht_heap s2) (brk (ht_heap s)) = None \<and>
     mem (ht_heap s2) (Suc (brk (ht_heap s))) = Some junk"
proof -
  assume "ht_rep s m" and k: "m k = None" and v: "fits v"
  then obtain r b f B where inv: "ht_inv s r b f B" and m: "m = ht_map s r b B"
    by (auto simp: ht_rep_def)
  obtain s1 r1 b1 f1 B1 where 1: "ht_insert junk s k v = ret (1, s1)" "ht_inv s1 r1 b1 f1 B1"
      "mem (ht_heap s1) (Suc (brk (ht_heap s))) = Some junk" "\<forall>i. Suc (brk (ht_heap s)) \<notin> set (B1 i)"
      "\<exists>i. brk (ht_heap s) \<in> set (B1 i)"
    using ht_insert_new [OF inv v, of k junk] k unfolding m by metis
  obtain s2 where 2: "ht_destroy s1 = ret s2" "root_p s2 = FreedBlock"
      "mem (ht_heap s2) = mem (ht_heap s1) |` (- (\<Union>j. set (B1 j)))"
    using ht_destroy_eq [OF 1(2)] by blast
  obtain i where i: "brk (ht_heap s) \<in> set (B1 i)" using 1(5) by blast
  have "mem (ht_heap s1) (brk (ht_heap s)) \<noteq> None"
    using chain_allocated [OF ht_inv_live(6) [OF 1(2)] i] by auto
  then show ?thesis using 1 2 i by (auto simp: restrict_map_def)
qed

lemma ht_destroy_leaks_example:
  "\<forall>junk. \<exists>s0 s1 s2. ht_init 5 (\<lambda>i. of_nat i) = ret (1, s0) \<and> ht_insert junk s0 1 ''x'' = ret (1, s1) \<and>
     ht_destroy s1 = ret s2 \<and> mem (ht_heap s2) 1 = Some junk"
proof
  fix junk
  have "ht_init_coeff (\<lambda>i. of_nat i) 0 = ret (1, 2)"
    using ht_init_coeff_first [of "\<lambda>i. of_nat i" 0 1] by simp
  then obtain s where s: "ht_init 5 (\<lambda>i. of_nat i) = ret (1, s)" "brk (ht_heap s) = 0"
    by (simp add: ht_init_def empty_heap_def)
  have "ht_rep s Map.empty" using ht_rep_init [OF s(1)] by simp
  from ht_destroy_leaks [OF this, where k = 1 and v = "''x''" and junk = junk] s
  show "\<exists>s0 s1 s2. ht_init 5 (\<lambda>i. of_nat i) = ret (1, s0) \<and> ht_insert junk s0 1 ''x'' = ret (1, s1) \<and>
     ht_destroy s1 = ret s2 \<and> mem (ht_heap s2) 1 = Some junk"
    by (auto simp: fits_def DEFAULT_VALUE_LEN_def)
qed

end
