(* ===== verification/Benchmark.thy ===== *)
theory Benchmark
  imports Command_Line B_Tree RB_Tree Skip_List Hash_Table
begin

text \<open>
  The whole benchmark: the \<open>main\<close> functions of \<^theory_text>\<open>Command_Line\<close> over a store that also survives
  its destruction. The locale's lemmas follow a run from the options to the sums it prints; they are
  instantiated with the B-tree, the red-black tree, the skip list and the hash table.
\<close>

lemma to_string_no_NUL: "CHR 0x00 \<notin> set (to_string n)"
proof (induction n rule: to_string.induct)
  case (1 n)
  have d: "CHR 0x00 \<noteq> char_of (48 + k)" if "k < 10" for k :: nat
  proof
    assume "CHR 0x00 = char_of (48 + k)"
    then have "of_char (CHR 0x00) = (of_char (char_of (48 + k)) :: nat)" by simp
    with that show False by simp
  qed
  show ?case
  proof (cases "n < 10")
    case True
    then show ?thesis using d [of n] by (subst to_string.simps) simp
  next
    case False
    then show ?thesis using 1 d [of "n mod 10"] by (subst to_string.simps) simp
  qed
qed

lemma to_string_c_str [simp]: "c_str (to_string n) = to_string n"
  using to_string_no_NUL [of n] unfolding c_str_def by (auto simp: takeWhile_eq_all_conv)

lemma to_string_fits: "n < 1000 \<Longrightarrow> fits (to_string n)"
  by (simp add: fits_def DEFAULT_VALUE_LEN_def to_string.simps [of n] to_string.simps [of "n div 10"]
      to_string.simps [of "n div 10 div 10"])

section \<open>Stores that can be destroyed\<close>

locale benchmark_store = upsert_store storeds rep "\<lambda>_. True"
  for storeds :: "'s storeds_base" and rep +
  assumes destroy_law: "rep s m \<Longrightarrow> m \<noteq> Map.empty \<Longrightarrow> returns (op_destroy storeds s)"
begin

lemma loaded_destroy: "loaded ord j s \<Longrightarrow> 0 < j \<Longrightarrow> returns (op_destroy storeds s)"
  using destroy_law unfolding loaded_def by fastforce

lemma run_main_ok:
  assumes parsed: "parsed = ret (f, props)" and db: "props ''dbname'' = Some ''storeds''"
    and e: "env_ok e" and b: "benchmark_props e props r"
    and n: "stoi (GetProperty props ''threadcount'' ''1'') = ret n" "1 \<le> n" "n dvd r"
    and t: "props OPERATION_COUNT_PROPERTY = Some ops" "stoi ops = ret t" "0 \<le> t"
    and sched: "complete n r sched1" "complete n t sched2"
    and new: "\<And>path. StoredsDB_new open_store (GetProperty props ''type'' ''array-dram'') path = (storeds, s0)"
    and s0: "rep s0 Map.empty"
  shows "\<exists>s. run_main parsed e open_store sched1 sched2 = ret (r, n * (t div n), s)"
proof -
  let ?ord = "GetProperty props INSERT_ORDER_PROPERTY INSERT_ORDER_DEFAULT \<noteq> ''hashed''"
  have rc: "stoi (GetProperty props RECORD_COUNT_PROPERTY []) = ret r" and r: "1 \<le> r"
    using b by (simp_all add: benchmark_props_def)
  have nil: "stoi [] \<noteq> ret r" by (simp add: stoi_def Let_def)
  then obtain records where rec: "props RECORD_COUNT_PROPERTY = Some records" "stoi records = ret r"
    using rc by (auto simp: GetProperty_def split: option.splits)
  have rmax: "r < 2 ^ 31" and tmax: "t < 2 ^ 31" using stoi_range rec(2) t(2) by blast+
  have f: "fp_ops e = real_ops" using e by (simp add: env_ok_def)
  have "(CoreWorkload_new real_ops)\<lparr>rd_pos := 0\<rparr> = CoreWorkload_new real_ops" by (simp add: CoreWorkload_new_def)
  then obtain wl where wl: "Init e props (CoreWorkload_new (fp_ops e)) = ret wl" "wl_ready ?ord (of_int r) 0 wl"
    using Init_ready [OF e b, of 0] f by auto
  have c1: "nat n * nat (r div n) = nat r"
    using n(2,3) r by (simp flip: nat_mult_distrib)
  have c2: "int (nat n * nat (t div n)) = n * (t div n)"
    using n(2) t(3) by (simp add: pos_imp_zdiv_nonneg_iff)
  have "n * (t div n) \<le> t" using n(2) by (simp flip: minus_mod_eq_mult_div)
  then have c2t: "nat n * nat (t div n) \<le> nat t" using c2 t(3) by linarith
  have "loaded ?ord 0 s0" using s0 by (auto simp: loaded_def)
  then obtain wl1 s1 where 1: "DelegateClient_loop e storeds True (nat r) 0 wl s0 = ret (r, wl1, s1)"
      "wl_ready ?ord (of_int r) (nat r) wl1" "loaded ?ord (nat r) s1"
    using load_ok [OF wl(2), of s0 e "nat r" 0] r by auto
  have j: "(of_int r :: u64) \<le> of_nat (nat r)" "0 < (of_int r :: u64)" "nat r + nat n * nat (t div n) < 2 ^ 64"
    using r rmax tmax c2t by (auto simp: word_of_int_less_iff take_bit_int_eq_self word_less_alt uint_word_of_int_eq)
  obtain wl2 s2 j' where 2: "DelegateClient_loop e storeds False (nat n * nat (t div n)) 0 wl1 s1 =
      ret (n * (t div n), wl2, s2)" "loaded ?ord j' s2" "nat r \<le> j'"
    using transactions_ok [OF 1(2,3) _ e j(1,2) j(3), of 0] unfolding c2 by auto
  have "0 < j'" using 2(3) r by linarith
  then obtain s3 where 3: "op_destroy storeds s2 = ret s3"
    using loaded_destroy [OF 2(2)] by (auto simp: returns_def)
  have nw: "StoredsDB_new open_store (GetProperty props ''type'' ''array-dram'') (GetProperty props ''dbpath'' d) =
      (storeds, s0)" for d by (rule new)
  show ?thesis
    using 1(1) 2(1) 3 c1 by (simp add: run_main_def parsed n(1) CreateDB_def props_at_def db nw wl(1) rec t
        run_phase_eq [OF sched(1)] run_phase_eq [OF sched(2)])
qed

text \<open>The self test.\<close>

lemma test_store_ok:
  assumes "rep s0 Map.empty"
  shows "returns (test_store storeds tbl s0)"
proof -
  have MV: "MAX_VAL = 100" by (simp add: MAX_VAL_def)
  have key: "unat (of_nat i :: u64) = i" if "i < 2 ^ 64" for i using that by (simp add: unat_of_nat take_bit_nat_eq_self)
  have inj: "(of_nat i :: u64) = of_nat j \<longleftrightarrow> i = j" if "i < 2 ^ 64" "j < 2 ^ 64" for i j using key that by metis
  define P where "P f i s \<longleftrightarrow> (\<exists>m. rep s m \<and> (\<forall>k. 1 \<le> k \<and> k < i \<longrightarrow> m (of_nat k) = Some (to_string (f k))))"
    for f :: "nat \<Rightarrow> nat" and i and s
  have ins: "\<exists>s'. test_insert storeds tbl i s = ret s' \<and> P (\<lambda>k. k) (Suc i) s'"
    if a: "1 \<le> i" "i < 1 + MAX_VAL" "P (\<lambda>k. k) i s" for i s
  proof -
    obtain m where m: "rep s m" "\<forall>k. 1 \<le> k \<and> k < i \<longrightarrow> m (of_nat k) = Some (to_string k)"
      using a(3) by (auto simp: P_def)
    have ff: "fields_fit [(''field'', to_string i)]" using a(2) by (simp add: to_string_fits MV)
    obtain s' where "StoredsDB_Insert storeds s tbl (of_nat i) [(''field'', to_string i)] = ret (kOK, s')"
        "rep s' (m(of_nat i \<mapsto> to_string i))"
      using StoredsDB_Insert_upsert [OF m(1) TrueI _ ff, of tbl] by (auto simp: to_string_c_str)
    moreover from this(2) have "P (\<lambda>k. k) (Suc i) s'"
      unfolding P_def using m(2) a(1,2) by (intro exI conjI) (auto simp: inj MV)
    ultimately show ?thesis by (simp add: test_insert_def)
  qed
  have upd: "\<exists>s'. test_update storeds tbl i s = ret s' \<and>
      (\<exists>m. rep s' m \<and> (\<forall>k. 1 \<le> k \<and> k \<le> MAX_VAL \<longrightarrow> m (of_nat k) = Some (to_string (if k < Suc i then MAX_VAL - k else k))))"
    if a: "1 \<le> i" "i < 1 + MAX_VAL"
      "\<exists>m. rep s m \<and> (\<forall>k. 1 \<le> k \<and> k \<le> MAX_VAL \<longrightarrow> m (of_nat k) = Some (to_string (if k < i then MAX_VAL - k else k)))"
    for i s
  proof -
    obtain m where m: "rep s m"
        "\<forall>k. 1 \<le> k \<and> k \<le> MAX_VAL \<longrightarrow> m (of_nat k) = Some (to_string (if k < i then MAX_VAL - k else k))"
      using a(3) by auto
    have ff: "fields_fit [(''field'', to_string (MAX_VAL - i))]" using a(2) by (simp add: to_string_fits MV)
    have p: "m (of_nat i) \<noteq> None" using m(2) a(1,2) by auto
    obtain s' where s': "StoredsDB_Update_loop storeds s (of_nat i) [(''field'', to_string (MAX_VAL - i))] = ret s'"
        "rep s' (m(of_nat i \<mapsto> to_string (MAX_VAL - i)))"
      using StoredsDB_Update_loop_present [OF m(1) p ff] by (auto simp: to_string_c_str)
    have "\<forall>k. 1 \<le> k \<and> k \<le> MAX_VAL \<longrightarrow>
        (m(of_nat i \<mapsto> to_string (MAX_VAL - i))) (of_nat k) = Some (to_string (if k < Suc i then MAX_VAL - k else k))"
      using m(2) a(1,2) by (auto simp: inj MV less_Suc_eq)
    with s' show ?thesis by (auto simp: test_update_def StoredsDB_Update_def simp del: fun_upd_apply)
  qed
  have rd: "\<exists>s'. test_read storeds tbl ex i s = ret s' \<and> s' = s"
    if m: "rep s m" "\<forall>k. 1 \<le> k \<and> k \<le> MAX_VAL \<longrightarrow> m (of_nat k) = Some (to_string (f k))"
      and i: "1 \<le> i" "i < 1 + MAX_VAL" and ex: "\<And>k. k \<le> MAX_VAL \<Longrightarrow> ex k (of_nat k) = f k" for i s m ex f
    using StoredsDB_Read_present [OF m(1), of "of_nat i"] m(2) i ex [of i] by (simp add: test_read_def kOK_def)
  obtain s1 where 1: "for_loop 1 MAX_VAL (test_insert storeds tbl) s0 = ret s1" "P (\<lambda>k. k) (1 + MAX_VAL) s1"
    using for_loop_inv [of 1 MAX_VAL "P (\<lambda>k. k)" "test_insert storeds tbl" s0] ins assms by (auto simp: P_def)
  then obtain m1 where m1: "rep s1 m1" "\<forall>k. 1 \<le> k \<and> k \<le> MAX_VAL \<longrightarrow> m1 (of_nat k) = Some (to_string k)"
    by (auto simp: P_def)
  have 2: "for_loop 1 MAX_VAL (test_read storeds tbl (\<lambda>_ k. unat k)) s1 = ret s1"
    using for_loop_inv [of 1 MAX_VAL "\<lambda>_ s. s = s1" "test_read storeds tbl (\<lambda>_ k. unat k)" s1]
      rd [OF m1, of _ "\<lambda>_ k. unat k"] by (auto simp: key MV)
  let ?Q = "\<lambda>i s. \<exists>m. rep s m \<and>
      (\<forall>k. 1 \<le> k \<and> k \<le> MAX_VAL \<longrightarrow> m (of_nat k) = Some (to_string (if k < i then MAX_VAL - k else k)))"
  have "?Q 1 s1" using m1 by auto
  then obtain s2 where 3: "for_loop 1 MAX_VAL (test_update storeds tbl) s1 = ret s2" "?Q (1 + MAX_VAL) s2"
    using for_loop_inv [of 1 MAX_VAL ?Q "test_update storeds tbl" s1] upd by blast
  then obtain m2 where m2: "rep s2 m2" "\<forall>k. 1 \<le> k \<and> k \<le> MAX_VAL \<longrightarrow> m2 (of_nat k) = Some (to_string (MAX_VAL - k))"
    by auto
  have 4: "for_loop 1 MAX_VAL (test_read storeds tbl (\<lambda>key _. MAX_VAL - key)) s2 = ret s2"
    using for_loop_inv [of 1 MAX_VAL "\<lambda>_ s. s = s2" "test_read storeds tbl (\<lambda>key _. MAX_VAL - key)" s2]
      rd [OF m2, of _ "\<lambda>key _. MAX_VAL - key"] by auto
  have "m2 (of_nat 1) \<noteq> None" using m2(2) MV by auto
  then have "m2 \<noteq> Map.empty" by auto
  from destroy_law [OF m2(1) this] show ?thesis
    using 1 2 3 4 by (simp add: test_store_def)
qed

end

section \<open>Parallel databases\<close>

text \<open>
  \<open>P k db\<close>: the thread whose database is \<open>db\<close> has run \<open>k\<close> operations of the phase. If each of the
  first \<open>K\<close> operations succeeds and keeps \<open>P\<close>, a phase in which thread \<open>t\<close> runs
  \<open>turns sched t\<close> operations returns, with all of them counted.
\<close>

definition turns :: "(nat \<times> 'a) list \<Rightarrow> nat \<Rightarrow> nat" where
  "turns sched t = count_list (map fst sched) t"

lemma turns_simps [simp]: "turns [] t = 0" "turns ((u, d) # ts) t = turns ts t + (if u = t then 1 else 0)"
  by (simp_all add: turns_def)

lemma run_parallel_ok:
  assumes "\<And>k db wl s u. P k (db, wl, s) \<Longrightarrow> k < K \<Longrightarrow> D u \<Longrightarrow>
      \<exists>wl' s'. client_op (e\<lparr>random_double := u\<rparr>) db ld wl s = ret (True, wl', s') \<and> P (Suc k) (db, wl', s')"
    and "\<forall>(t, u) \<in> set sched. t < length dbs \<and> D u" and "\<forall>t < length dbs. turns sched t \<le> todo t"
    and "\<forall>t < length dbs. P (k t) (dbs ! t) \<and> k t + turns sched t \<le> K"
  shows "\<exists>todo' oks' dbs'. run_parallel e ld sched todo oks dbs = ret (todo', oks', dbs') \<and>
    length dbs' = length dbs \<and>
    (\<forall>t < length dbs. oks' t = oks t + int (turns sched t) \<and> P (k t + turns sched t) (dbs' ! t))"
  using assms(2-)
proof (induction sched arbitrary: todo oks dbs k)
  case (Cons x ts)
  obtain t u where x: "x = (t, u)" by (cases x)
  have t: "t < length dbs" "D u" using Cons.prems(1) by (simp_all add: x)
  obtain n where n: "todo t = Suc n"
    using Cons.prems(2) [rule_format, OF t(1)] by (cases "todo t") (simp_all add: x)
  obtain db wl s where d: "dbs ! t = (db, wl, s)" by (cases "dbs ! t")
  have P: "P (k t) (db, wl, s)" "k t < K"
    using Cons.prems(3) [rule_format, OF t(1)] by (auto simp: d x)
  obtain wl1 s1 where 1: "client_op (e\<lparr>random_double := u\<rparr>) db ld wl s = ret (True, wl1, s1)" "P (Suc (k t)) (db, wl1, s1)"
    using assms(1) [OF P t(2)] by blast
  let ?dbs = "dbs[t := (db, wl1, s1)]" and ?k = "k(t := Suc (k t))"
  have "\<exists>todo' oks' dbs'. run_parallel e ld ts (todo(t := n)) (oks(t := oks t + 1)) ?dbs =
      ret (todo', oks', dbs') \<and> length dbs' = length ?dbs \<and>
      (\<forall>u < length ?dbs. oks' u = (oks(t := oks t + 1)) u + int (turns ts u) \<and>
        P (?k u + turns ts u) (dbs' ! u))"
  proof (rule Cons.IH)
    show "\<forall>(w, u) \<in> set ts. w < length ?dbs \<and> D u" using Cons.prems(1) by (simp add: x)
    show "\<forall>u < length ?dbs. turns ts u \<le> (todo(t := n)) u"
    proof (intro allI impI)
      fix u
      assume "u < length ?dbs"
      with Cons.prems(2) [rule_format, of u] n show "turns ts u \<le> (todo(t := n)) u"
        by (auto simp: x split: if_splits)
    qed
    show "\<forall>u < length ?dbs. P (?k u) (?dbs ! u) \<and> ?k u + turns ts u \<le> K"
    proof (intro allI impI)
      fix u
      assume "u < length ?dbs"
      with Cons.prems(3) [rule_format, of u] 1(2) show "P (?k u) (?dbs ! u) \<and> ?k u + turns ts u \<le> K"
        by (auto simp: x split: if_splits)
    qed
  qed
  then obtain todo' oks' dbs' where
      "run_parallel e ld ts (todo(t := n)) (oks(t := oks t + 1)) ?dbs = ret (todo', oks', dbs')"
      "length dbs' = length dbs"
      "\<forall>u < length dbs. oks' u = (oks(t := oks t + 1)) u + int (turns ts u) \<and>
        P (?k u + turns ts u) (dbs' ! u)"
    by auto
  with n d 1(1) show ?case by (auto simp: x)
qed auto

lemma parallel_phase_ok:
  assumes "\<And>k db wl s u. P k (db, wl, s) \<Longrightarrow> k < nat tot \<Longrightarrow> D u \<Longrightarrow>
      \<exists>wl' s'. client_op (e\<lparr>random_double := u\<rparr>) db ld wl s = ret (True, wl', s') \<and> P (Suc k) (db, wl', s')"
    and "\<forall>(t, u) \<in> set sched. t < length dbs \<and> D u" and "\<forall>t < length dbs. turns sched t = nat tot"
    and "\<forall>t < length dbs. P 0 (dbs ! t)" and "0 \<le> tot"
  shows "\<exists>dbs'. parallel_phase e ld tot sched dbs = ret (int (length dbs) * tot, dbs') \<and>
    length dbs' = length dbs \<and> (\<forall>t < length dbs. P (nat tot) (dbs' ! t))"
proof -
  obtain todo' oks' dbs' where
      1: "run_parallel e ld sched (\<lambda>t. if t < length dbs then nat tot else 0) (\<lambda>_. 0) dbs =
        ret (todo', oks', dbs')" "length dbs' = length dbs"
      "\<forall>t < length dbs. oks' t = tot \<and> P (nat tot) (dbs' ! t)"
    using run_parallel_ok [of P "nat tot" D e ld sched dbs "\<lambda>t. if t < length dbs then nat tot else 0" "\<lambda>_. 0"
        "\<lambda>_. 0", OF assms(1,2)] assms(3-) by auto
  have "sum oks' {0..<length dbs} = int (length dbs) * tot" using 1(3) by simp
  with 1 show ?thesis by (simp add: parallel_phase_def)
qed

text \<open>What \<open>RandomDouble\<close> returns.\<close>

definition unit_draws :: "(nat \<Rightarrow> real) \<Rightarrow> bool" where
  "unit_draws u \<longleftrightarrow> (\<forall>i. 0 \<le> u i \<and> u i < 1)"

lemma env_ok_draws: "env_ok e \<Longrightarrow> unit_draws u \<Longrightarrow> env_ok (e\<lparr>random_double := u\<rparr>)"
  by (simp add: env_ok_def unit_draws_def)

text \<open>The path of the database is the only property that differs between the threads.\<close>

definition same_but_path :: "Properties \<Rightarrow> Properties \<Rightarrow> bool" where
  "same_but_path p q \<longleftrightarrow> (\<forall>k. k \<noteq> ''dbpath'' \<longrightarrow> p k = q k)"

lemma same_but_path_thread_props: "same_but_path p q \<Longrightarrow> same_but_path (thread_props p vmem d t) q"
  by (simp add: same_but_path_def thread_props_def SetProperty_def)

lemma same_but_path_GetProperty:
  "same_but_path p q \<Longrightarrow> k \<noteq> ''dbpath'' \<Longrightarrow> GetProperty p k d = GetProperty q k d"
  by (simp add: same_but_path_def GetProperty_def)

lemma same_but_path_benchmark:
  assumes "same_but_path p q"
  shows "benchmark_props e p r = benchmark_props e q r"
    and "GetProperty p INSERT_ORDER_PROPERTY INSERT_ORDER_DEFAULT = GetProperty q INSERT_ORDER_PROPERTY INSERT_ORDER_DEFAULT"
  by (simp_all add: benchmark_props_def property_names same_but_path_GetProperty [OF assms])

context benchmark_store
begin

lemma open_dbs_ok:
  assumes "same_but_path p props" and db: "props ''dbname'' = Some ''storeds''"
    and e: "env_ok e" and b: "benchmark_props e props r"
    and new: "\<And>path. StoredsDB_new open_store (GetProperty props ''type'' ''array-dram'') path = (storeds, s0)"
  shows "\<exists>p' pos' dbs. open_dbs e open_store vmem d ts p pos = ret (p', pos', dbs) \<and> same_but_path p' props \<and>
    length dbs = length ts \<and> (\<forall>x \<in> set dbs. \<exists>wl. x = (storeds, wl, s0) \<and>
      wl_ready (GetProperty props INSERT_ORDER_PROPERTY INSERT_ORDER_DEFAULT \<noteq> ''hashed'') (of_int r) 0 wl)"
  using assms(1)
proof (induction ts arbitrary: p pos)
  case (Cons t ts)
  let ?p = "thread_props p vmem d t"
  have same: "same_but_path ?p props" by (rule same_but_path_thread_props [OF Cons.prems])
  have f: "fp_ops e = real_ops" using e by (simp add: env_ok_def)
  obtain wl where wl: "Init e ?p ((CoreWorkload_new (fp_ops e))\<lparr>rd_pos := pos\<rparr>) = ret wl"
      "wl_ready (GetProperty props INSERT_ORDER_PROPERTY INSERT_ORDER_DEFAULT \<noteq> ''hashed'') (of_int r) 0 wl"
    using Init_ready [OF e, of ?p r pos] b same_but_path_benchmark [OF same] by (auto simp: f)
  have c: "CreateDB ?p = ret (Some (GetProperty props ''type'' ''array-dram'', GetProperty ?p ''dbpath'' ''/pmem/array.pmem''))"
    using same db same_but_path_GetProperty [OF same, of "''type''"]
    by (simp add: CreateDB_def props_at_def same_but_path_def)
  obtain p' pos' dbs where "open_dbs e open_store vmem d ts ?p (rd_pos wl) = ret (p', pos', dbs)"
      "same_but_path p' props" "length dbs = length ts" "\<forall>x \<in> set dbs. \<exists>wl. x = (storeds, wl, s0) \<and>
      wl_ready (GetProperty props INSERT_ORDER_PROPERTY INSERT_ORDER_DEFAULT \<noteq> ''hashed'') (of_int r) 0 wl"
    using Cons.IH [OF same] by blast
  then show ?case using wl c new by (simp add: Let_def)
qed simp

lemma destroy_dbs_ok:
  "\<forall>x \<in> set dbs. \<exists>wl s j. x = (storeds, wl, s) \<and> loaded ord j s \<and> 0 < j \<Longrightarrow> \<exists>ss. destroy_dbs dbs = ret ss"
proof (induction dbs)
  case (Cons x dbs)
  then obtain wl s j where x: "x = (storeds, wl, s)" "loaded ord j s" "0 < j" by auto
  obtain ss where "destroy_dbs dbs = ret ss" using Cons by auto
  with x loaded_destroy [OF x(2,3)] show ?case by (auto simp: returns_def)
qed simp

lemma run_parallel_main_ok:
  assumes parsed: "parsed = ret (f, props)" and db: "props ''dbname'' = Some ''storeds''"
    and v: "is_vmem (GetProperty props ''type'' ''dram'') = ret vmem"
    and e: "env_ok e" and b: "benchmark_props e props r"
    and n: "stoi (GetProperty props ''threadcount'' ''1'') = ret n" "1 \<le> n"
    and t: "props OPERATION_COUNT_PROPERTY = Some ops" "stoi ops = ret t" "0 \<le> t"
    and sched1: "\<forall>(i, u) \<in> set sched1. i < nat n \<and> unit_draws u" "\<forall>i < nat n. turns sched1 i = nat r"
    and sched2: "\<forall>(i, u) \<in> set sched2. i < nat n \<and> unit_draws u" "\<forall>i < nat n. turns sched2 i = nat t"
    and new: "\<And>path. StoredsDB_new open_store (GetProperty props ''type'' ''array-dram'') path = (storeds, s0)"
    and s0: "rep s0 Map.empty"
  shows "\<exists>ss. run_parallel_main parsed e open_store sched1 sched2 = ret (n * r, n * t, ss)"
proof -
  let ?ord = "GetProperty props INSERT_ORDER_PROPERTY INSERT_ORDER_DEFAULT \<noteq> ''hashed''"
  let ?dbs = "\<lambda>d. open_dbs e open_store vmem d [0..<nat n] props 0"
  have same: "same_but_path props props" by (simp add: same_but_path_def)
  obtain p pos dbs where 1: "?dbs (GetProperty props ''dbpath'' ''/pmem/array'') = ret (p, pos, dbs)"
      "same_but_path p props" "length dbs = nat n"
      "\<forall>x \<in> set dbs. \<exists>wl. x = (storeds, wl, s0) \<and> wl_ready ?ord (of_int r) 0 wl"
    using open_dbs_ok [OF same db e b new, where vmem = vmem and d = "GetProperty props ''dbpath'' ''/pmem/array''"
        and ts = "[0..<nat n]" and pos = 0] by auto
  have rc: "stoi (GetProperty props RECORD_COUNT_PROPERTY []) = ret r" and r: "1 \<le> r"
    using b by (simp_all add: benchmark_props_def)
  have nil: "stoi [] \<noteq> ret r" by (simp add: stoi_def Let_def)
  then obtain records where rec: "p RECORD_COUNT_PROPERTY = Some records" "stoi records = ret r"
    using rc 1(2) by (auto simp: GetProperty_def same_but_path_def property_names split: option.splits)
  have rmax: "r < 2 ^ 31" and tmax: "t < 2 ^ 31" using stoi_range rec(2) t(2) by blast+
  have ops: "p OPERATION_COUNT_PROPERTY = Some ops"
    using t(1) 1(2) by (simp add: same_but_path_def property_names)
  let ?P = "\<lambda>k x. \<exists>wl s. x = (storeds, wl, s) \<and> wl_ready ?ord (of_int r) k wl \<and> loaded ?ord k s"
  have "\<exists>wl' s'. client_op (e\<lparr>random_double := u\<rparr>) db True wl s = ret (True, wl', s') \<and> ?P (Suc k) (db, wl', s')"
    if "?P k (db, wl, s)" for k db wl s u
    using that DoInsert_ok [of ?ord "of_int r" k wl s "e\<lparr>random_double := u\<rparr>"] by (auto simp: client_op_def)
  moreover have "\<forall>i < length dbs. ?P 0 (dbs ! i)"
    using 1(4) s0 nth_mem by (fastforce simp: loaded_def)
  ultimately obtain dbs1 where 2:
      "parallel_phase e True r sched1 dbs = ret (n * r, dbs1)" "length dbs1 = nat n"
      "\<forall>i < length dbs. ?P (nat r) (dbs1 ! i)"
    using parallel_phase_ok [of ?P r unit_draws e True sched1 dbs] 1(3) n(2) r sched1 by auto
  let ?Q = "\<lambda>k x. \<exists>wl s j. x = (storeds, wl, s) \<and> wl_ready ?ord (of_int r) j wl \<and> loaded ?ord j s \<and>
      nat r \<le> j \<and> j \<le> nat r + k"
  have "\<exists>wl' s'. client_op (e\<lparr>random_double := u\<rparr>) db False wl s = ret (True, wl', s') \<and> ?Q (Suc k) (db, wl', s')"
    if Q: "?Q k (db, wl, s)" and k: "k < nat t" and u: "unit_draws u" for k db wl s u
  proof -
    obtain j where j: "db = storeds" "wl_ready ?ord (of_int r) j wl" "loaded ?ord j s"
        "nat r \<le> j" "j \<le> nat r + k"
      using Q by auto
    have "nat r < 2 ^ 31" "nat t < 2 ^ 31" using rmax tmax by (simp_all add: nat_less_iff)
    with j(5) k have jmax: "j < 2 ^ 33" by simp
    have "(of_int r :: u64) - 1 < of_nat j"
    proof -
      have "(of_int r :: u64) - 1 = of_int (r - 1)" by simp
      moreover have "uint (of_int (r - 1) :: u64) = r - 1" "uint (of_nat j :: u64) = int j"
        using r rmax jmax by (simp_all add: uint_word_of_int_eq take_bit_int_eq_self unsigned_of_nat take_bit_nat_eq_self
            del: of_int_diff)
      ultimately show ?thesis using j(4) r by (simp add: word_less_alt del: of_int_diff)
    qed
    then obtain wl' s' j' where "DoTransaction (e\<lparr>random_double := u\<rparr>) storeds wl s = ret (True, wl', s')" "j' \<le> Suc j"
        "j \<le> j'" "wl_ready ?ord (of_int r) j' wl'" "loaded ?ord j' s'"
      using DoTransaction_ok [OF j(2,3) _ env_ok_draws [OF e u]] jmax by fastforce
    with j show ?thesis by (fastforce simp: client_op_def)
  qed
  moreover have "\<forall>i < length dbs1. ?Q 0 (dbs1 ! i)" using 2(2,3) 1(3) by fastforce
  ultimately obtain dbs2 where 3:
      "parallel_phase e False t sched2 dbs1 = ret (n * t, dbs2)" "length dbs2 = nat n"
      "\<forall>i < nat n. ?Q (nat t) (dbs2 ! i)"
    using parallel_phase_ok [of ?Q t unit_draws e False sched2 dbs1] 2(2) n(2) t sched2 by auto
  have "\<forall>x \<in> set dbs2. \<exists>wl s j. x = (storeds, wl, s) \<and> loaded ?ord j s \<and> 0 < j"
    using 3(2,3) r by (fastforce simp: in_set_conv_nth)
  then obtain ss where "destroy_dbs dbs2 = ret ss" using destroy_dbs_ok by blast
  then show ?thesis
    using 1(1) 2(1) 3(1) by (simp add: run_parallel_main_def parsed n(1) v props_at_def rec ops t(2))
qed

end

section \<open>The stores\<close>

interpretation bench_bt: benchmark_store bt_ops bt_rep
proof unfold_locales
  fix s m
  assume "bt_rep s m" "m \<noteq> Map.empty"
  then obtain d t where "bt_inv s d t" by (auto simp: bt_rep_def)
  then show "returns (op_destroy bt_ops s)" using bt_destroy_inv by (fastforce simp: bt_ops_def returns_def)
qed

interpretation bench_rb: benchmark_store "rb_ops junk" rb_rep for junk
proof unfold_locales
  fix s m
  assume "rb_rep s m" "m \<noteq> Map.empty"
  then obtain t where t: "rb_inv s t" "m = map_of (rb_inorder t)" by (auto simp: rb_rep_def)
  with \<open>m \<noteq> Map.empty\<close> have "t \<noteq> Lf" by auto
  with t(1) show "returns (op_destroy (rb_ops junk) s)" using rb_destroy_inv by (simp add: rb_ops_def)
qed

interpretation bench_sk: benchmark_store sk_ops sk_rep
proof unfold_locales
  fix s m
  assume "sk_rep s m" "m \<noteq> Map.empty"
  then show "returns (op_destroy sk_ops s)"
    using sk_destroy_lists by (fastforce simp: sk_rep_def sk_ops_def returns_def)
qed

interpretation bench_ht: benchmark_store "ht_ops junk" ht_rep for junk
proof unfold_locales
  fix s m
  assume "ht_rep s m" "m \<noteq> Map.empty"
  then obtain r b f B where "ht_inv s r b f B" by (auto simp: ht_rep_def)
  then show "returns (op_destroy (ht_ops junk) s)" using ht_destroy_eq by (fastforce simp: ht_ops_def returns_def)
qed

lemma StoredsDB_new_known:
  "GetDB type = Some c \<Longrightarrow> open_store c = (\<lambda>path. (storeds, s0)) \<Longrightarrow>
   StoredsDB_new open_store type path = (storeds, s0)"
  by (simp add: StoredsDB_new_def)

section \<open>Properties\<close>

text \<open>
  C1: A benchmark run with one client thread on the B-tree completes with every operation counted.
  The workload has no scans, uniformly chosen keys and values of constant length
  (\<open>benchmark_props\<close>), over \<open>r\<close> records, ordered or hashed; arithmetic on doubles is exact and the
  random engines stay in their ranges (\<open>env_ok\<close>). The program then returns, without a fault: the
  load phase reports \<open>r\<close> records, the transaction phase succeeds in all \<open>t\<close> operations, and the store
  is destroyed. With more threads the unlocked tree is shared, which is not covered.
\<close>

theorem benchmark_completes:
  assumes "ParseCommandLine files argv = ret (f, props)" and "props ''dbname'' = Some ''storeds''"
    and "GetProperty props ''type'' ''array-dram'' = ''btree-dram''"
    and "open_store ''BTreeDram'' = (\<lambda>path. (bt_ops, bt_init))"
    and "env_ok e" and "benchmark_props e props r"
    and "stoi (GetProperty props ''threadcount'' ''1'') = ret 1"
    and "props OPERATION_COUNT_PROPERTY = Some ops" and "stoi ops = ret t" and "0 \<le> t"
  shows "\<exists>s. ycsbc_main e files open_store (replicate (nat r) 0) (replicate (nat t) 0) argv = ret (r, t, s)"
proof -
  have db: "GetDB ''btree-dram'' = Some ''BTreeDram''" by code_simp
  have new: "StoredsDB_new open_store (GetProperty props ''type'' ''array-dram'') path = (bt_ops, bt_init)" for path
    unfolding assms(3) by (rule StoredsDB_new_known [where open_store = open_store, OF db assms(4)])
  have "count_list (replicate i (0 :: nat)) 0 = i" for i by (induction i) simp_all
  then have c: "complete 1 j (replicate (nat j) 0)" for j by (simp add: complete_def)
  show ?thesis
    using bench_bt.run_main_ok [OF assms(1,2,5-7) _ _ assms(8-10) c c new bt_rep_init]
    by (simp add: ycsbc_main_def)
qed

lemma example_command_line:
  "ParseCommandLine (\<lambda>_. Some (''recordcount=4'' @ [newline] @ ''operationcount=6'' @ [newline]))
     [''ycsbc'', ''-db'', ''storeds'', ''-type'', ty, ''-threads'', th, ''-P'', ''w''] =
   ret (''w'', bench_props [(''dbname'', ''storeds''), (''type'', ty), (''threadcount'', th)])"
proof -
  have l: "load_lines p (''recordcount=4'' @ [newline] @ ''operationcount=6'' @ [newline]) =
      p(''recordcount'' \<mapsto> ''4'', ''operationcount'' \<mapsto> ''6'')" for p
  proof -
    have "list_all prop_ok [(''recordcount'', ''4''), (''operationcount'', ''6'')]" by code_simp
    from load_lines_render [OF this, of p] show ?thesis by simp
  qed
  have t: "[''type'' \<mapsto> ty, ''dbname'' \<mapsto> ''storeds'', ''threadcount'' \<mapsto> th] =
      map_of [(''dbname'', ''storeds''), (''type'', ty), (''threadcount'', th)]"
    by (auto simp: fun_eq_iff)
  show ?thesis
    by (simp add: ParseCommandLine_def parse_command_line_def base_option_def StrStartWith_def
        SetProperty_def Load_def l [simplified] bench_props_def property_names fun_upd_twist)
qed

theorem benchmark_completes_witness:
  "\<exists>s. ycsbc_main bench_env (\<lambda>_. Some (''recordcount=4'' @ [newline] @ ''operationcount=6'' @ [newline]))
     (\<lambda>c path. (bt_ops, bt_init)) (replicate (nat 4) 0) (replicate (nat 6) 0)
     [''ycsbc'', ''-db'', ''storeds'', ''-type'', ''btree-dram'', ''-threads'', ''1'', ''-P'', ''w''] = ret (4, 6, s)"
proof -
  let ?kvs = "[(''dbname'', ''storeds''), (''type'', ''btree-dram''), (''threadcount'', ''1'')]"
  have "benchmark_props bench_env (bench_props ?kvs) 4" by (rule benchmark_props_example) simp
  moreover have "bench_props ?kvs ''dbname'' = Some ''storeds''"
      "GetProperty (bench_props ?kvs) ''type'' ''array-dram'' = ''btree-dram''"
      "stoi (GetProperty (bench_props ?kvs) ''threadcount'' ''1'') = ret 1"
      "bench_props ?kvs OPERATION_COUNT_PROPERTY = Some ''6''"
    by (simp_all add: bench_props_def GetProperty_def property_names bench_numbers)
  ultimately show ?thesis
    using benchmark_completes [OF example_command_line, where open_store = "\<lambda>c path. (bt_ops, bt_init)"
        and e = bench_env and r = 4 and t = 6 and ops = "''6''"] env_ok_bench_env bench_numbers by simp
qed



text \<open>
  C26: The self test passes on the B-tree, the red-black tree, the skip list and the hash table: all
  its assertions hold, and it ends with the store destroyed.
\<close>

theorem self_test_passes:
  assumes "sk_init rnd = ret (c, sk)" and "ht_init time rnd' = ret (c', ht)"
  shows "returns (test_store bt_ops tbl bt_init) \<and> returns (test_store (rb_ops junk) tbl rb_init) \<and>
    returns (test_store sk_ops tbl sk) \<and> returns (test_store (ht_ops junk') tbl ht)"
  using bench_bt.test_store_ok [OF bt_rep_init] bench_rb.test_store_ok [OF rb_rep_init]
    bench_sk.test_store_ok [of sk] bench_ht.test_store_ok [of ht] assms(1) sk_rep_init [of rnd]
    ht_rep_init [OF assms(2)] by auto

theorem self_test_passes_witness:
  "\<forall>junk. \<exists>sk ht. returns (test_store sk_ops ''t'' sk) \<and> returns (test_store (ht_ops junk) ''t'' ht)"
proof
  fix junk
  obtain sk where sk: "sk_init (\<lambda>_. 0) = ret (1, sk)" using sk_rep_init by blast
  have "ht_init_coeff (\<lambda>i. of_nat i) 0 = ret (1, 2)"
    using ht_init_coeff_first [of "\<lambda>i. of_nat i" 0 1] by simp
  then obtain ht where ht: "ht_init 5 (\<lambda>i. of_nat i) = ret (1, ht)" by (simp add: ht_init_def)
  show "\<exists>sk ht. returns (test_store sk_ops ''t'' sk) \<and> returns (test_store (ht_ops junk) ''t'' ht)"
    using self_test_passes [OF sk ht] by blast
qed

end
