(* ===== verification/String_Hashtable.thy ===== *)
theory String_Hashtable
  imports Prelude "HOL-Library.Multiset"
begin

text \<open>
  The string-keyed hash tables under \<^verbatim>\<open>src/lib\<close>: the hashed C string \<open>vmp::String\<close>
  (\<^verbatim>\<open>string.h\<close>), the virtual class \<open>StringHashtable\<close> (\<^verbatim>\<open>string_hashtable.h\<close>) as a record of
  operations, its implementation \<open>StlHashtable\<close> over \<^verbatim>\<open>std::unordered_map\<close>
  (\<^verbatim>\<open>stl_hashtable.h\<close>) and the same behind one mutex, \<open>LockStlHashtable\<close>
  (\<^verbatim>\<open>lock_stl_hashtable.h\<close>). The contract of the class is the locale \<open>string_hashtable\<close>.

  An \<open>unordered_map\<close> is the list of its entries in iteration order. The C++ standard does not say
  where an insertion puts the new entry or what a rehash does to the others, so the order after an
  insertion is a parameter \<open>arrange\<close>; all that is used of it is that it permutes the entries. Both
  instances the program makes hold pointers, so \<open>V\<close> is \<open>ptr\<close> and its \<open>NULL\<close> is \<open>None\<close>.
\<close>

section \<open>Hashed strings\<close>

text \<open>The characters a \<open>const char *\<close> leads to: in the caller's buffer, or in a block of the heap.\<close>

datatype char_ptr = Caller string | Owned nat

fun str_value :: "string heap \<Rightarrow> char_ptr \<Rightarrow> string comp" where
  "str_value h (Caller c) = ret c"
| "str_value h (Owned a) = load h (Some a)"

record hstring =
  hs_hash :: u64
  hs_value :: char_ptr
  hs_len :: nat

text \<open>\<open>char\<close> is signed, so a byte above 127 is sign-extended when it is assigned to a \<open>uint64_t\<close>.\<close>

definition char_u64 :: "char \<Rightarrow> u64" where
  "char_u64 c = scast (of_char c :: 8 word)"

fun SDBMHash_loop :: "u64 \<Rightarrow> string \<Rightarrow> u64" where
  "SDBMHash_loop hash [] = hash"
| "SDBMHash_loop hash (c # cstr) =
     SDBMHash_loop (char_u64 c + push_bit 6 hash + push_bit 16 hash - hash) cstr"

definition SDBMHash :: "string \<Rightarrow> u64" where
  "SDBMHash cstr = SDBMHash_loop 0 cstr"

definition str_set_value :: "string heap \<Rightarrow> char_ptr \<Rightarrow> hstring comp" where
  "str_set_value h v = bindC (str_value h v) (\<lambda>c.
     ret \<lparr>hs_hash = SDBMHash c, hs_value = v, hs_len = length c\<rparr>)"

definition str_Copy :: "string heap \<Rightarrow> string option \<Rightarrow> (hstring \<times> string heap) comp" where
  "str_Copy h cstr = (case cstr of None \<Rightarrow> crash AssertFail
     | Some c \<Rightarrow>
         (let (str, h') = malloc h c in
          bindC (str_set_value h' (Owned (the str))) (\<lambda>hstr.
          bindC (assertC (hs_len hstr = length c)) (\<lambda>_. ret (hstr, h')))))"

definition str_Wrap :: "string heap \<Rightarrow> string option \<Rightarrow> hstring comp" where
  "str_Wrap h cstr = (case cstr of None \<Rightarrow> crash AssertFail
     | Some c \<Rightarrow> str_set_value h (Caller c))"

definition str_Free :: "string heap \<Rightarrow> hstring \<Rightarrow> string heap comp" where
  "str_Free h hstr = (case hs_value hstr of Caller c \<Rightarrow> crash BadFree | Owned a \<Rightarrow> cfree h (Some a))"

definition str_eq :: "string heap \<Rightarrow> hstring \<Rightarrow> hstring \<Rightarrow> bool comp" where
  "str_eq h a b =
     (if hs_hash a \<noteq> hs_hash b then ret False
      else bindC (str_value h (hs_value a)) (\<lambda>ca. bindC (str_value h (hs_value b)) (\<lambda>cb. ret (ca = cb))))"

section \<open>StringHashtable\<close>

text \<open>The virtual class; the heap is that of the copied keys.\<close>

record 't string_hashtable =
  sh_new :: 't
  sh_Get :: "string heap \<Rightarrow> 't \<Rightarrow> string option \<Rightarrow> ptr comp"
  sh_Insert :: "string heap \<Rightarrow> 't \<Rightarrow> string option \<Rightarrow> ptr \<Rightarrow> (bool \<times> string heap \<times> 't) comp"
  sh_Update :: "string heap \<Rightarrow> 't \<Rightarrow> string option \<Rightarrow> ptr \<Rightarrow> (ptr \<times> 't) comp"
  sh_Remove :: "string heap \<Rightarrow> 't \<Rightarrow> string option \<Rightarrow> (ptr \<times> string heap \<times> 't) comp"
  sh_Entries :: "string heap \<Rightarrow> 't \<Rightarrow> string option \<Rightarrow> u64 \<Rightarrow> (char_ptr \<times> ptr) list comp"
  sh_Size :: "'t \<Rightarrow> nat comp"

section \<open>StlHashtable\<close>

type_synonym hashtable = "(hstring \<times> ptr) list"

fun stl_find :: "string heap \<Rightarrow> hashtable \<Rightarrow> hstring \<Rightarrow> nat option comp" where
  "stl_find h [] key = ret None"
| "stl_find h ((s, v) # t) key =
     bindC (str_eq h s key) (\<lambda>eq.
       if eq then ret (Some 0) else bindC (stl_find h t key) (\<lambda>pos. ret (map_option Suc pos)))"

definition StlHashtable_Get :: "string heap \<Rightarrow> hashtable \<Rightarrow> string option \<Rightarrow> ptr comp" where
  "StlHashtable_Get h t key =
     bindC (str_Wrap h key) (\<lambda>skey. bindC (stl_find h t skey) (\<lambda>pos.
       case pos of None \<Rightarrow> ret NULL | Some i \<Rightarrow> ret (snd (t ! i))))"

definition StlHashtable_Insert ::
  "(hashtable \<Rightarrow> hashtable) \<Rightarrow> string heap \<Rightarrow> hashtable \<Rightarrow> string option \<Rightarrow> ptr \<Rightarrow>
   (bool \<times> string heap \<times> hashtable) comp" where
  "StlHashtable_Insert arrange h t key v =
     (if key = None then ret (False, h, t)
      else bindC (str_Copy h key) (\<lambda>(skey, h').
           bindC (stl_find h' t skey) (\<lambda>pos.
             case pos of None \<Rightarrow> ret (True, h', arrange ((skey, v) # t))
             | Some i \<Rightarrow> ret (False, h', t))))"

definition StlHashtable_Update ::
  "string heap \<Rightarrow> hashtable \<Rightarrow> string option \<Rightarrow> ptr \<Rightarrow> (ptr \<times> hashtable) comp" where
  "StlHashtable_Update h t key v =
     bindC (str_Wrap h key) (\<lambda>skey. bindC (stl_find h t skey) (\<lambda>pos.
       case pos of None \<Rightarrow> ret (NULL, t)
       | Some i \<Rightarrow> ret (snd (t ! i), t[i := (fst (t ! i), v)])))"

definition StlHashtable_Remove ::
  "string heap \<Rightarrow> hashtable \<Rightarrow> string option \<Rightarrow> (ptr \<times> string heap \<times> hashtable) comp" where
  "StlHashtable_Remove h t key =
     bindC (str_Wrap h key) (\<lambda>skey. bindC (stl_find h t skey) (\<lambda>pos.
       case pos of None \<Rightarrow> ret (NULL, h, t)
       | Some i \<Rightarrow> bindC (str_Free h (fst (t ! i))) (\<lambda>h'.
           ret (snd (t ! i), h', take i t @ drop (Suc i) t))))"

fun stl_entries_loop :: "hashtable \<Rightarrow> nat \<Rightarrow> nat \<Rightarrow> (char_ptr \<times> ptr) list \<Rightarrow> (char_ptr \<times> ptr) list" where
  "stl_entries_loop [] i n pairs = pairs"
| "stl_entries_loop ((s, v) # pos) i n pairs =
     (if i < n then stl_entries_loop pos (Suc i) n (pairs @ [(hs_value s, v)]) else pairs)"

definition StlHashtable_Entries ::
  "string heap \<Rightarrow> hashtable \<Rightarrow> string option \<Rightarrow> u64 \<Rightarrow> (char_ptr \<times> ptr) list comp" where
  "StlHashtable_Entries h t key n =
     bindC (if key = None then ret (Some 0)
            else bindC (str_Wrap h key) (\<lambda>skey. stl_find h t skey)) (\<lambda>pos.
       ret (stl_entries_loop (case pos of None \<Rightarrow> [] | Some i \<Rightarrow> drop i t) 0 (unat n) []))"

definition StlHashtable_Size :: "hashtable \<Rightarrow> nat" where
  "StlHashtable_Size t = length t"

section \<open>LockStlHashtable\<close>

text \<open>
  The mutex is free or held; a \<open>lock_guard\<close> on a held mutex waits, and for a single thread waits
  for ever. It is released on every way out of the operation.
\<close>

record lock_stl =
  lk_table :: hashtable
  lk_mutex :: bool

definition lock_guard :: "lock_stl \<Rightarrow> 'a comp \<Rightarrow> 'a comp" where
  "lock_guard t body = (if lk_mutex t then None else body)"

definition LockStlHashtable_Get :: "string heap \<Rightarrow> lock_stl \<Rightarrow> string option \<Rightarrow> ptr comp" where
  "LockStlHashtable_Get h t key = lock_guard t (StlHashtable_Get h (lk_table t) key)"

definition LockStlHashtable_Insert ::
  "(hashtable \<Rightarrow> hashtable) \<Rightarrow> string heap \<Rightarrow> lock_stl \<Rightarrow> string option \<Rightarrow> ptr \<Rightarrow>
   (bool \<times> string heap \<times> lock_stl) comp" where
  "LockStlHashtable_Insert arrange h t key v =
     lock_guard t (bindC (StlHashtable_Insert arrange h (lk_table t) key v) (\<lambda>(ok, h', t').
       ret (ok, h', t\<lparr>lk_table := t'\<rparr>)))"

definition LockStlHashtable_Update ::
  "string heap \<Rightarrow> lock_stl \<Rightarrow> string option \<Rightarrow> ptr \<Rightarrow> (ptr \<times> lock_stl) comp" where
  "LockStlHashtable_Update h t key v =
     lock_guard t (bindC (StlHashtable_Update h (lk_table t) key v) (\<lambda>(old, t').
       ret (old, t\<lparr>lk_table := t'\<rparr>)))"

definition LockStlHashtable_Remove ::
  "string heap \<Rightarrow> lock_stl \<Rightarrow> string option \<Rightarrow> (ptr \<times> string heap \<times> lock_stl) comp" where
  "LockStlHashtable_Remove h t key =
     lock_guard t (bindC (StlHashtable_Remove h (lk_table t) key) (\<lambda>(old, h', t').
       ret (old, h', t\<lparr>lk_table := t'\<rparr>)))"

definition LockStlHashtable_Size :: "lock_stl \<Rightarrow> nat comp" where
  "LockStlHashtable_Size t = lock_guard t (ret (StlHashtable_Size (lk_table t)))"

definition LockStlHashtable_Entries ::
  "string heap \<Rightarrow> lock_stl \<Rightarrow> string option \<Rightarrow> u64 \<Rightarrow> (char_ptr \<times> ptr) list comp" where
  "LockStlHashtable_Entries h t key n = lock_guard t (StlHashtable_Entries h (lk_table t) key n)"

definition LockStl_ops :: "(hashtable \<Rightarrow> hashtable) \<Rightarrow> lock_stl string_hashtable" where
  "LockStl_ops arrange = \<lparr>sh_new = \<lparr>lk_table = [], lk_mutex = False\<rparr>,
     sh_Get = LockStlHashtable_Get, sh_Insert = LockStlHashtable_Insert arrange,
     sh_Update = LockStlHashtable_Update, sh_Remove = LockStlHashtable_Remove,
     sh_Entries = LockStlHashtable_Entries, sh_Size = LockStlHashtable_Size\<rparr>"

section \<open>The contract of the class\<close>

text \<open>
  \<open>holds h t K m\<close>: the table \<open>t\<close> is well formed, owns the key copies at the addresses \<open>K\<close> and maps
  strings to pointers as \<open>m\<close> says. An insertion copies its key even when the key is already
  there; the entries come in one order that every call of \<open>Entries\<close> follows until the next
  insertion.
\<close>

definition entry_of :: "string heap \<Rightarrow> char_ptr \<times> ptr \<Rightarrow> string \<times> ptr \<Rightarrow> bool" where
  "entry_of h e f \<longleftrightarrow> str_value h (fst e) = ret (fst f) \<and> snd e = snd f"

locale string_hashtable =
  fixes H :: "'t string_hashtable"
    and holds :: "string heap \<Rightarrow> 't \<Rightarrow> nat set \<Rightarrow> (string \<rightharpoonup> ptr) \<Rightarrow> bool"
  assumes new_law: "holds h (sh_new H) {} Map.empty"
    and owned_law: "holds h t K m \<Longrightarrow> a \<in> K \<Longrightarrow> mem h a \<noteq> None"
    and frame_law: "holds h t K m \<Longrightarrow> (\<And>a. a \<in> K \<Longrightarrow> mem h' a = mem h a) \<Longrightarrow> holds h' t K m"
    and get_law: "holds h t K m \<Longrightarrow>
      sh_Get H h t (Some k) = ret (case m k of None \<Rightarrow> NULL | Some p \<Rightarrow> p)"
    and insert_new_law: "holds h t K m \<Longrightarrow> heap_ok h \<Longrightarrow> m k = None \<Longrightarrow>
      \<exists>t'. sh_Insert H h t (Some k) p = ret (True, snd (malloc h k), t') \<and>
        holds (snd (malloc h k)) t' (insert (brk h) K) (m(k \<mapsto> p))"
    and insert_old_law: "holds h t K m \<Longrightarrow> heap_ok h \<Longrightarrow> m k = Some q \<Longrightarrow>
      sh_Insert H h t (Some k) p = ret (False, snd (malloc h k), t)"
    and update_new_law: "holds h t K m \<Longrightarrow> m k = None \<Longrightarrow> sh_Update H h t (Some k) p = ret (NULL, t)"
    and update_old_law: "holds h t K m \<Longrightarrow> m k = Some q \<Longrightarrow>
      \<exists>t'. sh_Update H h t (Some k) p = ret (q, t') \<and> holds h t' K (m(k \<mapsto> p))"
    and remove_new_law: "holds h t K m \<Longrightarrow> m k = None \<Longrightarrow> sh_Remove H h t (Some k) = ret (NULL, h, t)"
    and remove_old_law: "holds h t K m \<Longrightarrow> m k = Some q \<Longrightarrow>
      \<exists>a t'. a \<in> K \<and> sh_Remove H h t (Some k) = ret (q, h\<lparr>mem := (mem h)(a := None)\<rparr>, t') \<and>
        holds (h\<lparr>mem := (mem h)(a := None)\<rparr>) t' (K - {a}) (m(k := None))"
    and entries_law: "holds h t K m \<Longrightarrow>
      \<exists>fs. distinct (map fst fs) \<and> map_of fs = m \<and>
        (\<forall>n. \<exists>es. sh_Entries H h t None n = ret es \<and> list_all2 (entry_of h) es (take (unat n) fs)) \<and>
        (\<forall>k n. \<exists>es. sh_Entries H h t (Some k) n = ret es \<and>
           list_all2 (entry_of h) es (take (unat n) (dropWhile (\<lambda>f. fst f \<noteq> k) fs)))"


section \<open>StlHashtable meets the contract\<close>

definition addr_of :: "hstring \<Rightarrow> nat" where
  "addr_of s = (case hs_value s of Caller _ \<Rightarrow> 0 | Owned a \<Rightarrow> a)"

definition key_text :: "string heap \<Rightarrow> hstring \<Rightarrow> string" where
  "key_text h s = the (mem h (addr_of s))"

definition stl_key :: "string heap \<Rightarrow> hstring \<Rightarrow> bool" where
  "stl_key h s \<longleftrightarrow> (\<exists>a c. hs_value s = Owned a \<and> mem h a = Some c \<and> hs_hash s = SDBMHash c)"

abbreviation stl_pairs :: "string heap \<Rightarrow> hashtable \<Rightarrow> (string \<times> ptr) list" where
  "stl_pairs h t \<equiv> map (\<lambda>e. (key_text h (fst e), snd e)) t"

definition stl_holds :: "string heap \<Rightarrow> hashtable \<Rightarrow> nat set \<Rightarrow> (string \<rightharpoonup> ptr) \<Rightarrow> bool" where
  "stl_holds h t K m \<longleftrightarrow> list_all (\<lambda>e. stl_key h (fst e)) t \<and>
     distinct (map (\<lambda>e. addr_of (fst e)) t) \<and> K = (\<lambda>e. addr_of (fst e)) ` set t \<and>
     distinct (map (\<lambda>e. key_text h (fst e)) t) \<and> m = map_of (stl_pairs h t)"

definition rearranges :: "(hashtable \<Rightarrow> hashtable) \<Rightarrow> bool" where
  "rearranges arrange \<longleftrightarrow> (\<forall>t. mset (arrange t) = mset t)"

lemma stl_key_value: "stl_key h s \<Longrightarrow> str_value h (hs_value s) = ret (key_text h s)"
  by (auto simp: stl_key_def key_text_def addr_of_def)

lemma stl_key_frame:
  "stl_key h s \<Longrightarrow> mem h' (addr_of s) = mem h (addr_of s) \<Longrightarrow> stl_key h' s \<and> key_text h' s = key_text h s"
  by (auto simp: stl_key_def key_text_def addr_of_def)

lemma str_eq_key:
  "stl_key h s \<Longrightarrow> str_value h (hs_value k) = ret c \<Longrightarrow> hs_hash k = SDBMHash c \<Longrightarrow>
   str_eq h s k = ret (key_text h s = c)"
  by (auto simp: str_eq_def stl_key_value stl_key_def key_text_def addr_of_def)

lemma stl_find_missing:
  assumes "str_value h (hs_value k) = ret c" and "hs_hash k = SDBMHash c"
  shows "list_all (\<lambda>e. stl_key h (fst e)) t \<Longrightarrow> map_of (stl_pairs h t) c = None \<Longrightarrow>
   stl_find h t k = ret None"
proof (induction t)
  case (Cons e t)
  then show ?case using str_eq_key [OF _ assms, of "fst e"] by (cases e) (auto split: if_splits)
qed simp

lemma stl_find_found:
  assumes "str_value h (hs_value k) = ret c" and "hs_hash k = SDBMHash c"
  shows "list_all (\<lambda>e. stl_key h (fst e)) t \<Longrightarrow> map_of (stl_pairs h t) c = Some p \<Longrightarrow>
   \<exists>xs s ys. t = xs @ (s, p) # ys \<and> key_text h s = c \<and>
     c \<notin> (\<lambda>e. key_text h (fst e)) ` set xs \<and> stl_find h t k = ret (Some (length xs))"
proof (induction t)
  case (Cons e t)
  obtain s q where e: "e = (s, q)" by (cases e)
  have eq: "str_eq h s k = ret (key_text h s = c)"
    using Cons.prems e str_eq_key [OF _ assms] by simp
  show ?case
  proof (cases "key_text h s = c")
    case True
    with Cons.prems e eq show ?thesis by (intro exI [of _ "[]"]) simp
  next
    case False
    with Cons e obtain xs s' ys where "t = xs @ (s', p) # ys" "key_text h s' = c"
        "c \<notin> (\<lambda>e. key_text h (fst e)) ` set xs" "stl_find h t k = ret (Some (length xs))"
      by auto
    with False e eq show ?thesis by (intro exI [of _ "e # xs"]) auto
  qed
qed simp

lemma str_Wrap_Some: "str_Wrap h (Some c) = ret \<lparr>hs_hash = SDBMHash c, hs_value = Caller c, hs_len = length c\<rparr>"
  by (simp add: str_Wrap_def str_set_value_def)

lemma str_Copy_Some: "str_Copy h (Some c) =
    ret (\<lparr>hs_hash = SDBMHash c, hs_value = Owned (brk h), hs_len = length c\<rparr>, snd (malloc h c))"
  by (simp add: str_Copy_def str_set_value_def malloc_def)

lemma stl_frame:
  assumes "stl_holds h t K m" and "\<And>a. a \<in> K \<Longrightarrow> mem h' a = mem h a"
  shows "stl_holds h' t K m"
proof -
  have e: "stl_key h' (fst e) \<and> key_text h' (fst e) = key_text h (fst e)" if "e \<in> set t" for e
    using assms that by (intro stl_key_frame) (auto simp: stl_holds_def list_all_iff)
  then have "map (\<lambda>e. key_text h' (fst e)) t = map (\<lambda>e. key_text h (fst e)) t"
    and "stl_pairs h' t = stl_pairs h t" by auto
  moreover have "list_all (\<lambda>e. stl_key h' (fst e)) t" using e by (simp add: list_all_iff)
  ultimately show ?thesis using assms(1) unfolding stl_holds_def by metis
qed

lemma stl_arrange:
  assumes "rearranges arrange" and "stl_holds h t K m"
  shows "stl_holds h (arrange t) K m"
proof -
  have ms: "mset (arrange t) = mset t" using assms(1) by (simp add: rearranges_def)
  then have st: "set (arrange t) = set t" by (rule mset_eq_setD)
  have dt: "distinct (map (\<lambda>e. key_text h (fst e)) (arrange t)) =
      distinct (map (\<lambda>e. key_text h (fst e)) t)"
    and da: "distinct (map (\<lambda>e. addr_of (fst e)) (arrange t)) =
      distinct (map (\<lambda>e. addr_of (fst e)) t)"
    using ms by (auto intro!: mset_eq_imp_distinct_iff)
  have d: "distinct (map fst (stl_pairs h t))"
    using assms(2) by (simp add: stl_holds_def comp_def)
  have "map_of (stl_pairs h (arrange t)) = map_of (stl_pairs h t)"
    using d dt st by (subst map_of_inject_set) (simp_all add: comp_def)
  then show ?thesis using assms(2) dt da st by (simp add: stl_holds_def list_all_iff)
qed

text \<open>A key not yet in the table, copied to a fresh block.\<close>

lemma stl_insert_new:
  assumes "rearranges arrange" and t: "stl_holds h t K m" and ok: "heap_ok h" and k: "m k = None"
  shows "\<exists>t'. StlHashtable_Insert arrange h t (Some k) p = ret (True, snd (malloc h k), t') \<and>
    stl_holds (snd (malloc h k)) t' (insert (brk h) K) (m(k \<mapsto> p))"
proof -
  let ?s = "\<lparr>hs_hash = SDBMHash k, hs_value = Owned (brk h), hs_len = length k\<rparr>"
  let ?h = "snd (malloc h k)"
  have K: "a \<in> K \<Longrightarrow> mem h a \<noteq> None" for a
    using t by (auto simp: stl_holds_def list_all_iff stl_key_def addr_of_def)
  have b: "brk h \<notin> K" using K heap_ok_fresh [OF ok] by blast
  then have t': "stl_holds ?h t K m"
    by (intro stl_frame [OF t]) (auto simp: malloc_def)
  have f: "stl_find ?h t ?s = ret None"
    by (rule stl_find_missing [of _ _ k]) (use t' k in \<open>auto simp: malloc_def stl_holds_def\<close>)
  have s: "stl_key ?h ?s" "key_text ?h ?s = k" "addr_of ?s = brk h"
    by (auto simp: stl_key_def key_text_def addr_of_def malloc_def)
  have n: "k \<notin> (\<lambda>e. key_text ?h (fst e)) ` set t"
    using t' k by (auto simp: stl_holds_def map_of_eq_None_iff image_image)
  have "stl_holds ?h ((?s, p) # t) (insert (brk h) K) (m(k \<mapsto> p))"
    using t' s n b by (auto simp: stl_holds_def)
  then show ?thesis
    using f stl_arrange [OF assms(1)] by (auto simp: StlHashtable_Insert_def str_Copy_Some)
qed

lemma stl_owned: "stl_holds h t K m \<Longrightarrow> a \<in> K \<Longrightarrow> mem h a \<noteq> None"
  by (auto simp: stl_holds_def list_all_iff stl_key_def addr_of_def)

lemma stl_wrap_missing:
  assumes "stl_holds h t K m" and "m k = None"
  shows "stl_find h t \<lparr>hs_hash = SDBMHash k, hs_value = Caller k, hs_len = length k\<rparr> = ret None"
  by (rule stl_find_missing [of _ _ k]) (use assms in \<open>auto simp: stl_holds_def\<close>)

text \<open>The entry of a key, and what the rest of the table does not share with it.\<close>

definition stl_split ::
  "string heap \<Rightarrow> hashtable \<Rightarrow> string \<Rightarrow> ptr \<Rightarrow> hashtable \<Rightarrow> hstring \<Rightarrow> hashtable \<Rightarrow> bool" where
  "stl_split h t k p xs s ys \<longleftrightarrow> t = xs @ (s, p) # ys \<and> key_text h s = k \<and> stl_key h s \<and>
     k \<notin> (\<lambda>e. key_text h (fst e)) ` set (xs @ ys) \<and>
     addr_of s \<notin> (\<lambda>e. addr_of (fst e)) ` set (xs @ ys)"

lemma stl_key_found:
  assumes "stl_holds h t K m" and "m k = Some p" and "str_value h v = ret k"
  obtains xs s ys where "stl_split h t k p xs s ys"
    and "stl_find h t \<lparr>hs_hash = SDBMHash k, hs_value = v, hs_len = n\<rparr> = ret (Some (length xs))"
proof -
  let ?k = "\<lparr>hs_hash = SDBMHash k, hs_value = v, hs_len = n\<rparr>"
  have "\<exists>xs s ys. t = xs @ (s, p) # ys \<and> key_text h s = k \<and>
     k \<notin> (\<lambda>e. key_text h (fst e)) ` set xs \<and> stl_find h t ?k = ret (Some (length xs))"
    by (rule stl_find_found) (use assms in \<open>auto simp: stl_holds_def\<close>)
  then obtain xs s ys where x: "t = xs @ (s, p) # ys" "key_text h s = k"
      "k \<notin> (\<lambda>e. key_text h (fst e)) ` set xs" "stl_find h t ?k = ret (Some (length xs))"
    by blast
  have "stl_split h t k p xs s ys"
    using assms(1) x(2,3) unfolding x(1) stl_holds_def stl_split_def by auto
  with x(4) show thesis using that by blast
qed

lemma stl_wrap_found:
  assumes "stl_holds h t K m" and "m k = Some p"
  obtains xs s ys where "stl_split h t k p xs s ys"
    and "stl_find h t \<lparr>hs_hash = SDBMHash k, hs_value = Caller k, hs_len = length k\<rparr> = ret (Some (length xs))"
  using stl_key_found [OF assms, of "Caller k" "length k"] by (metis str_value.simps(1))

lemma stl_split_missing: "stl_split h t k p xs s ys \<Longrightarrow> map_of (stl_pairs h xs) k = None"
  and stl_split_missing2: "stl_split h t k p xs s ys \<Longrightarrow> map_of (stl_pairs h ys) k = None"
  by (force simp: stl_split_def map_of_eq_None_iff)+

lemma stl_insert_old:
  assumes t: "stl_holds h t K m" and ok: "heap_ok h" and k: "m k = Some q"
  shows "StlHashtable_Insert arrange h t (Some k) p = ret (False, snd (malloc h k), t)"
proof -
  let ?h = "snd (malloc h k)"
  have "brk h \<notin> K" using stl_owned [OF t] heap_ok_fresh [OF ok] by blast
  then have t': "stl_holds ?h t K m"
    by (intro stl_frame [OF t]) (auto simp: malloc_def)
  have "str_value ?h (Owned (brk h)) = ret k" by (simp add: malloc_def)
  from stl_key_found [OF t' k this] obtain xs :: hashtable where
    "stl_find ?h t \<lparr>hs_hash = SDBMHash k, hs_value = Owned (brk h), hs_len = length k\<rparr> =
       ret (Some (length xs))" by metis
  then show ?thesis by (simp add: StlHashtable_Insert_def str_Copy_Some)
qed

lemma stl_get: "stl_holds h t K m \<Longrightarrow>
   StlHashtable_Get h t (Some k) = ret (case m k of None \<Rightarrow> NULL | Some p \<Rightarrow> p)"
proof (cases "m k")
  case None
  assume "stl_holds h t K m"
  with None show ?thesis by (simp add: StlHashtable_Get_def str_Wrap_Some stl_wrap_missing)
next
  case (Some p)
  assume t: "stl_holds h t K m"
  from stl_wrap_found [OF t Some] obtain xs s ys where "stl_split h t k p xs s ys"
    "stl_find h t \<lparr>hs_hash = SDBMHash k, hs_value = Caller k, hs_len = length k\<rparr> = ret (Some (length xs))" .
  with Some show ?thesis by (simp add: StlHashtable_Get_def str_Wrap_Some stl_split_def)
qed

lemma stl_update_old:
  assumes t: "stl_holds h t K m" and k: "m k = Some q"
  shows "\<exists>t'. StlHashtable_Update h t (Some k) p = ret (q, t') \<and> stl_holds h t' K (m(k \<mapsto> p))"
proof -
  from stl_wrap_found [OF t k] obtain xs s ys where x: "stl_split h t k q xs s ys"
    and f: "stl_find h t \<lparr>hs_hash = SDBMHash k, hs_value = Caller k, hs_len = length k\<rparr> = ret (Some (length xs))" .
  have t_eq: "t = xs @ (s, q) # ys" and kt: "key_text h s = k" using x by (simp_all add: stl_split_def)
  have "map_of (stl_pairs h (xs @ (s, p) # ys)) = (map_of (stl_pairs h t))(k \<mapsto> p)"
    unfolding t_eq using stl_split_missing [OF x] kt
    by (intro ext) (auto simp: map_add_def split: option.splits)
  then have "stl_holds h (xs @ (s, p) # ys) K (m(k \<mapsto> p))"
    using t unfolding stl_holds_def t_eq by auto
  then show ?thesis using t_eq f by (simp add: StlHashtable_Update_def str_Wrap_Some)
qed

lemma stl_remove_old:
  assumes t: "stl_holds h t K m" and k: "m k = Some q"
  shows "\<exists>a t'. a \<in> K \<and> StlHashtable_Remove h t (Some k) = ret (q, h\<lparr>mem := (mem h)(a := None)\<rparr>, t') \<and>
    stl_holds (h\<lparr>mem := (mem h)(a := None)\<rparr>) t' (K - {a}) (m(k := None))"
proof -
  from stl_wrap_found [OF t k] obtain xs s ys where x: "stl_split h t k q xs s ys"
    and f: "stl_find h t \<lparr>hs_hash = SDBMHash k, hs_value = Caller k, hs_len = length k\<rparr> = ret (Some (length xs))" .
  have t_eq: "t = xs @ (s, q) # ys" and kt: "key_text h s = k" and sk: "stl_key h s"
    and ad: "addr_of s \<notin> (\<lambda>e. addr_of (fst e)) ` set (xs @ ys)"
    using x by (simp_all add: stl_split_def)
  have "map_of (stl_pairs h (xs @ ys)) = (map_of (stl_pairs h t))(k := None)"
  proof
    fix x
    have "map_of (stl_pairs h (xs @ ys)) k = None"
      using stl_split_missing [OF x] stl_split_missing2 [OF x] by (simp add: map_add_def)
    then show "map_of (stl_pairs h (xs @ ys)) x = ((map_of (stl_pairs h t))(k := None)) x"
      unfolding t_eq using kt by (auto simp: map_add_def split: option.splits)
  qed
  then have "stl_holds h (xs @ ys) (K - {addr_of s}) (m(k := None))"
    using t ad unfolding stl_holds_def t_eq by auto
  then have "stl_holds (h\<lparr>mem := (mem h)(addr_of s := None)\<rparr>) (xs @ ys) (K - {addr_of s}) (m(k := None))"
    by (rule stl_frame) auto
  moreover have "str_Free h s = ret (h\<lparr>mem := (mem h)(addr_of s := None)\<rparr>)"
    using sk by (auto simp: str_Free_def stl_key_def addr_of_def)
  moreover have "addr_of s \<in> K" using t t_eq by (auto simp: stl_holds_def)
  ultimately show ?thesis using t_eq f by (auto simp: StlHashtable_Remove_def str_Wrap_Some)
qed

lemma stl_entries_loop_eq:
  "stl_entries_loop t i n pairs = pairs @ map (\<lambda>e. (hs_value (fst e), snd e)) (take (n - i) t)"
  by (induction t i n pairs rule: stl_entries_loop.induct) (auto simp: take_Cons' Suc_diff_Suc)

lemma stl_entries_of:
  assumes "stl_holds h t K m"
  shows "list_all2 (entry_of h) (map (\<lambda>e. (hs_value (fst e), snd e)) (take n (drop i t)))
     (take n (drop i (stl_pairs h t)))"
proof -
  have "stl_key h (fst e)" if "e \<in> set (take n (drop i t))" for e
    using assms that by (auto simp: stl_holds_def list_all_iff dest!: in_set_takeD in_set_dropD)
  then show ?thesis
    by (auto simp: take_map drop_map list_all2_map1 list_all2_map2 entry_of_def stl_key_value
        intro!: list_all2_same [THEN iffD2])
qed

lemma stl_entries:
  assumes t: "stl_holds h t K m"
  shows "\<exists>fs. distinct (map fst fs) \<and> map_of fs = m \<and>
    (\<forall>n. \<exists>es. StlHashtable_Entries h t None n = ret es \<and> list_all2 (entry_of h) es (take (unat n) fs)) \<and>
    (\<forall>k n. \<exists>es. StlHashtable_Entries h t (Some k) n = ret es \<and>
       list_all2 (entry_of h) es (take (unat n) (dropWhile (\<lambda>f. fst f \<noteq> k) fs)))"
proof (intro exI [of _ "stl_pairs h t"] conjI allI)
  show "distinct (map fst (stl_pairs h t))" and "map_of (stl_pairs h t) = m"
    using t by (auto simp: stl_holds_def comp_def)
  show "\<exists>es. StlHashtable_Entries h t None n = ret es \<and> list_all2 (entry_of h) es (take (unat n) (stl_pairs h t))" for n
    using stl_entries_of [OF t, of "unat n" 0] by (simp add: StlHashtable_Entries_def stl_entries_loop_eq)
  show "\<exists>es. StlHashtable_Entries h t (Some k) n = ret es \<and>
       list_all2 (entry_of h) es (take (unat n) (dropWhile (\<lambda>f. fst f \<noteq> k) (stl_pairs h t)))" for k n
  proof (cases "m k")
    case None
    then have "dropWhile (\<lambda>f. fst f \<noteq> k) (stl_pairs h t) = []"
      using t by (force simp: stl_holds_def map_of_eq_None_iff)
    with None show ?thesis
      by (simp add: StlHashtable_Entries_def str_Wrap_Some stl_wrap_missing [OF t] stl_entries_loop_eq)
  next
    case (Some p)
    from stl_wrap_found [OF t Some] obtain xs s ys where x: "stl_split h t k p xs s ys"
      and f: "stl_find h t \<lparr>hs_hash = SDBMHash k, hs_value = Caller k, hs_len = length k\<rparr> = ret (Some (length xs))" .
    have "dropWhile (\<lambda>f. fst f \<noteq> k) (stl_pairs h xs @ zs) = dropWhile (\<lambda>f. fst f \<noteq> k) zs" for zs
      by (rule dropWhile_append2) (use x in \<open>force simp: stl_split_def image_iff\<close>)
    then have "dropWhile (\<lambda>f. fst f \<noteq> k) (stl_pairs h t) = drop (length xs) (stl_pairs h t)"
      using x unfolding stl_split_def by auto
    then show ?thesis
      using f stl_entries_of [OF t, of "unat n" "length xs"]
      by (simp add: StlHashtable_Entries_def str_Wrap_Some stl_entries_loop_eq)
  qed
qed

section \<open>The locked table meets the contract\<close>

definition LockStl_holds :: "string heap \<Rightarrow> lock_stl \<Rightarrow> nat set \<Rightarrow> (string \<rightharpoonup> ptr) \<Rightarrow> bool" where
  "LockStl_holds h t K m \<longleftrightarrow> \<not> lk_mutex t \<and> stl_holds h (lk_table t) K m"

lemma LockStl_string_hashtable:
  assumes a: "rearranges arrange"
  shows "string_hashtable (LockStl_ops arrange) LockStl_holds"
proof unfold_locales
  note defs = LockStl_ops_def LockStl_holds_def lock_guard_def
  show "LockStl_holds h (sh_new (LockStl_ops arrange)) {} Map.empty" for h
    by (simp add: defs stl_holds_def)
  fix h t K m k p q
  assume t: "LockStl_holds h t K m"
  then have s: "stl_holds h (lk_table t) K m" and l: "\<not> lk_mutex t" by (simp_all add: defs)
  show "x \<in> K \<Longrightarrow> mem h x \<noteq> None" for x by (rule stl_owned [OF s])
  show "(\<And>x. x \<in> K \<Longrightarrow> mem h' x = mem h x) \<Longrightarrow> LockStl_holds h' t K m" for h' :: "string heap"
    using l stl_frame [OF s] by (simp add: defs)
  show "sh_Get (LockStl_ops arrange) h t (Some k) = ret (case m k of None \<Rightarrow> NULL | Some p \<Rightarrow> p)"
    using l stl_get [OF s] by (simp add: defs LockStlHashtable_Get_def)
  show "heap_ok h \<Longrightarrow> m k = None \<Longrightarrow>
      \<exists>t'. sh_Insert (LockStl_ops arrange) h t (Some k) p = ret (True, snd (malloc h k), t') \<and>
        LockStl_holds (snd (malloc h k)) t' (insert (brk h) K) (m(k \<mapsto> p))"
    using l stl_insert_new [OF a s, of k p] by (auto simp: defs LockStlHashtable_Insert_def)
  show "heap_ok h \<Longrightarrow> m k = Some q \<Longrightarrow>
      sh_Insert (LockStl_ops arrange) h t (Some k) p = ret (False, snd (malloc h k), t)"
    using l stl_insert_old [OF s, of k q arrange p] by (auto simp: defs LockStlHashtable_Insert_def)
  show "m k = None \<Longrightarrow> sh_Update (LockStl_ops arrange) h t (Some k) p = ret (NULL, t)"
    using l stl_wrap_missing [OF s]
    by (simp add: defs LockStlHashtable_Update_def StlHashtable_Update_def str_Wrap_Some)
  show "m k = Some q \<Longrightarrow>
      \<exists>t'. sh_Update (LockStl_ops arrange) h t (Some k) p = ret (q, t') \<and> LockStl_holds h t' K (m(k \<mapsto> p))"
    using l stl_update_old [OF s, of k q p] by (auto simp: defs LockStlHashtable_Update_def)
  show "m k = None \<Longrightarrow> sh_Remove (LockStl_ops arrange) h t (Some k) = ret (NULL, h, t)"
    using l stl_wrap_missing [OF s]
    by (simp add: defs LockStlHashtable_Remove_def StlHashtable_Remove_def str_Wrap_Some)
  show "m k = Some q \<Longrightarrow>
      \<exists>a t'. a \<in> K \<and> sh_Remove (LockStl_ops arrange) h t (Some k) = ret (q, h\<lparr>mem := (mem h)(a := None)\<rparr>, t') \<and>
        LockStl_holds (h\<lparr>mem := (mem h)(a := None)\<rparr>) t' (K - {a}) (m(k := None))"
    using l stl_remove_old [OF s, of k q] by (fastforce simp: defs LockStlHashtable_Remove_def)
  show "\<exists>fs. distinct (map fst fs) \<and> map_of fs = m \<and>
        (\<forall>n. \<exists>es. sh_Entries (LockStl_ops arrange) h t None n = ret es \<and>
           list_all2 (entry_of h) es (take (unat n) fs)) \<and>
        (\<forall>k n. \<exists>es. sh_Entries (LockStl_ops arrange) h t (Some k) n = ret es \<and>
           list_all2 (entry_of h) es (take (unat n) (dropWhile (\<lambda>f. fst f \<noteq> k) fs)))"
    using l stl_entries [OF s] by (simp add: defs LockStlHashtable_Entries_def)
qed

text \<open>The order \<^verbatim>\<open>libstdc++\<close> gives when the new entry's bucket is empty: at the front.\<close>

definition at_front :: "hashtable \<Rightarrow> hashtable" where
  "at_front t = t"

interpretation lock_stl: string_hashtable "LockStl_ops at_front" LockStl_holds
  by (rule LockStl_string_hashtable) (simp add: rearranges_def at_front_def)

end
