(* ===== verification/Hashtable_DB.thy ===== *)
theory Hashtable_DB
  imports Storeds_DB String_Hashtable
begin

text \<open>
  The string-keyed database \<open>HashtableDB\<close> (\<^verbatim>\<open>src/db/hashtable_db.h\<close>, \<^verbatim>\<open>src/db/hashtable_db.cc\<close>) with
  the memory management of its subclass \<open>LockStlDB\<close> (\<^verbatim>\<open>src/db/lock_stl_db.h\<close>): a hash table of
  records, each a hash table of fields, whose values are C strings from \<^verbatim>\<open>new char[]\<close>. The lemmas
  are proved from the contract \<open>string_hashtable\<close> alone and then applied to the locked table.
\<close>

section \<open>State and memory management\<close>

text \<open>The three heaps are those of \<^verbatim>\<open>malloc\<close> (key copies), \<^verbatim>\<open>new char[]\<close> (values) and \<^verbatim>\<open>new\<close> (tables).\<close>

record 't hashtable_db =
  key_mem :: "string heap"
  val_mem :: "string heap"
  tab_mem :: "'t heap"
  key_table :: 't

definition LockStlDB_init :: "'t string_hashtable \<Rightarrow> 't hashtable_db" where
  "LockStlDB_init H = \<lparr>key_mem = empty_heap, val_mem = empty_heap, tab_mem = empty_heap,
     key_table = sh_new H\<rparr>"

definition NewFieldHashtable :: "'t string_hashtable \<Rightarrow> 't hashtable_db \<Rightarrow> ptr \<times> 't hashtable_db" where
  "NewFieldHashtable H s = (let (p, h) = malloc (tab_mem s) (sh_new H) in (p, s\<lparr>tab_mem := h\<rparr>))"

definition CopyString :: "'t hashtable_db \<Rightarrow> string \<Rightarrow> ptr \<times> 't hashtable_db" where
  "CopyString s str = (let (p, h) = malloc (val_mem s) (c_str str) in (p, s\<lparr>val_mem := h\<rparr>))"

definition DeleteString :: "'t hashtable_db \<Rightarrow> ptr \<Rightarrow> 't hashtable_db comp" where
  "DeleteString s str = bindC (cfree (val_mem s) str) (\<lambda>h. ret (s\<lparr>val_mem := h\<rparr>))"

fun DeleteFieldHashtable_loop :: "(char_ptr \<times> ptr) list \<Rightarrow> 't hashtable_db \<Rightarrow> 't hashtable_db comp" where
  "DeleteFieldHashtable_loop [] s = ret s"
| "DeleteFieldHashtable_loop (pair # pairs) s =
     bindC (DeleteString s (snd pair)) (\<lambda>s'. DeleteFieldHashtable_loop pairs s')"

definition DeleteFieldHashtable ::
  "'t string_hashtable \<Rightarrow> 't hashtable_db \<Rightarrow> ptr \<Rightarrow> 't hashtable_db comp" where
  "DeleteFieldHashtable H s table =
     bindC (load (tab_mem s) table) (\<lambda>t.
     bindC (sh_Entries H (key_mem s) t None (- 1)) (\<lambda>pairs.
     bindC (DeleteFieldHashtable_loop pairs s) (\<lambda>s'.
     bindC (cfree (tab_mem s') table) (\<lambda>h. ret (s'\<lparr>tab_mem := h\<rparr>)))))"

fun LockStlDB_destroy_loop ::
  "'t string_hashtable \<Rightarrow> (char_ptr \<times> ptr) list \<Rightarrow> 't hashtable_db \<Rightarrow> 't hashtable_db comp" where
  "LockStlDB_destroy_loop H [] s = ret s"
| "LockStlDB_destroy_loop H (key_pair # key_pairs) s =
     bindC (DeleteFieldHashtable H s (snd key_pair)) (\<lambda>s'. LockStlDB_destroy_loop H key_pairs s')"

text \<open>The destructor; \<^verbatim>\<open>delete key_table_\<close> ends the key table, which the result no longer has.\<close>

definition LockStlDB_destroy ::
  "'t string_hashtable \<Rightarrow> 't hashtable_db \<Rightarrow> (string heap \<times> string heap \<times> 't heap) comp" where
  "LockStlDB_destroy H s =
     bindC (sh_Entries H (key_mem s) (key_table s) None (- 1)) (\<lambda>key_pairs.
     bindC (LockStlDB_destroy_loop H key_pairs s) (\<lambda>s'. ret (key_mem s', val_mem s', tab_mem s')))"

section \<open>Read and Scan\<close>

text \<open>The two ways of collecting fields, written out in both operations.\<close>

fun field_entries :: "'t hashtable_db \<Rightarrow> (char_ptr \<times> ptr) list \<Rightarrow> (string \<times> string) list comp" where
  "field_entries s [] = ret []"
| "field_entries s (field_pair # field_pairs) =
     bindC (str_value (key_mem s) (fst field_pair)) (\<lambda>k.
     bindC (load (val_mem s) (snd field_pair)) (\<lambda>v.
     bindC (field_entries s field_pairs) (\<lambda>r. ret ((k, v) # r))))"

fun field_gets ::
  "'t string_hashtable \<Rightarrow> 't hashtable_db \<Rightarrow> 't \<Rightarrow> string list \<Rightarrow> (string \<times> string) list comp" where
  "field_gets H s t [] = ret []"
| "field_gets H s t (field # flds) =
     bindC (sh_Get H (key_mem s) t (Some (c_str field))) (\<lambda>value.
       if value = NULL then field_gets H s t flds
       else bindC (load (val_mem s) value) (\<lambda>v.
            bindC (field_gets H s t flds) (\<lambda>r. ret ((field, v) # r))))"

definition read_record ::
  "'t string_hashtable \<Rightarrow> 't hashtable_db \<Rightarrow> ptr \<Rightarrow> string list option \<Rightarrow> (string \<times> string) list comp" where
  "read_record H s field_table flds =
     bindC (load (tab_mem s) field_table) (\<lambda>t.
       case flds of
         None \<Rightarrow> bindC (sh_Entries H (key_mem s) t None (- 1)) (field_entries s)
       | Some fs \<Rightarrow> field_gets H s t fs)"

definition HashtableDB_Read ::
  "'t string_hashtable \<Rightarrow> 't hashtable_db \<Rightarrow> string \<Rightarrow> string \<Rightarrow> string list option \<Rightarrow>
   (string \<times> string) list \<Rightarrow> (int \<times> (string \<times> string) list) comp" where
  "HashtableDB_Read H s table key flds result =
     bindC (sh_Get H (key_mem s) (key_table s) (Some (c_str (table @ key)))) (\<lambda>field_table.
       if field_table = NULL then ret (kErrorNoData, result)
       else bindC (read_record H s field_table flds) (\<lambda>r. ret (kOK, r)))"

fun HashtableDB_Scan_loop ::
  "'t string_hashtable \<Rightarrow> 't hashtable_db \<Rightarrow> string list option \<Rightarrow> (char_ptr \<times> ptr) list \<Rightarrow>
   (string \<times> string) list list comp" where
  "HashtableDB_Scan_loop H s flds [] = ret []"
| "HashtableDB_Scan_loop H s flds (key_pair # key_pairs) =
     bindC (read_record H s (snd key_pair) flds) (\<lambda>field_values.
     bindC (HashtableDB_Scan_loop H s flds key_pairs) (\<lambda>r. ret (field_values # r)))"

text \<open>\<open>len\<close> is an \<open>int\<close> passed as a \<open>size_t\<close>.\<close>

definition HashtableDB_Scan ::
  "'t string_hashtable \<Rightarrow> 't hashtable_db \<Rightarrow> string \<Rightarrow> string \<Rightarrow> int \<Rightarrow> string list option \<Rightarrow>
   (int \<times> (string \<times> string) list list) comp" where
  "HashtableDB_Scan H s table key len flds =
     bindC (sh_Entries H (key_mem s) (key_table s) (Some (c_str (table @ key))) (word_of_int len)) (\<lambda>key_pairs.
     bindC (HashtableDB_Scan_loop H s flds key_pairs) (\<lambda>result. ret (kOK, result)))"

section \<open>Update, Insert and Delete\<close>

text \<open>One call on a field table of the heap.\<close>

definition field_insert ::
  "'t string_hashtable \<Rightarrow> 't hashtable_db \<Rightarrow> ptr \<Rightarrow> string \<Rightarrow> ptr \<Rightarrow> (bool \<times> 't hashtable_db) comp" where
  "field_insert H s field_table field value =
     bindC (load (tab_mem s) field_table) (\<lambda>t.
     bindC (sh_Insert H (key_mem s) t (Some (c_str field)) value) (\<lambda>(ok, km, t').
     bindC (store (tab_mem s) field_table t') (\<lambda>h.
       ret (ok, s\<lparr>key_mem := km, tab_mem := h\<rparr>))))"

definition field_update ::
  "'t string_hashtable \<Rightarrow> 't hashtable_db \<Rightarrow> ptr \<Rightarrow> string \<Rightarrow> ptr \<Rightarrow> (ptr \<times> 't hashtable_db) comp" where
  "field_update H s field_table field value =
     bindC (load (tab_mem s) field_table) (\<lambda>t.
     bindC (sh_Update H (key_mem s) t (Some (c_str field)) value) (\<lambda>(old, t').
     bindC (store (tab_mem s) field_table t') (\<lambda>h.
       ret (old, s\<lparr>tab_mem := h\<rparr>))))"

text \<open>\<open>field_table = NewFieldHashtable(); key_table_->Insert(key_index.c_str(), field_table);\<close>\<close>

definition new_record :: "'t string_hashtable \<Rightarrow> 't hashtable_db \<Rightarrow> string \<Rightarrow> (ptr \<times> 't hashtable_db) comp" where
  "new_record H s key_index =
     (let (field_table, s') = NewFieldHashtable H s in
      bindC (sh_Insert H (key_mem s') (key_table s') (Some key_index) field_table) (\<lambda>(_, km, kt).
        ret (field_table, s'\<lparr>key_mem := km, key_table := kt\<rparr>)))"

fun Update_new_loop ::
  "'t string_hashtable \<Rightarrow> 't hashtable_db \<Rightarrow> ptr \<Rightarrow> (string \<times> string) list \<Rightarrow> 't hashtable_db comp" where
  "Update_new_loop H s field_table [] = ret s"
| "Update_new_loop H s field_table (field_pair # values) =
     (let (value, s1) = CopyString s (snd field_pair) in
      bindC (field_insert H s1 field_table (fst field_pair) value) (\<lambda>(_, s2).
        Update_new_loop H s2 field_table values))"

fun Update_old_loop ::
  "'t string_hashtable \<Rightarrow> 't hashtable_db \<Rightarrow> ptr \<Rightarrow> (string \<times> string) list \<Rightarrow> 't hashtable_db comp" where
  "Update_old_loop H s field_table [] = ret s"
| "Update_old_loop H s field_table (field_pair # values) =
     (let (value, s1) = CopyString s (snd field_pair) in
      bindC (field_update H s1 field_table (fst field_pair) value) (\<lambda>(old, s2).
      bindC (if old = NULL
             then bindC (field_insert H s2 field_table (fst field_pair) value) (\<lambda>(_, s3). ret s3)
             else DeleteString s2 old) (\<lambda>s3.
        Update_old_loop H s3 field_table values)))"

definition HashtableDB_Update ::
  "'t string_hashtable \<Rightarrow> 't hashtable_db \<Rightarrow> string \<Rightarrow> string \<Rightarrow> (string \<times> string) list \<Rightarrow>
   (int \<times> 't hashtable_db) comp" where
  "HashtableDB_Update H s table key values =
     bindC (sh_Get H (key_mem s) (key_table s) (Some (c_str (table @ key)))) (\<lambda>field_table.
       if field_table = NULL
       then bindC (new_record H s (c_str (table @ key))) (\<lambda>(field_table', s1).
            bindC (Update_new_loop H s1 field_table' values) (\<lambda>s2. ret (kOK, s2)))
       else bindC (Update_old_loop H s field_table values) (\<lambda>s2. ret (kOK, s2)))"

fun Insert_loop ::
  "'t string_hashtable \<Rightarrow> 't hashtable_db \<Rightarrow> ptr \<Rightarrow> (string \<times> string) list \<Rightarrow> (int \<times> 't hashtable_db) comp" where
  "Insert_loop H s field_table [] = ret (kOK, s)"
| "Insert_loop H s field_table (field_pair # values) =
     (let (value, s1) = CopyString s (snd field_pair) in
      bindC (field_insert H s1 field_table (fst field_pair) value) (\<lambda>(ok, s2).
        if \<not> ok then bindC (DeleteString s2 value) (\<lambda>s3. ret (kErrorConflict, s3))
        else Insert_loop H s2 field_table values))"

definition HashtableDB_Insert ::
  "'t string_hashtable \<Rightarrow> 't hashtable_db \<Rightarrow> string \<Rightarrow> string \<Rightarrow> (string \<times> string) list \<Rightarrow>
   (int \<times> 't hashtable_db) comp" where
  "HashtableDB_Insert H s table key values =
     bindC (sh_Get H (key_mem s) (key_table s) (Some (c_str (table @ key)))) (\<lambda>field_table.
     bindC (if field_table = NULL then new_record H s (c_str (table @ key))
            else ret (field_table, s)) (\<lambda>(field_table', s1).
       Insert_loop H s1 field_table' values))"

definition HashtableDB_Delete ::
  "'t string_hashtable \<Rightarrow> 't hashtable_db \<Rightarrow> string \<Rightarrow> string \<Rightarrow> (int \<times> 't hashtable_db) comp" where
  "HashtableDB_Delete H s table key =
     bindC (sh_Remove H (key_mem s) (key_table s) (Some (c_str (table @ key)))) (\<lambda>(field_table, km, kt).
       let s1 = s\<lparr>key_mem := km, key_table := kt\<rparr> in
       if field_table = NULL then ret (kErrorNoData, s1)
       else bindC (DeleteFieldHashtable H s1 field_table) (\<lambda>s2. ret (kOK, s2)))"

section \<open>What the calls mean\<close>

text \<open>
  A map from records to maps from fields. Insertion stops at the first field that is there; an
  update that creates the record keeps the first value of a repeated field, an update of a record
  that is there keeps the last.
\<close>

type_synonym fields_map = "string \<rightharpoonup> string"
type_synonym records_map = "string \<rightharpoonup> fields_map"

fun put_first :: "fields_map \<Rightarrow> (string \<times> string) list \<Rightarrow> fields_map" where
  "put_first r [] = r"
| "put_first r (p # ps) =
     put_first (if r (c_str (fst p)) = None then r(c_str (fst p) \<mapsto> c_str (snd p)) else r) ps"

fun put_last :: "fields_map \<Rightarrow> (string \<times> string) list \<Rightarrow> fields_map" where
  "put_last r [] = r"
| "put_last r (p # ps) = put_last (r(c_str (fst p) \<mapsto> c_str (snd p))) ps"

fun put_until :: "fields_map \<Rightarrow> (string \<times> string) list \<Rightarrow> int \<times> fields_map" where
  "put_until r [] = (kOK, r)"
| "put_until r (p # ps) =
     (if r (c_str (fst p)) = None then put_until (r(c_str (fst p) \<mapsto> c_str (snd p))) ps
      else (kErrorConflict, r))"

definition get_fields :: "fields_map \<Rightarrow> string list \<Rightarrow> (string \<times> string) list" where
  "get_fields r fs = map (\<lambda>f. (f, the (r (c_str f)))) (filter (\<lambda>f. r (c_str f) \<noteq> None) fs)"

text \<open>
  What reading a record returns: the fields asked for in their order, or, for a null \<open>fields\<close>, all
  fields in some order (at most \<open>n = -1\<close> of them, a \<open>size_t\<close>).
\<close>

definition record_result :: "fields_map \<Rightarrow> string list option \<Rightarrow> (string \<times> string) list \<Rightarrow> bool" where
  "record_result r flds xs \<longleftrightarrow> (case flds of
      Some fs \<Rightarrow> xs = get_fields r fs
    | None \<Rightarrow> \<exists>ys. distinct (map fst ys) \<and> map_of ys = r \<and> xs = take (unat (- 1 :: u64)) ys)"

text \<open>What a scan returns when the table enumerates its records as \<open>ks\<close>.\<close>

definition scan_result ::
  "records_map \<Rightarrow> string list \<Rightarrow> string \<Rightarrow> int \<Rightarrow> string list option \<Rightarrow> (string \<times> string) list list \<Rightarrow> bool" where
  "scan_result M ks k len flds xss \<longleftrightarrow> list_all2 (\<lambda>k'. record_result (the (M k')) flds)
     (take (unat (word_of_int len :: u64)) (dropWhile (\<lambda>k'. k' \<noteq> k) ks)) xss"

datatype hdb_op =
    HRead string string "string list option"
  | HScan string string int "string list option"
  | HUpdate string string "(string \<times> string) list"
  | HInsert string string "(string \<times> string) list"
  | HDelete string string

datatype hdb_res =
    HGot int "(string \<times> string) list" | HScanned int "(string \<times> string) list list" | HDone int

fun hdb_step ::
  "'t string_hashtable \<Rightarrow> 't hashtable_db \<Rightarrow> hdb_op \<Rightarrow> (hdb_res \<times> 't hashtable_db) comp" where
  "hdb_step H s (HRead t k flds) =
     bindC (HashtableDB_Read H s t k flds []) (\<lambda>(st, r). ret (HGot st r, s))"
| "hdb_step H s (HScan t k len flds) =
     bindC (HashtableDB_Scan H s t k len flds) (\<lambda>(st, r). ret (HScanned st r, s))"
| "hdb_step H s (HUpdate t k vs) = bindC (HashtableDB_Update H s t k vs) (\<lambda>(st, s'). ret (HDone st, s'))"
| "hdb_step H s (HInsert t k vs) = bindC (HashtableDB_Insert H s t k vs) (\<lambda>(st, s'). ret (HDone st, s'))"
| "hdb_step H s (HDelete t k) = bindC (HashtableDB_Delete H s t k) (\<lambda>(st, s'). ret (HDone st, s'))"

fun hdb_run ::
  "'t string_hashtable \<Rightarrow> 't hashtable_db \<Rightarrow> hdb_op list \<Rightarrow> (hdb_res list \<times> 't hashtable_db) comp" where
  "hdb_run H s [] = ret ([], s)"
| "hdb_run H s (c # cs) =
     bindC (hdb_step H s c) (\<lambda>(r, s'). bindC (hdb_run H s' cs) (\<lambda>(rs, s''). ret (r # rs, s'')))"

text \<open>The map after a call, and the results a call may have.\<close>

fun hdb_next :: "records_map \<Rightarrow> hdb_op \<Rightarrow> records_map" where
  "hdb_next M (HRead t k flds) = M"
| "hdb_next M (HScan t k len flds) = M"
| "hdb_next M (HUpdate t k vs) = M(c_str (t @ k) \<mapsto>
     (case M (c_str (t @ k)) of None \<Rightarrow> put_first Map.empty vs | Some r \<Rightarrow> put_last r vs))"
| "hdb_next M (HInsert t k vs) = M(c_str (t @ k) \<mapsto>
     snd (put_until (case M (c_str (t @ k)) of None \<Rightarrow> Map.empty | Some r \<Rightarrow> r) vs))"
| "hdb_next M (HDelete t k) = M(c_str (t @ k) := None)"

fun hdb_allowed :: "records_map \<Rightarrow> hdb_op \<Rightarrow> hdb_res \<Rightarrow> bool" where
  "hdb_allowed M (HRead t k flds) res \<longleftrightarrow> (case M (c_str (t @ k)) of
      None \<Rightarrow> res = HGot kErrorNoData []
    | Some r \<Rightarrow> \<exists>xs. res = HGot kOK xs \<and> record_result r flds xs)"
| "hdb_allowed M (HScan t k len flds) res \<longleftrightarrow> (\<exists>ks xss. distinct ks \<and> set ks = dom M \<and>
      res = HScanned kOK xss \<and> scan_result M ks (c_str (t @ k)) len flds xss)"
| "hdb_allowed M (HUpdate t k vs) res \<longleftrightarrow> res = HDone kOK"
| "hdb_allowed M (HInsert t k vs) res \<longleftrightarrow>
     res = HDone (fst (put_until (case M (c_str (t @ k)) of None \<Rightarrow> Map.empty | Some r \<Rightarrow> r) vs))"
| "hdb_allowed M (HDelete t k) res \<longleftrightarrow>
     res = HDone (if M (c_str (t @ k)) = None then kErrorNoData else kOK)"

fun hdb_allowed_run :: "records_map \<Rightarrow> hdb_op list \<Rightarrow> hdb_res list \<Rightarrow> bool" where
  "hdb_allowed_run M [] rs \<longleftrightarrow> rs = []"
| "hdb_allowed_run M (c # cs) rs \<longleftrightarrow>
     (case rs of [] \<Rightarrow> False | r # rs' \<Rightarrow> hdb_allowed M c r \<and> hdb_allowed_run (hdb_next M c) cs rs')"

lemma put_until_conflict:
  "put_until r vs = (kOK, r') \<Longrightarrow> r' (c_str (fst p)) \<noteq> None \<Longrightarrow>
   put_until r (vs @ p # ws) = (kErrorConflict, r')"
  by (induction r vs rule: put_until.induct) (auto simp: kOK_def kErrorConflict_def split: if_splits)

text \<open>Records are found by the concatenation of table and key, so two tables can share one.\<close>

lemma hashtable_db_tables_collide:
  "HashtableDB_Read H s ''usertable'' ''1key'' fs res = HashtableDB_Read H s ''usertable1'' ''key'' fs res"
  by (simp add: HashtableDB_Read_def)

section \<open>Ownership\<close>

text \<open>
  \<open>kt\<close> gives each record's field table, \<open>G\<close> each field table's value blocks, \<open>K\<close> and \<open>F\<close> the key
  copies owned by the key table and by the field tables. No block has two owners.
\<close>

abbreviation ptrs :: "(string \<rightharpoonup> nat) \<Rightarrow> (string \<rightharpoonup> ptr)" where
  "ptrs f \<equiv> (\<lambda>k. map_option Some (f k))"

definition record_map ::
  "'t hashtable_db \<Rightarrow> (string \<rightharpoonup> nat) \<Rightarrow> (nat \<Rightarrow> string \<rightharpoonup> nat) \<Rightarrow> records_map" where
  "record_map s kt G = (\<lambda>k. map_option (\<lambda>a f. Option.bind (G a f) (mem (val_mem s))) (kt k))"

lemma ptrs_upd [simp]: "ptrs (f(k \<mapsto> a)) = (ptrs f)(k \<mapsto> Some a)" "ptrs (f(k := None)) = (ptrs f)(k := None)"
  by auto

lemma malloc_simps [simp]:
  "fst (malloc h n) = Some (brk h)"
  "mem (snd (malloc h n)) = (mem h)(brk h \<mapsto> n)"
  "brk (snd (malloc h n)) = Suc (brk h)"
  "heap_ok h \<Longrightarrow> heap_ok (snd (malloc h n))"
  by (simp_all add: malloc_def)

lemma heap_ok_malloc_free [simp]:
  "heap_ok h \<Longrightarrow> heap_ok (snd (malloc h n)\<lparr>mem := (mem h)(a := None)\<rparr>)"
  "heap_ok h \<Longrightarrow> heap_ok (snd (malloc h n)\<lparr>mem := (mem h)(brk h \<mapsto> n, a := None)\<rparr>)"
  by (auto simp: heap_ok_def malloc_def less_Suc_eq)

lemma CopyString_simps [simp]:
  "CopyString s v = (Some (brk (val_mem s)), s\<lparr>val_mem := snd (malloc (val_mem s) (c_str v))\<rparr>)"
  by (simp add: CopyString_def malloc_def)

type_synonym 't table_rep = "string heap \<Rightarrow> 't \<Rightarrow> nat set \<Rightarrow> (string \<rightharpoonup> ptr) \<Rightarrow> bool"

definition field_ok :: "'t table_rep \<Rightarrow> 't hashtable_db \<Rightarrow> nat \<Rightarrow> nat set \<Rightarrow> (string \<rightharpoonup> nat) \<Rightarrow> bool" where
  "field_ok holds s a Ks g \<longleftrightarrow> (\<exists>t. mem (tab_mem s) a = Some t \<and> holds (key_mem s) t Ks (ptrs g)) \<and>
     inj_on g (dom g) \<and> ran g \<subseteq> dom (mem (val_mem s))"

definition db_ok ::
  "'t table_rep \<Rightarrow> 't hashtable_db \<Rightarrow> nat set \<Rightarrow> (string \<rightharpoonup> nat) \<Rightarrow> (nat \<Rightarrow> nat set) \<Rightarrow>
   (nat \<Rightarrow> string \<rightharpoonup> nat) \<Rightarrow> bool" where
  "db_ok holds s K kt F G \<longleftrightarrow> heap_ok (key_mem s) \<and> heap_ok (val_mem s) \<and> heap_ok (tab_mem s) \<and>
     holds (key_mem s) (key_table s) K (ptrs kt) \<and> inj_on kt (dom kt) \<and>
     (\<forall>a \<in> ran kt. field_ok holds s a (F a) (G a) \<and> F a \<inter> K = {}) \<and>
     (\<forall>a \<in> ran kt. \<forall>b \<in> ran kt. a \<noteq> b \<longrightarrow> F a \<inter> F b = {} \<and> ran (G a) \<inter> ran (G b) = {})"

definition hdb_rep :: "'t table_rep \<Rightarrow> 't hashtable_db \<Rightarrow> records_map \<Rightarrow> bool" where
  "hdb_rep holds s M \<longleftrightarrow> (\<exists>K kt F G. db_ok holds s K kt F G \<and> M = record_map s kt G)"

lemma fields_of_frame:
  assumes "\<And>x. x \<in> ran g \<Longrightarrow> m' x = m x"
  shows "(\<lambda>f. Option.bind (g f) m') = (\<lambda>f. Option.bind (g f) m)"
  using assms by (intro ext) (auto simp: ran_def split: Option.bind_splits)

context string_hashtable
begin

lemma field_frame:
  assumes f: "field_ok holds s a Ks g" and t: "mem (tab_mem s') a = mem (tab_mem s) a"
    and k: "\<And>x. x \<in> Ks \<Longrightarrow> mem (key_mem s') x = mem (key_mem s) x"
    and v: "\<And>x. x \<in> ran g \<Longrightarrow> mem (val_mem s') x = mem (val_mem s) x"
  shows "field_ok holds s' a Ks g"
proof -
  from f obtain tb where tb: "mem (tab_mem s) a = Some tb" "holds (key_mem s) tb Ks (ptrs g)"
    by (auto simp: field_ok_def)
  have "holds (key_mem s') tb Ks (ptrs g)" by (rule frame_law [OF tb(2) k])
  moreover have "ran g \<subseteq> dom (mem (val_mem s'))" using f v by (auto simp: field_ok_def dom_def)
  ultimately show ?thesis using f t tb(1) by (simp add: field_ok_def)
qed

text \<open>Replacing one field table (or none), everything else kept.\<close>

lemma db_replace:
  assumes ok: "db_ok holds s K kt F G" and k: "kt k = Some a"
    and heaps: "heap_ok (key_mem s')" "heap_ok (val_mem s')" "heap_ok (tab_mem s')"
    and kts: "key_table s' = key_table s"
    and keys: "\<And>x b. x \<in> K \<or> b \<in> ran kt \<and> b \<noteq> a \<and> x \<in> F b \<Longrightarrow> mem (key_mem s') x = mem (key_mem s) x"
    and tabs: "\<And>b. b \<in> ran kt \<Longrightarrow> b \<noteq> a \<Longrightarrow> mem (tab_mem s') b = mem (tab_mem s) b"
    and vals: "\<And>b x. b \<in> ran kt \<Longrightarrow> b \<noteq> a \<Longrightarrow> x \<in> ran (G b) \<Longrightarrow> mem (val_mem s') x = mem (val_mem s) x"
    and new: "field_ok holds s' a Fa g" "Fa \<inter> K = {}"
      "\<And>b. b \<in> ran kt \<Longrightarrow> b \<noteq> a \<Longrightarrow> Fa \<inter> F b = {} \<and> ran g \<inter> ran (G b) = {}"
  shows "db_ok holds s' K kt (F(a := Fa)) (G(a := g)) \<and>
     record_map s' kt (G(a := g)) =
       (record_map s kt G)(k \<mapsto> (\<lambda>f. Option.bind (g f) (mem (val_mem s'))))"
proof
  have h: "holds (key_mem s') (key_table s') K (ptrs kt)"
    unfolding kts by (rule frame_law [of "key_mem s"]) (use ok keys [OF disjI1] in \<open>simp_all add: db_ok_def\<close>)
  have "field_ok holds s' b (F b) (G b)" if "b \<in> ran kt" "b \<noteq> a" for b
  proof (rule field_frame)
    show "field_ok holds s b (F b) (G b)" using ok that unfolding db_ok_def by blast
  qed (use that keys tabs vals in blast)+
  then have f: "field_ok holds s' b ((F(a := Fa)) b) ((G(a := g)) b) \<and> (F(a := Fa)) b \<inter> K = {}"
      if "b \<in> ran kt" for b
    using that ok new(1,2) unfolding db_ok_def by (cases "b = a") simp_all
  have d: "(F(a := Fa)) b \<inter> (F(a := Fa)) c = {} \<and> ran ((G(a := g)) b) \<inter> ran ((G(a := g)) c) = {}"
      if "b \<in> ran kt" "c \<in> ran kt" "b \<noteq> c" for b c
    using that ok new(3) [of b] new(3) [of c] unfolding db_ok_def
    by (cases "b = a"; cases "c = a") (simp_all add: Int_commute)
  have i: "inj_on kt (dom kt)" using ok by (simp add: db_ok_def)
  show "db_ok holds s' K kt (F(a := Fa)) (G(a := g))"
    unfolding db_ok_def by (intro conjI ballI impI) (fact heaps h i
      | erule f [THEN conjunct1] f [THEN conjunct2] | erule (2) d [THEN conjunct1] | erule (2) d [THEN conjunct2])+
next
  have ne: "kt x = Some b \<Longrightarrow> x \<noteq> k \<Longrightarrow> b \<noteq> a" for x b
    using ok k unfolding db_ok_def by (metis domI inj_onD)
  have fr: "(\<lambda>f. Option.bind (G b f) (mem (val_mem s'))) = (\<lambda>f. Option.bind (G b f) (mem (val_mem s)))"
    if "b \<in> ran kt" "b \<noteq> a" for b
    using vals [OF that] by (rule fields_of_frame)
  show "record_map s' kt (G(a := g)) =
       (record_map s kt G)(k \<mapsto> (\<lambda>f. Option.bind (g f) (mem (val_mem s'))))"
  proof
    fix x
    show "record_map s' kt (G(a := g)) x =
       ((record_map s kt G)(k \<mapsto> (\<lambda>f. Option.bind (g f) (mem (val_mem s'))))) x"
    proof (cases "x = k")
      case False
      with ne fr show ?thesis by (cases "kt x") (simp_all add: record_map_def ranI)
    qed (simp add: record_map_def k)
  qed
qed

lemma db_disjoint:
  "db_ok holds s K kt F G \<Longrightarrow> b \<in> ran kt \<Longrightarrow> c \<in> ran kt \<Longrightarrow> b \<noteq> c \<Longrightarrow>
   F b \<inter> F c = {} \<and> ran (G b) \<inter> ran (G c) = {}"
  by (simp add: db_ok_def)

lemma db_fresh:
  assumes "db_ok holds s K kt F G"
  shows "brk (key_mem s) \<notin> K" and "b \<in> ran kt \<Longrightarrow> brk (key_mem s) \<notin> F b"
    and "b \<in> ran kt \<Longrightarrow> brk (val_mem s) \<notin> ran (G b)" and "brk (tab_mem s) \<notin> ran kt"
proof -
  have k: "mem (key_mem s) (brk (key_mem s)) = None" and v: "mem (val_mem s) (brk (val_mem s)) = None"
    and t: "mem (tab_mem s) (brk (tab_mem s)) = None"
    using assms by (simp_all add: db_ok_def heap_ok_fresh)
  show "brk (key_mem s) \<notin> K" using assms k owned_law unfolding db_ok_def by blast
  have f: "field_ok holds s b (F b) (G b)" if "b \<in> ran kt" for b using assms that by (simp add: db_ok_def)
  show "brk (key_mem s) \<notin> F b" if "b \<in> ran kt"
    using f [OF that] k owned_law unfolding field_ok_def by blast
  show "brk (val_mem s) \<notin> ran (G b)" if "b \<in> ran kt"
    using f [OF that] v unfolding field_ok_def by (metis domIff subset_iff)
  show "brk (tab_mem s) \<notin> ran kt"
    using f t unfolding field_ok_def by (metis option.distinct(1))
qed

text \<open>The record \<open>k\<close> has the field table \<open>a\<close> in a database that holds \<open>M\<close>.\<close>

definition hdb_at :: "string \<Rightarrow> nat \<Rightarrow> 't hashtable_db \<Rightarrow> records_map \<Rightarrow> bool" where
  "hdb_at k a s M \<longleftrightarrow> (\<exists>K kt F G. db_ok holds s K kt F G \<and> kt k = Some a \<and> M = record_map s kt G)"

lemma hdb_at_rep: "hdb_at k a s M \<Longrightarrow> hdb_rep holds s M"
  by (auto simp: hdb_at_def hdb_rep_def)

lemma hdb_atE:
  assumes "hdb_at k a s M"
  obtains K kt F G t where "db_ok holds s K kt F G" and "kt k = Some a" and "a \<in> ran kt"
    and "M = record_map s kt G" and "M k = Some (\<lambda>f. Option.bind (G a f) (mem (val_mem s)))"
    and "mem (tab_mem s) a = Some t" and "holds (key_mem s) t (F a) (ptrs (G a))"
    and "field_ok holds s a (F a) (G a)"
proof -
  obtain K kt F G where d: "db_ok holds s K kt F G" "kt k = Some a" "M = record_map s kt G"
    using assms by (auto simp: hdb_at_def)
  have a: "a \<in> ran kt" using d(2) by (rule ranI)
  then have f: "field_ok holds s a (F a) (G a)" using d(1) by (simp add: db_ok_def)
  then obtain t where "mem (tab_mem s) a = Some t" "holds (key_mem s) t (F a) (ptrs (G a))"
    by (auto simp: field_ok_def)
  with a d f that show thesis by (simp add: record_map_def)
qed

lemma field_lookup:
  "field_ok holds s a Ks g \<Longrightarrow> Option.bind (g f) (mem (val_mem s)) = None \<longleftrightarrow> g f = None"
  by (cases "g f") (auto simp: field_ok_def dest: ranI)

text \<open>A step that touches one field table, at most one new key copy and at most one new value.\<close>

lemma hdb_at_step:
  assumes d: "db_ok holds s K kt F G" and k: "kt k = Some a"
    and heaps: "heap_ok (key_mem s2)" "heap_ok (val_mem s2)" "heap_ok (tab_mem s2)"
    and kts: "key_table s2 = key_table s"
    and keys: "\<And>x. x \<noteq> brk (key_mem s) \<Longrightarrow> mem (key_mem s2) x = mem (key_mem s) x"
    and tabs: "\<And>b. b \<noteq> a \<Longrightarrow> mem (tab_mem s2) b = mem (tab_mem s) b"
    and vals: "\<And>x. x \<notin> ran (G a) \<Longrightarrow> x \<noteq> brk (val_mem s) \<Longrightarrow> mem (val_mem s2) x = mem (val_mem s) x"
    and new: "field_ok holds s2 a Fa g" "Fa \<subseteq> insert (brk (key_mem s)) (F a)"
      "ran g \<subseteq> insert (brk (val_mem s)) (ran (G a))"
    and M: "M' = (record_map s kt G)(k \<mapsto> (\<lambda>f. Option.bind (g f) (mem (val_mem s2))))"
  shows "hdb_at k a s2 M'"
proof -
  note fresh = db_fresh [OF d]
  have a: "a \<in> ran kt" using k by (rule ranI)
  have disj: "F a \<inter> K = {}"
    "\<And>b. b \<in> ran kt \<Longrightarrow> b \<noteq> a \<Longrightarrow> F a \<inter> F b = {} \<and> ran (G a) \<inter> ran (G b) = {}"
    using d a unfolding db_ok_def by blast+
  have "db_ok holds s2 K kt (F(a := Fa)) (G(a := g)) \<and>
      record_map s2 kt (G(a := g)) = (record_map s kt G)(k \<mapsto> (\<lambda>f. Option.bind (g f) (mem (val_mem s2))))"
  proof (rule db_replace [OF d k heaps kts])
    show "x \<in> K \<or> b \<in> ran kt \<and> b \<noteq> a \<and> x \<in> F b \<Longrightarrow> mem (key_mem s2) x = mem (key_mem s) x" for x b
      using fresh(1,2) by (intro keys) blast
    show "b \<in> ran kt \<Longrightarrow> b \<noteq> a \<Longrightarrow> x \<in> ran (G b) \<Longrightarrow> mem (val_mem s2) x = mem (val_mem s) x" for b x
      using fresh(3) disj(2) by (intro vals) blast+
    show "Fa \<inter> K = {}" using new(2) disj(1) fresh(1) by blast
    show "Fa \<inter> F b = {} \<and> ran g \<inter> ran (G b) = {}" if "b \<in> ran kt" "b \<noteq> a" for b
      using new(2,3) disj(2) [OF that] fresh(2,3) [OF that(1)] by blast
  qed (use tabs new(1) in blast)+
  with M k show ?thesis unfolding hdb_at_def by metis
qed

lemma field_put_new:
  assumes h: "hdb_at k a s M" and r: "M k = Some r" "r (c_str f) = None"
  shows "\<exists>s2. field_insert H (snd (CopyString s v)) (Some a) f (fst (CopyString s v)) = ret (True, s2) \<and>
    hdb_at k a s2 (M(k \<mapsto> r(c_str f \<mapsto> c_str v)))"
proof -
  obtain K kt F G t where d: "db_ok holds s K kt F G" "kt k = Some a" "a \<in> ran kt" "M = record_map s kt G"
      "M k = Some (\<lambda>f. Option.bind (G a f) (mem (val_mem s)))" "mem (tab_mem s) a = Some t"
      "holds (key_mem s) t (F a) (ptrs (G a))" "field_ok holds s a (F a) (G a)"
    using h by (rule hdb_atE)
  note fresh = db_fresh [OF d(1)]
  have ok: "heap_ok (key_mem s)" "heap_ok (val_mem s)" "heap_ok (tab_mem s)"
    using d(1) by (simp_all add: db_ok_def)
  have g: "G a (c_str f) = None" using r d(5) field_lookup [OF d(8)] by fastforce
  let ?vb = "brk (val_mem s)" and ?kb = "brk (key_mem s)"
  obtain t' where t': "sh_Insert H (key_mem s) t (Some (c_str f)) (Some ?vb) =
        ret (True, snd (malloc (key_mem s) (c_str f)), t')"
      "holds (snd (malloc (key_mem s) (c_str f))) t' (insert ?kb (F a)) (ptrs ((G a)(c_str f \<mapsto> ?vb)))"
    using insert_new_law [OF d(7) ok(1), of "c_str f" "Some ?vb"] g by (auto simp del: fun_upd_apply)
  let ?s2 = "s\<lparr>key_mem := snd (malloc (key_mem s) (c_str f)),
      val_mem := snd (malloc (val_mem s) (c_str v)), tab_mem := (tab_mem s)\<lparr>mem := (mem (tab_mem s))(a \<mapsto> t')\<rparr>\<rparr>"
  have step: "field_insert H (snd (CopyString s v)) (Some a) f (fst (CopyString s v)) = ret (True, ?s2)"
    using d(6) t'(1) by (simp add: field_insert_def)
  have fo: "field_ok holds ?s2 a (insert ?kb (F a)) ((G a)(c_str f \<mapsto> ?vb))"
    using t'(2) d(8) g fresh(3) [OF d(3)] unfolding field_ok_def
    by (auto simp: inj_on_def dom_def ran_def)
  have r': "(\<lambda>x. Option.bind (((G a)(c_str f \<mapsto> ?vb)) x) (mem (val_mem ?s2))) = r(c_str f \<mapsto> c_str v)"
    using r(1) d(5) fresh(3) [OF d(3)] by (intro ext) (auto simp: ranI split: Option.bind_splits)
  have "hdb_at k a ?s2 (M(k \<mapsto> r(c_str f \<mapsto> c_str v)))"
    by (rule hdb_at_step [OF d(1,2) _ _ _ _ _ _ _ fo])
       (use ok heap_ok_less [OF ok(3) d(6)] in \<open>auto simp: heap_ok_upd r' [symmetric] d(4) ran_def\<close>)
  with step show ?thesis by blast
qed

text \<open>Inserting a field that is there leaks the copied key; the copied value is deleted by the caller or leaks.\<close>

lemma field_put_old:
  assumes h: "hdb_at k a s M" and r: "M k = Some r" "r (c_str f) = Some w"
  shows "\<exists>s2 s3. field_insert H (snd (CopyString s v)) (Some a) f (fst (CopyString s v)) = ret (False, s2) \<and>
    hdb_at k a s2 M \<and> DeleteString s2 (fst (CopyString s v)) = ret s3 \<and> hdb_at k a s3 M"
proof -
  obtain K kt F G t where d: "db_ok holds s K kt F G" "kt k = Some a" "a \<in> ran kt" "M = record_map s kt G"
      "M k = Some (\<lambda>f. Option.bind (G a f) (mem (val_mem s)))" "mem (tab_mem s) a = Some t"
      "holds (key_mem s) t (F a) (ptrs (G a))" "field_ok holds s a (F a) (G a)"
    using h by (rule hdb_atE)
  note fresh = db_fresh [OF d(1)]
  have ok: "heap_ok (key_mem s)" "heap_ok (val_mem s)" "heap_ok (tab_mem s)"
    using d(1) by (simp_all add: db_ok_def)
  obtain b where g: "G a (c_str f) = Some b" using r d(5) by (auto split: Option.bind_splits)
  let ?vb = "brk (val_mem s)" and ?kb = "brk (key_mem s)"
  have t': "sh_Insert H (key_mem s) t (Some (c_str f)) (Some ?vb) = ret (False, snd (malloc (key_mem s) (c_str f)), t)"
    using insert_old_law [OF d(7) ok(1)] g by simp
  let ?s2 = "s\<lparr>key_mem := snd (malloc (key_mem s) (c_str f)),
      val_mem := snd (malloc (val_mem s) (c_str v)), tab_mem := (tab_mem s)\<lparr>mem := (mem (tab_mem s))(a \<mapsto> t)\<rparr>\<rparr>"
  let ?s3 = "?s2\<lparr>val_mem := (val_mem ?s2)\<lparr>mem := (mem (val_mem ?s2))(?vb := None)\<rparr>\<rparr>"
  have step: "field_insert H (snd (CopyString s v)) (Some a) f (fst (CopyString s v)) = ret (False, ?s2)"
    and del: "DeleteString ?s2 (fst (CopyString s v)) = ret ?s3"
    using d(6) t' by (simp_all add: field_insert_def DeleteString_def)
  have fo: "field_ok holds s' a (F a) (G a)" if "s' = ?s2 \<or> s' = ?s3" for s'
    by (rule field_frame [OF d(8)]) (use that d(6) fresh(2,3) [OF d(3)] in auto)
  have r': "(\<lambda>x. Option.bind (G a x) (mem (val_mem s'))) = r" if "s' = ?s2 \<or> s' = ?s3" for s'
    using r(1) d(5) fresh(3) [OF d(3)] that by (intro ext) (auto simp: ranI split: Option.bind_splits)
  have "hdb_at k a s' M" if "s' = ?s2 \<or> s' = ?s3" for s'
    by (rule hdb_at_step [OF d(1,2) _ _ _ _ _ _ _ fo [OF that]])
       (use that ok heap_ok_less [OF ok(3) d(6)] r(1) in
         \<open>auto simp: heap_ok_upd heap_ok_free r' [OF that] d(4) map_upd_triv\<close>)
  with step del show ?thesis by blast
qed

text \<open>Updating a field that is not there changes nothing; one that is there gives its old value back.\<close>

lemma field_upd_new:
  assumes h: "hdb_at k a s M" and r: "M k = Some r" "r (c_str f) = None"
  shows "field_update H (snd (CopyString s v)) (Some a) f (fst (CopyString s v)) =
    ret (NULL, snd (CopyString s v))"
proof -
  obtain K kt F G t where d: "M k = Some (\<lambda>f. Option.bind (G a f) (mem (val_mem s)))"
      "mem (tab_mem s) a = Some t" "holds (key_mem s) t (F a) (ptrs (G a))" "field_ok holds s a (F a) (G a)"
    using h by (rule hdb_atE)
  have g: "G a (c_str f) = None" using r d(1) field_lookup [OF d(4)] by fastforce
  then have "sh_Update H (key_mem s) t (Some (c_str f)) (Some (brk (val_mem s))) = ret (NULL, t)"
    by (intro update_new_law [OF d(3)]) simp
  then show ?thesis using d(2) by (simp add: field_update_def map_upd_triv)
qed

lemma field_upd_old:
  assumes h: "hdb_at k a s M" and r: "M k = Some r" "r (c_str f) = Some w"
  shows "\<exists>b s2 s3. field_update H (snd (CopyString s v)) (Some a) f (fst (CopyString s v)) = ret (Some b, s2) \<and>
    DeleteString s2 (Some b) = ret s3 \<and> hdb_at k a s3 (M(k \<mapsto> r(c_str f \<mapsto> c_str v)))"
proof -
  obtain K kt F G t where d: "db_ok holds s K kt F G" "kt k = Some a" "a \<in> ran kt" "M = record_map s kt G"
      "M k = Some (\<lambda>f. Option.bind (G a f) (mem (val_mem s)))" "mem (tab_mem s) a = Some t"
      "holds (key_mem s) t (F a) (ptrs (G a))" "field_ok holds s a (F a) (G a)"
    using h by (rule hdb_atE)
  note fresh = db_fresh [OF d(1)]
  have ok: "heap_ok (key_mem s)" "heap_ok (val_mem s)" "heap_ok (tab_mem s)"
    using d(1) by (simp_all add: db_ok_def)
  obtain b where g: "G a (c_str f) = Some b" "mem (val_mem s) b = Some w"
    using r d(5) by (auto split: Option.bind_splits)
  have br: "b \<in> ran (G a)" using g(1) by (rule ranI)
  let ?vb = "brk (val_mem s)"
  have ne: "b \<noteq> ?vb" using br fresh(3) [OF d(3)] by blast
  obtain t' where t': "sh_Update H (key_mem s) t (Some (c_str f)) (Some ?vb) = ret (Some b, t')"
      "holds (key_mem s) t' (F a) (ptrs ((G a)(c_str f \<mapsto> ?vb)))"
    using update_old_law [OF d(7), of "c_str f" "Some b" "Some ?vb"] g by (auto simp del: fun_upd_apply)
  let ?s2 = "s\<lparr>val_mem := snd (malloc (val_mem s) (c_str v)),
      tab_mem := (tab_mem s)\<lparr>mem := (mem (tab_mem s))(a \<mapsto> t')\<rparr>\<rparr>"
  let ?s3 = "?s2\<lparr>val_mem := (val_mem ?s2)\<lparr>mem := (mem (val_mem ?s2))(b := None)\<rparr>\<rparr>"
  have step: "field_update H (snd (CopyString s v)) (Some a) f (fst (CopyString s v)) = ret (Some b, ?s2)"
    using d(6) t' by (simp add: field_update_def)
  have del: "DeleteString ?s2 (Some b) = ret ?s3"
    using g(2) ne by (simp add: DeleteString_def)
  have inj: "G a x = Some b \<Longrightarrow> x = c_str f" for x
    using d(8) g(1) unfolding field_ok_def by (metis domI inj_onD)
  have i2: "inj_on ((G a)(c_str f \<mapsto> ?vb)) (dom ((G a)(c_str f \<mapsto> ?vb)))"
    using d(8) fresh(3) [OF d(3)] unfolding field_ok_def by (auto simp: inj_on_def dom_def ran_def)
  have "ran ((G a)(c_str f \<mapsto> ?vb)) \<subseteq> dom (mem (val_mem ?s3))"
    using d(8) inj ne unfolding field_ok_def by (auto simp: ran_def)
  with i2 t'(2) have fo: "field_ok holds ?s3 a (F a) ((G a)(c_str f \<mapsto> ?vb))"
    by (simp add: field_ok_def)
  have r': "(\<lambda>x. Option.bind (((G a)(c_str f \<mapsto> ?vb)) x) (mem (val_mem ?s3))) = r(c_str f \<mapsto> c_str v)"
    using r(1) d(5) fresh(3) [OF d(3)] inj ne by (intro ext) (auto simp: ranI split: Option.bind_splits)
  have "hdb_at k a ?s3 (M(k \<mapsto> r(c_str f \<mapsto> c_str v)))"
    by (rule hdb_at_step [OF d(1,2) _ _ _ _ _ _ _ fo])
       (use ok br heap_ok_less [OF ok(3) d(6)] in
         \<open>auto simp: heap_ok_upd r' [symmetric] d(4) ran_def\<close>)
  with step del show ?thesis by blast
qed

section \<open>The loops\<close>

lemma Insert_loop_spec:
  "hdb_at k a s M \<Longrightarrow> M k = Some r \<Longrightarrow>
   \<exists>s'. Insert_loop H s (Some a) vs = ret (fst (put_until r vs), s') \<and>
     hdb_at k a s' (M(k \<mapsto> snd (put_until r vs)))"
proof (induction vs arbitrary: s M r)
  case Nil
  then show ?case by (simp add: map_upd_triv)
next
  case (Cons p vs)
  show ?case
  proof (cases "r (c_str (fst p))")
    case None
    obtain s2 where s2: "field_insert H (snd (CopyString s (snd p))) (Some a) (fst p) (fst (CopyString s (snd p))) =
        ret (True, s2)" "hdb_at k a s2 (M(k \<mapsto> r(c_str (fst p) \<mapsto> c_str (snd p))))"
      using field_put_new [OF Cons.prems None] by blast
    with Cons.IH [OF s2(2) fun_upd_same] None show ?thesis
      by (simp add: case_prod_beta del: fun_upd_apply)
  next
    case (Some w)
    obtain s2 s3 where "field_insert H (snd (CopyString s (snd p))) (Some a) (fst p) (fst (CopyString s (snd p))) =
        ret (False, s2)" "DeleteString s2 (fst (CopyString s (snd p))) = ret s3" "hdb_at k a s3 M"
      using field_put_old [OF Cons.prems Some] by blast
    with Some Cons.prems(2) show ?thesis by (simp add: map_upd_triv)
  qed
qed

lemma Update_new_loop_spec:
  "hdb_at k a s M \<Longrightarrow> M k = Some r \<Longrightarrow>
   \<exists>s'. Update_new_loop H s (Some a) vs = ret s' \<and> hdb_at k a s' (M(k \<mapsto> put_first r vs))"
proof (induction vs arbitrary: s M r)
  case Nil
  then show ?case by (simp add: map_upd_triv)
next
  case (Cons p vs)
  show ?case
  proof (cases "r (c_str (fst p))")
    case None
    obtain s2 where s2: "field_insert H (snd (CopyString s (snd p))) (Some a) (fst p) (fst (CopyString s (snd p))) =
        ret (True, s2)" "hdb_at k a s2 (M(k \<mapsto> r(c_str (fst p) \<mapsto> c_str (snd p))))"
      using field_put_new [OF Cons.prems None] by blast
    with Cons.IH [OF s2(2) fun_upd_same] None show ?thesis by (simp del: fun_upd_apply)
  next
    case (Some w)
    obtain s2 where s2: "field_insert H (snd (CopyString s (snd p))) (Some a) (fst p) (fst (CopyString s (snd p))) =
        ret (False, s2)" "hdb_at k a s2 M"
      using field_put_old [OF Cons.prems Some] by blast
    with Cons.IH [OF s2(2) Cons.prems(2)] Some show ?thesis by simp
  qed
qed

lemma Update_old_loop_spec:
  "hdb_at k a s M \<Longrightarrow> M k = Some r \<Longrightarrow>
   \<exists>s'. Update_old_loop H s (Some a) vs = ret s' \<and> hdb_at k a s' (M(k \<mapsto> put_last r vs))"
proof (induction vs arbitrary: s M r)
  case Nil
  then show ?case by (simp add: map_upd_triv)
next
  case (Cons p vs)
  let ?M = "M(k \<mapsto> r(c_str (fst p) \<mapsto> c_str (snd p)))"
  have "\<exists>old s2 s3. field_update H (snd (CopyString s (snd p))) (Some a) (fst p) (fst (CopyString s (snd p))) = ret (old, s2) \<and>
      (if old = NULL then bindC (field_insert H s2 (Some a) (fst p) (fst (CopyString s (snd p)))) (\<lambda>(_, s3). ret s3)
       else DeleteString s2 old) = ret s3 \<and> hdb_at k a s3 ?M"
  proof (cases "r (c_str (fst p))")
    case None
    from field_put_new [OF Cons.prems None, of "snd p"] field_upd_new [OF Cons.prems None, of "snd p"]
    show ?thesis by fastforce
  next
    case (Some w)
    from field_upd_old [OF Cons.prems Some, of "snd p"] show ?thesis by fastforce
  qed
  then obtain old s2 s3 where "field_update H (snd (CopyString s (snd p))) (Some a) (fst p) (fst (CopyString s (snd p))) = ret (old, s2)"
      "(if old = NULL then bindC (field_insert H s2 (Some a) (fst p) (fst (CopyString s (snd p)))) (\<lambda>(_, s3). ret s3)
       else DeleteString s2 old) = ret s3" and s3: "hdb_at k a s3 ?M" by blast
  then show ?case using Cons.IH [OF s3 fun_upd_same] by (cases old) (simp_all del: fun_upd_apply)
qed

section \<open>The operations\<close>

lemma hdb_lookup:
  assumes "hdb_rep holds s M"
  shows "M k = None \<Longrightarrow> sh_Get H (key_mem s) (key_table s) (Some k) = ret NULL"
    and "M k = Some r \<Longrightarrow> \<exists>a. sh_Get H (key_mem s) (key_table s) (Some k) = ret (Some a) \<and> hdb_at k a s M"
proof -
  obtain K kt F G where d: "db_ok holds s K kt F G" "M = record_map s kt G"
    using assms by (auto simp: hdb_rep_def)
  have g: "sh_Get H (key_mem s) (key_table s) (Some k) = ret (kt k)" for k
    using d(1) get_law [of "key_mem s" "key_table s" K "ptrs kt" k]
    by (auto simp: db_ok_def split: option.splits)
  show "M k = None \<Longrightarrow> sh_Get H (key_mem s) (key_table s) (Some k) = ret NULL"
    by (simp add: d(2) record_map_def g)
  show "\<exists>a. sh_Get H (key_mem s) (key_table s) (Some k) = ret (Some a) \<and> hdb_at k a s M" if "M k = Some r"
  proof -
    obtain a where "kt k = Some a" using \<open>M k = Some r\<close> by (auto simp: record_map_def d(2))
    with d g show ?thesis unfolding hdb_at_def by metis
  qed
qed

lemma new_record_spec:
  assumes h: "hdb_rep holds s M" and k: "M k = None"
  shows "\<exists>a s'. new_record H s k = ret (Some a, s') \<and> hdb_at k a s' (M(k \<mapsto> Map.empty))"
proof -
  obtain K kt F G where d: "db_ok holds s K kt F G" "M = record_map s kt G"
    using h by (auto simp: hdb_rep_def)
  note fresh = db_fresh [OF d(1)]
  let ?a = "brk (tab_mem s)" and ?kb = "brk (key_mem s)"
  have ok: "heap_ok (key_mem s)" "heap_ok (val_mem s)" "heap_ok (tab_mem s)"
    and ht: "holds (key_mem s) (key_table s) K (ptrs kt)" and inj: "inj_on kt (dom kt)"
    using d(1) by (simp_all add: db_ok_def)
  have kk: "kt k = None" using k d(2) by (simp add: record_map_def)
  obtain kt' where kt': "sh_Insert H (key_mem s) (key_table s) (Some k) (Some ?a) = ret (True, snd (malloc (key_mem s) k), kt')"
      "holds (snd (malloc (key_mem s) k)) kt' (insert ?kb K) (ptrs (kt(k \<mapsto> ?a)))"
    using insert_new_law [OF ht ok(1), of k "Some ?a"] kk by (auto simp del: fun_upd_apply)
  let ?s = "s\<lparr>key_mem := snd (malloc (key_mem s) k), tab_mem := snd (malloc (tab_mem s) (sh_new H)), key_table := kt'\<rparr>"
  have step: "new_record H s k = ret (Some ?a, ?s)"
    using kt'(1) by (simp add: new_record_def NewFieldHashtable_def case_prod_beta malloc_def)
  have old: "field_ok holds ?s b (F b) (G b)" if "b \<in> ran kt" for b
  proof (rule field_frame)
    show "field_ok holds s b (F b) (G b)" using d(1) that by (simp add: db_ok_def)
  qed (use that fresh in auto)
  have new: "field_ok holds ?s ?a {} Map.empty"
    using new_law by (simp add: field_ok_def)
  have "db_ok holds ?s (insert ?kb K) (kt(k \<mapsto> ?a)) (F(?a := {})) (G(?a := Map.empty))"
    unfolding db_ok_def
  proof (intro conjI ballI impI)
    show "inj_on (kt(k \<mapsto> ?a)) (dom (kt(k \<mapsto> ?a)))"
      using inj fresh(4) by (auto simp: inj_on_def dom_def ran_def)
    fix b assume "b \<in> ran (kt(k \<mapsto> ?a))"
    then have b: "b = ?a \<or> b \<in> ran kt" using kk by simp
    then show "field_ok holds ?s b ((F(?a := {})) b) ((G(?a := Map.empty)) b)"
      using old new by (cases "b = ?a") (auto simp del: fun_upd_apply simp: fun_upd_same fun_upd_other)
    show "(F(?a := {})) b \<inter> insert ?kb K = {}"
      using b fresh(2) d(1) unfolding db_ok_def by auto
    fix c assume "c \<in> ran (kt(k \<mapsto> ?a))" and ne: "b \<noteq> c"
    then have c: "c = ?a \<or> c \<in> ran kt" using kk by simp
    show "(F(?a := {})) b \<inter> (F(?a := {})) c = {}" "ran ((G(?a := Map.empty)) b) \<inter> ran ((G(?a := Map.empty)) c) = {}"
      using b c ne db_disjoint [OF d(1), of b c] by (cases "b = ?a"; cases "c = ?a"; simp)+
  qed (use ok kt'(2) in auto)
  moreover have "record_map ?s (kt(k \<mapsto> ?a)) (G(?a := Map.empty)) = M(k \<mapsto> Map.empty)"
  proof
    fix x
    have "kt x = Some b \<Longrightarrow> b \<noteq> ?a" for b using fresh(4) by (auto dest: ranI)
    then show "record_map ?s (kt(k \<mapsto> ?a)) (G(?a := Map.empty)) x = (M(k \<mapsto> Map.empty)) x"
      by (cases "kt x") (simp_all add: record_map_def d(2))
  qed
  ultimately have "hdb_at k ?a ?s (M(k \<mapsto> Map.empty))"
    unfolding hdb_at_def by (intro exI conjI) (assumption | simp)+
  with step show ?thesis by blast
qed

lemma HashtableDB_Insert_spec:
  assumes h: "hdb_rep holds s M" and k: "k = c_str (table @ key)"
  shows "\<exists>s'. HashtableDB_Insert H s table key vs =
      ret (fst (put_until (case M k of None \<Rightarrow> Map.empty | Some r \<Rightarrow> r) vs), s') \<and>
    hdb_rep holds s' (M(k \<mapsto> snd (put_until (case M k of None \<Rightarrow> Map.empty | Some r \<Rightarrow> r) vs)))"
proof (cases "M k")
  case None
  obtain a s1 where s1: "new_record H s k = ret (Some a, s1)" "hdb_at k a s1 (M(k \<mapsto> Map.empty))"
    using new_record_spec [OF h None] by blast
  from Insert_loop_spec [OF s1(2) fun_upd_same, of vs] s1(1) hdb_lookup(1) [OF h None] None
  show ?thesis by (auto simp: HashtableDB_Insert_def k [symmetric] simp del: fun_upd_apply dest: hdb_at_rep)
next
  case (Some r)
  obtain a where a: "sh_Get H (key_mem s) (key_table s) (Some k) = ret (Some a)" "hdb_at k a s M"
    using hdb_lookup(2) [OF h Some] by blast
  from Insert_loop_spec [OF a(2) Some, of vs] a(1) Some
  show ?thesis by (auto simp: HashtableDB_Insert_def k [symmetric] simp del: fun_upd_apply dest: hdb_at_rep)
qed

lemma HashtableDB_Update_spec:
  assumes h: "hdb_rep holds s M" and k: "k = c_str (table @ key)"
  shows "\<exists>s'. HashtableDB_Update H s table key vs = ret (kOK, s') \<and>
    hdb_rep holds s' (M(k \<mapsto> (case M k of None \<Rightarrow> put_first Map.empty vs | Some r \<Rightarrow> put_last r vs)))"
proof (cases "M k")
  case None
  obtain a s1 where s1: "new_record H s k = ret (Some a, s1)" "hdb_at k a s1 (M(k \<mapsto> Map.empty))"
    using new_record_spec [OF h None] by blast
  from Update_new_loop_spec [OF s1(2) fun_upd_same, of vs] s1(1) hdb_lookup(1) [OF h None] None
  show ?thesis by (auto simp: HashtableDB_Update_def k [symmetric] simp del: fun_upd_apply dest: hdb_at_rep)
next
  case (Some r)
  obtain a where a: "sh_Get H (key_mem s) (key_table s) (Some k) = ret (Some a)" "hdb_at k a s M"
    using hdb_lookup(2) [OF h Some] by blast
  from Update_old_loop_spec [OF a(2) Some, of vs] a(1) Some
  show ?thesis by (auto simp: HashtableDB_Update_def k [symmetric] simp del: fun_upd_apply dest: hdb_at_rep)
qed

text \<open>Deleting a record frees its values and its table; the key copies of its fields stay allocated.\<close>

lemma DeleteFieldHashtable_loop_spec:
  "map snd es = map Some bs \<Longrightarrow> distinct bs \<Longrightarrow> set bs \<subseteq> dom (mem (val_mem s)) \<Longrightarrow>
   DeleteFieldHashtable_loop es s =
     ret (s\<lparr>val_mem := (val_mem s)\<lparr>mem := (mem (val_mem s)) |` (- set bs)\<rparr>\<rparr>)"
proof (induction es arbitrary: bs s)
  case Nil
  then show ?case by (simp add: restrict_map_def)
next
  case (Cons e es)
  then obtain b cs where b: "bs = b # cs" "snd e = Some b" "map snd es = map Some cs" by auto
  let ?s = "s\<lparr>val_mem := (val_mem s)\<lparr>mem := (mem (val_mem s))(b := None)\<rparr>\<rparr>"
  have "DeleteString s (Some b) = ret ?s"
    using Cons.prems b(1) by (auto simp: DeleteString_def)
  moreover have "DeleteFieldHashtable_loop es ?s =
      ret (?s\<lparr>val_mem := (val_mem ?s)\<lparr>mem := (mem (val_mem ?s)) |` (- set cs)\<rparr>\<rparr>)"
    using Cons.prems b by (intro Cons.IH) auto
  moreover have "(mem (val_mem s))(b := None) |` (- set cs) = (mem (val_mem s)) |` (- set bs)"
    by (rule ext) (simp add: restrict_map_def b(1))
  ultimately show ?case using b(2) by simp
qed

lemma entries_values:
  assumes "list_all2 (entry_of h) es (take n fs)" and "distinct (map fst fs)" and "map_of fs = ptrs g"
    and "inj_on g (dom g)"
  obtains bs where "map snd es = map Some bs" and "distinct bs" and "set bs \<subseteq> ran g"
proof -
  have v: "snd f = Some (the (g (fst f))) \<and> fst f \<in> dom g" if "f \<in> set fs" for f
  proof -
    have "map_of fs (fst f) = Some (snd f)" using that assms(2) by simp
    then have "map_option Some (g (fst f)) = Some (snd f)" by (simp add: assms(3))
    then obtain z where "g (fst f) = Some z" "snd f = Some z" by (metis map_option_eq_Some)
    then show ?thesis by auto
  qed
  let ?bs = "map (\<lambda>f. the (g (fst f))) (take n fs)"
  have "map snd es = map snd (take n fs)"
    using assms(1) by (auto simp: list_all2_conv_all_nth entry_of_def intro!: nth_equalityI)
  also have "\<dots> = map Some ?bs" using v by (auto dest: in_set_takeD)
  finally have e: "map snd es = map Some ?bs" .
  have d: "distinct (map fst (take n fs))" using assms(2) by (simp add: take_map [symmetric])
  have "inj_on (\<lambda>x. the (g x)) (dom g)"
  proof (rule inj_onI)
    fix x y assume "x \<in> dom g" "y \<in> dom g" "the (g x) = the (g y)"
    then have "g x = g y" by auto
    with \<open>x \<in> dom g\<close> \<open>y \<in> dom g\<close> assms(4) show "x = y" by (simp add: inj_on_eq_iff)
  qed
  moreover have "fst ` set (take n fs) \<subseteq> dom g" using v by (auto dest: in_set_takeD)
  ultimately have "inj_on (\<lambda>x. the (g x)) (fst ` set (take n fs))" by (rule inj_on_subset)
  then have "distinct ?bs"
    using d by (simp add: distinct_map inj_on_def)
  moreover have "set ?bs \<subseteq> ran g" using v by (fastforce simp: ran_def dest: in_set_takeD)
  ultimately show thesis using e that by blast
qed

lemma HashtableDB_Delete_spec:
  assumes h: "hdb_rep holds s M" and k: "k = c_str (table @ key)"
  shows "\<exists>s'. HashtableDB_Delete H s table key = ret (if M k = None then kErrorNoData else kOK, s') \<and>
    hdb_rep holds s' (M(k := None))"
proof -
  obtain K kt F G where d: "db_ok holds s K kt F G" "M = record_map s kt G"
    using h by (auto simp: hdb_rep_def)
  have ht: "holds (key_mem s) (key_table s) K (ptrs kt)" using d(1) by (simp add: db_ok_def)
  show ?thesis
  proof (cases "kt k")
    case None
    have "sh_Remove H (key_mem s) (key_table s) (Some k) = ret (NULL, key_mem s, key_table s)"
      using None by (intro remove_new_law [OF ht]) simp
    moreover have "M k = None" using None by (simp add: d(2) record_map_def)
    moreover from this have "M(k := None) = M" by auto
    ultimately show ?thesis using h by (simp add: HashtableDB_Delete_def k [symmetric] Let_def)
  next
    case (Some a)
    then have a: "a \<in> ran kt" by (rule ranI)
    obtain x kt' where x: "x \<in> K" "sh_Remove H (key_mem s) (key_table s) (Some k) =
          ret (Some a, (key_mem s)\<lparr>mem := (mem (key_mem s))(x := None)\<rparr>, kt')"
        "holds ((key_mem s)\<lparr>mem := (mem (key_mem s))(x := None)\<rparr>) kt' (K - {x}) (ptrs (kt(k := None)))"
      using remove_old_law [OF ht, of k "Some a"] Some by (auto simp del: fun_upd_apply)
    let ?s1 = "s\<lparr>key_mem := (key_mem s)\<lparr>mem := (mem (key_mem s))(x := None)\<rparr>, key_table := kt'\<rparr>"
    have kF: "F b \<inter> K = {}" if "b \<in> ran kt" for b using d(1) that by (simp add: db_ok_def)
    have fo: "field_ok holds s b (F b) (G b)" if "b \<in> ran kt" for b using d(1) that by (simp add: db_ok_def)
    have fo1: "field_ok holds ?s1 b (F b) (G b)" if "b \<in> ran kt" for b
      by (rule field_frame [OF fo [OF that]]) (use that kF x(1) in auto)
    obtain t where t: "mem (tab_mem s) a = Some t" "holds (key_mem ?s1) t (F a) (ptrs (G a))"
        "inj_on (G a) (dom (G a))" "ran (G a) \<subseteq> dom (mem (val_mem s))"
      using fo1 [OF a] by (auto simp: field_ok_def)
    obtain fs es where fs: "distinct (map fst fs)" "map_of fs = ptrs (G a)"
        "sh_Entries H (key_mem ?s1) t None (- 1) = ret es"
        "list_all2 (entry_of (key_mem ?s1)) es (take (unat (- 1 :: u64)) fs)"
      using entries_law [OF t(2)] by blast
    obtain bs where bs: "map snd es = map Some bs" "distinct bs" "set bs \<subseteq> ran (G a)"
      using entries_values [OF fs(4,1,2) t(3)] .
    let ?s2 = "?s1\<lparr>val_mem := (val_mem s)\<lparr>mem := (mem (val_mem s)) |` (- set bs)\<rparr>,
        tab_mem := (tab_mem s)\<lparr>mem := (mem (tab_mem s))(a := None)\<rparr>\<rparr>"
    have "DeleteFieldHashtable_loop es ?s1 =
        ret (?s1\<lparr>val_mem := (val_mem s)\<lparr>mem := (mem (val_mem s)) |` (- set bs)\<rparr>\<rparr>)"
      using DeleteFieldHashtable_loop_spec [OF bs(1,2), of ?s1] bs(3) t(4) by simp
    then have step: "HashtableDB_Delete H s table key = ret (kOK, ?s2)"
      using x(2) t(1) fs(3) by (simp add: HashtableDB_Delete_def k [symmetric] DeleteFieldHashtable_def)
    have inj: "inj_on kt (dom kt)" and ok: "heap_ok (key_mem s)" "heap_ok (val_mem s)" "heap_ok (tab_mem s)"
      using d(1) by (simp_all add: db_ok_def)
    have ne: "b \<noteq> a" if "b \<in> ran (kt(k := None))" for b
      using that inj Some unfolding inj_on_def ran_def by (auto simp: dom_def split: if_splits)
    have sub: "ran (kt(k := None)) \<subseteq> ran kt" by (auto simp: ran_def)
    have vd: "ran (G b) \<inter> set bs = {}" if "b \<in> ran (kt(k := None))" for b
      using db_disjoint [OF d(1) a, of b] ne [OF that] sub that bs(3) by blast
    have fo2: "field_ok holds ?s2 b (F b) (G b)" if "b \<in> ran (kt(k := None))" for b
      by (rule field_frame [OF fo1]) (use that ne [OF that] sub vd [OF that] in \<open>auto simp: restrict_map_def\<close>)
    have "db_ok holds ?s2 (K - {x}) (kt(k := None)) F G"
      unfolding db_ok_def
    proof (intro conjI ballI impI)
      show "heap_ok (val_mem ?s2)" using ok(2) by (auto simp: heap_ok_def restrict_map_def split: if_splits)
      show "inj_on (kt(k := None)) (dom (kt(k := None)))" using inj by (auto simp: inj_on_def dom_def)
      fix b assume b: "b \<in> ran (kt(k := None))"
      show "field_ok holds ?s2 b (F b) (G b)" by (rule fo2 [OF b])
      show "F b \<inter> (K - {x}) = {}" using kF b sub by blast
      fix c assume c: "c \<in> ran (kt(k := None))" "b \<noteq> c"
      show "F b \<inter> F c = {}" "ran (G b) \<inter> ran (G c) = {}"
        using db_disjoint [OF d(1) _ _ c(2)] b c(1) sub by blast+
    qed (use ok x(3) in \<open>simp_all add: heap_ok_free del: fun_upd_apply\<close>)
    moreover have "record_map ?s2 (kt(k := None)) G = M(k := None)"
    proof
      fix y
      show "record_map ?s2 (kt(k := None)) G y = (M(k := None)) y"
      proof (cases "y = k \<or> kt y = None")
        case False
        then obtain b where b: "kt y = Some b" "y \<noteq> k" by auto
        then have "b \<in> ran (kt(k := None))" by (auto simp: ran_def)
        then have "(\<lambda>f. Option.bind (G b f) (mem (val_mem ?s2))) = (\<lambda>f. Option.bind (G b f) (mem (val_mem s)))"
          using vd by (intro fields_of_frame) (auto simp: restrict_map_def)
        with b show ?thesis by (simp add: record_map_def d(2))
      qed (auto simp: record_map_def d(2))
    qed
    ultimately have "hdb_rep holds ?s2 (M(k := None))" unfolding hdb_rep_def by metis
    moreover have "M k \<noteq> None" using Some by (simp add: d(2) record_map_def)
    ultimately show ?thesis using step by auto
  qed
qed

text \<open>Reading.\<close>

lemma field_gets_spec:
  assumes t: "holds (key_mem s) t Ks (ptrs g)" and v: "ran g \<subseteq> dom (mem (val_mem s))"
  shows "field_gets H s t fs = ret (get_fields (\<lambda>f. Option.bind (g f) (mem (val_mem s))) fs)"
proof (induction fs)
  case (Cons f fs)
  have get: "sh_Get H (key_mem s) t (Some (c_str f)) = ret (g (c_str f))"
    using get_law [OF t, of "c_str f"] by (auto split: option.splits)
  show ?case
  proof (cases "g (c_str f)")
    case (Some b)
    then obtain w where "mem (val_mem s) b = Some w" using v by (auto dest: ranI)
    with Some get Cons.IH show ?thesis by (simp add: get_fields_def)
  qed (use get Cons.IH in \<open>simp add: get_fields_def\<close>)
qed (simp add: get_fields_def)

lemma field_entries_loop:
  assumes "list_all2 (entry_of (key_mem s)) es fs"
    and "\<And>f. f \<in> set fs \<Longrightarrow> \<exists>b w. snd f = Some b \<and> mem (val_mem s) b = Some w"
  shows "field_entries s es = ret (map (\<lambda>f. (fst f, the (mem (val_mem s) (the (snd f))))) fs)"
  using assms
proof (induction es fs rule: list_all2_induct)
  case (Cons e es f fs)
  obtain b w where "snd f = Some b" "mem (val_mem s) b = Some w" using Cons.prems [of f] by auto
  with Cons show ?case by (simp add: entry_of_def)
qed simp

lemma field_entries_spec:
  assumes "list_all2 (entry_of (key_mem s)) es (take n fl)" and "distinct (map fst fl)"
    and "map_of fl = ptrs g" and "ran g \<subseteq> dom (mem (val_mem s))"
  shows "\<exists>ys. field_entries s es = ret (take n ys) \<and> distinct (map fst ys) \<and>
     map_of ys = (\<lambda>f. Option.bind (g f) (mem (val_mem s)))"
proof (intro exI conjI)
  let ?v = "\<lambda>f. the (mem (val_mem s) (the (snd f)))"
  let ?ys = "map (\<lambda>f. (fst f, ?v f)) fl"
  have val: "\<exists>b w. g (fst f) = Some b \<and> snd f = Some b \<and> mem (val_mem s) b = Some w" if "f \<in> set fl" for f
  proof -
    have "map_of fl (fst f) = Some (snd f)" using that assms(2) by simp
    then have "map_option Some (g (fst f)) = Some (snd f)" by (simp add: assms(3))
    then obtain b where b: "g (fst f) = Some b" "snd f = Some b" by (metis map_option_eq_Some)
    then have "b \<in> dom (mem (val_mem s))" using assms(4) by (auto dest: ranI)
    with b show ?thesis by auto
  qed
  have sub: "set (take n fl) \<subseteq> set fl" by (rule set_take_subset)
  show "field_entries s es = ret (take n ?ys)"
    using field_entries_loop [OF assms(1)] val sub unfolding take_map by blast
  show "distinct (map fst ?ys)" using assms(2) by (simp add: comp_def)
  show "map_of ?ys = (\<lambda>f. Option.bind (g f) (mem (val_mem s)))"
  proof
    fix k
    show "map_of ?ys k = Option.bind (g k) (mem (val_mem s))"
    proof (cases "g k")
      case None
      then have "k \<notin> fst ` set fl" by (simp add: map_of_eq_None_iff [symmetric] assms(3))
      with None show ?thesis by (simp add: map_of_eq_None_iff image_image)
    next
      case (Some b)
      then have "map_of fl k = Some (Some b)" by (simp add: assms(3))
      then have m: "(k, Some b) \<in> set fl" by (rule map_of_SomeD)
      then have "(k, ?v (k, Some b)) \<in> set ?ys" by force
      moreover have "distinct (map fst ?ys)" using assms(2) by (simp add: comp_def)
      ultimately have "map_of ?ys k = Some (?v (k, Some b))" by (simp only: map_of_eq_Some_iff)
      with val [OF m] Some show ?thesis by auto
    qed
  qed
qed

lemma read_record_spec:
  assumes "hdb_at k a s M" and "M k = Some r"
  shows "\<exists>xs. read_record H s (Some a) flds = ret xs \<and> record_result r flds xs"
proof -
  obtain K kt F G t where d: "M k = Some (\<lambda>f. Option.bind (G a f) (mem (val_mem s)))"
      "mem (tab_mem s) a = Some t" "holds (key_mem s) t (F a) (ptrs (G a))" "field_ok holds s a (F a) (G a)"
    using assms(1) by (rule hdb_atE)
  from d(4) have v: "ran (G a) \<subseteq> dom (mem (val_mem s))" by (simp add: field_ok_def)
  show ?thesis
  proof (cases flds)
    case None
    obtain fl es where fl: "distinct (map fst fl)" "map_of fl = ptrs (G a)"
        "sh_Entries H (key_mem s) t None (- 1) = ret es"
        "list_all2 (entry_of (key_mem s)) es (take (unat (- 1 :: u64)) fl)"
      using entries_law [OF d(3)] by metis
    from field_entries_spec [OF fl(4,1,2) v] d(1,2) assms(2) fl(3) None show ?thesis
      by (auto simp: read_record_def record_result_def)
  next
    case (Some fs)
    from field_gets_spec [OF d(3) v, of fs] d(1,2) assms(2) Some show ?thesis
      by (simp add: read_record_def record_result_def)
  qed
qed

lemma HashtableDB_Read_spec:
  assumes h: "hdb_rep holds s M" and k: "k = c_str (table @ key)"
  shows "case M k of
      None \<Rightarrow> HashtableDB_Read H s table key flds res = ret (kErrorNoData, res)
    | Some r \<Rightarrow> \<exists>xs. HashtableDB_Read H s table key flds res = ret (kOK, xs) \<and> record_result r flds xs"
proof (cases "M k")
  case None
  with hdb_lookup(1) [OF h None] show ?thesis by (simp add: HashtableDB_Read_def k [symmetric])
next
  case (Some r)
  obtain a where a: "sh_Get H (key_mem s) (key_table s) (Some k) = ret (Some a)" "hdb_at k a s M"
    using hdb_lookup(2) [OF h Some] by blast
  obtain xs where "read_record H s (Some a) flds = ret xs" "record_result r flds xs"
    using read_record_spec [OF a(2) Some] by blast
  with a(1) Some show ?thesis by (simp add: HashtableDB_Read_def k [symmetric])
qed

lemma HashtableDB_Scan_loop_spec:
  assumes "list_all2 (entry_of h) es fl"
    and "\<And>f. f \<in> set fl \<Longrightarrow> \<exists>a. snd f = Some a \<and> hdb_at (fst f) a s M \<and> M (fst f) \<noteq> None"
  shows "\<exists>xss. HashtableDB_Scan_loop H s flds es = ret xss \<and>
     list_all2 (\<lambda>k. record_result (the (M k)) flds) (map fst fl) xss"
  using assms
proof (induction es fl rule: list_all2_induct)
  case (Cons e es f fl)
  obtain a r where r: "snd f = Some a" "hdb_at (fst f) a s M" "M (fst f) = Some r"
    using Cons.prems [of f] by auto
  obtain xs where xs: "read_record H s (Some a) flds = ret xs" "record_result r flds xs"
    using read_record_spec [OF r(2,3)] by blast
  obtain xss where "HashtableDB_Scan_loop H s flds es = ret xss"
      "list_all2 (\<lambda>k. record_result (the (M k)) flds) (map fst fl) xss"
    using Cons.IH Cons.prems by auto
  moreover have "snd e = snd f" using Cons.hyps(1) by (simp add: entry_of_def)
  ultimately show ?case using r xs by simp
qed simp

lemma HashtableDB_Scan_spec:
  assumes h: "hdb_rep holds s M"
  shows "\<exists>ks. distinct ks \<and> set ks = dom M \<and>
    (\<forall>table key len flds. \<exists>xss. HashtableDB_Scan H s table key len flds = ret (kOK, xss) \<and>
       scan_result M ks (c_str (table @ key)) len flds xss)"
proof -
  obtain K kt F G where d: "db_ok holds s K kt F G" "M = record_map s kt G"
    using h by (auto simp: hdb_rep_def)
  have ht: "holds (key_mem s) (key_table s) K (ptrs kt)" using d(1) by (simp add: db_ok_def)
  obtain fl where fl: "distinct (map fst fl)" "map_of fl = ptrs kt"
      "\<And>k n. \<exists>es. sh_Entries H (key_mem s) (key_table s) (Some k) n = ret es \<and>
           list_all2 (entry_of (key_mem s)) es (take (unat n) (dropWhile (\<lambda>f. fst f \<noteq> k) fl))"
    using entries_law [OF ht] by blast
  have at: "\<exists>a. snd f = Some a \<and> hdb_at (fst f) a s M \<and> M (fst f) \<noteq> None" if "f \<in> set fl" for f
  proof -
    have "map_of fl (fst f) = Some (snd f)" using that fl(1) by simp
    then have "map_option Some (kt (fst f)) = Some (snd f)" by (simp add: fl(2))
    then obtain z where "kt (fst f) = Some z" "snd f = Some z" by (metis map_option_eq_Some)
    then show ?thesis using d unfolding hdb_at_def by (auto simp: record_map_def)
  qed
  have "\<exists>xss. HashtableDB_Scan H s table key len flds = ret (kOK, xss) \<and>
       scan_result M (map fst fl) (c_str (table @ key)) len flds xss" for table key len flds
  proof -
    let ?k = "c_str (table @ key)" and ?n = "word_of_int len :: u64"
    let ?fl = "take (unat ?n) (dropWhile (\<lambda>f. fst f \<noteq> ?k) fl)"
    obtain es where es: "sh_Entries H (key_mem s) (key_table s) (Some ?k) ?n = ret es"
        "list_all2 (entry_of (key_mem s)) es ?fl"
      using fl(3) by blast
    have "f \<in> set ?fl \<Longrightarrow> f \<in> set fl" for f
      by (blast dest: in_set_takeD set_dropWhileD)
    then obtain xss where "HashtableDB_Scan_loop H s flds es = ret xss"
        "list_all2 (\<lambda>k. record_result (the (M k)) flds) (map fst ?fl) xss"
      using HashtableDB_Scan_loop_spec [OF es(2), of s M flds] at by blast
    with es(1) show ?thesis
      by (simp add: HashtableDB_Scan_def scan_result_def dropWhile_map take_map comp_def)
  qed
  moreover have "set (map fst fl) = dom M"
  proof -
    have "set (map fst fl) = dom (ptrs kt)" by (simp add: fl(2) [symmetric] dom_map_of_conv_image_fst)
    also have "\<dots> = dom M" by (auto simp: d(2) record_map_def dom_def)
    finally show ?thesis .
  qed
  ultimately show ?thesis using fl(1) by blast
qed

text \<open>Any sequence of calls.\<close>

lemma hdb_step_refines:
  assumes "hdb_rep holds s M"
  shows "\<exists>r s'. hdb_step H s c = ret (r, s') \<and> hdb_allowed M c r \<and> hdb_rep holds s' (hdb_next M c)"
proof (cases c)
  case (HRead t k flds)
  with HashtableDB_Read_spec [OF assms refl, of t k flds "[]"] assms show ?thesis
    by (auto split: option.splits)
next
  case (HScan t k len flds)
  obtain ks xss where "distinct ks" "set ks = dom M" "HashtableDB_Scan H s t k len flds = ret (kOK, xss)"
      "scan_result M ks (c_str (t @ k)) len flds xss"
    using HashtableDB_Scan_spec [OF assms] by blast
  with HScan assms show ?thesis by (intro exI [of _ "HScanned kOK xss"] exI [of _ s]) auto
next
  case (HUpdate t k vs)
  with HashtableDB_Update_spec [OF assms refl, of t k vs] show ?thesis by auto
next
  case (HInsert t k vs)
  with HashtableDB_Insert_spec [OF assms refl, of t k vs] show ?thesis by auto
next
  case (HDelete t k)
  with HashtableDB_Delete_spec [OF assms refl, of t k] show ?thesis by auto
qed

lemma hdb_run_refines:
  "hdb_rep holds s M \<Longrightarrow>
   \<exists>rs s'. hdb_run H s cs = ret (rs, s') \<and> hdb_allowed_run M cs rs \<and> hdb_rep holds s' (foldl hdb_next M cs)"
proof (induction cs arbitrary: s M)
  case (Cons c cs)
  obtain r s1 where s1: "hdb_step H s c = ret (r, s1)" "hdb_allowed M c r" "hdb_rep holds s1 (hdb_next M c)"
    using hdb_step_refines [OF Cons.prems] by blast
  obtain rs s2 where "hdb_run H s1 cs = ret (rs, s2)" "hdb_allowed_run (hdb_next M c) cs rs"
      "hdb_rep holds s2 (foldl hdb_next (hdb_next M c) cs)"
    using Cons.IH [OF s1(3)] by blast
  with s1 show ?case by (intro exI [of _ "r # rs"] exI [of _ s2]) simp
qed simp

lemma hdb_rep_init: "hdb_rep holds (LockStlDB_init H) Map.empty"
proof -
  have "db_ok holds (LockStlDB_init H) {} Map.empty (\<lambda>_. {}) (\<lambda>_. Map.empty)"
    using new_law by (simp add: db_ok_def LockStlDB_init_def)
  then show ?thesis unfolding hdb_rep_def by (intro exI conjI, assumption) (simp add: record_map_def)
qed

end

section \<open>Properties\<close>

text \<open>Results that do not depend on the order: a record of one field, a scan from an absent key.\<close>

lemma record_result_None_one: "record_result [f \<mapsto> v] None xs \<longleftrightarrow> xs = [(f, v)]"
proof -
  have "distinct (map fst ys) \<and> map_of ys = [f \<mapsto> v] \<longleftrightarrow> ys = [(f, v)]" for ys :: "(string \<times> string) list"
  proof
    assume y: "distinct (map fst ys) \<and> map_of ys = [f \<mapsto> v]"
    then have "dom (map_of ys) = {f}" by simp
    then have st: "fst ` set ys = {f}" by (simp add: dom_map_of_conv_image_fst)
    obtain p qs where ys: "ys = p # qs" using st by (cases ys) auto
    with y st have "qs = []" by (cases qs) auto
    moreover have "map_of ys f = Some v" using y by simp
    ultimately show "ys = [(f, v)]" using st ys by (cases p) simp
  qed auto
  then have "record_result [f \<mapsto> v] None xs \<longleftrightarrow> (\<exists>ys. ys = [(f, v)] \<and> xs = take (unat (- 1 :: u64)) ys)"
    by (simp only: record_result_def option.case conj_assoc [symmetric])
  also have "\<dots> \<longleftrightarrow> xs = [(f, v)]" by (simp add: unsigned_minus_1_eq_mask mask_eq_exp_minus_1)
  finally show ?thesis .
qed

lemma scan_result_absent: "set ks = dom M \<Longrightarrow> M k = None \<Longrightarrow> scan_result M ks k len flds xss \<longleftrightarrow> xss = []"
proof -
  assume "set ks = dom M" "M k = None"
  then have d: "dropWhile (\<lambda>k'. k' \<noteq> k) ks = []" by (auto simp: dropWhile_eq_Nil_conv)
  show ?thesis unfolding scan_result_def d by simp
qed

text \<open>What holds of any implementation of the table, for the locked one under any arrangement.\<close>

lemmas LockStl_run = string_hashtable.hdb_run_refines [OF LockStl_string_hashtable]
  and LockStl_insert = string_hashtable.HashtableDB_Insert_spec [OF LockStl_string_hashtable]
  and LockStl_scan = string_hashtable.HashtableDB_Scan_spec [OF LockStl_string_hashtable]
  and LockStl_init = string_hashtable.hdb_rep_init [OF LockStl_string_hashtable]

text \<open>
  C24: however \<^verbatim>\<open>unordered_map\<close> arranges its entries, every sequence of reads, scans, updates,
  insertions and deletions through \<open>HashtableDB\<close> on locked hash tables returns, with results a map
  of maps indexed by the concatenation of table and key allows, and leaves a state that holds that
  map; no call dereferences a freed block or frees one twice. Every status is determined, and every
  read of named fields. A read with a null \<open>fields\<close> returns all fields of the record, each once, in
  some order; a scan returns the records from the given key on, at most \<open>len\<close> as a \<open>size_t\<close>, in some
  enumeration of the records (none when the key is absent).
\<close>

theorem hashtable_db_refines_map:
  "rearranges arrange \<Longrightarrow>
   \<exists>rs s'. hdb_run (LockStl_ops arrange) (LockStlDB_init (LockStl_ops arrange)) cs = ret (rs, s') \<and>
     hdb_allowed_run Map.empty cs rs \<and> hdb_rep LockStl_holds s' (foldl hdb_next Map.empty cs)"
  by (rule LockStl_run [OF _ LockStl_init])

theorem hashtable_db_refines_map_witness:
  "\<exists>s'. hdb_run (LockStl_ops at_front) (LockStlDB_init (LockStl_ops at_front))
      [HUpdate ''t'' ''k'' [(''f'', ''1''), (''f'', ''2'')], HRead ''t'' ''k'' (Some [''f'', ''g'']),
       HUpdate ''t'' ''k'' [(''f'', ''1''), (''f'', ''2'')], HRead ''t'' ''k'' None,
       HScan ''t'' ''a'' 5 None, HDelete ''t'' ''k'', HRead ''t'' ''k'' (Some [''f''])] =
     ret ([HDone 0, HGot 0 [(''f'', ''1'')], HDone 0, HGot 0 [(''f'', ''2'')], HScanned 0 [], HDone 0,
       HGot 1 []], s')"
proof -
  have "rearranges at_front" by (simp add: rearranges_def at_front_def)
  from hashtable_db_refines_map [OF this, of "[HUpdate ''t'' ''k'' [(''f'', ''1''), (''f'', ''2'')],
      HRead ''t'' ''k'' (Some [''f'', ''g'']), HUpdate ''t'' ''k'' [(''f'', ''1''), (''f'', ''2'')],
      HRead ''t'' ''k'' None, HScan ''t'' ''a'' 5 None, HDelete ''t'' ''k'', HRead ''t'' ''k'' (Some [''f''])]"]
  obtain rs s' where run: "hdb_run (LockStl_ops at_front) (LockStlDB_init (LockStl_ops at_front))
      [HUpdate ''t'' ''k'' [(''f'', ''1''), (''f'', ''2'')], HRead ''t'' ''k'' (Some [''f'', ''g'']),
       HUpdate ''t'' ''k'' [(''f'', ''1''), (''f'', ''2'')], HRead ''t'' ''k'' None,
       HScan ''t'' ''a'' 5 None, HDelete ''t'' ''k'', HRead ''t'' ''k'' (Some [''f''])] = ret (rs, s')"
    and al: "hdb_allowed_run Map.empty [HUpdate ''t'' ''k'' [(''f'', ''1''), (''f'', ''2'')],
       HRead ''t'' ''k'' (Some [''f'', ''g'']),
       HUpdate ''t'' ''k'' [(''f'', ''1''), (''f'', ''2'')], HRead ''t'' ''k'' None,
       HScan ''t'' ''a'' 5 None, HDelete ''t'' ''k'', HRead ''t'' ''k'' (Some [''f''])] rs"
    by blast
  have scan: "hdb_allowed [''tk'' \<mapsto> r] (HScan ''t'' ''a'' 5 None) x \<longleftrightarrow> x = HScanned 0 []" for r x
  proof
    assume "hdb_allowed [''tk'' \<mapsto> r] (HScan ''t'' ''a'' 5 None) x"
    then obtain ks xss where "set ks = dom [''tk'' \<mapsto> r]" "x = HScanned kOK xss"
      "scan_result [''tk'' \<mapsto> r] ks ''ta'' 5 None xss" by (auto simp: c_str_def)
    with scan_result_absent [of ks "[''tk'' \<mapsto> r]" "''ta''" 5 None xss] show "x = HScanned 0 []"
      by (simp add: kOK_def)
  next
    assume "x = HScanned 0 []"
    with scan_result_absent [of "[''tk'']" "[''tk'' \<mapsto> r]" "''ta''" 5 None "[]"]
    show "hdb_allowed [''tk'' \<mapsto> r] (HScan ''t'' ''a'' 5 None) x"
      by (simp add: c_str_def kOK_def) (intro exI [of _ "[''tk'']"], simp)
  qed
  have named: "record_result r (Some fs) xs \<longleftrightarrow> xs = get_fields r fs" for r fs xs
    by (simp add: record_result_def)
  note al [unfolded hdb_allowed_run.simps]
  then have "rs = [HDone 0, HGot 0 [(''f'', ''1'')], HDone 0, HGot 0 [(''f'', ''2'')], HScanned 0 [], HDone 0,
       HGot 1 []]"
    by (simp add: c_str_def get_fields_def kOK_def kErrorNoData_def record_result_None_one named scan
        split: list.splits del: hdb_allowed.simps(2))
  with run show ?thesis by blast
qed

text \<open>
  \<open>Insert\<close> is not all or nothing: when it meets a field the record already has it stops with
  \<open>kErrorConflict\<close>, the fields before it stay inserted and the ones after it are not.
\<close>

lemma hashtable_db_insert_conflict:
  "rearranges arrange \<Longrightarrow> hdb_rep LockStl_holds s M \<Longrightarrow> M (c_str (table @ key)) = Some r \<Longrightarrow>
   put_until r vs = (kOK, r') \<Longrightarrow> r' (c_str (fst p)) \<noteq> None \<Longrightarrow>
   \<exists>s'. HashtableDB_Insert (LockStl_ops arrange) s table key (vs @ p # ws) = ret (kErrorConflict, s') \<and>
     hdb_rep LockStl_holds s' (M(c_str (table @ key) \<mapsto> r'))"
  using LockStl_insert [of arrange s M "c_str (table @ key)" table key "vs @ p # ws"]
  by (simp add: put_until_conflict)

lemma hashtable_db_insert_conflict_example:
  "\<exists>s s'. HashtableDB_Insert (LockStl_ops at_front) (LockStlDB_init (LockStl_ops at_front)) ''t'' ''k''
        [(''f'', ''1'')] = ret (kOK, s) \<and>
     HashtableDB_Insert (LockStl_ops at_front) s ''t'' ''k'' [(''g'', ''2''), (''f'', ''3''), (''h'', ''4'')] =
        ret (kErrorConflict, s') \<and>
     hdb_rep LockStl_holds s' [''tk'' \<mapsto> [''f'' \<mapsto> ''1'', ''g'' \<mapsto> ''2'']]"
proof -
  have a: "rearranges at_front" by (simp add: rearranges_def at_front_def)
  obtain s where s: "HashtableDB_Insert (LockStl_ops at_front) (LockStlDB_init (LockStl_ops at_front)) ''t'' ''k''
        [(''f'', ''1'')] = ret (kOK, s)" "hdb_rep LockStl_holds s [''tk'' \<mapsto> [''f'' \<mapsto> ''1'']]"
    using LockStl_insert [OF a LockStl_init [OF a] refl, of "''t''" "''k''" "[(''f'', ''1'')]"]
    by (auto simp: c_str_def)
  from hashtable_db_insert_conflict [OF a s(2), of "''t''" "''k''" _ "[(''g'', ''2'')]" _
      "(''f'', ''3'')" "[(''h'', ''4'')]"] s(1)
  show ?thesis by (auto simp: c_str_def)
qed

text \<open>
  \<open>Scan\<close> does not follow the key order: all scans of one state walk the same enumeration of the
  records, which is the hash table's, starting at the given key (nowhere when it is absent) and
  giving at most \<open>len\<close> records, and, a negative \<open>len\<close> being a huge \<open>size_t\<close>, without a limit then.
\<close>

lemma hashtable_db_scan_order:
  "rearranges arrange \<Longrightarrow> hdb_rep LockStl_holds s M \<Longrightarrow>
   \<exists>ks. distinct ks \<and> set ks = dom M \<and>
     (\<forall>table key len flds. \<exists>xss. HashtableDB_Scan (LockStl_ops arrange) s table key len flds = ret (kOK, xss) \<and>
        scan_result M ks (c_str (table @ key)) len flds xss)"
  by (rule LockStl_scan)

lemma hashtable_db_scan_order_example:
  "\<exists>s. HashtableDB_Insert (LockStl_ops at_front) (LockStlDB_init (LockStl_ops at_front)) ''t'' ''k''
        [(''f'', ''1'')] = ret (kOK, s) \<and>
     HashtableDB_Scan (LockStl_ops at_front) s ''t'' ''k'' 5 (Some [''f'']) = ret (kOK, [[(''f'', ''1'')]]) \<and>
     HashtableDB_Scan (LockStl_ops at_front) s ''t'' ''a'' 5 (Some [''f'']) = ret (kOK, [])"
proof -
  have a: "rearranges at_front" by (simp add: rearranges_def at_front_def)
  obtain s where s: "HashtableDB_Insert (LockStl_ops at_front) (LockStlDB_init (LockStl_ops at_front)) ''t'' ''k''
        [(''f'', ''1'')] = ret (kOK, s)" "hdb_rep LockStl_holds s [''tk'' \<mapsto> [''f'' \<mapsto> ''1'']]"
    using LockStl_insert [OF a LockStl_init [OF a] refl, of "''t''" "''k''" "[(''f'', ''1'')]"]
    by (auto simp: c_str_def)
  obtain ks where "distinct ks" "set ks = {''tk''}" and
    sc: "\<And>table key len flds. \<exists>xss. HashtableDB_Scan (LockStl_ops at_front) s table key len flds = ret (kOK, xss) \<and>
        scan_result [''tk'' \<mapsto> [''f'' \<mapsto> ''1'']] ks (c_str (table @ key)) len flds xss"
    using hashtable_db_scan_order [OF a s(2)] by auto
  then have "ks = [''tk'']" by (cases ks; cases "tl ks") auto
  with s(1) sc [of "''t''" "''k''" 5 "Some [''f'']"] sc [of "''t''" "''a''" 5 "Some [''f'']"]
  show ?thesis by (auto simp: c_str_def get_fields_def scan_result_def record_result_def list_all2_Cons1)
qed

end
