(* ===== verification/Lock_Code.thy ===== *)
theory Lock_Code
  imports Storeds_DB
begin

text \<open>
  Threads that call a store guarded by one \<^verbatim>\<open>pthread\<close> mutex or read-write lock, as the stores
  named \<open>*ConcurrentMLock\<close> and \<open>*ConcurrentLock\<close> are. The body of a method is a value of \<open>code\<close>: a
  tree of statements, each of which reads and writes the shared state in one step, and of lock
  calls. The threads interleave at every statement. The locale \<open>locked_store\<close> states what a store
  promises of its methods, and proves once what the lock gives its callers: no schedule faults or
  gets stuck, every schedule ends, and all it returns is what the calls return when made one after
  the other in the order in which they got the lock. A read returns a pointer into the store, which
  its caller follows after the lock has been released.

  A mutex is a lock that is only ever taken \<open>Exclusive\<close>. Acquiring an initialised lock returns 0.
\<close>

section \<open>Code with lock calls\<close>

datatype lock_mode = Shared | Exclusive

datatype ('s, 'r) code =
    Done 'r
  | Step (stmt_of: "'s \<Rightarrow> ('s \<times> ('s, 'r) code) comp")
  | Acquire lock_mode "int \<Rightarrow> ('s, 'r) code"
  | Release "('s, 'r) code"

text \<open>
  What \<open>read\<close> leaves in its \<^verbatim>\<open>void *&result\<close>: nothing, the null pointer, or the address of the value
  in slot \<open>i\<close> of the block \<open>a\<close> (\<open>0\<close> where the block has one value).
\<close>

datatype vref = NoRef | NullRef | Ref nat nat

text \<open>
  The calls of the virtual interface and what they return. A scan copies the values under the lock;
  a read returns the pointer it found.
\<close>

datatype kv_call =
    CRead u64
  | CUpdate u64 string
  | CInsert u64 string
  | CScan u64 int scan_result

datatype call_res = RStatus int | RPtr int vref | RScan int scan_result

type_synonym 's routine = "('s, call_res) code"

text \<open>
  A call made by a store's only thread. \<open>at s k\<close> is the read of \<open>k\<close> up to the pointer it returns.
\<close>

fun kv_seq :: "'s storeds_base \<Rightarrow> ('s \<Rightarrow> u64 \<Rightarrow> (int \<times> vref) comp) \<Rightarrow> kv_call \<Rightarrow> 's \<Rightarrow> (call_res \<times> 's) comp" where
  "kv_seq ops at (CRead k) s = bindC (at s k) (\<lambda>(st, q). ret (RPtr st q, s))"
| "kv_seq ops at (CUpdate k v) s = bindC (op_update ops s k v) (\<lambda>(st, s'). ret (RStatus st, s'))"
| "kv_seq ops at (CInsert k v) s = bindC (op_insert ops s k v) (\<lambda>(st, s'). ret (RStatus st, s'))"
| "kv_seq ops at (CScan k len res) s = bindC (op_scan ops s k len res) (\<lambda>(st, res'). ret (RScan st res', s))"

text \<open>
  What the caller of a read sees through the pointer: \<open>val s a i\<close> is the value at \<open>Ref a i\<close> in the
  state \<open>s\<close>, \<open>r\<close> what its \<^verbatim>\<open>result\<close> was before. \<open>reads_through\<close>: following the pointer at once is
  what the \<open>read\<close> of the unlocked store is.
\<close>

definition follow :: "('s \<Rightarrow> nat \<Rightarrow> nat \<Rightarrow> outp comp) \<Rightarrow> 's \<Rightarrow> outp \<Rightarrow> vref \<Rightarrow> outp comp" where
  "follow val s r q = (case q of NoRef \<Rightarrow> ret r | NullRef \<Rightarrow> ret NullP | Ref a i \<Rightarrow> val s a i)"

definition reads_through ::
  "'s storeds_base \<Rightarrow> ('s \<Rightarrow> u64 \<Rightarrow> (int \<times> vref) comp) \<Rightarrow> ('s \<Rightarrow> nat \<Rightarrow> nat \<Rightarrow> outp comp) \<Rightarrow> 's \<Rightarrow> u64 \<Rightarrow> bool" where
  "reads_through ops at val s k \<longleftrightarrow>
     (\<forall>r. op_read ops s k r = bindC (at s k) (\<lambda>(st, q). bindC (follow val s r q) (\<lambda>x. ret (st, x))))"

text \<open>The address of a node's value, when a search has found the node.\<close>

definition node_ref :: "ptr \<Rightarrow> vref" where
  "node_ref p = (case p of None \<Rightarrow> NoRef | Some a \<Rightarrow> Ref a 0)"

lemma node_ref_simps [simp]: "node_ref NULL = NoRef" "node_ref (Some a) = Ref a 0"
  by (simp_all add: node_ref_def)

lemma follow_simps [simp]:
  "follow val s r NoRef = ret r" "follow val s r NullRef = ret NullP" "follow val s r (Ref a i) = val s a i"
  by (simp_all add: follow_def)

text \<open>The calls of several threads, made one after the other; each result goes with its thread.\<close>

fun serial ::
  "'s storeds_base \<Rightarrow> ('s \<Rightarrow> u64 \<Rightarrow> (int \<times> vref) comp) \<Rightarrow> (nat \<times> kv_call) list \<Rightarrow> 's \<Rightarrow>
   ((nat \<times> call_res) list \<times> 's) comp" where
  "serial ops at [] s = ret ([], s)"
| "serial ops at ((t, c) # cs) s =
     bindC (kv_seq ops at c s) (\<lambda>(r, s').
     bindC (serial ops at cs s') (\<lambda>(rs, s''). ret ((t, r) # rs, s'')))"

definition of_thread :: "nat \<Rightarrow> (nat \<times> 'a) list \<Rightarrow> 'a list" where
  "of_thread t xs = map snd (filter (\<lambda>x. fst x = t) xs)"

lemma of_thread_simps [simp]:
  "of_thread t [] = []"
  "of_thread t (xs @ ys) = of_thread t xs @ of_thread t ys"
  "of_thread t ((u, x) # xs) = (if u = t then x # of_thread t xs else of_thread t xs)"
  by (simp_all add: of_thread_def)

lemma serial_snoc:
  "serial ops at (cs @ [(t, c)]) s = bindC (serial ops at cs s) (\<lambda>(rs, s').
     bindC (kv_seq ops at c s') (\<lambda>(r, s''). ret (rs @ [(t, r)], s'')))"
proof (induction cs arbitrary: s)
  case (Cons d cs)
  show ?case by (cases d) (simp add: Cons.IH bindC_assoc split_def)
qed simp

text \<open>A test that a method makes before it takes the lock.\<close>

definition checked :: "('s \<Rightarrow> unit comp) \<Rightarrow> 's routine \<Rightarrow> 's routine" where
  "checked chk p = Step (\<lambda>s. bindC (chk s) (\<lambda>_. ret (s, p)))"

text \<open>
  A store with its lock, as \<open>init\<close> makes it and \<open>destroy\<close> leaves it; \<open>rc\<close> is what
  \<^verbatim>\<open>pthread_mutex_init\<close> or \<^verbatim>\<open>pthread_rwlock_init\<close> returns.
\<close>

record 's locked =
  inner :: 's
  lock_live :: bool

definition lock_init :: "int \<Rightarrow> unit comp" where
  "lock_init rc = assertC (rc = 0)"

section \<open>The threads\<close>

text \<open>
  A thread has calls to make, a call it is in (with what is left of its code), the lock it holds
  and what its calls have returned. \<open>order\<close> is a history variable: who got the lock for which call.
\<close>

record 's thread =
  todo :: "kv_call list"
  cur :: "(kv_call \<times> 's routine) option"
  held :: "lock_mode option"
  outs :: "call_res list"

record 's lsys =
  shared :: 's
  thr :: "nat \<Rightarrow> 's thread"
  order :: "(nat \<times> kv_call) list"

text \<open>Thread \<open>t\<close> makes the calls \<open>cs ! t\<close>.\<close>

definition calls_of :: "kv_call list list \<Rightarrow> nat \<Rightarrow> kv_call list" where
  "calls_of cs t = (if t < length cs then cs ! t else [])"

definition lock_start :: "'s \<Rightarrow> kv_call list list \<Rightarrow> 's lsys" where
  "lock_start s cs = \<lparr>shared = s,
     thr = (\<lambda>t. \<lparr>todo = calls_of cs t, cur = None, held = None, outs = []\<rparr>), order = []\<rparr>"

definition free_for :: "'s lsys \<Rightarrow> lock_mode \<Rightarrow> bool" where
  "free_for S m \<longleftrightarrow>
     (\<forall>u. if m = Exclusive then held (thr S u) = None else held (thr S u) \<noteq> Some Exclusive)"

inductive lock_step :: "(kv_call \<Rightarrow> 's routine) \<Rightarrow> 's lsys \<Rightarrow> 's lsys \<Rightarrow> bool"
  for code_of :: "kv_call \<Rightarrow> 's routine" where
  start: "thr S t = T \<Longrightarrow> cur T = None \<Longrightarrow> todo T = c # cs \<Longrightarrow>
    lock_step code_of S (S\<lparr>thr := (thr S)(t := T\<lparr>todo := cs, cur := Some (c, code_of c)\<rparr>)\<rparr>)"
| run: "thr S t = T \<Longrightarrow> cur T = Some (c, Step f) \<Longrightarrow> f (shared S) = ret (s, k) \<Longrightarrow>
    lock_step code_of S (S\<lparr>shared := s, thr := (thr S)(t := T\<lparr>cur := Some (c, k)\<rparr>)\<rparr>)"
| acquire: "thr S t = T \<Longrightarrow> cur T = Some (c, Acquire m k) \<Longrightarrow> free_for S m \<Longrightarrow>
    lock_step code_of S (S\<lparr>thr := (thr S)(t := T\<lparr>cur := Some (c, k 0), held := Some m\<rparr>),
      order := order S @ [(t, c)]\<rparr>)"
| release: "thr S t = T \<Longrightarrow> cur T = Some (c, Release k) \<Longrightarrow> held T = Some m \<Longrightarrow>
    lock_step code_of S (S\<lparr>thr := (thr S)(t := T\<lparr>cur := Some (c, k), held := None\<rparr>)\<rparr>)"
| finish: "thr S t = T \<Longrightarrow> cur T = Some (c, Done r) \<Longrightarrow>
    lock_step code_of S (S\<lparr>thr := (thr S)(t := T\<lparr>cur := None, outs := outs T @ [r]\<rparr>)\<rparr>)"

text \<open>Schedules of \<open>n\<close> steps.\<close>

inductive lock_run :: "(kv_call \<Rightarrow> 's routine) \<Rightarrow> 's lsys \<Rightarrow> nat \<Rightarrow> 's lsys \<Rightarrow> bool"
  for code_of :: "kv_call \<Rightarrow> 's routine" and S0 :: "'s lsys" where
  none: "lock_run code_of S0 0 S0"
| more: "lock_run code_of S0 n S \<Longrightarrow> lock_step code_of S S' \<Longrightarrow> lock_run code_of S0 (Suc n) S'"

text \<open>
  What must not happen: a statement that faults or does not return, a lock taken by a thread that
  has it already, or released by one that has not.
\<close>

definition faulty :: "'s lsys \<Rightarrow> bool" where
  "faulty S \<longleftrightarrow> (\<exists>t c.
     (\<exists>f. cur (thr S t) = Some (c, Step f) \<and> \<not> returns (f (shared S))) \<or>
     (\<exists>m k. cur (thr S t) = Some (c, Acquire m k) \<and> held (thr S t) \<noteq> None) \<or>
     (\<exists>k. cur (thr S t) = Some (c, Release k) \<and> held (thr S t) = None) \<or>
     (\<exists>r. cur (thr S t) = Some (c, Done r) \<and> held (thr S t) \<noteq> None))"

definition finished :: "'s lsys \<Rightarrow> bool" where
  "finished S \<longleftrightarrow> (\<forall>t. cur (thr S t) = None \<and> todo (thr S t) = [])"

text \<open>An exclusive holder is alone.\<close>

definition exclusion :: "'s lsys \<Rightarrow> bool" where
  "exclusion S \<longleftrightarrow>
     (\<forall>t u. held (thr S t) = Some Exclusive \<longrightarrow> u \<noteq> t \<longrightarrow> held (thr S u) = None)"

text \<open>
  What the lock is for, of all schedules of the threads: nothing faults, an exclusive holder is
  alone, there are at most \<open>bound + 5\<close> steps per call, some thread can always go on until all calls
  are made, and then the results and the final state are those of the store without a lock when the
  calls are made one after the other, each thread's in its own order. While nobody is changing the
  store, the pointer that a read of it gives leads to what the \<open>read\<close> of the unlocked store returns.
\<close>

definition lock_correct ::
  "'s storeds_base \<Rightarrow> ('s \<Rightarrow> u64 \<Rightarrow> (int \<times> vref) comp) \<Rightarrow> ('s \<Rightarrow> nat \<Rightarrow> nat \<Rightarrow> outp comp) \<Rightarrow>
   (kv_call \<Rightarrow> 's routine) \<Rightarrow> nat \<Rightarrow> 's \<Rightarrow> kv_call list list \<Rightarrow> bool" where
  "lock_correct ops at val code_of bound s cs \<longleftrightarrow>
     (\<forall>n S. lock_run code_of (lock_start s cs) n S \<longrightarrow>
        \<not> faulty S \<and> exclusion S \<and> n \<le> (bound + 5) * length (concat cs) \<and>
        (\<not> finished S \<longrightarrow> (\<exists>S'. lock_step code_of S S')) \<and>
        ((\<forall>t. held (thr S t) \<noteq> Some Exclusive) \<longrightarrow>
           (\<forall>k. CRead k \<in> set (concat cs) \<longrightarrow> reads_through ops at val (shared S) k)) \<and>
        (finished S \<longrightarrow> (\<exists>rs. serial ops at (order S) s = ret (rs, shared S) \<and>
           (\<forall>t. of_thread t (order S) = calls_of cs t \<and> of_thread t rs = outs (thr S t)))))"

section \<open>Critical sections\<close>

text \<open>
  \<open>lock_section alive m n c s r s'\<close>: from \<open>s\<close>, with the lock held in mode \<open>m\<close>, the code \<open>c\<close> takes
  \<open>n\<close> statements to \<open>s'\<close>, then releases the lock and returns \<open>r\<close>. On its way the state stays
  \<open>alive\<close>, as the tests made without the lock need, and under a shared lock it does not change.
\<close>

inductive lock_section ::
  "('s \<Rightarrow> bool) \<Rightarrow> lock_mode \<Rightarrow> nat \<Rightarrow> 's routine \<Rightarrow> 's \<Rightarrow> call_res \<Rightarrow> 's \<Rightarrow> bool"
  for alive :: "'s \<Rightarrow> bool" and m :: lock_mode where
  leave: "lock_section alive m 0 (Release (Done r)) s r s"
| stmt: "f s = ret (s1, c) \<Longrightarrow> alive s1 \<Longrightarrow> (m = Shared \<longrightarrow> s1 = s) \<Longrightarrow>
    lock_section alive m n c s1 r s' \<Longrightarrow> lock_section alive m (Suc n) (Step f) s r s'"

inductive_cases lock_section_StepE: "lock_section alive m n (Step f) s r s'"
inductive_cases lock_section_ReleaseE: "lock_section alive m n (Release k) s r s'"
inductive_cases lock_section_AcquireE [elim!]: "lock_section alive m n (Acquire m' k) s r s'"
inductive_cases lock_section_DoneE [elim!]: "lock_section alive m n (Done r') s r s'"

lemma lock_section_shared: "lock_section alive Shared n c s r s' \<Longrightarrow> s' = s"
  by (induction rule: lock_section.induct) auto

text \<open>The same by computation, with \<open>n\<close> as fuel.\<close>

fun sec_run :: "('s \<Rightarrow> bool) \<Rightarrow> lock_mode \<Rightarrow> nat \<Rightarrow> 's routine \<Rightarrow> 's \<Rightarrow> (call_res \<times> 's) comp" where
  "sec_run alive m n (Release (Done r)) s = ret (r, s)"
| "sec_run alive m (Suc n) (Step f) s = bindC (f s) (\<lambda>(s1, c).
     if alive s1 \<and> (m = Shared \<longrightarrow> s1 = s) then sec_run alive m n c s1 else None)"
| "sec_run alive m n c s = None"

lemma sec_run_is_Step:
  "is_Step c \<Longrightarrow> sec_run alive m (Suc n) c s = bindC (stmt_of c s) (\<lambda>(s1, c).
     if alive s1 \<and> (m = Shared \<longrightarrow> s1 = s) then sec_run alive m n c s1 else None)"
  by (cases c) simp_all

lemma sec_run_section:
  "sec_run alive m n c s = ret (r, s') \<Longrightarrow> \<exists>i \<le> n. lock_section alive m i c s r s'"
proof (induction alive m n c s rule: sec_run.induct)
  case (1 alive m n r' s)
  then show ?case by (auto intro!: exI [of _ 0] lock_section.leave)
next
  case (2 alive m n f s)
  then obtain s1 c where c: "f s = ret (s1, c)" "alive s1" "m = Shared \<longrightarrow> s1 = s"
      "sec_run alive m n c s1 = ret (r, s')"
    by (auto simp: bindC_eq_ret split: if_splits)
  with 2 obtain i where "i \<le> n" "lock_section alive m i c s1 r s'" by fastforce
  with c show ?case by (intro exI [of _ "Suc i"]) (auto intro: lock_section.stmt)
qed simp_all

text \<open>How a method gets to its lock call: at once, or after a test without the lock.\<close>

definition enters :: "('s \<Rightarrow> bool) \<Rightarrow> 's routine \<Rightarrow> lock_mode \<Rightarrow> (int \<Rightarrow> 's routine) \<Rightarrow> bool" where
  "enters alive c m k \<longleftrightarrow> c = Acquire m k \<or>
     (\<exists>f. c = Step f \<and> (\<forall>s. alive s \<longrightarrow> f s = ret (s, Acquire m k)))"

lemma bindC_if: "bindC (if b then x else y) f = (if b then bindC x f else bindC y f)"
  by simp

text \<open>The last statement of a critical section that ends an operation \<open>x\<close>.\<close>

abbreviation returning :: "(int \<times> 's) comp \<Rightarrow> ('s \<times> 's routine) comp" where
  "returning x \<equiv> bindC x (\<lambda>(r, s). ret (s, Release (Done (RStatus r))))"

lemma enters_simps [simp]:
  "enters alive (Acquire m k) m' k' \<longleftrightarrow> m' = m \<and> k' = k"
  "(\<And>s. alive s \<Longrightarrow> chk s = ret ()) \<Longrightarrow> enters alive (checked chk (Acquire m k)) m k"
  by (auto simp: enters_def checked_def)

section \<open>What a locked store promises\<close>

text \<open>
  \<open>ops\<close> is the store without its lock, \<open>code_of\<close> the methods with it. In a state that satisfies
  the store's invariant, a valid call reaches its lock, and its critical section does what the
  store without a lock does, in at most \<open>bound\<close> statements. Following the pointer of a read is the
  read of the unlocked store.
\<close>

locale locked_store =
  fixes ops :: "'s storeds_base"
    and at :: "'s \<Rightarrow> u64 \<Rightarrow> (int \<times> vref) comp"
    and val :: "'s \<Rightarrow> nat \<Rightarrow> nat \<Rightarrow> outp comp"
    and code_of :: "kv_call \<Rightarrow> 's routine"
    and alive :: "'s \<Rightarrow> bool"
    and inv :: "'s \<Rightarrow> bool"
    and ok :: "kv_call \<Rightarrow> bool"
    and bound :: nat
  assumes alive_law: "inv s \<Longrightarrow> alive s"
    and read_law: "inv s \<Longrightarrow> ok (CRead k) \<Longrightarrow> reads_through ops at val s k"
    and call_law: "ok c \<Longrightarrow> \<exists>m k. enters alive (code_of c) m k \<and>
      (\<forall>s. inv s \<longrightarrow> (\<exists>r s' n. n \<le> bound \<and> kv_seq ops at c s = ret (r, s') \<and> inv s' \<and>
         lock_section alive m n (k 0) s r s'))"

begin

definition body_ok :: "kv_call \<Rightarrow> lock_mode \<Rightarrow> (int \<Rightarrow> 's routine) \<Rightarrow> bool" where
  "body_ok c m k \<longleftrightarrow> (\<forall>s. inv s \<longrightarrow> (\<exists>r s' n. n \<le> bound \<and> kv_seq ops at c s = ret (r, s') \<and> inv s' \<and>
     lock_section alive m n (k 0) s r s'))"

abbreviation weight :: "'s thread \<Rightarrow> nat" where
  "weight T \<equiv> (bound + 5) * length (todo T)"

text \<open>
  Where a thread is: between calls, before its lock call, in its critical section (which leads to
  the state \<open>sm\<close>), or after it. \<open>dc\<close> and \<open>rs\<close> are its calls that got the lock and their results,
  \<open>b\<close> bounds the steps it has left.
\<close>

definition waiting :: "'s thread \<Rightarrow> kv_call list \<Rightarrow> call_res list \<Rightarrow> kv_call list \<Rightarrow> nat \<Rightarrow> bool" where
  "waiting T dc rs calls b \<longleftrightarrow> held T = None \<and> rs = outs T \<and>
     (case cur T of None \<Rightarrow> dc @ todo T = calls \<and> weight T \<le> b
      | Some (c, p) \<Rightarrow> dc @ c # todo T = calls \<and> (\<exists>m k. body_ok c m k \<and>
         (p = Acquire m k \<and> weight T + bound + 3 \<le> b \<or>
          (\<exists>f. p = Step f \<and> (\<forall>s. alive s \<longrightarrow> f s = ret (s, Acquire m k)) \<and> weight T + bound + 4 \<le> b))))"

definition inside :: "'s \<Rightarrow> 's \<Rightarrow> 's thread \<Rightarrow> kv_call list \<Rightarrow> call_res list \<Rightarrow> kv_call list \<Rightarrow> nat \<Rightarrow> bool" where
  "inside s sm T dc rs calls b \<longleftrightarrow> calls \<noteq> [] \<and> dc @ todo T = calls \<and>
     (\<exists>c p m n r. cur T = Some (c, p) \<and> held T = Some m \<and> lock_section alive m n p s r sm \<and>
        rs = outs T @ [r] \<and> weight T + n + 2 \<le> b)"

definition leaving :: "'s thread \<Rightarrow> kv_call list \<Rightarrow> call_res list \<Rightarrow> kv_call list \<Rightarrow> nat \<Rightarrow> bool" where
  "leaving T dc rs calls b \<longleftrightarrow> calls \<noteq> [] \<and> dc @ todo T = calls \<and> held T = None \<and>
     (\<exists>c r. cur T = Some (c, Done r) \<and> rs = outs T @ [r] \<and> weight T + 1 \<le> b)"

definition thread_ok :: "'s \<Rightarrow> 's \<Rightarrow> 's thread \<Rightarrow> kv_call list \<Rightarrow> call_res list \<Rightarrow> kv_call list \<Rightarrow> nat \<Rightarrow> bool" where
  "thread_ok s sm T dc rs calls b \<longleftrightarrow>
     waiting T dc rs calls b \<or> inside s sm T dc rs calls b \<or> leaving T dc rs calls b"

definition lock_inv :: "'s \<Rightarrow> (nat \<Rightarrow> kv_call list) \<Rightarrow> nat \<Rightarrow> nat \<Rightarrow> 's lsys \<Rightarrow> bool" where
  "lock_inv s0 calls N i S \<longleftrightarrow> exclusion S \<and> alive (shared S) \<and> (\<exists>rs sm b.
     serial ops at (order S) s0 = ret (rs, sm) \<and> inv sm \<and>
     ((\<forall>t. held (thr S t) \<noteq> Some Exclusive) \<longrightarrow> shared S = sm) \<and>
     (\<forall>t. thread_ok (shared S) sm (thr S t) (of_thread t (order S)) (of_thread t rs) (calls t) (b t)) \<and>
     i + (\<Sum>t<N. b t) \<le> (\<Sum>t<N. (bound + 5) * length (calls t)))"

lemma thread_ok_free:
  "held T = None \<Longrightarrow> thread_ok s sm T dc rs calls b = thread_ok s' sm' T dc rs calls b"
  by (auto simp: thread_ok_def inside_def)

lemma enters_body: "ok c \<Longrightarrow> \<exists>m k. enters alive (code_of c) m k \<and> body_ok c m k"
  using call_law unfolding body_ok_def .

text \<open>One thread's share of a step.\<close>

lemma start_ok:
  assumes "thread_ok s sm T dc rs calls b" and "cur T = None" and "todo T = c # cs"
    and "\<And>c. c \<in> set calls \<Longrightarrow> ok c"
  shows "thread_ok s sm (T\<lparr>todo := cs, cur := Some (c, code_of c)\<rparr>) dc rs calls (b - 1) \<and> 0 < b \<and> held T = None"
proof -
  have w: "held T = None" "rs = outs T" "dc @ c # cs = calls" "(bound + 5) * length (c # cs) \<le> b"
    using assms(1-3) by (auto simp: thread_ok_def waiting_def inside_def leaving_def)
  then obtain m k where "enters alive (code_of c) m k" "body_ok c m k"
    using enters_body [of c] assms(4) by auto
  then have "waiting (T\<lparr>todo := cs, cur := Some (c, code_of c)\<rparr>) dc rs calls (b - 1)"
    using w unfolding waiting_def enters_def
    by (auto simp: field_simps intro!: exI [of _ m] exI [of _ k])
  with w show ?thesis by (simp add: thread_ok_def)
qed

lemma run_ok:
  assumes "thread_ok s sm T dc rs calls b" and "cur T = Some (c, Step f)" and "f s = ret (s1, p)"
    and "alive s"
  shows "thread_ok s1 sm (T\<lparr>cur := Some (c, p)\<rparr>) dc rs calls (b - 1) \<and> 0 < b \<and>
    alive s1 \<and> (held T \<noteq> Some Exclusive \<longrightarrow> s1 = s)"
  using assms(1) [unfolded thread_ok_def]
proof (elim disjE)
  assume "waiting T dc rs calls b"
  then obtain m k where k: "dc @ c # todo T = calls" "held T = None" "rs = outs T" "body_ok c m k"
      "f s = ret (s, Acquire m k)" "weight T + bound + 4 \<le> b"
    using assms(2,4) by (auto simp: waiting_def)
  then have "waiting (T\<lparr>cur := Some (c, p)\<rparr>) dc rs calls (b - 1)"
    using assms(3) by (auto simp: waiting_def)
  with k assms(3,4) show ?thesis by (auto simp: thread_ok_def)
next
  assume i: "inside s sm T dc rs calls b"
  then obtain m n r where n: "held T = Some m" "lock_section alive m n (Step f) s r sm"
      "rs = outs T @ [r]" "weight T + n + 2 \<le> b"
    using assms(2) by (auto simp: inside_def)
  from n(2) obtain n' where n': "n = Suc n'" "alive s1" "m = Shared \<longrightarrow> s1 = s" "lock_section alive m n' p s1 r sm"
    using assms(3) by (auto elim: lock_section_StepE)
  have "inside s1 sm (T\<lparr>cur := Some (c, p)\<rparr>) dc rs calls (b - 1)"
    using i n n' by (auto simp: inside_def)
  moreover have "held T \<noteq> Some Exclusive \<longrightarrow> s1 = s"
    using n(1) n'(3) by (cases m) auto
  ultimately show ?thesis using n n' by (auto simp: thread_ok_def)
qed (use assms(2) in \<open>simp add: leaving_def\<close>)

lemma acquire_ok:
  assumes "thread_ok s sm T dc rs calls b" and "cur T = Some (c, Acquire m k)" and "inv s" and "sm = s"
  shows "\<exists>r s'. kv_seq ops at c s = ret (r, s') \<and> inv s' \<and> (m = Shared \<longrightarrow> s' = s) \<and> held T = None \<and> 0 < b \<and>
    thread_ok s s' (T\<lparr>cur := Some (c, k 0), held := Some m\<rparr>) (dc @ [c]) (rs @ [r]) calls (b - 1)"
proof -
  have w: "dc @ c # todo T = calls" "held T = None" "rs = outs T" "body_ok c m k" "weight T + bound + 3 \<le> b"
    using assms(1,2) by (auto simp: thread_ok_def waiting_def inside_def leaving_def)
  from w(4) assms(3) obtain r s' n where n: "n \<le> bound" "kv_seq ops at c s = ret (r, s')" "inv s'"
      "lock_section alive m n (k 0) s r s'"
    unfolding body_ok_def by blast
  have "inside s s' (T\<lparr>cur := Some (c, k 0), held := Some m\<rparr>) (dc @ [c]) (rs @ [r]) calls (b - 1)"
    using w n unfolding inside_def by (auto intro!: exI [of _ n])
  with w n show ?thesis by (auto simp: thread_ok_def dest: lock_section_shared)
qed

lemma release_ok:
  assumes "thread_ok s sm T dc rs calls b" and "cur T = Some (c, Release p)"
  shows "thread_ok s sm (T\<lparr>cur := Some (c, p), held := None\<rparr>) dc rs calls (b - 1) \<and> 0 < b \<and> sm = s"
proof -
  obtain m n r where n: "held T = Some m" "lock_section alive m n (Release p) s r sm"
      "rs = outs T @ [r]" "weight T + n + 2 \<le> b" "dc @ todo T = calls" "calls \<noteq> []"
    using assms by (auto simp: thread_ok_def waiting_def inside_def leaving_def)
  from n(2) have "p = Done r \<and> sm = s \<and> n = 0" by (auto elim: lock_section_ReleaseE)
  with n show ?thesis by (auto simp: thread_ok_def leaving_def)
qed

lemma finish_ok:
  assumes "thread_ok s sm T dc rs calls b" and "cur T = Some (c, Done r)"
  shows "thread_ok s sm (T\<lparr>cur := None, outs := outs T @ [r]\<rparr>) dc rs calls (b - 1) \<and> 0 < b \<and> held T = None"
  using assms by (auto simp: thread_ok_def waiting_def inside_def leaving_def)

lemma thread_ok_calls:
  "thread_ok s sm T dc rs calls b \<Longrightarrow> cur T \<noteq> None \<or> todo T \<noteq> [] \<Longrightarrow> calls \<noteq> []"
  by (cases "cur T") (auto simp: thread_ok_def waiting_def inside_def leaving_def)

lemma lock_inv_intro:
  assumes "exclusion S'" and "alive (shared S')" and "serial ops at (order S') s0 = ret (rs, sm)" and "inv sm"
    and "(\<forall>t. held (thr S' t) \<noteq> Some Exclusive) \<Longrightarrow> shared S' = sm"
    and "thread_ok (shared S') sm (thr S' t) (of_thread t (order S')) (of_thread t rs) (calls t) (b t - 1)"
    and "0 < b t" and "t < N"
    and "\<And>u. u \<noteq> t \<Longrightarrow>
      thread_ok (shared S') sm (thr S' u) (of_thread u (order S')) (of_thread u rs) (calls u) (b u)"
    and sum: "i + (\<Sum>t<N. b t) \<le> (\<Sum>t<N. (bound + 5) * length (calls t))"
  shows "lock_inv s0 calls N (Suc i) S'"
proof -
  let ?b = "b(t := b t - 1)"
  have "(\<Sum>u<N. b u) = b t + (\<Sum>u \<in> {..<N} - {t}. b u)"
    and "(\<Sum>u<N. ?b u) = ?b t + (\<Sum>u \<in> {..<N} - {t}. ?b u)"
    using assms(8) by (simp_all add: sum.remove)
  moreover have "(\<Sum>u \<in> {..<N} - {t}. ?b u) = (\<Sum>u \<in> {..<N} - {t}. b u)" by (rule sum.cong) auto
  ultimately have "Suc i + (\<Sum>u<N. ?b u) \<le> (\<Sum>t<N. (bound + 5) * length (calls t))"
    using sum assms(7) by simp
  moreover have "\<forall>u. thread_ok (shared S') sm (thr S' u) (of_thread u (order S')) (of_thread u rs) (calls u) (?b u)"
    using assms(6,9) by simp
  ultimately show ?thesis
    using assms(1-5) unfolding lock_inv_def by blast
qed

text \<open>A step that takes no lock.\<close>

lemma lock_inv_local:
  assumes ex: "exclusion S" and ser: "serial ops at (order S) s0 = ret (rs, sm)" and sm: "inv sm"
    and sum: "i + (\<Sum>t<N. b t) \<le> (\<Sum>t<N. (bound + 5) * length (calls t))"
    and S': "S' = S\<lparr>shared := s, thr := (thr S)(t := T)\<rparr>"
    and h: "held T = held (thr S t) \<or> held T = None" and al: "alive s"
    and T: "thread_ok s sm T (of_thread t (order S)) (of_thread t rs) (calls t) (b t - 1)" "0 < b t" "t < N"
    and fr: "\<And>u. u \<noteq> t \<Longrightarrow> thread_ok s sm (thr S u) (of_thread u (order S)) (of_thread u rs) (calls u) (b u)"
    and free: "(\<And>u. u \<noteq> t \<Longrightarrow> held (thr S u) \<noteq> Some Exclusive) \<Longrightarrow> held T \<noteq> Some Exclusive \<Longrightarrow> s = sm"
  shows "lock_inv s0 calls N (Suc i) S'"
proof (rule lock_inv_intro [OF _ _ _ sm _ _ T(2,3) _ sum])
  show "exclusion S'"
    unfolding exclusion_def
  proof (intro allI impI)
    fix v w assume v: "held (thr S' v) = Some Exclusive" and "w \<noteq> v"
    have "held (thr S v) = Some Exclusive" using v h by (cases "v = t") (simp_all add: S')
    then have "held (thr S w) = None" using ex \<open>w \<noteq> v\<close> unfolding exclusion_def by blast
    then show "held (thr S' w) = None" using h by (cases "w = t") (simp_all add: S')
  qed
  show "shared S' = sm" if "\<forall>u. held (thr S' u) \<noteq> Some Exclusive"
  proof -
    have "held (thr S u) \<noteq> Some Exclusive" if "u \<noteq> t" for u
      using spec [OF \<open>\<forall>u. held (thr S' u) \<noteq> Some Exclusive\<close>, of u] that by (simp add: S')
    moreover have "held T \<noteq> Some Exclusive" using spec [OF that, of t] by (simp add: S')
    ultimately show ?thesis using free by (simp add: S')
  qed
qed (use ser al T(1) fr in \<open>simp_all add: S'\<close>)

lemma lock_inv_step:
  assumes I: "lock_inv s0 calls N i S" and st: "lock_step code_of S S'"
    and N: "\<And>t. calls t \<noteq> [] \<Longrightarrow> t < N" and ok: "\<And>t c. c \<in> set (calls t) \<Longrightarrow> ok c"
  shows "lock_inv s0 calls N (Suc i) S'"
proof -
  obtain rs sm b where ex: "exclusion S" and al: "alive (shared S)"
    and ser: "serial ops at (order S) s0 = ret (rs, sm)" and sm: "inv sm"
    and free: "(\<forall>t. held (thr S t) \<noteq> Some Exclusive) \<Longrightarrow> shared S = sm"
    and thr: "\<And>t. thread_ok (shared S) sm (thr S t) (of_thread t (order S)) (of_thread t rs) (calls t) (b t)"
    and sum: "i + (\<Sum>t<N. b t) \<le> (\<Sum>t<N. (bound + 5) * length (calls t))"
    using I unfolding lock_inv_def by blast
  note N' = N [OF thread_ok_calls [OF thr]]
  from st show ?thesis
  proof cases
    case (start t T c cs)
    have T: "thread_ok (shared S) sm (T\<lparr>todo := cs, cur := Some (c, code_of c)\<rparr>) (of_thread t (order S))
        (of_thread t rs) (calls t) (b t - 1) \<and> 0 < b t \<and> held T = None"
      by (rule start_ok) (use thr [of t] start ok in auto)
    have free': "shared S = sm" if "\<And>u. u \<noteq> t \<Longrightarrow> held (thr S u) \<noteq> Some Exclusive"
      using that T start(2) by (intro free) (metis option.distinct(1))
    show ?thesis
      by (rule lock_inv_local [OF ex ser sm sum _ _ al conjunct1 [OF T] _ _ thr])
        (use start T in simp, use start T in simp, use T in simp, use start N' [of t] in simp, rule free')
  next
    case (run t T c f s k)
    have T: "thread_ok s sm (T\<lparr>cur := Some (c, k)\<rparr>) (of_thread t (order S)) (of_thread t rs) (calls t) (b t - 1) \<and>
        0 < b t \<and> alive s \<and> (held T \<noteq> Some Exclusive \<longrightarrow> s = shared S)"
      by (rule run_ok [of "shared S" sm T _ _ _ _ c f s k]) (use thr [of t] run al in auto)
    have fr: "thread_ok s sm (thr S u) (of_thread u (order S)) (of_thread u rs) (calls u) (b u)" if "u \<noteq> t" for u
    proof (cases "held T = Some Exclusive")
      case True
      then have "held (thr S u) = None" using ex run(2) that unfolding exclusion_def by blast
      then show ?thesis using thr [of u] by (subst thread_ok_free)
    qed (use T thr in auto)
    have free': "s = sm" if "\<And>u. u \<noteq> t \<Longrightarrow> held (thr S u) \<noteq> Some Exclusive" "held T \<noteq> Some Exclusive"
      using that T run(2) free by metis
    show ?thesis
      by (rule lock_inv_local [OF ex ser sm sum _ _ _ conjunct1 [OF T] _ _ fr])
        (use run in simp, use run in simp, use T in simp, use T in simp, use run N' [of t] in simp, assumption,
         rule free', simp_all)
  next
    case (acquire t T c m k)
    have fre: "held (thr S u) \<noteq> Some Exclusive \<and> (m = Exclusive \<longrightarrow> held (thr S u) = None)" for u
      using spec [OF acquire(4) [unfolded free_for_def], of u] by (cases m) simp_all
    then have eq: "shared S = sm" by (intro free) simp
    have sm': "inv (shared S)" using sm eq by simp
    have tT: "thread_ok (shared S) sm T (of_thread t (order S)) (of_thread t rs) (calls t) (b t)"
      using thr [of t] acquire(2) by simp
    obtain r s' where r: "kv_seq ops at c (shared S) = ret (r, s')" "inv s'" "m = Shared \<longrightarrow> s' = shared S"
        "held T = None" "0 < b t"
        "thread_ok (shared S) s' (T\<lparr>cur := Some (c, k 0), held := Some m\<rparr>) (of_thread t (order S) @ [c])
          (of_thread t rs @ [r]) (calls t) (b t - 1)"
      using acquire_ok [OF tT acquire(3) sm' eq [symmetric]] by blast
    have fr: "thread_ok (shared S) s' (thr S u) (of_thread u (order S)) (of_thread u rs) (calls u) (b u)" for u
    proof (cases m)
      case Shared
      then show ?thesis using r(3) eq thr [of u] by simp
    next
      case Exclusive
      then have "held (thr S u) = None" using fre [of u] by blast
      from iffD1 [OF thread_ok_free [OF this] thr] show ?thesis .
    qed
    have ser': "serial ops at (order S @ [(t, c)]) s0 = ret (rs @ [(t, r)], s')"
      using ser r(1) eq by (simp add: serial_snoc)
    show ?thesis
    proof (rule lock_inv_intro [OF _ _ _ r(2) _ _ r(5) _ _ sum])
      show "exclusion S'"
        unfolding exclusion_def
      proof (intro allI impI)
        fix v w assume v: "held (thr S' v) = Some Exclusive" and "w \<noteq> v"
        have "v = t" using v fre [of v] by (cases "v = t") (simp_all add: acquire(1))
        then have "m = Exclusive" using v by (simp add: acquire(1))
        then show "held (thr S' w) = None" using fre [of w] \<open>w \<noteq> v\<close> \<open>v = t\<close> by (simp add: acquire(1))
      qed
      show "shared S' = s'" if "\<forall>u. held (thr S' u) \<noteq> Some Exclusive"
        using spec [OF that, of t] r(3) by (cases m) (simp_all add: acquire(1))
      show "serial ops at (order S') s0 = ret (rs @ [(t, r)], s')" using ser' by (simp add: acquire(1))
      show "thread_ok (shared S') s' (thr S' t) (of_thread t (order S')) (of_thread t (rs @ [(t, r)])) (calls t) (b t - 1)"
        using r(6) by (simp add: acquire(1))
      show "thread_ok (shared S') s' (thr S' u) (of_thread u (order S')) (of_thread u (rs @ [(t, r)])) (calls u) (b u)"
        if "u \<noteq> t" for u
        using fr [of u] that by (simp add: acquire(1))
      show "t < N" using N' [of t] acquire(2,3) by simp
    qed (use al in \<open>simp add: acquire(1)\<close>)
  next
    case (release t T c k m)
    have T: "thread_ok (shared S) sm (T\<lparr>cur := Some (c, k), held := None\<rparr>) (of_thread t (order S))
        (of_thread t rs) (calls t) (b t - 1) \<and> 0 < b t \<and> sm = shared S"
      by (rule release_ok) (use thr [of t] release in auto)
    show ?thesis
      by (rule lock_inv_local [OF ex ser sm sum _ _ al conjunct1 [OF T] _ _ thr])
        (use release in simp, use release in simp, use T in simp, use release N' [of t] in simp, use T in simp)
  next
    case (finish t T c r)
    have T: "thread_ok (shared S) sm (T\<lparr>cur := None, outs := outs T @ [r]\<rparr>) (of_thread t (order S))
        (of_thread t rs) (calls t) (b t - 1) \<and> 0 < b t \<and> held T = None"
      by (rule finish_ok) (use thr [of t] finish in auto)
    have free': "shared S = sm" if "\<And>u. u \<noteq> t \<Longrightarrow> held (thr S u) \<noteq> Some Exclusive"
      using that T finish(2) by (intro free) (metis option.distinct(1))
    show ?thesis
      by (rule lock_inv_local [OF ex ser sm sum _ _ al conjunct1 [OF T] _ _ thr])
        (use finish in simp, use finish T in simp, use T in simp, use finish N' [of t] in simp, rule free')
  qed
qed

lemma lock_inv_start:
  assumes "inv s0"
  shows "lock_inv s0 (calls_of cs) N 0 (lock_start s0 cs)"
proof -
  have "thread_ok s0 s0 (thr (lock_start s0 cs) t) [] [] (calls_of cs t) ((bound + 5) * length (calls_of cs t))" for t
    by (simp add: thread_ok_def waiting_def lock_start_def)
  then show ?thesis
    using assms alive_law [OF assms] unfolding lock_inv_def
    by (auto simp: lock_start_def exclusion_def intro!: exI [of _ "\<lambda>t. (bound + 5) * length (calls_of cs t)"])
qed

lemma lock_run_inv:
  assumes "inv s0" and "\<And>c. c \<in> set (concat cs) \<Longrightarrow> ok c"
  shows "lock_run code_of (lock_start s0 cs) n S \<Longrightarrow> lock_inv s0 (calls_of cs) (length cs) n S"
proof (induction rule: lock_run.induct)
  case none
  show ?case by (rule lock_inv_start [OF assms(1)])
next
  case (more n S S')
  show ?case
  proof (rule lock_inv_step [OF more.IH more.hyps(2)])
    show "calls_of cs t \<noteq> [] \<Longrightarrow> t < length cs" for t by (simp add: calls_of_def split: if_splits)
    show "c \<in> set (calls_of cs t) \<Longrightarrow> ok c" for t c
      using assms(2) by (auto simp: calls_of_def split: if_splits) (meson nth_mem)
  qed
qed

lemma lock_inv_safe:
  assumes "lock_inv s0 calls N i S"
  shows "\<not> faulty S"
proof
  assume "faulty S"
  then obtain t c where f: "(\<exists>f. cur (thr S t) = Some (c, Step f) \<and> \<not> returns (f (shared S))) \<or>
     (\<exists>m k. cur (thr S t) = Some (c, Acquire m k) \<and> held (thr S t) \<noteq> None) \<or>
     (\<exists>k. cur (thr S t) = Some (c, Release k) \<and> held (thr S t) = None) \<or>
     (\<exists>r. cur (thr S t) = Some (c, Done r) \<and> held (thr S t) \<noteq> None)"
    unfolding faulty_def by blast
  obtain rs sm b where "thread_ok (shared S) sm (thr S t) (of_thread t (order S)) (of_thread t rs) (calls t) (b t)"
      and "alive (shared S)"
    using assms unfolding lock_inv_def by blast
  with f show False
    by (auto simp: thread_ok_def waiting_def inside_def leaving_def returns_def elim!: lock_section_StepE)
qed

lemma lock_inv_progress:
  assumes I: "lock_inv s0 calls N i S" and nf: "\<not> finished S"
  shows "\<exists>S'. lock_step code_of S S'"
proof -
  obtain rs sm b where al: "alive (shared S)"
    and thr: "\<And>t. thread_ok (shared S) sm (thr S t) (of_thread t (order S)) (of_thread t rs) (calls t) (b t)"
    using I unfolding lock_inv_def by blast
  show ?thesis
  proof (cases "\<exists>t. held (thr S t) \<noteq> None")
    case True
    then obtain t where "held (thr S t) \<noteq> None" ..
    with thr [of t] obtain c p m n r where "cur (thr S t) = Some (c, p)" "held (thr S t) = Some m"
        "lock_section alive m n p (shared S) r sm"
      by (auto simp: thread_ok_def waiting_def inside_def leaving_def)
    from this(3,1,2) show ?thesis
      by cases (blast intro: lock_step.intros)+
  next
    case False
    obtain t where t: "cur (thr S t) \<noteq> None \<or> todo (thr S t) \<noteq> []" using nf unfolding finished_def by blast
    show ?thesis
    proof (cases "cur (thr S t)")
      case None
      with t obtain c cs where "todo (thr S t) = c # cs" by (cases "todo (thr S t)") auto
      with None show ?thesis by (blast intro: lock_step.start)
    next
      case (Some cp)
      obtain c p where cp: "cp = (c, p)" by (cases cp)
      have "(\<exists>m k. p = Acquire m k) \<or> (\<exists>f m k. p = Step f \<and> f (shared S) = ret (shared S, Acquire m k)) \<or>
          (\<exists>r. p = Done r)"
        using thr [of t] False Some cp al
        by (auto simp: thread_ok_def waiting_def inside_def leaving_def)
      moreover have "free_for S m" for m using False by (simp add: free_for_def)
      ultimately show ?thesis using Some cp by (blast intro: lock_step.intros)
    qed
  qed
qed

lemma lock_inv_result:
  assumes I: "lock_inv s0 calls N i S" and f: "finished S"
  shows "\<exists>rs. serial ops at (order S) s0 = ret (rs, shared S) \<and>
    (\<forall>t. of_thread t (order S) = calls t \<and> of_thread t rs = outs (thr S t))"
proof -
  obtain rs sm b where ser: "serial ops at (order S) s0 = ret (rs, sm)"
    and free: "(\<forall>t. held (thr S t) \<noteq> Some Exclusive) \<longrightarrow> shared S = sm"
    and thr: "\<And>t. thread_ok (shared S) sm (thr S t) (of_thread t (order S)) (of_thread t rs) (calls t) (b t)"
    using I unfolding lock_inv_def by blast
  have w: "waiting (thr S t) (of_thread t (order S)) (of_thread t rs) (calls t) (b t)" for t
    using thr [of t] f by (auto simp: thread_ok_def inside_def leaving_def finished_def)
  then have "shared S = sm" using free by (simp add: waiting_def)
  moreover have "of_thread t (order S) = calls t \<and> of_thread t rs = outs (thr S t)" for t
    using w [of t] f by (simp add: waiting_def finished_def)
  ultimately show ?thesis using ser by blast
qed

lemma lock_inv_reads:
  assumes "lock_inv s0 calls N i S" and "\<forall>t. held (thr S t) \<noteq> Some Exclusive" and "ok (CRead k)"
  shows "reads_through ops at val (shared S) k"
proof -
  obtain rs sm where "inv sm" "shared S = sm" using assms(1,2) unfolding lock_inv_def by blast
  then show ?thesis using read_law assms(3) by simp
qed

lemma locked_correct:
  assumes "inv s0" and "\<And>c. c \<in> set (concat cs) \<Longrightarrow> ok c"
  shows "lock_correct ops at val code_of bound s0 cs"
  unfolding lock_correct_def
proof (intro allI impI)
  fix n S assume "lock_run code_of (lock_start s0 cs) n S"
  then have I: "lock_inv s0 (calls_of cs) (length cs) n S" using assms by (intro lock_run_inv)
  have "(\<Sum>t<length cs. (bound + 5) * length (calls_of cs t)) = (bound + 5) * (\<Sum>t<length cs. length (cs ! t))"
    by (simp add: calls_of_def sum_distrib_left)
  also have "(\<Sum>t<length cs. length (cs ! t)) = length (concat cs)"
    by (simp add: length_concat sum_list_sum_nth atLeast0LessThan)
  finally have "n \<le> (bound + 5) * length (concat cs)"
    using I unfolding lock_inv_def by auto
  moreover have "exclusion S" using I by (simp add: lock_inv_def)
  ultimately show "\<not> faulty S \<and> exclusion S \<and> n \<le> (bound + 5) * length (concat cs) \<and>
        (\<not> finished S \<longrightarrow> (\<exists>S'. lock_step code_of S S')) \<and>
        ((\<forall>t. held (thr S t) \<noteq> Some Exclusive) \<longrightarrow>
           (\<forall>k. CRead k \<in> set (concat cs) \<longrightarrow> reads_through ops at val (shared S) k)) \<and>
        (finished S \<longrightarrow> (\<exists>rs. serial ops at (order S) s0 = ret (rs, shared S) \<and>
           (\<forall>t. of_thread t (order S) = calls_of cs t \<and> of_thread t rs = outs (thr S t))))"
    using lock_inv_safe [OF I] lock_inv_progress [OF I] lock_inv_result [OF I] lock_inv_reads [OF I _ assms(2)]
    by blast
qed

end

section \<open>Establishing the contract\<close>

text \<open>
  Calls a store takes when there is no \<open>scan\<close>; \<open>b\<close>: it holds something, and without it only
  insertions can be made.
\<close>

definition writes_ok :: "bool \<Rightarrow> kv_call \<Rightarrow> bool" where
  "writes_ok b c \<longleftrightarrow> (case c of CRead k \<Rightarrow> b | CUpdate k v \<Rightarrow> b \<and> fits v | CInsert k v \<Rightarrow> fits v
     | CScan k len res \<Rightarrow> False)"

text \<open>
  The method \<open>p\<close> reaches its lock and then, from every state of the invariant, does what \<open>f\<close> does.
\<close>

definition serves ::
  "('s \<Rightarrow> bool) \<Rightarrow> ('s \<Rightarrow> bool) \<Rightarrow> nat \<Rightarrow> 's routine \<Rightarrow> ('s \<Rightarrow> (call_res \<times> 's) comp) \<Rightarrow> bool" where
  "serves alive I bound p f \<longleftrightarrow> (\<exists>m k. enters alive p m k \<and>
     (\<forall>s. I s \<longrightarrow> (\<exists>r s'. f s = ret (r, s') \<and> I s' \<and> sec_run alive m bound (k 0) s = ret (r, s'))))"

lemma serves_acquire:
  "(\<And>s. I s \<Longrightarrow> \<exists>r s'. f s = ret (r, s') \<and> I s' \<and> sec_run alive m bound (k 0) s = ret (r, s')) \<Longrightarrow>
   serves alive I bound (Acquire m k) f"
  unfolding serves_def by (intro exI [of _ m] exI [of _ k]) simp

lemma serves_checked:
  assumes "\<And>s. alive s \<Longrightarrow> chk s = ret ()"
    and "\<And>s. I s \<Longrightarrow> \<exists>r s'. f s = ret (r, s') \<and> I s' \<and> sec_run alive m bound (k 0) s = ret (r, s')"
  shows "serves alive I bound (checked chk (Acquire m k)) f"
  unfolding serves_def using assms by (intro exI [of _ m] exI [of _ k]) simp

text \<open>
  A read: a test, then under the lock the search \<open>look\<close> for the pointer. It serves when the \<open>read\<close>
  of the unlocked store returns.
\<close>

definition find_locked :: "('s \<Rightarrow> vref comp) \<Rightarrow> int \<Rightarrow> 's routine" where
  "find_locked look rc =
     (if rc \<noteq> 0 then Done (RPtr 0 NoRef)
      else Step (\<lambda>s. bindC (look s) (\<lambda>q. ret (s, Release (Done (RPtr 1 q))))))"

definition find_at :: "('s \<Rightarrow> unit comp) \<Rightarrow> ('s \<Rightarrow> u64 \<Rightarrow> vref comp) \<Rightarrow> 's \<Rightarrow> u64 \<Rightarrow> (int \<times> vref) comp" where
  "find_at chk look s key = bindC (chk s) (\<lambda>_. bindC (look s key) (\<lambda>q. ret (1, q)))"

lemma serves_read:
  assumes alive: "\<And>s. alive s \<Longrightarrow> chk s = ret ()" "\<And>s. I s \<Longrightarrow> alive s"
    and look: "\<And>s. I s \<Longrightarrow> reads_through ops (find_at chk look) val s k"
      "\<And>s. I s \<Longrightarrow> \<exists>x. op_read ops s k Unset = ret x"
    and b: "0 < bound"
  shows "serves alive I bound (checked chk (Acquire md (find_locked (\<lambda>s. look s k))))
    (kv_seq ops (find_at chk look) (CRead k))"
proof (rule serves_checked [OF alive(1)])
  fix s assume s: "I s"
  note al = alive(2) [OF s]
  obtain x where "op_read ops s k Unset = ret x" using look(2) [OF s] by blast
  then obtain q where q: "look s k = ret q"
    using look(1) [OF s] al by (auto simp: reads_through_def find_at_def alive(1) bindC_eq_ret)
  obtain n where "bound = Suc n" using b by (cases bound) auto
  with q s al show "\<exists>r s'. kv_seq ops (find_at chk look) (CRead k) s = ret (r, s') \<and> I s' \<and>
      sec_run alive md bound (find_locked (\<lambda>s. look s k) 0) s = ret (r, s')"
    by (simp add: find_at_def find_locked_def alive(1))
qed

lemma locked_storeI:
  fixes I :: "'s \<Rightarrow> bool"
  assumes alive: "\<And>s. I s \<Longrightarrow> alive s"
    and read: "\<And>s k. I s \<Longrightarrow> ok (CRead k) \<Longrightarrow> reads_through ops at val s k"
    and call: "\<And>c. ok c \<Longrightarrow> serves alive I bound (code_of c) (kv_seq ops at c)"
  shows "locked_store ops at val code_of alive I ok bound"
proof
  fix c assume "ok c"
  then obtain m f where f: "enters alive (code_of c) m f"
      "\<And>s. I s \<Longrightarrow> \<exists>r s'. kv_seq ops at c s = ret (r, s') \<and> I s' \<and> sec_run alive m bound (f 0) s = ret (r, s')"
    using call unfolding serves_def by blast
  have "\<exists>r s' n. n \<le> bound \<and> kv_seq ops at c s = ret (r, s') \<and> I s' \<and>
      lock_section alive m n (f 0) s r s'" if "I s" for s
    using f(2) [OF that] sec_run_section [of alive m bound "f 0" s] by blast
  with f(1) show "\<exists>m k. enters alive (code_of c) m k \<and> (\<forall>s. I s \<longrightarrow>
      (\<exists>r s' n. n \<le> bound \<and> kv_seq ops at c s = ret (r, s') \<and> I s' \<and>
         lock_section alive m n (k 0) s r s'))" by blast
qed (fact alive read)+

text \<open>One method at a time. An update is often an insertion.\<close>

lemma locked_store_calls:
  assumes "\<And>s. I s \<Longrightarrow> alive s"
    and "\<And>s k. I s \<Longrightarrow> ok (CRead k) \<Longrightarrow> reads_through ops at val s k"
    and "\<And>k. ok (CRead k) \<Longrightarrow> serves alive I bound (code_of (CRead k)) (kv_seq ops at (CRead k))"
    and "\<And>k v. ok (CUpdate k v) \<Longrightarrow> serves alive I bound (code_of (CUpdate k v)) (kv_seq ops at (CUpdate k v))"
    and "\<And>k v. ok (CInsert k v) \<Longrightarrow> serves alive I bound (code_of (CInsert k v)) (kv_seq ops at (CInsert k v))"
    and "\<And>k n r. ok (CScan k n r) \<Longrightarrow> serves alive I bound (code_of (CScan k n r)) (kv_seq ops at (CScan k n r))"
  shows "locked_store ops at val code_of alive I ok bound"
proof (rule locked_storeI [OF assms(1,2)])
  fix c assume "ok c"
  then show "serves alive I bound (code_of c) (kv_seq ops at c)" using assms(3-6) by (cases c) simp_all
qed

end
