(* ===== verification/Plus_Tree_Shape.thy ===== *)
theory Plus_Tree_Shape
  imports Tree_Shape
begin

text \<open>
  The ghost trees behind the B+ trees. A leaf \<open>BL a es\<close> and an inner node \<open>BN a ts\<close> live at address
  \<open>a\<close>; only leaves hold entries. The separators of an inner node are the least keys of its children
  but the first. The lemmas cut the content of a tree at the child a key belongs to.
\<close>

datatype bptree = BL nat "(u64 \<times> string) list" | BN nat "bptree list"

fun bp_addr :: "bptree \<Rightarrow> nat" where
  "bp_addr (BL a es) = a"
| "bp_addr (BN a ts) = a"

fun bp_size :: "bptree \<Rightarrow> nat" where
  "bp_size (BL a es) = length es"
| "bp_size (BN a ts) = length ts - 1"

fun content :: "bptree \<Rightarrow> (u64 \<times> string) list" where
  "content (BL a es) = es"
| "content (BN a ts) = concat (map content ts)"

fun leaves :: "bptree \<Rightarrow> nat list" where
  "leaves (BL a es) = [a]"
| "leaves (BN a ts) = concat (map leaves ts)"

fun bp_addrs :: "bptree \<Rightarrow> nat list" where
  "bp_addrs (BL a es) = [a]"
| "bp_addrs (BN a ts) = a # concat (map bp_addrs ts)"

abbreviation contents_of :: "bptree list \<Rightarrow> (u64 \<times> string) list" where
  "contents_of ts \<equiv> concat (map content ts)"

abbreviation leaves_of :: "bptree list \<Rightarrow> nat list" where
  "leaves_of ts \<equiv> concat (map leaves ts)"

abbreviation addrs_of :: "bptree list \<Rightarrow> nat list" where
  "addrs_of ts \<equiv> concat (map bp_addrs ts)"

text \<open>All leaves at depth \<open>d\<close>; at least \<open>m\<close> keys in every node but the root.\<close>

fun bp_bal :: "nat \<Rightarrow> bptree \<Rightarrow> bool" where
  "bp_bal 0 (BL a es) \<longleftrightarrow> True"
| "bp_bal (Suc d) (BN a ts) \<longleftrightarrow> (\<forall>t \<in> set ts. bp_bal d t)"
| "bp_bal _ _ \<longleftrightarrow> False"

fun bp_min :: "nat \<Rightarrow> bptree \<Rightarrow> bool" where
  "bp_min m (BL a es) \<longleftrightarrow> es \<noteq> []"
| "bp_min m (BN a ts) \<longleftrightarrow> ts \<noteq> [] \<and> (\<forall>t \<in> set ts. m \<le> bp_size t \<and> bp_min m t)"

definition least_key :: "bptree \<Rightarrow> u64" where
  "least_key t = fst (hd (content t))"

definition seps :: "bptree list \<Rightarrow> u64 list" where
  "seps ts = map least_key (tl ts)"

lemma bp_addr_in [simp]: "bp_addr t \<in> set (bp_addrs t)"
  by (cases t) auto

lemma leaves_subset: "set (leaves t) \<subseteq> set (bp_addrs t)"
  by (induction t) auto

lemma leaves_of_subset: "set (leaves_of ts) \<subseteq> set (addrs_of ts)"
  using leaves_subset by fastforce

lemma distinct_leaves_of:
  "\<forall>t \<in> set ts. distinct (bp_addrs t) \<longrightarrow> distinct (leaves t) \<Longrightarrow> distinct (addrs_of ts) \<Longrightarrow>
   distinct (leaves_of ts)"
proof (induction ts)
  case (Cons t ts)
  have "set (leaves t) \<inter> set (leaves_of ts) \<subseteq> set (bp_addrs t) \<inter> set (addrs_of ts)"
    using leaves_subset [of t] leaves_of_subset [of ts] by blast
  moreover have "set (bp_addrs t) \<inter> set (addrs_of ts) = {}" using Cons.prems(2) by simp
  ultimately have "set (leaves t) \<inter> set (leaves_of ts) = {}" by blast
  moreover have "distinct (leaves_of ts)" using Cons by simp
  ultimately show ?case using Cons.prems by simp
qed simp

lemma distinct_leaves: "distinct (bp_addrs t) \<Longrightarrow> distinct (leaves t)"
proof (induction t)
  case (BN a ts)
  then show ?case by (simp add: distinct_leaves_of)
qed simp

lemma content_ne: "bp_min m t \<Longrightarrow> content t \<noteq> []"
proof (induction t)
  case (BN a ts)
  then obtain c cs where "ts = c # cs" by (cases ts) auto
  with BN show ?case by simp
qed simp

lemma leaves_ne: "bp_min m t \<Longrightarrow> leaves t \<noteq> []"
proof (induction t)
  case (BN a ts)
  then obtain c cs where "ts = c # cs" by (cases ts) auto
  with BN show ?case by simp
qed simp

lemma bp_bal_BN: "bp_bal d (BN a ts) \<Longrightarrow> \<exists>d'. d = Suc d'"
  by (cases d) auto

lemma bp_bal_0: "bp_bal 0 t \<Longrightarrow> \<exists>a es. t = BL a es"
  by (cases t) auto

lemma bp_bal_Suc: "bp_bal (Suc d) t \<Longrightarrow> \<exists>a ts. t = BN a ts"
  by (cases t) auto

lemma contents_of_hd: "ts \<noteq> [] \<Longrightarrow> content (hd ts) \<noteq> [] \<Longrightarrow> hd (contents_of ts) = hd (content (hd ts))"
  by (cases ts) auto

lemma least_key_BN: "content t \<noteq> [] \<Longrightarrow> least_key (BN a (t # ts)) = least_key t"
  by (simp add: least_key_def)

lemma least_key_in: "content t \<noteq> [] \<Longrightarrow> least_key t \<in> fst ` set (content t)"
  by (simp add: least_key_def)

lemma seps_simps [simp]:
  "seps [] = []" "seps [t] = []" "length (seps ts) = length ts - 1"
  by (simp_all add: seps_def)

lemma seps_cut: "ts1 \<noteq> [] \<Longrightarrow> seps (ts1 @ c # ts2) = seps ts1 @ least_key c # map least_key ts2"
  by (cases ts1) (simp_all add: seps_def)

lemma seps_same: "ts1 = [] \<or> least_key c' = least_key c \<Longrightarrow> seps (ts1 @ c' # ts2) = seps (ts1 @ c # ts2)"
  by (cases ts1) (auto simp: seps_def)

lemma seps_split:
  "ts1 = [] \<or> least_key l = least_key c \<Longrightarrow>
   seps (ts1 @ l # r # ts2) = take (length ts1) (seps (ts1 @ c # ts2)) @ least_key r #
     drop (length ts1) (seps (ts1 @ c # ts2))"
  by (cases ts1) (auto simp: seps_def)

lemma seps_append: "ts1 \<noteq> [] \<Longrightarrow> ts2 \<noteq> [] \<Longrightarrow> seps (ts1 @ ts2) = seps ts1 @ least_key (hd ts2) # seps ts2"
  by (cases ts1; cases ts2) (simp_all add: seps_def)

lemma sorted_hd_le: "sorted_keys (xs :: ('k::linorder \<times> 'v) list) \<Longrightarrow> x \<in> fst ` set xs \<Longrightarrow> fst (hd xs) \<le> x"
  by (cases xs) (auto dest: less_imp_le)

text \<open>The content cut at the child a key belongs to.\<close>

lemma content_cut:
  assumes so: "sorted_keys (contents_of (ts1 @ c # ts2))" and ne: "\<forall>t \<in> set (ts1 @ c # ts2). content t \<noteq> []"
    and k1: "ts1 \<noteq> [] \<Longrightarrow> least_key c \<le> k" and k2: "ts2 \<noteq> [] \<Longrightarrow> k < least_key (hd ts2)"
  shows "map_of (contents_of (ts1 @ c # ts2)) k = map_of (content c) k"
    and "upd_assoc k v (contents_of (ts1 @ c # ts2)) = contents_of ts1 @ upd_assoc k v (content c) @ contents_of ts2"
    and "sorted_keys (content c)"
    and "ts1 = [] \<or> fst (hd (upd_assoc k v (content c))) = least_key c"
proof -
  have "sorted_keys (contents_of ts1 @ content c @ contents_of ts2)" using so by simp
  note so' = this [unfolded sorted_keys_append set_append image_Un]
  have s: "sorted_keys (contents_of ts1)" "sorted_keys (content c)" "sorted_keys (contents_of ts2)"
    and lt: "\<And>x y. x \<in> fst ` set (contents_of ts1) \<Longrightarrow> y \<in> fst ` set (content c) \<Longrightarrow> x < y"
    using so' by blast+
  have b: "x < k" if x: "x \<in> fst ` set (contents_of ts1)" for x
  proof -
    have "ts1 \<noteq> []" using x by auto
    moreover have "x < least_key c" by (rule lt [OF x least_key_in]) (use ne in simp)
    ultimately show ?thesis using k1 by simp
  qed
  have a: "k < x" if x: "x \<in> fst ` set (contents_of ts2)" for x
  proof -
    have t: "ts2 \<noteq> []" using x by auto
    then have "content (hd ts2) \<noteq> []" using ne by simp
    then have "fst (hd (contents_of ts2)) = least_key (hd ts2)"
      using contents_of_hd [OF t] by (simp add: least_key_def)
    then have "least_key (hd ts2) \<le> x" using sorted_hd_le [OF s(3) x] by simp
    with k2 t show ?thesis by simp
  qed
  show "map_of (contents_of (ts1 @ c # ts2)) k = map_of (content c) k"
    using map_of_cut [of "contents_of ts1" k "contents_of ts2" "content c", OF b a] by simp
  show "upd_assoc k v (contents_of (ts1 @ c # ts2)) = contents_of ts1 @ upd_assoc k v (content c) @ contents_of ts2"
    using upd_assoc_cut [of "contents_of ts1" k "contents_of ts2" v "content c", OF b a] by simp
  show "sorted_keys (content c)" by (rule s(2))
  show "ts1 = [] \<or> fst (hd (upd_assoc k v (content c))) = least_key c"
  proof (cases "ts1 = []")
    case False
    with k1 have "least_key c \<le> k" by simp
    then show ?thesis using ne by (cases "content c") (auto simp: least_key_def split: if_splits)
  qed simp
qed

text \<open>The same cut for a scan, which goes left of an equal separator.\<close>

lemma content_scan_cut:
  assumes so: "sorted_keys (contents_of (ts1 @ c # ts2))" and ne: "\<forall>t \<in> set (ts1 @ c # ts2). content t \<noteq> []"
    and k1: "ts1 \<noteq> [] \<Longrightarrow> least_key c < k" and k2: "ts2 \<noteq> [] \<Longrightarrow> k \<le> least_key (hd ts2)"
  shows "filter (\<lambda>e. k \<le> fst e) (contents_of ts1) = []"
    and "filter (\<lambda>e. k \<le> fst e) (contents_of ts2) = contents_of ts2"
    and "sorted_keys (content c)"
proof -
  have "sorted_keys (contents_of ts1 @ content c @ contents_of ts2)" using so by simp
  note so' = this [unfolded sorted_keys_append set_append image_Un]
  have s: "sorted_keys (content c)" "sorted_keys (contents_of ts2)"
    and lt: "\<And>x y. x \<in> fst ` set (contents_of ts1) \<Longrightarrow> y \<in> fst ` set (content c) \<Longrightarrow> x < y"
    using so' by blast+
  have "fst e < k" if e: "e \<in> set (contents_of ts1)" for e
  proof -
    have "ts1 \<noteq> []" using e by auto
    moreover have "fst e < least_key c" by (rule lt [OF imageI [OF e] least_key_in]) (use ne in simp)
    ultimately show ?thesis using k1 by simp
  qed
  then show "filter (\<lambda>e. k \<le> fst e) (contents_of ts1) = []" by (auto simp: filter_empty_conv simp flip: not_less)
  have "k \<le> fst e" if e: "e \<in> set (contents_of ts2)" for e
  proof -
    have t: "ts2 \<noteq> []" using e by auto
    then have "content (hd ts2) \<noteq> []" using ne by simp
    then have "fst (hd (contents_of ts2)) = least_key (hd ts2)"
      using contents_of_hd [OF t] by (simp add: least_key_def)
    then have "least_key (hd ts2) \<le> fst e" using sorted_hd_le [OF s(2), of "fst e"] e by simp
    with k2 t show ?thesis by simp
  qed
  then show "filter (\<lambda>e. k \<le> fst e) (contents_of ts2) = contents_of ts2" by (simp add: filter_id_conv)
  show "sorted_keys (content c)" by (rule s(1))
qed

lemma sorted_least_keys:
  "sorted_keys (contents_of ts) \<Longrightarrow> \<forall>t \<in> set ts. content t \<noteq> [] \<Longrightarrow> sorted_wrt (<) (map least_key ts)"
proof (induction ts)
  case (Cons t ts)
  have "sorted_keys (content t @ contents_of ts)" using Cons.prems(1) by simp
  note so = this [unfolded sorted_keys_append]
  have "least_key t < least_key u" if "u \<in> set ts" for u
  proof -
    have "least_key t \<in> fst ` set (content t)" "least_key u \<in> fst ` set (contents_of ts)"
      using Cons.prems(2) that least_key_in [of t] least_key_in [of u] by fastforce+
    with so show ?thesis by blast
  qed
  moreover have "sorted_wrt (<) (map least_key ts)" using Cons by (simp add: sorted_wrt_append)
  ultimately show ?case by simp
qed simp

lemma sorted_seps: "sorted_keys (contents_of ts) \<Longrightarrow> \<forall>t \<in> set ts. content t \<noteq> [] \<Longrightarrow> sorted_wrt (<) (seps ts)"
  using sorted_least_keys [of ts] by (cases ts) (simp_all add: seps_def)

text \<open>Cutting the children at a separator position.\<close>

lemma seps_at:
  assumes "ts \<noteq> []" and "seps ts = ks1 @ ks2"
  obtains ts1 c ts2 where "ts = ts1 @ c # ts2" and "length ts1 = length ks1"
    and "ts1 \<noteq> [] \<Longrightarrow> least_key c = last ks1" and "ts2 \<noteq> [] \<Longrightarrow> least_key (hd ts2) = hd ks2"
    and "length ts2 = length ks2"
proof -
  obtain t us where ts: "ts = t # us" using assms(1) by (cases ts) auto
  have us: "map least_key us = ks1 @ ks2" using assms(2) by (simp add: ts seps_def)
  then obtain us1 us2 where u: "us = us1 @ us2" "map least_key us1 = ks1" "map least_key us2 = ks2"
    by (auto simp: map_eq_append_conv)
  show thesis
  proof (cases us1 rule: rev_cases)
    case Nil
    show ?thesis
      by (rule that [of "[]" t us2]) (use u Nil in \<open>auto simp: ts hd_map\<close>)
  next
    case (snoc vs c)
    show ?thesis
      by (rule that [of "t # vs" c us2]) (use u snoc in \<open>auto simp: ts hd_map\<close>)
  qed
qed

end
