(* ===== verification/B_Plus_Tree.thy ===== *)
theory B_Plus_Tree
  imports Storeds_DB Plus_Tree_Shape
begin

text \<open>
  \<^verbatim>\<open>src/storeds/bplustree/bplustree_dram.cc\<close>: a B+ tree of minimum degree \<open>BPLUSTREE_MIN_DEGREE\<close>, its
  nodes on an explicit heap, its leaves doubly linked. A slot of the entry array is a struct whose
  fields may be unwritten: in an inner node only the keys are. A ghost tree that carries the address
  of each node says what the heap represents. The lemmas show that the operations work on it as on a
  sorted association list, that every separator is the least key to its right, that the leaves are
  linked in order, and that a scan along the leaves returns the range it asks for.
\<close>

section \<open>State\<close>

definition BPLUSTREE_MIN_DEGREE :: nat where "BPLUSTREE_MIN_DEGREE = 9"
definition BPLUSTREE_MAX_KEYS :: nat where "BPLUSTREE_MAX_KEYS = 2 * BPLUSTREE_MIN_DEGREE - 1"
definition BPLUSTREE_MAX_CHILDREN :: nat where "BPLUSTREE_MAX_CHILDREN = 2 * BPLUSTREE_MIN_DEGREE"
definition BPT_LEAF_TRUE :: int where "BPT_LEAF_TRUE = 1"
definition BPT_LEAF_FALSE :: int where "BPT_LEAF_FALSE = 0"

lemmas bpt_consts = BPLUSTREE_MIN_DEGREE_def BPLUSTREE_MAX_KEYS_def BPLUSTREE_MAX_CHILDREN_def
  BPT_LEAF_TRUE_def BPT_LEAF_FALSE_def

record bplustree_entry =
  bpt_key :: "u64 option"
  bpt_value :: "string option"

record bplustree_dram_node =
  bpt_is_leaf :: int
  bpt_nk :: nat
  bpt_entries :: "bplustree_entry list"
  bpt_children :: "ptr option list"
  bpt_next :: ptr
  bpt_previous :: ptr

record bplustree_dram =
  bpt_heap :: "bplustree_dram_node heap"
  bpt_root :: ptr

section \<open>Operations\<close>

definition bpt_check :: "bplustree_dram \<Rightarrow> unit comp" where
  "bpt_check s = assertC (bpt_root s \<noteq> NULL)"

definition bpt_is_node_full :: "nat \<Rightarrow> int" where
  "bpt_is_node_full n = (if n = BPLUSTREE_MAX_KEYS then 1 else 0)"

definition bpt_init :: bplustree_dram where
  "bpt_init = \<lparr>bpt_heap = empty_heap, bpt_root = NULL\<rparr>"

definition bpt_create_node :: "int \<Rightarrow> bplustree_dram_node heap \<Rightarrow> ptr \<times> bplustree_dram_node heap" where
  "bpt_create_node leaf h = malloc h
     \<lparr>bpt_is_leaf = leaf, bpt_nk = 0,
      bpt_entries = replicate BPLUSTREE_MAX_KEYS \<lparr>bpt_key = None, bpt_value = None\<rparr>,
      bpt_children = replicate BPLUSTREE_MAX_CHILDREN None, bpt_next = NULL, bpt_previous = NULL\<rparr>"

text \<open>\<open>entries[i].key\<close> and \<open>entries[i].value\<close>\<close>

definition bpt_get_key :: "bplustree_entry list \<Rightarrow> nat \<Rightarrow> u64 comp" where
  "bpt_get_key es i = bindC (read_arr es i) (\<lambda>e.
     case bpt_key e of None \<Rightarrow> crash UninitRead | Some k \<Rightarrow> ret k)"

definition bpt_get_value :: "bplustree_entry list \<Rightarrow> nat \<Rightarrow> string comp" where
  "bpt_get_value es i = bindC (read_arr es i) (\<lambda>e.
     case bpt_value e of None \<Rightarrow> crash UninitRead | Some v \<Rightarrow> ret v)"

text \<open>\<open>while (i < nk && key > entries[i].key) i += 1;\<close>\<close>

function bpt_find_index :: "bplustree_entry list \<Rightarrow> nat \<Rightarrow> u64 \<Rightarrow> nat \<Rightarrow> nat comp" where
  "bpt_find_index es n key i =
     (if i < n
      then bindC (bpt_get_key es i) (\<lambda>k. if key > k then bpt_find_index es n key (i + 1) else ret i)
      else ret i)"
  by auto
termination by (relation "measure (\<lambda>(es, n, key, i). n - i)") auto

declare bpt_find_index.simps [simp del]

text \<open>\<open>i < nk && key == entries[i].key\<close>\<close>

definition bpt_key_at :: "bplustree_dram_node \<Rightarrow> u64 \<Rightarrow> nat \<Rightarrow> bool comp" where
  "bpt_key_at n key i =
     (if i < bpt_nk n then bindC (bpt_get_key (bpt_entries n) i) (\<lambda>k. ret (key = k)) else ret False)"

subsection \<open>Scans\<close>

partial_function (option) bpt_descend ::
  "bplustree_dram_node heap \<Rightarrow> ptr \<Rightarrow> u64 \<Rightarrow> ptr comp" where
  "bpt_descend h current_node key =
     (if current_node = NULL then ret NULL
      else bindC (load h current_node) (\<lambda>n.
           if bpt_is_leaf n \<noteq> 0 then ret current_node
           else bindC (bpt_find_index (bpt_entries n) (bpt_nk n) key 0) (\<lambda>i.
                bindC (read_slot (bpt_children n) i) (\<lambda>c. bpt_descend h c key))))"

text \<open>The inner loop of the scan, over the entries of one leaf.\<close>

function bpt_scan_leaf ::
  "bplustree_entry list \<Rightarrow> nat \<Rightarrow> nat \<Rightarrow> int \<Rightarrow> int \<Rightarrow> scan_result \<Rightarrow> (int \<times> scan_result) comp" where
  "bpt_scan_leaf es n i len len_count result =
     (if i < n
      then bindC (bpt_get_key es i) (\<lambda>k.
           bindC (bpt_get_value es i) (\<lambda>v.
           let result = result @ [[(k, v)]]; len_count = len_count + 1 in
           if len_count = len then ret (len_count, result)
           else bpt_scan_leaf es n (i + 1) len len_count result))
      else ret (len_count, result))"
  by auto
termination by (relation "measure (\<lambda>(es, n, i, len, len_count, result). n - i)") auto

declare bpt_scan_leaf.simps [simp del]

partial_function (option) bpt_scan_chain ::
  "bplustree_dram_node heap \<Rightarrow> ptr \<Rightarrow> nat \<Rightarrow> int \<Rightarrow> int \<Rightarrow> scan_result \<Rightarrow> scan_result comp" where
  "bpt_scan_chain h current_node i len len_count result =
     (if current_node = NULL then ret result
      else bindC (load h current_node) (\<lambda>n.
           bindC (bpt_scan_leaf (bpt_entries n) (bpt_nk n) i len len_count result) (\<lambda>(len_count, result).
             if len_count = len then ret result
             else bpt_scan_chain h (bpt_next n) 0 len len_count result)))"

definition bpt_scan :: "bplustree_dram \<Rightarrow> u64 \<Rightarrow> int \<Rightarrow> scan_result \<Rightarrow> (int \<times> scan_result) comp" where
  "bpt_scan s key len result =
     bindC (bpt_check s) (\<lambda>_.
     bindC (bpt_descend (bpt_heap s) (bpt_root s) key) (\<lambda>leaf.
     if leaf = NULL then ret (1, result)
     else bindC (load (bpt_heap s) leaf) (\<lambda>n.
          bindC (bpt_find_index (bpt_entries n) (bpt_nk n) key 0) (\<lambda>i.
          bindC (bpt_scan_chain (bpt_heap s) leaf i len 0 result) (\<lambda>result. ret (1, result))))))"

subsection \<open>Reads\<close>

text \<open>A pointer to the value of the key, or null.\<close>

partial_function (option) bpt_search ::
  "bplustree_dram_node heap \<Rightarrow> ptr \<Rightarrow> u64 \<Rightarrow> outp comp" where
  "bpt_search h current_node key =
     bindC (load h current_node) (\<lambda>n.
     bindC (bpt_find_index (bpt_entries n) (bpt_nk n) key 0) (\<lambda>i.
     bindC (bpt_key_at n key i) (\<lambda>hit.
       if bpt_is_leaf n \<noteq> 0
       then if hit
            then bindC (read_arr (bpt_entries n) i) (\<lambda>e.
                 ret (case bpt_value e of None \<Rightarrow> RawP | Some v \<Rightarrow> StrP v))
            else ret NullP
       else bindC (read_slot (bpt_children n) (if hit then i + 1 else i)) (\<lambda>c. bpt_search h c key))))"

definition bpt_read :: "bplustree_dram \<Rightarrow> u64 \<Rightarrow> outp \<Rightarrow> (int \<times> outp) comp" where
  "bpt_read s key result =
     bindC (bpt_check s) (\<lambda>_. bindC (bpt_search (bpt_heap s) (bpt_root s) key) (\<lambda>r. ret (1, r)))"

subsection \<open>Insertions\<close>

partial_function (option) bpt_update_if_found ::
  "bplustree_dram_node heap \<Rightarrow> ptr \<Rightarrow> u64 \<Rightarrow> string \<Rightarrow> (bool \<times> bplustree_dram_node heap) comp" where
  "bpt_update_if_found h current_node key value =
     bindC (load h current_node) (\<lambda>n.
     bindC (bpt_find_index (bpt_entries n) (bpt_nk n) key 0) (\<lambda>i.
     bindC (bpt_key_at n key i) (\<lambda>hit.
       if bpt_is_leaf n \<noteq> 0
       then if hit
            then bindC (read_arr (bpt_entries n) i) (\<lambda>e.
                 bindC (copy_value value) (\<lambda>v.
                 bindC (write_arr (bpt_entries n) i (e\<lparr>bpt_value := Some v\<rparr>)) (\<lambda>es.
                 bindC (store h current_node (n\<lparr>bpt_entries := es\<rparr>)) (\<lambda>h. ret (True, h)))))
            else ret (False, h)
       else bindC (read_slot (bpt_children n) (if hit then i + 1 else i)) (\<lambda>c.
              bpt_update_if_found h c key value))))"

text \<open>\<open>split_node\<close> for a leaf: its upper half moves to a new leaf, which is linked in after it.\<close>

definition bpt_link_leaf :: "ptr \<Rightarrow> ptr \<Rightarrow> bplustree_dram_node heap \<Rightarrow> bplustree_dram_node heap comp" where
  "bpt_link_leaf child sibling h =
     bindC (load h child) (\<lambda>c.
     bindC (load h sibling) (\<lambda>sb.
     bindC (store h sibling (sb\<lparr>bpt_next := bpt_next c\<rparr>)) (\<lambda>h.
     bindC (if bpt_next c \<noteq> NULL
            then bindC (load h (bpt_next c)) (\<lambda>nx. store h (bpt_next c) (nx\<lparr>bpt_previous := sibling\<rparr>))
            else ret h) (\<lambda>h.
     bindC (load h child) (\<lambda>c.
     bindC (store h child (c\<lparr>bpt_next := sibling\<rparr>)) (\<lambda>h.
     bindC (load h sibling) (\<lambda>sb.
       store h sibling (sb\<lparr>bpt_previous := child\<rparr>))))))))"

definition bpt_split_leaf ::
  "nat \<Rightarrow> ptr \<Rightarrow> ptr \<Rightarrow> bplustree_dram_node heap \<Rightarrow> bplustree_dram_node heap comp" where
  "bpt_split_leaf idx parent child h =
     bindC (load h child) (\<lambda>c.
     case bpt_create_node (bpt_is_leaf c) h of (sibling, h) \<Rightarrow>
     bindC (load h sibling) (\<lambda>sb.
     bindC (copy_loop (bpt_entries c) (BPLUSTREE_MIN_DEGREE - 1) 0 BPLUSTREE_MIN_DEGREE (bpt_entries sb)) (\<lambda>ses.
     bindC (store h sibling (sb\<lparr>bpt_nk := BPLUSTREE_MIN_DEGREE, bpt_entries := ses\<rparr>)) (\<lambda>h.
     bindC (store h child (c\<lparr>bpt_nk := BPLUSTREE_MIN_DEGREE - 1\<rparr>)) (\<lambda>h.
     bindC (load h parent) (\<lambda>p.
     bindC (shift_loop (idx + 1) (bpt_nk p - idx) (bpt_children p)) (\<lambda>pcs.
     bindC (write_arr pcs (idx + 1) (Some sibling)) (\<lambda>pcs.
     bindC (shift_loop idx (bpt_nk p - idx) (bpt_entries p)) (\<lambda>pes.
     bindC (bpt_get_key ses 0) (\<lambda>k.
     bindC (read_arr pes idx) (\<lambda>e.
     bindC (write_arr pes idx (e\<lparr>bpt_key := Some k\<rparr>)) (\<lambda>pes.
     bindC (store h parent (p\<lparr>bpt_nk := bpt_nk p + 1, bpt_entries := pes, bpt_children := pcs\<rparr>)) (\<lambda>h.
       bpt_link_leaf child sibling h)))))))))))))"

definition bpt_split_inner ::
  "nat \<Rightarrow> ptr \<Rightarrow> ptr \<Rightarrow> bplustree_dram_node heap \<Rightarrow> bplustree_dram_node heap comp" where
  "bpt_split_inner idx parent child h =
     bindC (load h child) (\<lambda>c.
     case bpt_create_node (bpt_is_leaf c) h of (sibling, h) \<Rightarrow>
     bindC (load h sibling) (\<lambda>sb.
     bindC (copy_loop (bpt_entries c) BPLUSTREE_MIN_DEGREE 0 (BPLUSTREE_MIN_DEGREE - 1) (bpt_entries sb)) (\<lambda>ses.
     bindC (copy_loop (bpt_children c) BPLUSTREE_MIN_DEGREE 0 BPLUSTREE_MIN_DEGREE (bpt_children sb)) (\<lambda>scs.
     bindC (store h sibling (sb\<lparr>bpt_nk := BPLUSTREE_MIN_DEGREE - 1, bpt_entries := ses, bpt_children := scs\<rparr>)) (\<lambda>h.
     bindC (store h child (c\<lparr>bpt_nk := BPLUSTREE_MIN_DEGREE - 1\<rparr>)) (\<lambda>h.
     bindC (load h parent) (\<lambda>p.
     bindC (shift_loop (idx + 1) (bpt_nk p - idx) (bpt_children p)) (\<lambda>pcs.
     bindC (write_arr pcs (idx + 1) (Some sibling)) (\<lambda>pcs.
     bindC (shift_loop idx (bpt_nk p - idx) (bpt_entries p)) (\<lambda>pes.
     bindC (read_arr (bpt_entries c) (BPLUSTREE_MIN_DEGREE - 1)) (\<lambda>middle.
     bindC (write_arr pes idx middle) (\<lambda>pes.
       store h parent (p\<lparr>bpt_nk := bpt_nk p + 1, bpt_entries := pes, bpt_children := pcs\<rparr>)))))))))))))"

definition bpt_split_node ::
  "nat \<Rightarrow> ptr \<Rightarrow> ptr \<Rightarrow> bplustree_dram_node heap \<Rightarrow> bplustree_dram_node heap comp" where
  "bpt_split_node idx parent child h =
     bindC (load h child) (\<lambda>c.
       if bpt_is_leaf c \<noteq> 0 then bpt_split_leaf idx parent child h else bpt_split_inner idx parent child h)"

text \<open>The two downward loops of \<open>insert_not_full\<close>, over \<open>j = i + 1\<close>.\<close>

fun bpt_shift_greater ::
  "u64 \<Rightarrow> nat \<Rightarrow> bplustree_entry list \<Rightarrow> (nat \<times> bplustree_entry list) comp" where
  "bpt_shift_greater key 0 es = ret (0, es)"
| "bpt_shift_greater key (Suc i) es =
     bindC (bpt_get_key es i) (\<lambda>k.
       if k > key
       then bindC (read_arr es i) (\<lambda>e.
            bindC (write_arr es (i + 1) e) (\<lambda>es'. bpt_shift_greater key i es'))
       else ret (Suc i, es))"

fun bpt_skip_greater :: "u64 \<Rightarrow> nat \<Rightarrow> bplustree_entry list \<Rightarrow> nat comp" where
  "bpt_skip_greater key 0 es = ret 0"
| "bpt_skip_greater key (Suc i) es =
     bindC (bpt_get_key es i) (\<lambda>k. if k > key then bpt_skip_greater key i es else ret (Suc i))"

partial_function (option) bpt_insert_not_full ::
  "bplustree_dram_node heap \<Rightarrow> ptr \<Rightarrow> u64 \<Rightarrow> string \<Rightarrow> bplustree_dram_node heap comp" where
  "bpt_insert_not_full h node key value =
     bindC (load h node) (\<lambda>n.
     if bpt_is_leaf n \<noteq> 0
     then bindC (bpt_shift_greater key (bpt_nk n) (bpt_entries n)) (\<lambda>(j, es).
          bindC (copy_value value) (\<lambda>v.
          bindC (write_arr es j \<lparr>bpt_key = Some key, bpt_value = Some v\<rparr>) (\<lambda>es.
            store h node (n\<lparr>bpt_entries := es, bpt_nk := bpt_nk n + 1\<rparr>))))
     else bindC (bpt_skip_greater key (bpt_nk n) (bpt_entries n)) (\<lambda>j.
          bindC (read_slot (bpt_children n) j) (\<lambda>c.
          bindC (load h c) (\<lambda>cn.
          if bpt_is_node_full (bpt_nk cn) \<noteq> 0
          then bindC (bpt_split_node j node c h) (\<lambda>h.
               bindC (load h node) (\<lambda>n.
               bindC (bpt_get_key (bpt_entries n) j) (\<lambda>k.
               bindC (read_slot (bpt_children n) (if k < key then j + 1 else j)) (\<lambda>c.
                 bpt_insert_not_full h c key value))))
          else bpt_insert_not_full h c key value))))"

definition bpt_insert :: "bplustree_dram \<Rightarrow> u64 \<Rightarrow> string \<Rightarrow> (int \<times> bplustree_dram) comp" where
  "bpt_insert s key value =
     (if bpt_root s = NULL
      then case bpt_create_node BPT_LEAF_TRUE (bpt_heap s) of (root, h) \<Rightarrow>
           bindC (load h root) (\<lambda>n.
           bindC (copy_value value) (\<lambda>v.
           bindC (write_arr (bpt_entries n) 0 \<lparr>bpt_key = Some key, bpt_value = Some v\<rparr>) (\<lambda>es.
           bindC (store h root (n\<lparr>bpt_entries := es, bpt_nk := 1\<rparr>)) (\<lambda>h.
             ret (1, s\<lparr>bpt_heap := h, bpt_root := root\<rparr>)))))
      else bindC (bpt_update_if_found (bpt_heap s) (bpt_root s) key value) (\<lambda>(is_updated, h).
           if is_updated then ret (1, s\<lparr>bpt_heap := h\<rparr>)
           else bindC (load h (bpt_root s)) (\<lambda>r.
             if bpt_is_node_full (bpt_nk r) \<noteq> 0
             then case bpt_create_node BPT_LEAF_FALSE h of (new_root, h) \<Rightarrow>
                  bindC (load h new_root) (\<lambda>n.
                  bindC (write_arr (bpt_children n) 0 (Some (bpt_root s))) (\<lambda>cs.
                  bindC (store h new_root (n\<lparr>bpt_children := cs\<rparr>)) (\<lambda>h.
                  bindC (bpt_split_node 0 new_root (bpt_root s) h) (\<lambda>h.
                  bindC (load h new_root) (\<lambda>n.
                  bindC (bpt_get_key (bpt_entries n) 0) (\<lambda>k.
                  bindC (read_slot (bpt_children n) (if k < key then 1 else 0)) (\<lambda>c.
                  bindC (bpt_insert_not_full h c key value) (\<lambda>h.
                    ret (1, s\<lparr>bpt_heap := h, bpt_root := new_root\<rparr>)))))))))
             else bindC (bpt_insert_not_full h (bpt_root s) key value) (\<lambda>h.
                    ret (1, s\<lparr>bpt_heap := h\<rparr>)))))"

definition bpt_update :: "bplustree_dram \<Rightarrow> u64 \<Rightarrow> string \<Rightarrow> (int \<times> bplustree_dram) comp" where
  "bpt_update s key value = bindC (bpt_check s) (\<lambda>_. bpt_insert s key value)"

subsection \<open>Destruction\<close>

text \<open>A leaf is unlinked from its neighbours before it is freed.\<close>

definition bpt_free_leaf :: "ptr \<Rightarrow> bplustree_dram_node heap \<Rightarrow> bplustree_dram_node heap comp" where
  "bpt_free_leaf current_node h =
     bindC (load h current_node) (\<lambda>n.
     bindC (if bpt_next n \<noteq> NULL
            then bindC (load h (bpt_next n)) (\<lambda>x. store h (bpt_next n) (x\<lparr>bpt_previous := bpt_previous n\<rparr>))
            else ret h) (\<lambda>h.
     bindC (load h current_node) (\<lambda>n.
     bindC (if bpt_previous n \<noteq> NULL
            then bindC (load h (bpt_previous n)) (\<lambda>x. store h (bpt_previous n) (x\<lparr>bpt_next := bpt_next n\<rparr>))
            else ret h) (\<lambda>h.
       cfree h current_node))))"

partial_function (option) bpt_recursive_free ::
  "ptr \<Rightarrow> bplustree_dram_node heap \<Rightarrow> bplustree_dram_node heap comp" where
  "bpt_recursive_free current_node h =
     bindC (load h current_node) (\<lambda>n.
     if bpt_is_leaf n \<noteq> 0 then bpt_free_leaf current_node h
     else bindC (for_loop 0 (bpt_nk n + 1) (\<lambda>i h.
            bindC (load h current_node) (\<lambda>n.
            bindC (read_slot (bpt_children n) i) (\<lambda>c. bpt_recursive_free c h))) h) (\<lambda>h.
          cfree h current_node))"

definition bpt_destroy :: "bplustree_dram \<Rightarrow> bplustree_dram comp" where
  "bpt_destroy s =
     bindC (bpt_check s) (\<lambda>_.
     bindC (bpt_recursive_free (bpt_root s) (bpt_heap s)) (\<lambda>h.
       ret (s\<lparr>bpt_heap := h, bpt_root := NULL\<rparr>)))"

definition bpt_ops :: "bplustree_dram storeds_base" where
  "bpt_ops = \<lparr>op_read = bpt_read, op_scan = bpt_scan, op_update = bpt_update,
     op_insert = bpt_insert, op_destroy = bpt_destroy\<rparr>"

section \<open>What the heap represents\<close>

definition bpt_slot :: "u64 \<times> string \<Rightarrow> bplustree_entry" where
  "bpt_slot e = \<lparr>bpt_key = Some (fst e), bpt_value = Some (snd e)\<rparr>"

definition bpt_leaf :: "bplustree_dram_node \<Rightarrow> (u64 \<times> string) list \<Rightarrow> bool" where
  "bpt_leaf n es \<longleftrightarrow> bpt_is_leaf n = BPT_LEAF_TRUE \<and> bpt_nk n = length es \<and> length es \<le> BPLUSTREE_MAX_KEYS \<and>
     length (bpt_entries n) = BPLUSTREE_MAX_KEYS \<and> take (length es) (bpt_entries n) = map bpt_slot es \<and>
     length (bpt_children n) = BPLUSTREE_MAX_CHILDREN"

definition bpt_inner :: "bplustree_dram_node \<Rightarrow> bptree list \<Rightarrow> bool" where
  "bpt_inner n ts \<longleftrightarrow> bpt_is_leaf n = BPT_LEAF_FALSE \<and> Suc (bpt_nk n) = length ts \<and>
     length ts \<le> BPLUSTREE_MAX_CHILDREN \<and> length (bpt_entries n) = BPLUSTREE_MAX_KEYS \<and>
     map bpt_key (take (bpt_nk n) (bpt_entries n)) = map Some (seps ts) \<and>
     length (bpt_children n) = BPLUSTREE_MAX_CHILDREN \<and>
     take (length ts) (bpt_children n) = map (\<lambda>t. Some (Some (bp_addr t))) ts"

fun bpt_tree :: "(nat \<rightharpoonup> bplustree_dram_node) \<Rightarrow> bptree \<Rightarrow> bool" where
  "bpt_tree M (BL a es) \<longleftrightarrow> (\<exists>n. M a = Some n \<and> bpt_leaf n es)"
| "bpt_tree M (BN a ts) \<longleftrightarrow> (\<exists>n. M a = Some n \<and> bpt_inner n ts) \<and> (\<forall>t \<in> set ts. bpt_tree M t)"

text \<open>Only the \<open>previous\<close> link of a node may differ.\<close>

definition same_node :: "bplustree_dram_node option \<Rightarrow> bplustree_dram_node option \<Rightarrow> bool" where
  "same_node x y \<longleftrightarrow> (\<exists>p. y = map_option (\<lambda>n. n\<lparr>bpt_previous := p\<rparr>) x)"

lemma same_node_refl [simp]: "same_node x x"
  unfolding same_node_def by (cases x) (auto intro: exI [of _ "bpt_previous (the x)"])

lemma bpt_leaf_previous [simp]: "bpt_leaf (n\<lparr>bpt_previous := p\<rparr>) es = bpt_leaf n es"
  "bpt_leaf (n\<lparr>bpt_next := p\<rparr>) es = bpt_leaf n es"
  by (simp_all add: bpt_leaf_def)

lemma bpt_inner_previous [simp]: "bpt_inner (n\<lparr>bpt_previous := p\<rparr>) ts = bpt_inner n ts"
  "bpt_inner (n\<lparr>bpt_next := p\<rparr>) ts = bpt_inner n ts"
  by (simp_all add: bpt_inner_def)

lemma bpt_tree_agree:
  "(\<And>a. a \<in> set (bp_addrs t) \<Longrightarrow> same_node (M a) (M' a)) \<Longrightarrow> bpt_tree M t \<Longrightarrow> bpt_tree M' t"
proof (induction M t rule: bpt_tree.induct)
  case (1 M a es)
  then show ?case by (fastforce simp: same_node_def)
next
  case (2 M a ts)
  have "same_node (M a) (M' a)" using 2(2) by simp
  then show ?case using 2 by (fastforce simp: same_node_def)
qed

text \<open>The leaves, doubly linked: from \<open>s\<close> with \<open>p\<close> before the first and \<open>q\<close> after the last.\<close>

fun dll :: "(nat \<rightharpoonup> bplustree_dram_node) \<Rightarrow> ptr \<Rightarrow> ptr \<Rightarrow> nat list \<Rightarrow> ptr \<Rightarrow> bool" where
  "dll M p s [] q \<longleftrightarrow> s = q"
| "dll M p s (a # as) q \<longleftrightarrow> s = Some a \<and>
     (\<exists>n. M a = Some n \<and> bpt_previous n = p \<and> dll M (Some a) (bpt_next n) as q)"

definition prev_of :: "ptr \<Rightarrow> nat list \<Rightarrow> ptr" where
  "prev_of p as = (if as = [] then p else Some (last as))"

definition next_of :: "nat list \<Rightarrow> ptr \<Rightarrow> ptr" where
  "next_of as q = (if as = [] then q else Some (hd as))"

lemma prev_of_simps [simp]: "prev_of p [] = p" "prev_of (Some a) as = Some (last (a # as))"
  by (simp_all add: prev_of_def)

lemma next_of_simps [simp]: "next_of [] q = q" "next_of (a # as) q = Some a"
  by (simp_all add: next_of_def)

lemma dll_start: "dll M p s as q \<Longrightarrow> s = next_of as q"
  by (cases as) auto

lemma dll_append:
  "dll M p s (as @ bs) q \<longleftrightarrow> dll M p s as (next_of bs q) \<and> dll M (prev_of p as) (next_of bs q) bs q"
proof (induction as arbitrary: p s)
  case Nil
  then show ?case using dll_start [of M p s bs q] by auto
next
  case (Cons a as)
  have "prev_of p (a # as) = prev_of (Some a) as" by (simp add: prev_of_def)
  then show ?case using Cons by auto
qed

lemma dll_frame: "(\<And>a. a \<in> set as \<Longrightarrow> M' a = M a) \<Longrightarrow> dll M' p s as q = dll M p s as q"
  by (induction as arbitrary: p s) auto

text \<open>Moving the end of a chain, and what precedes its first node.\<close>

lemma dll_new_prev:
  "dll M p s as q \<Longrightarrow> (\<And>a n. as \<noteq> [] \<Longrightarrow> a = hd as \<Longrightarrow> M a = Some n \<Longrightarrow> M' a = Some (n\<lparr>bpt_previous := p'\<rparr>)) \<Longrightarrow>
   (\<And>a. a \<in> set (tl as) \<Longrightarrow> M' a = M a) \<Longrightarrow> dll M' p' s as q"
proof (cases as)
  case (Cons b bs)
  assume d: "dll M p s as q"
    and a: "\<And>a n. as \<noteq> [] \<Longrightarrow> a = hd as \<Longrightarrow> M a = Some n \<Longrightarrow> M' a = Some (n\<lparr>bpt_previous := p'\<rparr>)"
    and t: "\<And>a. a \<in> set (tl as) \<Longrightarrow> M' a = M a"
  from d Cons obtain n where n: "s = Some b" "M b = Some n" "dll M (Some b) (bpt_next n) bs q" by auto
  moreover have "dll M' (Some b) (bpt_next n) bs q = dll M (Some b) (bpt_next n) bs q"
    by (rule dll_frame) (use t Cons in simp)
  moreover have "M' b = Some (n\<lparr>bpt_previous := p'\<rparr>)" by (rule a) (simp_all add: Cons n(2))
  ultimately show ?thesis unfolding Cons by simp
qed simp

section \<open>Reading a node\<close>

lemma bpt_leaf_get:
  "bpt_leaf n es \<Longrightarrow> i < length es \<Longrightarrow> i < length (bpt_entries n) \<and> bpt_entries n ! i = bpt_slot (es ! i)"
proof -
  assume n: "bpt_leaf n es" and i: "i < length es"
  then have "bpt_entries n ! i = take (length es) (bpt_entries n) ! i" by simp
  with n i show ?thesis by (simp add: bpt_leaf_def)
qed

lemma bpt_leaf_key [simp]:
  "bpt_leaf n es \<Longrightarrow> i < length es \<Longrightarrow> bpt_get_key (bpt_entries n) i = ret (fst (es ! i))"
  using bpt_leaf_get [of n es i] by (simp add: bpt_get_key_def bpt_slot_def)

lemma bpt_leaf_value [simp]:
  "bpt_leaf n es \<Longrightarrow> i < length es \<Longrightarrow> bpt_get_value (bpt_entries n) i = ret (snd (es ! i))"
  using bpt_leaf_get [of n es i] by (simp add: bpt_get_value_def bpt_slot_def)

lemma bpt_inner_key [simp]:
  assumes "bpt_inner n ts" and "i < length (seps ts)"
  shows "bpt_get_key (bpt_entries n) i = ret (seps ts ! i)"
proof -
  have i: "i < bpt_nk n" "i < length (bpt_entries n)"
    using assms by (auto simp: bpt_inner_def bpt_consts)
  have "bpt_key (bpt_entries n ! i) = map bpt_key (take (bpt_nk n) (bpt_entries n)) ! i" using i by simp
  also have "\<dots> = Some (seps ts ! i)" using assms by (simp add: bpt_inner_def)
  finally show ?thesis using i by (simp add: bpt_get_key_def)
qed

lemma bpt_inner_child:
  assumes "bpt_inner n (ts1 @ t # ts2)"
  shows "read_slot (bpt_children n) (length ts1) = ret (Some (bp_addr t))"
proof -
  let ?ts = "ts1 @ t # ts2"
  have cs: "take (length ?ts) (bpt_children n) = map (\<lambda>t. Some (Some (bp_addr t))) ?ts"
    and l: "length ?ts \<le> length (bpt_children n)"
    using assms by (auto simp: bpt_inner_def)
  have "bpt_children n ! length ts1 = take (length ?ts) (bpt_children n) ! length ts1" by simp
  also have "\<dots> = Some (Some (bp_addr t))" unfolding cs by (simp add: nth_append)
  finally show ?thesis using l by simp
qed

text \<open>A node seen through its keys: the entries of a leaf, the separators of an inner node.\<close>

definition bpt_keys :: "bplustree_dram_node \<Rightarrow> u64 list \<Rightarrow> bool" where
  "bpt_keys n ks \<longleftrightarrow> bpt_nk n = length ks \<and> (\<forall>i < length ks. bpt_get_key (bpt_entries n) i = ret (ks ! i))"

lemma bpt_leaf_keys: "bpt_leaf n es \<Longrightarrow> bpt_keys n (map fst es)"
  by (simp add: bpt_keys_def) (simp add: bpt_leaf_def)

lemma bpt_inner_keys: "bpt_inner n ts \<Longrightarrow> bpt_keys n (seps ts)"
  by (simp add: bpt_keys_def) (auto simp: bpt_inner_def)

lemma bpt_find_index_from:
  assumes n: "bpt_keys n ks"
  shows "ks = ks1 @ ks2 \<Longrightarrow> ks2 = xs @ ys \<Longrightarrow> (\<And>x. x \<in> set xs \<Longrightarrow> x < k) \<Longrightarrow> (ys \<noteq> [] \<Longrightarrow> \<not> hd ys < k) \<Longrightarrow>
    bpt_find_index (bpt_entries n) (length ks) k (length ks1) = ret (length ks1 + length xs)"
proof (induction xs arbitrary: ks1 ks2)
  case Nil
  show ?case
  proof (cases ys)
    case Nil
    with Nil.prems show ?thesis by (subst bpt_find_index.simps) simp
  next
    case (Cons y ys')
    with Nil.prems have "ks ! length ks1 = y" "length ks1 < length ks" by (auto simp: nth_append)
    with Cons Nil.prems(4) n show ?thesis by (subst bpt_find_index.simps) (auto simp: bpt_keys_def)
  qed
next
  case (Cons x xs)
  then have "ks ! length ks1 = x" "length ks1 < length ks" "x < k" by (auto simp: nth_append)
  moreover have "bpt_find_index (bpt_entries n) (length ks) k (length (ks1 @ [x])) =
      ret (length (ks1 @ [x]) + length xs)"
    by (rule Cons.IH [of _ "xs @ ys"]) (use Cons.prems in auto)
  ultimately show ?case using n by (subst bpt_find_index.simps) (auto simp: bpt_keys_def)
qed

lemma bpt_find_index_cut:
  assumes n: "bpt_keys n ks"
  obtains ks1 ks2 where "ks = ks1 @ ks2" and "bpt_find_index (bpt_entries n) (bpt_nk n) k 0 = ret (length ks1)"
    and "\<forall>x \<in> set ks1. x < k" and "ks2 \<noteq> [] \<Longrightarrow> \<not> hd ks2 < k"
    and "bpt_key_at n k (length ks1) = ret (ks2 \<noteq> [] \<and> hd ks2 = k)"
proof -
  let ?xs = "takeWhile (\<lambda>x. x < k) ks" and ?ys = "dropWhile (\<lambda>x. x < k) ks"
  have nk: "bpt_nk n = length ks" using n by (simp add: bpt_keys_def)
  have f: "bpt_find_index (bpt_entries n) (length ks) k (length ([] :: u64 list)) =
      ret (length ([] :: u64 list) + length ?xs)"
    by (rule bpt_find_index_from [OF n, of "[]" ks ?xs ?ys])
       (use hd_dropWhile [of "\<lambda>x. x < k" ks] in \<open>auto dest: set_takeWhileD\<close>)
  have "bpt_key_at n k (length ?xs) = ret (?ys \<noteq> [] \<and> hd ?ys = k)"
  proof (cases ?ys)
    case Nil
    then have "ks = ?xs" by (metis append_Nil2 takeWhile_dropWhile_id)
    then have "length ?xs = length ks" by simp
    then show ?thesis using Nil nk by (simp add: bpt_key_at_def)
  next
    case (Cons y ys)
    then have ks: "ks = ?xs @ y # ys" by (metis takeWhile_dropWhile_id)
    then have "length ?xs < length ks" by (metis length_append less_add_same_cancel1 list.size(4) zero_less_Suc add_Suc_right)
    moreover have "ks ! length ?xs = y" using ks by (metis nth_append_length)
    ultimately show ?thesis using Cons n nk by (auto simp: bpt_key_at_def bpt_keys_def)
  qed
  with f nk show thesis
    using hd_dropWhile [of "\<lambda>x. x < k" ks]
    by (intro that [of ?xs ?ys]) (auto dest: set_takeWhileD)
qed

text \<open>The child a key belongs to, and the child a scan from it goes to.\<close>

lemma bpt_child_cut:
  assumes n: "bpt_inner n ts" and so: "sorted_keys (contents_of ts)" and ne: "\<forall>t \<in> set ts. content t \<noteq> []"
  obtains ts1 c ts2 i hit where "ts = ts1 @ c # ts2"
    and "bpt_find_index (bpt_entries n) (bpt_nk n) k 0 = ret i" and "bpt_key_at n k i = ret hit"
    and "(if hit then i + 1 else i) = length ts1"
    and "ts1 \<noteq> [] \<Longrightarrow> least_key c \<le> k" and "ts2 \<noteq> [] \<Longrightarrow> k < least_key (hd ts2)"
proof -
  have ts: "ts \<noteq> []" using n by (auto simp: bpt_inner_def)
  obtain ks1 ks2 where ks: "seps ts = ks1 @ ks2"
      and f: "bpt_find_index (bpt_entries n) (bpt_nk n) k 0 = ret (length ks1)"
      and lt: "\<forall>x \<in> set ks1. x < k" and ge: "ks2 \<noteq> [] \<Longrightarrow> \<not> hd ks2 < k"
      and at: "bpt_key_at n k (length ks1) = ret (ks2 \<noteq> [] \<and> hd ks2 = k)"
    using bpt_find_index_cut [OF bpt_inner_keys [OF n]] by metis
  show thesis
  proof (cases "ks2 \<noteq> [] \<and> hd ks2 = k")
    case True
    then obtain ks' where k2: "ks2 = k # ks'" by (cases ks2) auto
    have "seps ts = (ks1 @ [k]) @ ks'" by (simp add: ks k2)
    then obtain ts1 c ts2 where c: "ts = ts1 @ c # ts2" "length ts1 = length (ks1 @ [k])"
        "ts1 \<noteq> [] \<Longrightarrow> least_key c = last (ks1 @ [k])" "ts2 \<noteq> [] \<Longrightarrow> least_key (hd ts2) = hd ks'"
        "length ts2 = length ks'"
      using seps_at [OF ts] by metis
    have "k < hd ks'" if "ks' \<noteq> []"
      using sorted_seps [OF so ne] that by (cases ks') (auto simp: ks k2 sorted_wrt_append)
    moreover have "ts2 \<noteq> [] \<Longrightarrow> ks' \<noteq> []" using c(5) by auto
    ultimately show ?thesis
      using c(2-4) f at True by (intro that [OF c(1), of "length ks1" True]) auto
  next
    case False
    obtain ts1 c ts2 where c: "ts = ts1 @ c # ts2" "length ts1 = length ks1"
        "ts1 \<noteq> [] \<Longrightarrow> least_key c = last ks1" "ts2 \<noteq> [] \<Longrightarrow> least_key (hd ts2) = hd ks2"
        "length ts2 = length ks2"
      using seps_at [OF ts ks] by metis
    have "least_key c \<le> k" if t: "ts1 \<noteq> []"
    proof -
      have "ks1 \<noteq> []" using c(2) t by auto
      then show ?thesis using c(3) [OF t] lt by (simp add: less_imp_le)
    qed
    moreover have "k < least_key (hd ts2)" if t: "ts2 \<noteq> []"
    proof -
      have "ks2 \<noteq> []" using c(5) t by auto
      then show ?thesis using c(4) [OF t] ge False by fastforce
    qed
    ultimately show ?thesis
      using c(2) f at False by (intro that [OF c(1), of "length ks1" False]) auto
  qed
qed

lemma bpt_scan_cut:
  assumes n: "bpt_inner n ts"
  obtains ts1 c ts2 where "ts = ts1 @ c # ts2"
    and "bpt_find_index (bpt_entries n) (bpt_nk n) k 0 = ret (length ts1)"
    and "ts1 \<noteq> [] \<Longrightarrow> least_key c < k" and "ts2 \<noteq> [] \<Longrightarrow> k \<le> least_key (hd ts2)"
proof -
  have ts: "ts \<noteq> []" using n by (auto simp: bpt_inner_def)
  obtain ks1 ks2 where ks: "seps ts = ks1 @ ks2"
      and f: "bpt_find_index (bpt_entries n) (bpt_nk n) k 0 = ret (length ks1)"
      and lt: "\<forall>x \<in> set ks1. x < k" and ge: "ks2 \<noteq> [] \<Longrightarrow> \<not> hd ks2 < k"
    using bpt_find_index_cut [OF bpt_inner_keys [OF n]] by metis
  obtain ts1 c ts2 where c: "ts = ts1 @ c # ts2" "length ts1 = length ks1"
      "ts1 \<noteq> [] \<Longrightarrow> least_key c = last ks1" "ts2 \<noteq> [] \<Longrightarrow> least_key (hd ts2) = hd ks2"
      "length ts2 = length ks2"
    using seps_at [OF ts ks] by metis
  have "least_key c < k" if t: "ts1 \<noteq> []"
  proof -
    have "ks1 \<noteq> []" using c(2) t by auto
    then show ?thesis using c(3) [OF t] lt by simp
  qed
  moreover have "k \<le> least_key (hd ts2)" if t: "ts2 \<noteq> []"
  proof -
    have "ks2 \<noteq> []" using c(5) t by auto
    then show ?thesis using c(4) [OF t] ge by simp
  qed
  ultimately show thesis using c(2) f by (intro that [OF c(1)]) auto
qed

text \<open>Searching a leaf.\<close>

lemma bpt_leaf_cut:
  assumes n: "bpt_leaf n es"
  obtains es1 es2 where "es = es1 @ es2"
    and "bpt_find_index (bpt_entries n) (bpt_nk n) k 0 = ret (length es1)"
    and "bpt_key_at n k (length es1) = ret (es2 \<noteq> [] \<and> fst (hd es2) = k)"
    and "\<forall>e \<in> set es1. fst e < k" and "es2 \<noteq> [] \<Longrightarrow> \<not> fst (hd es2) < k"
proof -
  obtain ks1 ks2 where ks: "map fst es = ks1 @ ks2"
      and f: "bpt_find_index (bpt_entries n) (bpt_nk n) k 0 = ret (length ks1)"
      and lt: "\<forall>x \<in> set ks1. x < k" and ge: "ks2 \<noteq> [] \<Longrightarrow> \<not> hd ks2 < k"
      and at: "bpt_key_at n k (length ks1) = ret (ks2 \<noteq> [] \<and> hd ks2 = k)"
    using bpt_find_index_cut [OF bpt_leaf_keys [OF n]] by metis
  obtain es1 es2 where es: "es = es1 @ es2" "map fst es1 = ks1" "map fst es2 = ks2"
    using ks by (auto simp: map_eq_append_conv)
  note f = f [folded es(2)] and lt = lt [folded es(2)] and ge = ge [folded es(3)]
    and at = at [folded es(2,3)]
  show thesis
  proof (rule that [OF es(1)])
    show "bpt_find_index (bpt_entries n) (bpt_nk n) k 0 = ret (length es1)" using f by simp
    show "bpt_key_at n k (length es1) = ret (es2 \<noteq> [] \<and> fst (hd es2) = k)"
      using at by (cases es2) auto
    show "\<forall>e \<in> set es1. fst e < k" using lt by simp
    show "\<not> fst (hd es2) < k" if "es2 \<noteq> []" using ge that by (simp add: hd_map)
  qed
qed

lemma bpt_search_tree:
  "bpt_tree (mem h) t \<Longrightarrow> bp_bal d t \<Longrightarrow> bp_min m t \<Longrightarrow> sorted_keys (content t) \<Longrightarrow>
   bpt_search h (Some (bp_addr t)) k =
     ret (case map_of (content t) k of None \<Rightarrow> NullP | Some v \<Rightarrow> StrP v)"
proof (induction d arbitrary: t)
  case 0
  then obtain a es where t: "t = BL a es" using bp_bal_0 by blast
  with 0 obtain n where n: "mem h a = Some n" "bpt_leaf n es" by auto
  obtain es1 es2 where es: "es = es1 @ es2"
      and f: "bpt_find_index (bpt_entries n) (bpt_nk n) k 0 = ret (length es1)"
      and at: "bpt_key_at n k (length es1) = ret (es2 \<noteq> [] \<and> fst (hd es2) = k)"
      and k: "\<forall>e \<in> set es1. fst e < k" "es2 \<noteq> [] \<Longrightarrow> \<not> fst (hd es2) < k"
    using bpt_leaf_cut [OF n(2), of k] by metis
  have lf: "bpt_is_leaf n \<noteq> 0" using n(2) by (simp add: bpt_leaf_def bpt_consts)
  show ?case
  proof (cases "es2 \<noteq> [] \<and> fst (hd es2) = k")
    case True
    then obtain v es' where e: "es2 = (k, v) # es'" by (cases es2) auto
    have "map_of es k = Some v"
      using sorted_keys_distinct [of es] 0(4) t by (intro map_of_is_SomeI) (simp_all add: es e)
    then show ?thesis
      using t n f at True lf bpt_leaf_get [OF n(2), of "length es1"]
      by (subst bpt_search.simps) (simp add: es e bpt_slot_def)
  next
    case False
    have k1: "es1 \<noteq> [] \<Longrightarrow> fst (last es1) < k" using k(1) by simp
    have k2: "es2 \<noteq> [] \<Longrightarrow> k < fst (hd es2)" using k(2) False by fastforce
    have "map_of es k = None" using leaf_miss(1) [OF _ k1 k2] 0(4) t es by simp
    then show ?thesis using t n f at False lf by (subst bpt_search.simps) auto
  qed
next
  case (Suc d)
  then obtain a ts where t: "t = BN a ts" using bp_bal_Suc by blast
  with Suc.prems obtain n where n: "mem h a = Some n" "bpt_inner n ts"
    and kids: "\<forall>t \<in> set ts. bpt_tree (mem h) t \<and> bp_bal d t \<and> bp_min m t" by auto
  have so: "sorted_keys (contents_of ts)" using Suc.prems(4) t by simp
  have ne: "\<forall>t \<in> set ts. content t \<noteq> []" using kids content_ne by blast
  obtain ts1 c ts2 i hit where c: "ts = ts1 @ c # ts2"
      and f: "bpt_find_index (bpt_entries n) (bpt_nk n) k 0 = ret i" and at: "bpt_key_at n k i = ret hit"
      and i: "(if hit then i + 1 else i) = length ts1"
      and k: "ts1 \<noteq> [] \<Longrightarrow> least_key c \<le> k" "ts2 \<noteq> [] \<Longrightarrow> k < least_key (hd ts2)"
    using bpt_child_cut [OF n(2) so ne, of k] by metis
  have lf: "bpt_is_leaf n = 0" using n(2) by (simp add: bpt_inner_def bpt_consts)
  note cut = content_cut [OF so [unfolded c] ne [unfolded c] k]
  have "bpt_search h (Some (bp_addr c)) k = ret (case map_of (content c) k of None \<Rightarrow> NullP | Some v \<Rightarrow> StrP v)"
    using Suc.IH [of c] kids cut(3) by (simp add: c)
  then show ?case
    using t n f at i lf cut(1) bpt_inner_child [OF n(2) [unfolded c]] unfolding c
    by (subst bpt_search.simps) simp
qed

section \<open>Scanning\<close>

abbreviation rows :: "(u64 \<times> string) list \<Rightarrow> scan_result" where
  "rows xs \<equiv> map (\<lambda>x. [x]) xs"

lemma bpt_scan_leaf_eq:
  assumes n: "bpt_leaf n es"
  shows "es = es1 @ es2 \<Longrightarrow> len_count \<noteq> len \<Longrightarrow> bpt_scan_leaf (bpt_entries n) (length es) (length es1) len len_count res =
    (if len_count < len \<and> len \<le> len_count + int (length es2)
     then ret (len, res @ rows (take (nat (len - len_count)) es2))
     else ret (len_count + int (length es2), res @ rows es2))"
proof (induction es2 arbitrary: es1 len_count res)
  case Nil
  then show ?case by (subst bpt_scan_leaf.simps) simp
next
  case (Cons e es2)
  have i: "length es1 < length es" "es ! length es1 = e" using Cons.prems(1) by auto
  have run: "bpt_scan_leaf (bpt_entries n) (length es) (length es1) len len_count res =
      (if len_count + 1 = len then ret (len, res @ [[e]])
       else bpt_scan_leaf (bpt_entries n) (length es) (length (es1 @ [e])) len (len_count + 1) (res @ [[e]]))"
    using i n by (subst bpt_scan_leaf.simps) (simp add: Let_def)
  show ?case
  proof (cases "len_count + 1 = len")
    case True
    then show ?thesis unfolding run by auto
  next
    case False
    have es: "es = (es1 @ [e]) @ es2" using Cons.prems(1) by simp
    have "nat (len - len_count) = Suc (nat (len - (len_count + 1)))" if "len_count < len"
      using that by simp
    then show ?thesis
      unfolding run using False Cons.IH [OF es False, of "res @ [[e]]"] Cons.prems(2) by auto
  qed
qed

text \<open>The entries of the leaves, leaf by leaf.\<close>

fun leaf_contents :: "bptree \<Rightarrow> (u64 \<times> string) list list" where
  "leaf_contents (BL a es) = [es]"
| "leaf_contents (BN a ts) = concat (map leaf_contents ts)"

lemma concat_leaf_contents [simp]: "concat (leaf_contents t) = content t"
proof (induction t)
  case (BN a ts)
  then have "concat (concat (map leaf_contents ts)) = contents_of ts" by (induction ts) simp_all
  then show ?case by simp
qed simp

lemma concat_leaf_contents_of [simp]: "concat (concat (map leaf_contents ts)) = contents_of ts"
  by (induction ts) simp_all

abbreviation leaf_at :: "(nat \<rightharpoonup> bplustree_dram_node) \<Rightarrow> nat \<Rightarrow> (u64 \<times> string) list \<Rightarrow> bool" where
  "leaf_at M a es \<equiv> \<exists>n. M a = Some n \<and> bpt_leaf n es"

lemma list_all2_concat:
  "\<forall>t \<in> set ts. list_all2 P (f t) (g t) \<Longrightarrow> list_all2 P (concat (map f ts)) (concat (map g ts))"
  by (induction ts) (auto intro: list_all2_appendI)

lemma bpt_tree_leaves: "bpt_tree M t \<Longrightarrow> list_all2 (leaf_at M) (leaves t) (leaf_contents t)"
proof (induction t)
  case (BN a ts)
  then have "\<forall>t \<in> set ts. list_all2 (leaf_at M) (leaves t) (leaf_contents t)" by auto
  then show ?case by (simp add: list_all2_concat)
qed simp

lemma bpt_scan_chain_eq:
  "dll (mem h) p (Some a) (a # as) NULL \<Longrightarrow> leaf_at (mem h) a (es1 @ es2) \<Longrightarrow> list_all2 (leaf_at (mem h)) as ess \<Longrightarrow>
   len_count \<noteq> len \<Longrightarrow>
   bpt_scan_chain h (Some a) (length es1) len len_count res =
     ret (res @ rows (if len_count < len then take (nat (len - len_count)) (es2 @ concat ess) else es2 @ concat ess))"
proof (induction as arbitrary: p a es1 es2 ess len_count res)
  case (Nil p a es1 es2 ess len_count res)
  then obtain n where n: "mem h a = Some n" "bpt_leaf n (es1 @ es2)" "bpt_next n = NULL" by auto
  have "bpt_nk n = length (es1 @ es2)" using n(2) by (simp add: bpt_leaf_def)
  then show ?case
    using n Nil.prems(3,4) bpt_scan_leaf_eq [OF n(2) refl, of len_count len res]
    by (subst bpt_scan_chain.simps) (auto simp: bpt_scan_chain.simps [of h NULL])
next
  case (Cons b as p a es1 es2 ess len_count res)
  then obtain n where n: "mem h a = Some n" "bpt_leaf n (es1 @ es2)" "bpt_next n = Some b"
      and d: "dll (mem h) (Some a) (Some b) (b # as) NULL" by auto
  obtain es ess' where e: "ess = es # ess'" "leaf_at (mem h) b ([] @ es)" "list_all2 (leaf_at (mem h)) as ess'"
    using Cons.prems(3) by (auto simp: list_all2_Cons1)
  have nk: "bpt_nk n = length (es1 @ es2)" using n(2) by (simp add: bpt_leaf_def)
  note leaf = bpt_scan_leaf_eq [OF n(2) refl Cons.prems(4), of res]
  show ?case
  proof (cases "len_count < len \<and> len \<le> len_count + int (length es2)")
    case True
    then have "nat (len - len_count) - length es2 = 0" by linarith
    then show ?thesis using True n nk leaf by (subst bpt_scan_chain.simps) simp
  next
    case False
    let ?c = "len_count + int (length es2)"
    have c: "?c \<noteq> len" using False Cons.prems(4) by auto
    have run: "bpt_scan_chain h (Some a) (length es1) len len_count res =
        bpt_scan_chain h (Some b) (length ([] :: (u64 \<times> string) list)) len ?c (res @ rows es2)"
      using n nk leaf False c by (subst bpt_scan_chain.simps) auto
    have "take (nat (len - len_count)) (es2 @ es @ concat ess') = es2 @ take (nat (len - ?c)) (es @ concat ess')"
      if "len_count < len"
    proof -
      have "length es2 \<le> nat (len - len_count)" "nat (len - len_count) - length es2 = nat (len - ?c)"
        using that False by linarith+
      then show ?thesis by simp
    qed
    moreover have "len_count < len \<longleftrightarrow> ?c < len" using False Cons.prems(4) by linarith
    ultimately show ?thesis
      unfolding run Cons.IH [OF d e(2,3) c] by (simp add: e(1))
  qed
qed

lemma bpt_descend_tree:
  "bpt_tree (mem h) t \<Longrightarrow> bp_bal d t \<Longrightarrow> bp_min m t \<Longrightarrow> sorted_keys (content t) \<Longrightarrow>
   \<exists>l L1 L2 es E1 E2. bpt_descend h (Some (bp_addr t)) k = ret (Some l) \<and> leaves t = L1 @ l # L2 \<and>
     leaf_contents t = E1 @ es # E2 \<and> length E1 = length L1 \<and>
     filter (\<lambda>e. k \<le> fst e) (concat E1) = [] \<and> filter (\<lambda>e. k \<le> fst e) (concat E2) = concat E2"
proof (induction d arbitrary: t)
  case 0
  then obtain a es where t: "t = BL a es" using bp_bal_0 by blast
  with 0 obtain n where n: "mem h a = Some n" "bpt_leaf n es" by auto
  then have "bpt_descend h (Some a) k = ret (Some a)"
    by (subst bpt_descend.simps) (simp add: bpt_leaf_def bpt_consts)
  then show ?case
    by (intro exI [of _ a] exI [of _ "[]"] exI [of _ es]) (simp add: t)
next
  case (Suc d)
  then obtain a ts where t: "t = BN a ts" using bp_bal_Suc by blast
  with Suc.prems obtain n where n: "mem h a = Some n" "bpt_inner n ts"
    and kids: "\<forall>t \<in> set ts. bpt_tree (mem h) t \<and> bp_bal d t \<and> bp_min m t" by auto
  have so: "sorted_keys (contents_of ts)" using Suc.prems(4) t by simp
  have ne: "\<forall>t \<in> set ts. content t \<noteq> []" using kids content_ne by blast
  obtain ts1 c ts2 where c: "ts = ts1 @ c # ts2"
      and f: "bpt_find_index (bpt_entries n) (bpt_nk n) k 0 = ret (length ts1)"
      and k: "ts1 \<noteq> [] \<Longrightarrow> least_key c < k" "ts2 \<noteq> [] \<Longrightarrow> k \<le> least_key (hd ts2)"
    using bpt_scan_cut [OF n(2), of k] by metis
  have lf: "bpt_is_leaf n = 0" using n(2) by (simp add: bpt_inner_def bpt_consts)
  note cut = content_scan_cut [OF so [unfolded c] ne [unfolded c] k]
  obtain l L1 L2 es E1 E2 where 1: "bpt_descend h (Some (bp_addr c)) k = ret (Some l)"
      "leaves c = L1 @ l # L2" "leaf_contents c = E1 @ es # E2" "length E1 = length L1"
      "filter (\<lambda>e. k \<le> fst e) (concat E1) = []" "filter (\<lambda>e. k \<le> fst e) (concat E2) = concat E2"
    using Suc.IH [of c] kids cut(3) by (auto simp: c)
  have "list_all2 (leaf_at (mem h)) (leaves_of ts1) (concat (map leaf_contents ts1))"
    using kids bpt_tree_leaves unfolding c by (intro list_all2_concat) auto
  then have len: "length (concat (map leaf_contents ts1)) = length (leaves_of ts1)"
    by (simp add: list_all2_lengthD)
  have "bpt_descend h (Some (bp_addr t)) k = ret (Some l)"
    using t n f lf 1(1) bpt_inner_child [OF n(2) [unfolded c]] unfolding c
    by (subst bpt_descend.simps) simp
  moreover have "leaves t = (leaves_of ts1 @ L1) @ l # (L2 @ leaves_of ts2)"
    "leaf_contents t = (concat (map leaf_contents ts1) @ E1) @ es # (E2 @ concat (map leaf_contents ts2))"
    by (simp_all add: t c 1)
  moreover have "length (concat (map leaf_contents ts1) @ E1) = length (leaves_of ts1 @ L1)"
    using len 1(4) by simp
  moreover have "filter (\<lambda>e. k \<le> fst e) (concat (concat (map leaf_contents ts1) @ E1)) = []"
    "filter (\<lambda>e. k \<le> fst e) (concat (E2 @ concat (map leaf_contents ts2))) = concat (E2 @ concat (map leaf_contents ts2))"
    using cut 1(5,6) by simp_all
  ultimately show ?case by blast
qed

lemma filter_range:
  assumes "sorted_keys (xs :: (u64 \<times> string) list)"
  shows "is_range (map_of xs) k (filter (\<lambda>e. k \<le> fst e) xs)"
proof -
  have "map_of (filter (\<lambda>e. k \<le> fst e) xs) = map_of xs |` {k..}"
    by (induction xs) (auto simp: fun_eq_iff restrict_map_def)
  moreover have "map fst (filter (\<lambda>e. k \<le> fst e) xs) = filter (\<lambda>x. k \<le> x) (map fst xs)"
    by (induction xs) auto
  ultimately show ?thesis using assms by (simp add: is_range_def sorted_wrt_filter)
qed

lemma filter_from:
  assumes "sorted_keys (es1 @ es2)" and "\<forall>e \<in> set es1. fst e < k" and "es2 \<noteq> [] \<Longrightarrow> \<not> fst (hd es2) < k"
  shows "filter (\<lambda>e. k \<le> fst e) (es1 @ es2) = es2"
proof -
  have "k \<le> fst e" if "e \<in> set es2" for e
    using assms(1,3) that by (cases es2) (auto simp: sorted_wrt_append intro: order_trans less_imp_le)
  moreover have "filter (\<lambda>e. k \<le> fst e) es1 = []" using assms(2) by (auto simp: filter_empty_conv not_le)
  ultimately show ?thesis by (simp add: filter_id_conv)
qed

text \<open>A scan of a tree whose leaves are linked.\<close>

lemma bpt_scan_tree:
  assumes t: "bpt_tree (mem (bpt_heap s)) t" "bp_bal d t" "bp_min m t" "sorted_keys (content t)"
    and r: "bpt_root s = Some (bp_addr t)" and l: "dll (mem (bpt_heap s)) NULL q (leaves t) NULL"
    and len: "len \<noteq> 0"
  shows "bpt_scan s k len res = ret (1, res @ rows (scan_prefix len (filter (\<lambda>e. k \<le> fst e) (content t))))"
proof -
  let ?h = "bpt_heap s"
  obtain a L1 L2 es E1 E2 where d: "bpt_descend ?h (Some (bp_addr t)) k = ret (Some a)"
      "leaves t = L1 @ a # L2" "leaf_contents t = E1 @ es # E2" "length E1 = length L1"
      "filter (\<lambda>e. k \<le> fst e) (concat E1) = []" "filter (\<lambda>e. k \<le> fst e) (concat E2) = concat E2"
    using bpt_descend_tree [OF t] by metis
  have lv: "leaf_at (mem ?h) a es" "list_all2 (leaf_at (mem ?h)) L2 E2"
    using bpt_tree_leaves [OF t(1)] d(4) unfolding d(2,3) by (simp_all add: list_all2_append)
  then obtain n where n: "mem ?h a = Some n" "bpt_leaf n es" by blast
  obtain es1 es2 where es: "es = es1 @ es2"
      and f: "bpt_find_index (bpt_entries n) (bpt_nk n) k 0 = ret (length es1)"
      and k: "\<forall>e \<in> set es1. fst e < k" "es2 \<noteq> [] \<Longrightarrow> \<not> fst (hd es2) < k"
    using bpt_leaf_cut [OF n(2), of k] by metis
  have c: "content t = concat E1 @ (es1 @ es2) @ concat E2"
    using concat_leaf_contents [of t] unfolding d(3) es by simp
  have "sorted_keys (es1 @ es2)" using t(4) unfolding c by (simp add: sorted_wrt_append)
  then have "filter (\<lambda>e. k \<le> fst e) (es1 @ es2) = es2" using k by (rule filter_from)
  then have fl: "filter (\<lambda>e. k \<le> fst e) (content t) = es2 @ concat E2"
    unfolding c filter_append using d(5,6) by simp
  have "dll (mem ?h) (prev_of NULL L1) (Some a) (a # L2) NULL"
    using l unfolding d(2) dll_append by simp
  then have "bpt_scan_chain ?h (Some a) (length es1) len 0 res =
      ret (res @ rows (if 0 < len then take (nat (len - 0)) (es2 @ concat E2) else es2 @ concat E2))"
    using lv len unfolding es by (intro bpt_scan_chain_eq) auto
  moreover have "0 < len \<longleftrightarrow> 1 \<le> len" by auto
  ultimately show ?thesis
    using r d(1) n f fl by (simp add: bpt_scan_def bpt_check_def scan_prefix_def)
qed

end
