(* ===== verification/B_Plus_Update.thy ===== *)
theory B_Plus_Update
  imports B_Plus_Tree
begin

text \<open>
  The B+ tree as a store. A step relation on subtrees, with the leaves before and after them, says
  what an operation may write; the updates, the splits and the insertions of \<open>BPlusTreeDram\<close> are such
  steps. The tree is then a \<open>scan_store\<close>, and its destructor frees exactly its nodes.
\<close>

section \<open>Steps on a subtree\<close>

declare concat_eq_Nil_conv [simp del]

text \<open>
  \<open>bpt_sub h d t p q\<close>: the heap holds \<open>t\<close>, a well-formed subtree of height \<open>d\<close> whose leaves are
  linked between the leaves \<open>p\<close> and \<open>q\<close>. \<open>bpt_step h t h' t' d p q\<close>: an operation turned it into
  \<open>t'\<close>, at the same address and with the same first leaf, writing only its nodes, fresh ones and the
  back link of \<open>q\<close>.
\<close>

definition bpt_sub :: "bplustree_dram_node heap \<Rightarrow> nat \<Rightarrow> bptree \<Rightarrow> ptr \<Rightarrow> ptr \<Rightarrow> bool" where
  "bpt_sub h d t p q \<longleftrightarrow> heap_ok h \<and> bpt_tree (mem h) t \<and> bp_bal d t \<and>
     bp_min (BPLUSTREE_MIN_DEGREE - 1) t \<and> distinct (bp_addrs t) \<and>
     dll (mem h) p (Some (hd (leaves t))) (leaves t) q \<and>
     (\<forall>b. q = Some b \<longrightarrow> b \<notin> set (bp_addrs t) \<and>
        (\<exists>n. mem h b = Some n \<and> bpt_previous n = Some (last (leaves t))))"

definition relink :: "ptr \<Rightarrow> nat \<Rightarrow> nat \<Rightarrow> bplustree_dram_node option \<Rightarrow> bplustree_dram_node option" where
  "relink q l a x = (if q = Some a then map_option (\<lambda>n. n\<lparr>bpt_previous := Some l\<rparr>) x else x)"

definition bpt_step ::
  "bplustree_dram_node heap \<Rightarrow> bptree \<Rightarrow> bplustree_dram_node heap \<Rightarrow> bptree \<Rightarrow> nat \<Rightarrow> ptr \<Rightarrow> ptr \<Rightarrow> bool" where
  "bpt_step h t h' t' d p q \<longleftrightarrow> bpt_sub h' d t' p q \<and> brk h \<le> brk h' \<and>
     bp_addr t' = bp_addr t \<and> hd (leaves t') = hd (leaves t) \<and> bp_size t \<le> bp_size t' \<and>
     set (bp_addrs t') \<subseteq> set (bp_addrs t) \<union> {brk h..<brk h'} \<and>
     (\<forall>a. a < brk h \<longrightarrow> a \<notin> set (bp_addrs t) \<longrightarrow> mem h' a = relink q (last (leaves t')) a (mem h a))"

lemma relink_relink [simp]: "relink q l a (relink q l' a x) = relink q l a x"
  by (cases x) (simp_all add: relink_def)

lemma relink_other [simp]: "q \<noteq> Some a \<Longrightarrow> relink q l a x = x"
  by (simp add: relink_def)

lemma relink_same: "(\<And>b. q = Some b \<Longrightarrow> \<exists>n. M b = Some n \<and> bpt_previous n = Some l) \<Longrightarrow> relink q l a (M a) = M a"
  by (fastforce simp: relink_def)

lemma same_node_relink [simp]: "same_node x (relink q l a x)"
  by (cases "q = Some a") (auto simp: relink_def same_node_def)

lemma bpt_tree_alloc: "bpt_tree M t \<Longrightarrow> a \<in> set (bp_addrs t) \<Longrightarrow> \<exists>n. M a = Some n"
  by (induction M t rule: bpt_tree.induct) auto

lemma bpt_sub_less: "bpt_sub h d t p q \<Longrightarrow> a \<in> set (bp_addrs t) \<Longrightarrow> a < brk h"
  using bpt_tree_alloc [of "mem h" t a] heap_ok_less by (auto simp: bpt_sub_def)

lemma bpt_sub_q: "bpt_sub h d t p (Some b) \<Longrightarrow> b < brk h \<and> b \<notin> set (bp_addrs t)"
  using heap_ok_less by (auto simp: bpt_sub_def)

lemma bpt_sub_leaves: "bpt_sub h d t p q \<Longrightarrow> leaves t \<noteq> []"
  using leaves_ne by (auto simp: bpt_sub_def)

lemma bpt_step_trans:
  assumes 1: "bpt_step h t h1 t1 d p q" and 2: "bpt_step h1 t1 h2 t2 d p q"
  shows "bpt_step h t h2 t2 d p q"
proof -
  have "mem h2 a = relink q (last (leaves t2)) a (mem h a)" if "a < brk h" "a \<notin> set (bp_addrs t)" for a
  proof -
    have "a \<notin> set (bp_addrs t1)" "a < brk h1" using 1 that unfolding bpt_step_def by auto
    then show ?thesis using 1 2 that unfolding bpt_step_def by simp
  qed
  moreover have "set (bp_addrs t2) \<subseteq> set (bp_addrs t) \<union> {brk h..<brk h2}"
    using 1 2 unfolding bpt_step_def by fastforce
  ultimately show ?thesis using 1 2 unfolding bpt_step_def by simp
qed

text \<open>The links around a child.\<close>

abbreviation kid_prev :: "ptr \<Rightarrow> bptree list \<Rightarrow> ptr" where
  "kid_prev p ts1 \<equiv> prev_of p (leaves_of ts1)"

abbreviation kid_next :: "bptree list \<Rightarrow> ptr \<Rightarrow> ptr" where
  "kid_next ts2 q \<equiv> next_of (leaves_of ts2) q"

lemma prev_of_append: "prev_of p (as @ bs) = prev_of (prev_of p as) bs"
  by (simp add: prev_of_def)

lemma next_of_append: "next_of (as @ bs) q = next_of as (next_of bs q)"
  by (simp add: next_of_def)

lemma prev_of_ne: "as \<noteq> [] \<Longrightarrow> prev_of p as = Some (last as)"
  by (simp add: prev_of_def)

lemma next_of_ne: "as \<noteq> [] \<Longrightarrow> next_of as q = Some (hd as)"
  by (simp add: next_of_def)

lemma dll_hd: "dll M p s as q \<Longrightarrow> as \<noteq> [] \<Longrightarrow> \<exists>n. M (hd as) = Some n \<and> bpt_previous n = p"
  by (cases as) auto

lemma bpt_kid_leaves:
  assumes "bpt_sub h (Suc d) (BN a (ts1 @ c # ts2)) p q"
  shows "leaves c \<noteq> []"
proof (rule leaves_ne)
  show "bp_min (BPLUSTREE_MIN_DEGREE - 1) c" using assms by (simp add: bpt_sub_def)
qed

lemma bpt_sub_dll:
  assumes h: "bpt_sub h (Suc d) (BN a (ts1 @ c # ts2)) p q"
  shows "dll (mem h) p (next_of (leaves_of ts1) (Some (hd (leaves c)))) (leaves_of ts1) (Some (hd (leaves c)))"
    and "dll (mem h) (kid_prev p ts1) (Some (hd (leaves c))) (leaves c) (kid_next ts2 q)"
    and "dll (mem h) (Some (last (leaves c))) (kid_next ts2 q) (leaves_of ts2) q"
proof -
  have lc: "leaves c \<noteq> []" by (rule bpt_kid_leaves [OF h])
  have n: "next_of (leaves c @ leaves_of ts2) q = Some (hd (leaves c))" using lc by (simp add: next_of_ne)
  have p: "prev_of x (leaves c) = Some (last (leaves c))" for x using lc by (simp add: prev_of_ne)
  have "dll (mem h) p (Some (hd (leaves_of (ts1 @ c # ts2)))) (leaves_of ts1 @ leaves c @ leaves_of ts2) q"
    using h by (simp add: bpt_sub_def)
  note d = this [unfolded dll_append n p]
  have s: "Some (hd (leaves_of (ts1 @ c # ts2))) = next_of (leaves_of ts1) (Some (hd (leaves c)))"
    using d by (blast intro: dll_start)
  show "dll (mem h) p (next_of (leaves_of ts1) (Some (hd (leaves c)))) (leaves_of ts1) (Some (hd (leaves c)))"
    using d unfolding s by blast
  show "dll (mem h) (kid_prev p ts1) (Some (hd (leaves c))) (leaves c) (kid_next ts2 q)"
    "dll (mem h) (Some (last (leaves c))) (kid_next ts2 q) (leaves_of ts2) q"
    using d by blast+
qed

lemma bpt_sub_kid:
  assumes h: "bpt_sub h (Suc d) (BN a (ts1 @ c # ts2)) p q"
  shows "bpt_sub h d c (kid_prev p ts1) (kid_next ts2 q)"
proof -
  have lc: "leaves c \<noteq> []" by (rule bpt_kid_leaves [OF h])
  have "b \<notin> set (bp_addrs c) \<and> (\<exists>n. mem h b = Some n \<and> bpt_previous n = Some (last (leaves c)))"
    if b: "kid_next ts2 q = Some b" for b
  proof (cases "leaves_of ts2 = []")
    case True
    then have q: "q = Some b" using b by (simp only: next_of_simps)
    have "last (leaves (BN a (ts1 @ c # ts2))) = last (leaves c)" using True lc by simp
    then show ?thesis using h q unfolding bpt_sub_def by auto
  next
    case False
    then have hb: "b = hd (leaves_of ts2)" using b by (simp add: next_of_ne)
    then have "b \<in> set (leaves_of ts2)" using hd_in_set [OF False] by (simp only:)
    then have "b \<in> set (addrs_of ts2)" using leaves_of_subset [of ts2] by blast
    then have "b \<notin> set (bp_addrs c)" using h by (auto simp: bpt_sub_def)
    then show ?thesis using dll_hd [OF bpt_sub_dll(3) [OF h] False] hb by simp
  qed
  moreover have "bpt_tree (mem h) c \<and> bp_bal d c \<and> bp_min (BPLUSTREE_MIN_DEGREE - 1) c \<and> distinct (bp_addrs c) \<and> heap_ok h"
    using h by (simp add: bpt_sub_def)
  ultimately show ?thesis using bpt_sub_dll(2) [OF h] unfolding bpt_sub_def by blast
qed

lemma distinct_replace:
  "distinct (a # xs @ ys @ zs) \<Longrightarrow> distinct ys' \<Longrightarrow> \<forall>x \<in> set (a # xs @ zs). x \<notin> set ys' \<Longrightarrow>
   distinct (a # xs @ ys' @ zs)"
  by auto

text \<open>
  Replacing a child by the trees \<open>cs\<close>: by one tree after a step below it, by two after a split.
\<close>

lemma bpt_step_kids:
  assumes h: "bpt_sub h (Suc d) (BN a (ts1 @ c # ts2)) p q"
    and ok: "heap_ok h'" "brk h \<le> brk h'" and n: "mem h' a = Some n" "bpt_inner n (ts1 @ cs @ ts2)"
    and cs: "cs \<noteq> []" "bp_addr (hd cs) = bp_addr c" "hd (leaves_of cs) = hd (leaves c)"
    and kids: "\<forall>t \<in> set cs. bpt_tree (mem h') t \<and> bp_bal d t \<and> BPLUSTREE_MIN_DEGREE - 1 \<le> bp_size t \<and>
        bp_min (BPLUSTREE_MIN_DEGREE - 1) t"
    and ad: "distinct (addrs_of cs)" "set (addrs_of cs) \<subseteq> set (bp_addrs c) \<union> {brk h..<brk h'}"
    and l: "dll (mem h') (kid_prev p ts1) (Some (hd (leaves c))) (leaves_of cs) (kid_next ts2 q)"
    and fr: "\<And>x. x < brk h \<Longrightarrow> x \<notin> set (bp_addrs c) \<Longrightarrow> x \<noteq> a \<Longrightarrow>
        mem h' x = relink (kid_next ts2 q) (last (leaves_of cs)) x (mem h x)"
  shows "bpt_step h (BN a (ts1 @ c # ts2)) h' (BN a (ts1 @ cs @ ts2)) (Suc d) p q"
proof -
  let ?t = "BN a (ts1 @ c # ts2)" and ?t' = "BN a (ts1 @ cs @ ts2)" and ?q = "kid_next ts2 q"
  have lc: "leaves c \<noteq> []" by (rule bpt_kid_leaves [OF h])
  have dis: "distinct (a # addrs_of ts1 @ bp_addrs c @ addrs_of ts2)" using h by (simp add: bpt_sub_def)
  have old: "x < brk h" if "x \<in> set (a # addrs_of ts1 @ bp_addrs c @ addrs_of ts2)" for x
    using bpt_sub_less [OF h, of x] that by simp
  have lcs: "leaves_of cs \<noteq> []"
  proof -
    have "leaves (hd cs) \<noteq> []" using kids cs(1) by (intro leaves_ne) auto
    then show ?thesis using cs(1) by (cases cs) auto
  qed
  have same: "same_node (mem h x) (mem h' x)" if "x \<in> set (addrs_of ts1 @ addrs_of ts2)" for x
  proof -
    have "x \<notin> set (bp_addrs c)" "x \<noteq> a" using dis that by auto
    moreover have "x < brk h" using that by (intro old) auto
    ultimately show ?thesis by (simp add: fr)
  qed
  have tree: "bpt_tree (mem h') t" if t: "t \<in> set ts1 \<union> set ts2" for t
  proof (rule bpt_tree_agree)
    show "bpt_tree (mem h) t" using h t by (auto simp: bpt_sub_def)
    show "same_node (mem h x) (mem h' x)" if "x \<in> set (bp_addrs t)" for x
      using t that by (intro same) auto
  qed
  have q1: "?q \<noteq> Some x" if x: "x \<in> set (addrs_of ts1)" for x
  proof (cases "leaves_of ts2 = []")
    case True
    then have "?q = q" by (simp only: next_of_simps)
    then show ?thesis using bpt_sub_q [of h "Suc d" ?t p x] h x by auto
  next
    case False
    then have "?q = Some (hd (leaves_of ts2))" by (rule next_of_ne)
    moreover have "hd (leaves_of ts2) \<in> set (addrs_of ts2)"
      using leaves_of_subset [of ts2] hd_in_set [OF False] by blast
    ultimately show ?thesis using dis x by auto
  qed
  have d1: "dll (mem h') p (next_of (leaves_of ts1) (Some (hd (leaves c)))) (leaves_of ts1) (Some (hd (leaves c)))"
  proof (rule iffD2 [OF dll_frame bpt_sub_dll(1) [OF h]])
    fix x assume "x \<in> set (leaves_of ts1)"
    then have x: "x \<in> set (addrs_of ts1)" using leaves_of_subset by blast
    then have "x \<notin> set (bp_addrs c)" "x \<noteq> a" using dis by auto
    moreover have "x < brk h" using x by (intro old) auto
    ultimately show "mem h' x = mem h x" using q1 [OF x] by (simp add: fr)
  qed
  have d2: "dll (mem h') (Some (last (leaves_of cs))) ?q (leaves_of ts2) q"
  proof (rule dll_new_prev [OF bpt_sub_dll(3) [OF h]])
    have dl: "distinct (leaves_of ts2)" using dis distinct_leaves distinct_leaves_of [of ts2] by simp
    fix x assume x: "x \<in> set (tl (leaves_of ts2))"
    then have ne: "leaves_of ts2 \<noteq> []" by (metis list.sel(2) empty_iff list.set(1))
    then have "?q \<noteq> Some x" using x dl by (cases "leaves_of ts2") auto
    moreover have "x \<in> set (leaves_of ts2)" using x ne by (metis list.set_sel(2))
    then have "x \<in> set (addrs_of ts2)" using leaves_of_subset [of ts2] by blast
    moreover from this have "x \<notin> set (bp_addrs c)" "x \<noteq> a" "x < brk h" using dis old [of x] by auto
    ultimately show "mem h' x = mem h x" by (simp add: fr)
  next
    fix x y assume x: "leaves_of ts2 \<noteq> []" "x = hd (leaves_of ts2)" "mem h x = Some y"
    then have "x \<in> set (addrs_of ts2)" using leaves_of_subset [of ts2] hd_in_set [OF x(1)] by blast
    then have "x \<notin> set (bp_addrs c)" "x \<noteq> a" "x < brk h" using dis old [of x] by auto
    moreover have "?q = Some x" unfolding x(2) by (rule next_of_ne [OF x(1)])
    ultimately show "mem h' x = Some (y\<lparr>bpt_previous := Some (last (leaves_of cs))\<rparr>)"
      using x(3) fr [of x] by (simp add: relink_def)
  qed
  have l2: "last (leaves ?t) = last (leaves_of ts2)" "last (leaves ?t') = last (leaves_of ts2)" if "leaves_of ts2 \<noteq> []"
    using that by (simp_all add: last_append)
  have F: "mem h' x = relink q (last (leaves ?t')) x (mem h x)" if x: "x < brk h" "x \<notin> set (bp_addrs ?t)" for x
  proof (cases "leaves_of ts2 = []")
    case True
    then have "?q = q" "last (leaves ?t') = last (leaves_of cs)"
      using lcs by (simp_all only: next_of_simps leaves.simps map_append concat_append append_Nil2 last_appendR simp_thms)
    then show ?thesis using fr [of x] x by simp
  next
    case False
    have "hd (leaves_of ts2) \<in> set (addrs_of ts2)"
      using leaves_of_subset [of ts2] hd_in_set [OF False] by blast
    then have "?q \<noteq> Some x" using x(2) next_of_ne [OF False, of q] by auto
    then have "mem h' x = mem h x" using fr [of x] x by simp
    moreover have "relink q (last (leaves ?t')) x (mem h x) = mem h x"
      by (rule relink_same) (use h l2 [OF False] in \<open>simp add: bpt_sub_def\<close>)
    ultimately show ?thesis by simp
  qed
  have dll: "dll (mem h') p (Some (hd (leaves ?t'))) (leaves ?t') q"
  proof -
    have "Some (hd (leaves ?t')) = next_of (leaves_of ts1) (Some (hd (leaves c)))"
      using lcs cs(3) by (cases "leaves_of ts1 = []") (simp_all add: next_of_ne)
    then show ?thesis
      using d1 d2 l cs(3) lcs by (simp add: dll_append next_of_ne prev_of_ne next_of_append prev_of_append del: concat_eq_Nil_conv)
  qed
  have qb: "b \<notin> set (bp_addrs ?t') \<and> (\<exists>n. mem h' b = Some n \<and> bpt_previous n = Some (last (leaves ?t')))"
    if b: "q = Some b" for b
  proof -
    have q: "b < brk h" "b \<notin> set (bp_addrs ?t)" using bpt_sub_q [OF h [unfolded b]] by auto
    moreover have "b \<notin> set (addrs_of cs)" using ad(2) q by auto
    moreover obtain m where "mem h b = Some m" using h b by (auto simp: bpt_sub_def)
    ultimately show ?thesis using F [OF q] b by (auto simp: relink_def)
  qed
  have new: "distinct (bp_addrs ?t')"
  proof -
    have "x \<notin> set (addrs_of cs)" if "x \<in> set (a # addrs_of ts1 @ addrs_of ts2)" for x
    proof -
      have "x \<notin> set (bp_addrs c)" "x < brk h" using that dis old [of x] by auto
      then show ?thesis using ad(2) by fastforce
    qed
    then have "distinct (a # addrs_of ts1 @ addrs_of cs @ addrs_of ts2)"
      using distinct_replace [OF dis ad(1)] by blast
    then show ?thesis by simp
  qed
  have "bpt_tree (mem h') ?t'" using n kids tree by auto
  moreover have "bp_bal (Suc d) ?t'" "bp_min (BPLUSTREE_MIN_DEGREE - 1) ?t'"
    using h kids cs(1) by (auto simp: bpt_sub_def)
  ultimately have "bpt_sub h' (Suc d) ?t' p q" using ok(1) new dll qb unfolding bpt_sub_def by blast
  moreover have "hd (leaves ?t') = hd (leaves ?t)" using lc lcs cs(3) by (cases "leaves_of ts1 = []") simp_all
  moreover have "bp_size ?t \<le> bp_size ?t'" using cs(1) by (cases cs) simp_all
  moreover have "set (bp_addrs ?t') \<subseteq> set (bp_addrs ?t) \<union> {brk h..<brk h'}" using ad(2) by auto
  ultimately show ?thesis using ok(2) F unfolding bpt_step_def by simp
qed

text \<open>A step below one child.\<close>

lemma bpt_inner_cong:
  assumes "bpt_inner n ts" and "seps us = seps ts" and "map bp_addr us = map bp_addr ts"
  shows "bpt_inner n us"
proof -
  have "length us = length ts" using assms(3) by (rule map_eq_imp_length_eq)
  moreover have "map (\<lambda>t. Some (Some (bp_addr t))) us = map (\<lambda>t. Some (Some (bp_addr t))) ts"
    using arg_cong [OF assms(3), of "map (\<lambda>x. Some (Some x))"] by (simp add: comp_def del: map_eq_conv)
  ultimately show ?thesis using assms(1,2) by (simp only: bpt_inner_def)
qed

lemma bpt_inner_kid:
  "bpt_inner n (ts1 @ c # ts2) \<Longrightarrow> bp_addr c' = bp_addr c \<Longrightarrow> ts1 = [] \<or> least_key c' = least_key c \<Longrightarrow>
   bpt_inner n (ts1 @ c' # ts2)"
  by (erule bpt_inner_cong) (simp_all add: seps_same)

lemma bpt_step_kid:
  assumes h: "bpt_sub h (Suc d) (BN a (ts1 @ c # ts2)) p q"
    and st: "bpt_step h c h' c' d (kid_prev p ts1) (kid_next ts2 q)"
    and lk: "ts1 = [] \<or> least_key c' = least_key c"
  shows "bpt_step h (BN a (ts1 @ c # ts2)) h' (BN a (ts1 @ c' # ts2)) (Suc d) p q"
proof -
  have c': "bpt_sub h' d c' (kid_prev p ts1) (kid_next ts2 q)" and ad: "bp_addr c' = bp_addr c"
    and hd: "hd (leaves c') = hd (leaves c)" and sz: "bp_size c \<le> bp_size c'" and br: "brk h \<le> brk h'"
    and sub: "set (bp_addrs c') \<subseteq> set (bp_addrs c) \<union> {brk h..<brk h'}"
    and fr: "\<And>x. x < brk h \<Longrightarrow> x \<notin> set (bp_addrs c) \<Longrightarrow>
        mem h' x = relink (kid_next ts2 q) (last (leaves c')) x (mem h x)"
    using st by (simp_all add: bpt_step_def)
  obtain n where n: "mem h a = Some n" "bpt_inner n (ts1 @ c # ts2)" using h by (auto simp: bpt_sub_def)
  have a: "a < brk h" "a \<notin> set (bp_addrs c)" using bpt_sub_less [OF h] h by (auto simp: bpt_sub_def)
  let ?n = "if kid_next ts2 q = Some a then n\<lparr>bpt_previous := Some (last (leaves c'))\<rparr> else n"
  have 1: "mem h' a = Some ?n" using fr [OF a] n(1) by (simp add: relink_def)
  have 2: "bpt_inner ?n (ts1 @ [c'] @ ts2)" using bpt_inner_kid [OF n(2) ad lk] by simp
  have m: "BPLUSTREE_MIN_DEGREE - 1 \<le> bp_size c'" using h sz by (simp add: bpt_sub_def)
  have "bpt_step h (BN a (ts1 @ c # ts2)) h' (BN a (ts1 @ [c'] @ ts2)) (Suc d) p q"
    using c' ad hd sub fr m br
    by (intro bpt_step_kids [OF h _ _ 1 2]) (simp_all add: bpt_sub_def)
  then show ?thesis by simp
qed

text \<open>Rewriting the entries of a leaf.\<close>

lemma bpt_step_leaf:
  assumes h: "bpt_sub h 0 (BL a es) p q" and n: "mem h a = Some n" "bpt_leaf n' es'"
    and l: "bpt_previous n' = bpt_previous n" "bpt_next n' = bpt_next n" "length es \<le> length es'"
  shows "bpt_step h (BL a es) (h\<lparr>mem := (mem h)(a \<mapsto> n')\<rparr>) (BL a es') 0 p q"
proof -
  have a: "a < brk h" and q: "q \<noteq> Some a" using bpt_sub_less [OF h] bpt_sub_q [of h 0 "BL a es" p] h by auto
  have "es \<noteq> []" using h by (simp add: bpt_sub_def)
  then have "es' \<noteq> []" using l(3) by auto
  moreover have "heap_ok (h\<lparr>mem := (mem h)(a \<mapsto> n')\<rparr>)" using h a by (auto simp: bpt_sub_def intro: heap_ok_upd)
  ultimately have "bpt_sub (h\<lparr>mem := (mem h)(a \<mapsto> n')\<rparr>) 0 (BL a es') p q"
    using h n l q by (auto simp: bpt_sub_def)
  moreover have "relink q a x (mem h x) = mem h x" for x
    by (rule relink_same) (use h in \<open>simp add: bpt_sub_def\<close>)
  ultimately show ?thesis using l(3) by (simp add: bpt_step_def)
qed

section \<open>Updating a key that is present\<close>

lemma bpt_leaf_entries:
  "bpt_leaf n es \<Longrightarrow> length es' = length es \<Longrightarrow> length E = BPLUSTREE_MAX_KEYS \<Longrightarrow>
   take (length es') E = map bpt_slot es' \<Longrightarrow> bpt_leaf (n\<lparr>bpt_entries := E\<rparr>) es'"
  by (simp add: bpt_leaf_def)

lemma bpt_leaf_set_value:
  assumes "bpt_leaf n (es1 @ e # es2)"
  shows "bpt_leaf (n\<lparr>bpt_entries := (bpt_entries n)[length es1 := bpt_slot (fst e, v)]\<rparr>) (es1 @ (fst e, v) # es2)"
proof -
  let ?i = "length es1" and ?es = "es1 @ e # es2"
  have "take (length ?es) ((bpt_entries n)[?i := bpt_slot (fst e, v)]) =
      (map bpt_slot ?es)[?i := bpt_slot (fst e, v)]"
    using assms by (simp only: bpt_leaf_def take_update_swap)
  also have "\<dots> = map bpt_slot (es1 @ (fst e, v) # es2)" by (simp add: list_update_append)
  finally have "take (length (es1 @ (fst e, v) # es2)) ((bpt_entries n)[?i := bpt_slot (fst e, v)]) =
      map bpt_slot (es1 @ (fst e, v) # es2)" by simp
  moreover have "length ((bpt_entries n)[?i := bpt_slot (fst e, v)]) = BPLUSTREE_MAX_KEYS"
    using assms by (simp add: bpt_leaf_def)
  ultimately show ?thesis by (intro bpt_leaf_entries [OF assms]) simp_all
qed

lemma bpt_sub_parts:
  "bpt_sub h d t p q \<Longrightarrow> heap_ok h \<and> bpt_tree (mem h) t \<and> bp_bal d t \<and> bp_min (BPLUSTREE_MIN_DEGREE - 1) t"
  by (simp add: bpt_sub_def)

lemma least_key_upd:
  "content c' = upd_assoc k v (content c) \<Longrightarrow>
   ts1 = [] \<or> fst (hd (upd_assoc k v (content c))) = least_key c \<Longrightarrow> ts1 = [] \<or> least_key c' = least_key c"
  by (auto simp: least_key_def)

lemma bpt_kids:
  assumes "bpt_sub h (Suc d) (BN a ts) p q"
  obtains n where "mem h a = Some n" and "bpt_inner n ts" and "\<forall>t \<in> set ts. content t \<noteq> []"
    and "bpt_is_leaf n = 0"
proof -
  obtain n where n: "mem h a = Some n" "bpt_inner n ts" using assms by (auto simp: bpt_sub_def)
  have "\<forall>t \<in> set ts. bp_min (BPLUSTREE_MIN_DEGREE - 1) t" using assms by (simp add: bpt_sub_def)
  then have "\<forall>t \<in> set ts. content t \<noteq> []" using content_ne by blast
  with n show thesis by (intro that) (auto simp: bpt_inner_def bpt_consts)
qed

lemma bpt_update_if_found_tree:
  assumes v: "fits v"
  shows "bpt_sub h d t p q \<Longrightarrow> sorted_keys (content t) \<Longrightarrow>
   (case map_of (content t) k of
      None \<Rightarrow> bpt_update_if_found h (Some (bp_addr t)) k v = ret (False, h)
    | Some w \<Rightarrow> \<exists>h' t'. bpt_update_if_found h (Some (bp_addr t)) k v = ret (True, h') \<and>
        bpt_step h t h' t' d p q \<and> content t' = upd_assoc k v (content t))"
proof (induction d arbitrary: t p q)
  case 0
  then obtain a es where t: "t = BL a es" using bp_bal_0 bpt_sub_parts by blast
  note h = 0(1) [unfolded t]
  obtain n where n: "mem h a = Some n" "bpt_leaf n es" using bpt_sub_parts [OF h] by auto
  obtain es1 es2 where es: "es = es1 @ es2"
      and f: "bpt_find_index (bpt_entries n) (bpt_nk n) k 0 = ret (length es1)"
      and at: "bpt_key_at n k (length es1) = ret (es2 \<noteq> [] \<and> fst (hd es2) = k)"
      and k: "\<forall>e \<in> set es1. fst e < k" "es2 \<noteq> [] \<Longrightarrow> \<not> fst (hd es2) < k"
    using bpt_leaf_cut [OF n(2), of k] by metis
  have lf: "bpt_is_leaf n \<noteq> 0" using n(2) by (simp add: bpt_leaf_def bpt_consts)
  show ?case
  proof (cases "es2 \<noteq> [] \<and> fst (hd es2) = k")
    case True
    then obtain w es' where e: "es2 = (k, w) # es'" by (cases es2) auto
    let ?n = "n\<lparr>bpt_entries := (bpt_entries n)[length es1 := bpt_slot (k, v)]\<rparr>"
    have so: "sorted_keys (es1 @ (k, w) # es')" using 0(2) t es e by simp
    have "map_of es k = Some w"
      using sorted_keys_distinct [OF so] by (intro map_of_is_SomeI) (simp_all add: es e)
    moreover have "bpt_step h (BL a es) (h\<lparr>mem := (mem h)(a \<mapsto> ?n)\<rparr>) (BL a (es1 @ (k, v) # es')) 0 p q"
      using bpt_leaf_set_value [OF n(2) [unfolded es e]] by (intro bpt_step_leaf [OF h n(1)]) (simp_all add: es e)
    moreover have "bpt_update_if_found h (Some a) k v = ret (True, h\<lparr>mem := (mem h)(a \<mapsto> ?n)\<rparr>)"
      using es e n f at lf v bpt_leaf_get [OF n(2), of "length es1"]
      by (subst bpt_update_if_found.simps) (simp add: bpt_slot_def)
    ultimately show ?thesis using upd_assoc_hit [OF so, of v] unfolding t by (auto simp: es e)
  next
    case False
    have k1: "es1 \<noteq> [] \<Longrightarrow> fst (last es1) < k" using k(1) by simp
    have k2: "es2 \<noteq> [] \<Longrightarrow> k < fst (hd es2)" using k(2) False by fastforce
    have "map_of es k = None" using leaf_miss(1) [OF _ k1 k2] 0(2) t es by simp
    then show ?thesis using t n f at False lf by (subst bpt_update_if_found.simps) auto
  qed
next
  case (Suc d)
  then obtain a ts where t: "t = BN a ts" using bp_bal_Suc bpt_sub_parts by blast
  note h = Suc.prems(1) [unfolded t]
  obtain n where n: "mem h a = Some n" "bpt_inner n ts" and ne: "\<forall>t \<in> set ts. content t \<noteq> []"
      and lf: "bpt_is_leaf n = 0" by (rule bpt_kids [OF h])
  have so: "sorted_keys (contents_of ts)" using Suc.prems(2) t by simp
  obtain ts1 c ts2 i hit where c: "ts = ts1 @ c # ts2"
      and f: "bpt_find_index (bpt_entries n) (bpt_nk n) k 0 = ret i" and at: "bpt_key_at n k i = ret hit"
      and i: "(if hit then i + 1 else i) = length ts1"
      and k: "ts1 \<noteq> [] \<Longrightarrow> least_key c \<le> k" "ts2 \<noteq> [] \<Longrightarrow> k < least_key (hd ts2)"
    using bpt_child_cut [OF n(2) so ne, of k] by metis
  note cut = content_cut [OF so [unfolded c] ne [unfolded c] k]
  have run: "bpt_update_if_found h (Some (bp_addr t)) k v = bpt_update_if_found h (Some (bp_addr c)) k v"
    using t n f at i lf bpt_inner_child [OF n(2) [unfolded c]] by (subst bpt_update_if_found.simps) simp
  note IH = Suc.IH [OF bpt_sub_kid [OF h [unfolded c]] cut(3)]
  have m: "map_of (content t) k = map_of (content c) k" using cut(1) by (simp add: t c)
  show ?case
  proof (cases "map_of (content c) k")
    case None
    then show ?thesis using IH m run by simp
  next
    case (Some w)
    then obtain h' c' where r: "bpt_update_if_found h (Some (bp_addr c)) k v = ret (True, h')"
        "bpt_step h c h' c' d (kid_prev p ts1) (kid_next ts2 q)" "content c' = upd_assoc k v (content c)"
      using IH by auto
    have "bpt_step h t h' (BN a (ts1 @ c' # ts2)) (Suc d) p q"
      using bpt_step_kid [OF h [unfolded c] r(2) least_key_upd [OF r(3) cut(4)]] by (simp add: t c)
    moreover have "content (BN a (ts1 @ c' # ts2)) = upd_assoc k v (content t)"
      using cut(2) [of v] by (simp add: t c r(3))
    ultimately show ?thesis using Some m run r(1) by auto
  qed
qed

section \<open>Splitting a full child\<close>

text \<open>The parent: a separator and a child more.\<close>

lemma bpt_inner_insert:
  assumes p: "bpt_inner p (ts1 @ c # ts2)" and room: "length (ts1 @ c # ts2) < BPLUSTREE_MAX_CHILDREN"
    and ad: "bp_addr l = bp_addr c" "bp_addr r = s" and lk: "ts1 = [] \<or> least_key l = least_key c"
  shows "\<exists>pcs pes. shift_loop (length ts1 + 1) (bpt_nk p - length ts1) (bpt_children p) = ret pcs \<and>
     shift_loop (length ts1) (bpt_nk p - length ts1) (bpt_entries p) = ret pes \<and>
     length pcs = BPLUSTREE_MAX_CHILDREN \<and> length pes = BPLUSTREE_MAX_KEYS \<and>
     (\<forall>e. bpt_key e = Some (least_key r) \<longrightarrow>
        bpt_inner (p\<lparr>bpt_nk := bpt_nk p + 1, bpt_entries := pes[length ts1 := e],
            bpt_children := pcs[length ts1 + 1 := Some (Some s)]\<rparr>) (ts1 @ [l, r] @ ts2))"
proof -
  let ?i = "length ts1" and ?ts = "ts1 @ c # ts2" and ?f = "\<lambda>t. Some (Some (bp_addr t)) :: ptr option"
    and ?E = "bpt_entries p" and ?C = "bpt_children p"
  have nk: "Suc (bpt_nk p) = length ?ts" and le: "length ?E = BPLUSTREE_MAX_KEYS"
    and lc: "length ?C = BPLUSTREE_MAX_CHILDREN" and lf: "bpt_is_leaf p = BPT_LEAF_FALSE"
    and ks: "map bpt_key (take (bpt_nk p) ?E) = map Some (seps ?ts)"
    and tc: "take (length ?ts) ?C = map ?f ?ts"
    using p unfolding bpt_inner_def by blast+
  have e: "bpt_nk p < length ?E" "?i \<le> bpt_nk p" using room le nk by (simp_all add: bpt_consts)
  obtain pes where pes: "shift_loop ?i (bpt_nk p - ?i) ?E = ret pes" "length pes = length ?E"
      "\<forall>x. take (Suc (bpt_nk p)) (pes[?i := x]) = take ?i (take (bpt_nk p) ?E) @ x # drop ?i (take (bpt_nk p) ?E)"
    using shift_insert [OF refl e] by blast
  have c: "length ?ts < length ?C" "?i + 1 \<le> length ?ts" using room lc by simp_all
  obtain pcs where pcs: "shift_loop (?i + 1) (length ?ts - (?i + 1)) ?C = ret pcs" "length pcs = length ?C"
      "\<forall>x. take (Suc (length ?ts)) (pcs[?i + 1 := x]) = take (?i + 1) (map ?f ?ts) @ x # drop (?i + 1) (map ?f ?ts)"
    using shift_insert [OF tc c] by blast
  have "bpt_nk p - ?i = length ?ts - (?i + 1)" using nk by simp
  moreover have "bpt_inner (p\<lparr>bpt_nk := bpt_nk p + 1, bpt_entries := pes[?i := e],
            bpt_children := pcs[?i + 1 := Some (Some s)]\<rparr>) (ts1 @ [l, r] @ ts2)"
    if k: "bpt_key e = Some (least_key r)" for e
  proof -
    have "map bpt_key (take (Suc (bpt_nk p)) (pes[?i := e])) =
        take ?i (map bpt_key (take (bpt_nk p) ?E)) @ Some (least_key r) # drop ?i (map bpt_key (take (bpt_nk p) ?E))"
      by (simp only: pes(3) [rule_format] map_append list.map take_map drop_map k)
    also have "\<dots> = map Some (take ?i (seps ?ts) @ least_key r # drop ?i (seps ?ts))"
      by (simp only: ks map_append list.map take_map drop_map)
    also have "take ?i (seps ?ts) @ least_key r # drop ?i (seps ?ts) = seps (ts1 @ l # r # ts2)"
      by (rule seps_split [OF lk, symmetric])
    finally have s: "map bpt_key (take (Suc (bpt_nk p)) (pes[?i := e])) = map Some (seps (ts1 @ l # r # ts2))" .
    have "take (Suc (length ?ts)) (pcs[?i + 1 := Some (Some s)]) = map ?f (ts1 @ l # r # ts2)"
      unfolding pcs(3) [rule_format] by (simp add: ad)
    moreover have "Suc (length ?ts) = length (ts1 @ l # r # ts2)" by simp
    ultimately have t: "take (length (ts1 @ l # r # ts2)) (pcs[?i + 1 := Some (Some s)]) = map ?f (ts1 @ l # r # ts2)"
      by (simp only:)
    show ?thesis
      using s t nk pes(2) pcs(2) le lc lf room by (simp add: bpt_inner_def)
  qed
  ultimately show ?thesis
    using pes(1,2) pcs(1,2) le lc by (intro exI [of _ pcs] exI [of _ pes]) simp
qed

text \<open>The halves of a full leaf.\<close>

lemma bpt_leaf_left:
  assumes c: "bpt_leaf c (le @ re)"
  shows "bpt_leaf (c\<lparr>bpt_nk := length le\<rparr>) le"
proof -
  have "take (length le + length re) (bpt_entries c) = map bpt_slot le @ map bpt_slot re"
    using c by (simp add: bpt_leaf_def)
  then have "take (length le) (bpt_entries c) = map bpt_slot le" by (rule take_prefix) simp
  then show ?thesis using c by (simp add: bpt_leaf_def)
qed

lemma bpt_leaf_right:
  assumes c: "bpt_leaf c (le @ re)" and l: "length le = BPLUSTREE_MIN_DEGREE - 1" "length re = BPLUSTREE_MIN_DEGREE"
    and sb: "bpt_is_leaf sb = bpt_is_leaf c" "length (bpt_entries sb) = BPLUSTREE_MAX_KEYS"
      "length (bpt_children sb) = BPLUSTREE_MAX_CHILDREN"
  shows "\<exists>ses. copy_loop (bpt_entries c) (BPLUSTREE_MIN_DEGREE - 1) 0 BPLUSTREE_MIN_DEGREE (bpt_entries sb) = ret ses \<and>
     bpt_leaf (sb\<lparr>bpt_nk := BPLUSTREE_MIN_DEGREE, bpt_entries := ses\<rparr>) re"
proof -
  let ?d = "BPLUSTREE_MIN_DEGREE"
  obtain ses where ses: "ses = take ?d (drop (?d - 1) (bpt_entries c)) @ drop ?d (bpt_entries sb)" by blast
  have b: "length (bpt_entries c) = BPLUSTREE_MAX_KEYS" using c by (simp add: bpt_leaf_def)
  have ce: "copy_loop (bpt_entries c) (?d - 1) 0 ?d (bpt_entries sb) = ret ses"
    unfolding ses using b sb by (subst copy_loop_eq) (simp_all add: bpt_consts)
  have "take ((?d - 1) + ?d) (bpt_entries c) = map bpt_slot le @ map bpt_slot re"
    using c l by (simp add: bpt_leaf_def)
  then have "take ?d (drop (?d - 1) (bpt_entries c)) = map bpt_slot re"
    by (rule take_middle) (simp add: l)
  then have "take (length re) ses = map bpt_slot re" "length ses = BPLUSTREE_MAX_KEYS"
    using l b sb by (simp_all add: ses bpt_consts)
  then show ?thesis using ce c sb l by (intro exI [of _ ses]) (simp add: bpt_leaf_def bpt_consts)
qed

text \<open>The halves of a full inner node.\<close>

lemma bpt_inner_halves:
  assumes c: "bpt_inner c (lt @ rt)" and l: "length lt = BPLUSTREE_MIN_DEGREE" "length rt = BPLUSTREE_MIN_DEGREE"
    and sb: "bpt_is_leaf sb = bpt_is_leaf c" "length (bpt_entries sb) = BPLUSTREE_MAX_KEYS"
      "length (bpt_children sb) = BPLUSTREE_MAX_CHILDREN"
  shows "bpt_inner (c\<lparr>bpt_nk := BPLUSTREE_MIN_DEGREE - 1\<rparr>) lt"
    and "\<exists>e. read_arr (bpt_entries c) (BPLUSTREE_MIN_DEGREE - 1) = ret e \<and> bpt_key e = Some (least_key (hd rt))"
    and "\<exists>ses scs. copy_loop (bpt_entries c) BPLUSTREE_MIN_DEGREE 0 (BPLUSTREE_MIN_DEGREE - 1) (bpt_entries sb) = ret ses \<and>
       copy_loop (bpt_children c) BPLUSTREE_MIN_DEGREE 0 BPLUSTREE_MIN_DEGREE (bpt_children sb) = ret scs \<and>
       bpt_inner (sb\<lparr>bpt_nk := BPLUSTREE_MIN_DEGREE - 1, bpt_entries := ses, bpt_children := scs\<rparr>) rt"
proof -
  let ?d = "BPLUSTREE_MIN_DEGREE" and ?f = "\<lambda>t. Some (Some (bp_addr t)) :: ptr option"
    and ?E = "bpt_entries c" and ?C = "bpt_children c"
  have nk: "bpt_nk c = (?d - 1) + Suc (?d - 1)" and lf: "bpt_is_leaf c = BPT_LEAF_FALSE"
    and b: "length ?E = BPLUSTREE_MAX_KEYS" "length ?C = BPLUSTREE_MAX_CHILDREN"
    and tc: "take (?d + ?d) ?C = map ?f lt @ map ?f rt"
    using c l by (auto simp: bpt_inner_def bpt_consts)
  have ne: "lt \<noteq> []" "rt \<noteq> []" using l by (auto simp: bpt_consts)
  have ks: "map bpt_key (take (bpt_nk c) ?E) = map Some (seps lt) @ Some (least_key (hd rt)) # map Some (seps rt)"
    using c seps_append [OF ne] by (simp add: bpt_inner_def)
  have ls: "length (seps lt) = ?d - 1" "length (seps rt) = ?d - 1" using l by simp_all
  have tk: "take ((?d - 1) + Suc (?d - 1)) (map bpt_key ?E) =
      map Some (seps lt) @ Some (least_key (hd rt)) # map Some (seps rt)"
    using ks nk by (simp only: take_map)
  have "take (?d - 1) (map bpt_key ?E) = map Some (seps lt)"
    using tk ls(1) by (metis take_prefix length_map)
  moreover have "take ?d ?C = map ?f lt"
    using tc l(1) by (metis take_prefix length_map)
  ultimately show "bpt_inner (c\<lparr>bpt_nk := ?d - 1\<rparr>) lt"
    using lf b l(1) by (simp add: bpt_inner_def take_map bpt_consts)
  have mid: "take (Suc (?d - 1)) (drop (?d - 1) (map bpt_key ?E)) = Some (least_key (hd rt)) # map Some (seps rt)"
    by (rule take_middle [OF tk]) (simp only: length_map ls)
  then have "map bpt_key ?E ! (?d - 1) = Some (least_key (hd rt))"
    using b by (cases "drop (?d - 1) (map bpt_key ?E)") (auto simp: nth_via_drop)
  then show "\<exists>e. read_arr ?E (?d - 1) = ret e \<and> bpt_key e = Some (least_key (hd rt))"
    using b by (simp add: bpt_consts)
  obtain ses scs where ses: "ses = take (?d - 1) (drop ?d ?E) @ drop (?d - 1) (bpt_entries sb)"
    and scs: "scs = take ?d (drop ?d ?C) @ drop ?d (bpt_children sb)" by blast
  have "copy_loop ?E ?d 0 (?d - 1) (bpt_entries sb) = ret ses"
    unfolding ses using b sb by (subst copy_loop_eq) (simp_all add: bpt_consts)
  moreover have "copy_loop ?C ?d 0 ?d (bpt_children sb) = ret scs"
    unfolding scs using b sb by (subst copy_loop_eq) (simp_all add: bpt_consts)
  moreover have "take (?d - 1) (drop ?d (map bpt_key ?E)) = map Some (seps rt)"
  proof (rule take_middle)
    have "?d + (?d - 1) = (?d - 1) + Suc (?d - 1)" by (simp add: bpt_consts)
    then show "take (?d + (?d - 1)) (map bpt_key ?E) = (map Some (seps lt) @ [Some (least_key (hd rt))]) @ map Some (seps rt)"
      using tk by (simp only: append_assoc append_Cons append_Nil)
    show "length (map Some (seps lt) @ [Some (least_key (hd rt))]) = ?d"
      using ls by (simp add: bpt_consts)
  qed
  then have "map bpt_key (take (?d - 1) ses) = map Some (seps rt)"
    using b by (simp add: ses take_map drop_map bpt_consts)
  moreover have "take ?d scs = map ?f rt"
    using take_middle [OF tc] l b by (simp add: scs bpt_consts)
  moreover have "length ses = BPLUSTREE_MAX_KEYS" "length scs = BPLUSTREE_MAX_CHILDREN"
    using b sb by (simp_all add: ses scs bpt_consts)
  ultimately show "\<exists>ses scs. copy_loop ?E ?d 0 (?d - 1) (bpt_entries sb) = ret ses \<and>
       copy_loop ?C ?d 0 ?d (bpt_children sb) = ret scs \<and>
       bpt_inner (sb\<lparr>bpt_nk := ?d - 1, bpt_entries := ses, bpt_children := scs\<rparr>) rt"
    using lf sb(1) l(2) by (intro exI [of _ ses] exI [of _ scs]) (simp add: bpt_inner_def bpt_consts)
qed

text \<open>Linking the new leaf in after the old one.\<close>

lemma bpt_link_leaf_eq:
  assumes "mem h ca = Some c" and "mem h s = Some sb" and "ca \<noteq> s"
    and nx: "\<And>b. bpt_next c = Some b \<Longrightarrow> b \<noteq> ca \<and> b \<noteq> s \<and> (\<exists>n. mem h b = Some n)"
  shows "bpt_link_leaf (Some ca) (Some s) h = ret (h\<lparr>mem := \<lambda>x.
     if x = s then Some (sb\<lparr>bpt_next := bpt_next c, bpt_previous := Some ca\<rparr>)
     else if x = ca then Some (c\<lparr>bpt_next := Some s\<rparr>) else relink (bpt_next c) s x (mem h x)\<rparr>)"
proof (cases "bpt_next c")
  case None
  then show ?thesis using assms(1-3) by (auto simp: bpt_link_leaf_def relink_def fun_eq_iff)
next
  case (Some b)
  then obtain n where "b \<noteq> ca" "b \<noteq> s" "mem h b = Some n" using nx by blast
  then show ?thesis using assms(1-3) Some by (auto simp: bpt_link_leaf_def relink_def fun_eq_iff)
qed

lemma bpt_kid_next_other:
  assumes h: "bpt_sub h (Suc d) (BN a (ts1 @ c # ts2)) p q"
  shows "kid_next ts2 q \<noteq> Some a"
proof (cases "leaves_of ts2 = []")
  case True
  then have "kid_next ts2 q = q" by (simp only: next_of_simps)
  then show ?thesis using h by (auto simp: bpt_sub_def)
next
  case False
  then have "hd (leaves_of ts2) \<in> set (addrs_of ts2)"
    using leaves_of_subset [of ts2] hd_in_set [OF False] by blast
  then have "hd (leaves_of ts2) \<noteq> a" using h by (auto simp: bpt_sub_def)
  then show ?thesis using next_of_ne [OF False, of q] by simp
qed

text \<open>What a split of the child does to the subtree.\<close>

definition bpt_split_ok ::
  "bplustree_dram_node heap comp \<Rightarrow> bplustree_dram_node heap \<Rightarrow> nat \<Rightarrow> nat \<Rightarrow> bptree list \<Rightarrow> bptree \<Rightarrow>
   bptree list \<Rightarrow> ptr \<Rightarrow> ptr \<Rightarrow> bool" where
  "bpt_split_ok run h d a ts1 c ts2 p q \<longleftrightarrow> (\<exists>h' l r. run = ret h' \<and>
     bpt_step h (BN a (ts1 @ c # ts2)) h' (BN a (ts1 @ [l, r] @ ts2)) d p q \<and>
     content c = content l @ content r \<and> bp_size l < BPLUSTREE_MAX_KEYS \<and> bp_size r < BPLUSTREE_MAX_KEYS)"

lemma bpt_split_leaf_step:
  assumes h: "bpt_sub h (Suc 0) (BN a (ts1 @ BL ca es # ts2)) p q"
    and room: "length (ts1 @ BL ca es # ts2) < BPLUSTREE_MAX_CHILDREN" and full: "length es = BPLUSTREE_MAX_KEYS"
  shows "bpt_split_ok (bpt_split_node (length ts1) (Some a) (Some ca) h) h (Suc 0) a ts1 (BL ca es) ts2 p q"
proof -
  let ?s = "brk h" and ?q = "kid_next ts2 q" and ?d1 = "BPLUSTREE_MIN_DEGREE - 1"
  obtain le re where es: "es = le @ re" and len: "length le = ?d1" "length re = BPLUSTREE_MIN_DEGREE"
    using full by (intro that [of "take ?d1 es" "drop ?d1 es"]) (simp_all add: bpt_consts)
  have lne: "le \<noteq> []" "re \<noteq> []" using len by (auto simp: bpt_consts)
  note kid = bpt_sub_kid [OF h]
  obtain pn where pn: "mem h a = Some pn" "bpt_inner pn (ts1 @ BL ca es # ts2)" using h by (auto simp: bpt_sub_def)
  obtain cn where cn: "mem h ca = Some cn" "bpt_leaf cn (le @ re)" "bpt_previous cn = kid_prev p ts1" "bpt_next cn = ?q"
    using kid by (auto simp: bpt_sub_def es)
  have lt: "ca < ?s" "a < ?s" and ne: "a \<noteq> ca" using bpt_sub_less [OF h] h by (auto simp: bpt_sub_def)
  have lf: "bpt_is_leaf cn = BPT_LEAF_TRUE" using cn(2) by (simp add: bpt_leaf_def)
  let ?sb = "\<lparr>bpt_is_leaf = BPT_LEAF_TRUE, bpt_nk = 0,
      bpt_entries = replicate BPLUSTREE_MAX_KEYS \<lparr>bpt_key = None, bpt_value = None\<rparr>,
      bpt_children = replicate BPLUSTREE_MAX_CHILDREN None, bpt_next = NULL, bpt_previous = NULL\<rparr>"
  obtain ses where ses: "copy_loop (bpt_entries cn) ?d1 0 BPLUSTREE_MIN_DEGREE (bpt_entries ?sb) = ret ses"
      "bpt_leaf (?sb\<lparr>bpt_nk := BPLUSTREE_MIN_DEGREE, bpt_entries := ses\<rparr>) re"
    using bpt_leaf_right [OF cn(2) len, of ?sb] lf by auto
  let ?l = "BL ca le" and ?r = "BL ?s re"
  obtain pcs pes where par:
      "shift_loop (length ts1 + 1) (bpt_nk pn - length ts1) (bpt_children pn) = ret pcs"
      "shift_loop (length ts1) (bpt_nk pn - length ts1) (bpt_entries pn) = ret pes"
      "length pcs = BPLUSTREE_MAX_CHILDREN" "length pes = BPLUSTREE_MAX_KEYS"
      "\<And>e. bpt_key e = Some (least_key ?r) \<Longrightarrow> bpt_inner (pn\<lparr>bpt_nk := bpt_nk pn + 1,
        bpt_entries := pes[length ts1 := e], bpt_children := pcs[length ts1 + 1 := Some (Some ?s)]\<rparr>) (ts1 @ [?l, ?r] @ ts2)"
    using bpt_inner_insert [OF pn(2) room, of ?l ?r ?s] lne es by (auto simp: least_key_def)
  have idx: "length ts1 < BPLUSTREE_MAX_KEYS" "length ts1 + 1 < BPLUSTREE_MAX_CHILDREN"
    using room by (simp_all add: bpt_consts)
  let ?e = "(pes ! length ts1)\<lparr>bpt_key := Some (fst (hd re))\<rparr>"
  let ?pn = "pn\<lparr>bpt_nk := bpt_nk pn + 1, bpt_entries := pes[length ts1 := ?e],
      bpt_children := pcs[length ts1 + 1 := Some (Some ?s)]\<rparr>"
  let ?sn = "?sb\<lparr>bpt_nk := BPLUSTREE_MIN_DEGREE, bpt_entries := ses\<rparr>" and ?cn = "cn\<lparr>bpt_nk := ?d1\<rparr>"
  let ?h1 = "h\<lparr>brk := Suc ?s, mem := (mem h)(?s \<mapsto> ?sn, ca \<mapsto> ?cn, a \<mapsto> ?pn)\<rparr>"
  let ?h2 = "?h1\<lparr>mem := \<lambda>x. if x = ?s then Some (?sn\<lparr>bpt_next := ?q, bpt_previous := Some ca\<rparr>)
     else if x = ca then Some (?cn\<lparr>bpt_next := Some ?s\<rparr>) else relink ?q ?s x (mem ?h1 x)\<rparr>"
  have k0: "bpt_get_key ses 0 = ret (fst (hd re))"
    using bpt_leaf_key [OF ses(2), of 0] lne by (simp add: hd_conv_nth)
  have qa: "b \<noteq> a \<and> b \<noteq> ca \<and> b \<noteq> ?s \<and> (\<exists>n. mem h b = Some n)" if "?q = Some b" for b
    using bpt_kid_next_other [OF h] bpt_sub_q [of h 0 "BL ca es" "kid_prev p ts1" b] kid that
    by (auto simp: bpt_sub_def)
  have cn': "bpt_next ?cn = ?q" using cn(4) by simp
  have "bpt_link_leaf (Some ca) (Some ?s) ?h1 = ret ?h2"
    unfolding cn' [symmetric]
  proof (rule bpt_link_leaf_eq)
    show "mem ?h1 ca = Some ?cn" "mem ?h1 ?s = Some ?sn" "ca \<noteq> ?s" using lt ne by auto
    show "b \<noteq> ca \<and> b \<noteq> ?s \<and> (\<exists>n. mem ?h1 b = Some n)" if "bpt_next ?cn = Some b" for b
      using qa [of b] that cn' by auto
  qed
  moreover have "bpt_split_node (length ts1) (Some a) (Some ca) h = bpt_link_leaf (Some ca) (Some ?s) ?h1"
    using cn(1) pn(1) lt ne lf ses(1) par(1-4) idx k0
    by (simp add: bpt_split_node_def bpt_split_leaf_def bpt_create_node_def malloc_def fun_upd_twist bpt_consts(4))
  moreover have "bpt_step h (BN a (ts1 @ BL ca es # ts2)) ?h2 (BN a (ts1 @ [?l, ?r] @ ts2)) (Suc 0) p q"
  proof (rule bpt_step_kids [OF h])
    have "bpt_leaf ?cn le" using bpt_leaf_left [OF cn(2)] len(1) by simp
    moreover have "bpt_leaf (?sn\<lparr>bpt_next := ?q, bpt_previous := Some ca\<rparr>) re"
      by (simp only: bpt_leaf_previous ses(2))
    ultimately show "\<forall>t \<in> set [?l, ?r]. bpt_tree (mem ?h2) t \<and> bp_bal 0 t \<and> ?d1 \<le> bp_size t \<and> bp_min ?d1 t"
      using lne len lt by auto
    show "mem ?h2 a = Some ?pn" using lt ne qa by (auto simp: relink_def)
    show "bpt_inner ?pn (ts1 @ [?l, ?r] @ ts2)" using par(5) [of ?e] by (simp add: least_key_def)
    show "heap_ok ?h2"
      using h lt qa by (auto simp: bpt_sub_def heap_ok_def relink_def less_Suc_eq split: if_splits)
    show "dll (mem ?h2) (kid_prev p ts1) (Some (hd (leaves (BL ca es)))) (leaves_of [?l, ?r]) ?q"
      using cn(3) lt by simp
    show "mem ?h2 x = relink ?q (last (leaves_of [?l, ?r])) x (mem h x)"
      if "x < brk h" "x \<notin> set (bp_addrs (BL ca es))" "x \<noteq> a" for x using that by simp
  qed (use lt in auto)
  ultimately show ?thesis
    using len es unfolding bpt_split_ok_def
    by (intro exI [of _ ?h2] exI [of _ ?l] exI [of _ ?r]) (simp add: bpt_consts)
qed

lemma bpt_split_inner_step:
  assumes h: "bpt_sub h (Suc (Suc d)) (BN a (ts1 @ BN ca cts # ts2)) p q"
    and room: "length (ts1 @ BN ca cts # ts2) < BPLUSTREE_MAX_CHILDREN" and full: "length cts = BPLUSTREE_MAX_CHILDREN"
  shows "bpt_split_ok (bpt_split_node (length ts1) (Some a) (Some ca) h) h (Suc (Suc d)) a ts1 (BN ca cts) ts2 p q"
proof -
  let ?s = "brk h" and ?q = "kid_next ts2 q" and ?d1 = "BPLUSTREE_MIN_DEGREE - 1" and ?c = "BN ca cts"
  obtain lt rt where cts: "cts = lt @ rt" and len: "length lt = BPLUSTREE_MIN_DEGREE" "length rt = BPLUSTREE_MIN_DEGREE"
    using full
    by (intro that [of "take BPLUSTREE_MIN_DEGREE cts" "drop BPLUSTREE_MIN_DEGREE cts"]) (simp_all add: bpt_consts)
  have lne: "lt \<noteq> []" "rt \<noteq> []" using len by (auto simp: bpt_consts)
  note kid = bpt_sub_kid [OF h]
  obtain pn where pn: "mem h a = Some pn" "bpt_inner pn (ts1 @ ?c # ts2)" using h by (auto simp: bpt_sub_def)
  obtain cn where cn: "mem h ca = Some cn" "bpt_inner cn (lt @ rt)" and ne: "\<forall>t \<in> set cts. content t \<noteq> []"
      and lf: "bpt_is_leaf cn = 0" using bpt_kids [OF kid] unfolding cts by metis
  let ?sb = "\<lparr>bpt_is_leaf = 0, bpt_nk = 0,
      bpt_entries = replicate BPLUSTREE_MAX_KEYS \<lparr>bpt_key = None, bpt_value = None\<rparr>,
      bpt_children = replicate BPLUSTREE_MAX_CHILDREN None, bpt_next = NULL, bpt_previous = NULL\<rparr>"
  note halves = bpt_inner_halves [OF cn(2) len, of ?sb]
  have left: "bpt_inner (cn\<lparr>bpt_nk := ?d1\<rparr>) lt" using halves(1) lf by simp
  obtain e where e: "read_arr (bpt_entries cn) ?d1 = ret e" "bpt_key e = Some (least_key (hd rt))"
    using halves(2) lf by auto
  obtain ses scs where right:
      "copy_loop (bpt_entries cn) BPLUSTREE_MIN_DEGREE 0 ?d1 (bpt_entries ?sb) = ret ses"
      "copy_loop (bpt_children cn) BPLUSTREE_MIN_DEGREE 0 BPLUSTREE_MIN_DEGREE (bpt_children ?sb) = ret scs"
      "bpt_inner (?sb\<lparr>bpt_nk := ?d1, bpt_entries := ses, bpt_children := scs\<rparr>) rt"
    using halves(3) lf by auto
  let ?l = "BN ca lt" and ?r = "BN ?s rt"
  have lk: "ts1 = [] \<or> least_key ?l = least_key ?c"
    using ne lne by (cases lt) (auto simp: least_key_def cts)
  have rk: "least_key ?r = least_key (hd rt)"
    using ne lne(2) by (cases rt) (auto simp: least_key_def cts)
  obtain pcs pes where par:
      "shift_loop (length ts1 + 1) (bpt_nk pn - length ts1) (bpt_children pn) = ret pcs"
      "shift_loop (length ts1) (bpt_nk pn - length ts1) (bpt_entries pn) = ret pes"
      "length pcs = BPLUSTREE_MAX_CHILDREN" "length pes = BPLUSTREE_MAX_KEYS"
      "bpt_inner (pn\<lparr>bpt_nk := bpt_nk pn + 1, bpt_entries := pes[length ts1 := e],
         bpt_children := pcs[length ts1 + 1 := Some (Some ?s)]\<rparr>) (ts1 @ [?l, ?r] @ ts2)"
    using bpt_inner_insert [OF pn(2) room, of ?l ?r ?s] lk e(2) rk by auto
  have idx: "length ts1 < BPLUSTREE_MAX_KEYS" "length ts1 + 1 < BPLUSTREE_MAX_CHILDREN"
    using room by (simp_all add: bpt_consts)
  have lt: "ca < ?s" "a < ?s" and an: "a \<noteq> ca" using bpt_sub_less [OF h] h by (auto simp: bpt_sub_def)
  let ?pn = "pn\<lparr>bpt_nk := bpt_nk pn + 1, bpt_entries := pes[length ts1 := e],
      bpt_children := pcs[length ts1 + 1 := Some (Some ?s)]\<rparr>"
  let ?sn = "?sb\<lparr>bpt_nk := ?d1, bpt_entries := ses, bpt_children := scs\<rparr>" and ?cn = "cn\<lparr>bpt_nk := ?d1\<rparr>"
  let ?h = "h\<lparr>brk := Suc ?s, mem := (mem h)(?s \<mapsto> ?sn, ca \<mapsto> ?cn, a \<mapsto> ?pn)\<rparr>"
  have run: "bpt_split_node (length ts1) (Some a) (Some ca) h = ret ?h"
    using cn(1) pn(1) lt an lf right(1,2) par(1-4) idx e(1)
    by (simp add: bpt_split_node_def bpt_split_inner_def bpt_create_node_def malloc_def fun_upd_twist)
  have dis: "distinct (ca # addrs_of lt @ addrs_of rt)" "a \<notin> set (addrs_of lt @ addrs_of rt)"
    using h by (auto simp: bpt_sub_def cts)
  have same: "mem ?h x = mem h x" if "x \<in> set (addrs_of lt @ addrs_of rt)" for x
  proof -
    have "x < ?s" using bpt_sub_less [OF kid, of x] that by (simp add: cts)
    then show ?thesis using that dis by auto
  qed
  have "bpt_step h (BN a (ts1 @ ?c # ts2)) ?h (BN a (ts1 @ [?l, ?r] @ ts2)) (Suc (Suc d)) p q"
  proof (rule bpt_step_kids [OF h])
    have tree: "bpt_tree (mem ?h) t" if t: "t \<in> set lt \<union> set rt" for t
    proof (rule bpt_tree_agree)
      show "bpt_tree (mem h) t" using kid t by (auto simp: bpt_sub_def cts)
      fix x assume "x \<in> set (bp_addrs t)"
      then have "x \<in> set (addrs_of lt @ addrs_of rt)" using t by auto
      then show "same_node (mem h x) (mem ?h x)" by (simp only: same same_node_refl)
    qed
    show "\<forall>t \<in> set [?l, ?r]. bpt_tree (mem ?h) t \<and> bp_bal (Suc d) t \<and> ?d1 \<le> bp_size t \<and> bp_min ?d1 t"
      using tree left right(3) kid lne len lt an by (auto simp: bpt_sub_def cts)
    show "mem ?h a = Some ?pn" using lt an by simp
    show "bpt_inner ?pn (ts1 @ [?l, ?r] @ ts2)" by (rule par(5))
    show "heap_ok ?h" using h lt by (auto simp: bpt_sub_def heap_ok_def less_Suc_eq)
    have "set (leaves ?l @ leaves ?r) \<subseteq> set (addrs_of lt @ addrs_of rt)"
      using leaves_of_subset [of lt] leaves_of_subset [of rt] by auto
    then have "dll (mem ?h) (kid_prev p ts1) (Some (hd (leaves ?c))) (leaves ?l @ leaves ?r) ?q =
        dll (mem h) (kid_prev p ts1) (Some (hd (leaves ?c))) (leaves ?l @ leaves ?r) ?q"
      by (intro dll_frame same) blast
    then show "dll (mem ?h) (kid_prev p ts1) (Some (hd (leaves ?c))) (leaves_of [?l, ?r]) ?q"
      using kid by (simp add: bpt_sub_def cts)
    show "distinct (addrs_of [?l, ?r])" "set (addrs_of [?l, ?r]) \<subseteq> set (bp_addrs ?c) \<union> {brk h..<brk ?h}"
      using dis(1) bpt_sub_less [OF kid, of ?s] by (auto simp: cts)
    show "mem ?h x = relink ?q (last (leaves_of [?l, ?r])) x (mem h x)"
      if x: "x < brk h" "x \<notin> set (bp_addrs ?c)" "x \<noteq> a" for x
    proof -
      have "relink ?q (last (leaves ?c)) x (mem h x) = mem h x"
        by (rule relink_same) (use kid in \<open>simp add: bpt_sub_def\<close>)
      then show ?thesis using x by (simp add: cts)
    qed
  qed (simp_all add: cts)
  then show ?thesis
    using run len unfolding bpt_split_ok_def
    by (intro exI [of _ ?h] exI [of _ ?l] exI [of _ ?r]) (simp add: bpt_consts cts)
qed

lemma bpt_split_node_step:
  assumes h: "bpt_sub h (Suc d) (BN a (ts1 @ c # ts2)) p q"
    and room: "length (ts1 @ c # ts2) < BPLUSTREE_MAX_CHILDREN" and full: "bp_size c = BPLUSTREE_MAX_KEYS"
  shows "bpt_split_ok (bpt_split_node (length ts1) (Some a) (Some (bp_addr c)) h) h (Suc d) a ts1 c ts2 p q"
proof (cases c)
  case (BL ca es)
  then have "d = 0" using h by (cases d) (auto simp: bpt_sub_def)
  then show ?thesis using bpt_split_leaf_step h room full unfolding BL by simp
next
  case (BN ca cts)
  then obtain d' where "d = Suc d'" using h by (cases d) (auto simp: bpt_sub_def)
  moreover have "length cts = BPLUSTREE_MAX_CHILDREN" using full by (simp add: BN bpt_consts)
  ultimately show ?thesis using bpt_split_inner_step h room unfolding BN by simp
qed

section \<open>Inserting a new key\<close>

lemma bpt_skip_greater_cut:
  assumes n: "bpt_keys n ks"
  shows "i \<le> length ks \<Longrightarrow> \<exists>ks1 ks2. take i ks = ks1 @ ks2 \<and>
     bpt_skip_greater k i (bpt_entries n) = ret (length ks1) \<and>
     (ks1 \<noteq> [] \<longrightarrow> last ks1 \<le> k) \<and> (\<forall>x \<in> set ks2. k < x)"
proof (induction i)
  case (Suc i)
  have i: "i < length ks" using Suc.prems by simp
  note tk = take_Suc_conv_app_nth [OF i]
  have key: "bpt_get_key (bpt_entries n) i = ret (ks ! i)" using n i by (simp add: bpt_keys_def)
  show ?case
  proof (cases "k < ks ! i")
    case True
    obtain ks1 ks2 where "take i ks = ks1 @ ks2" "bpt_skip_greater k i (bpt_entries n) = ret (length ks1)"
        "ks1 \<noteq> [] \<longrightarrow> last ks1 \<le> k" "\<forall>x \<in> set ks2. k < x"
      using Suc by auto
    then show ?thesis using True key tk
      by (intro exI [of _ ks1] exI [of _ "ks2 @ [ks ! i]"]) auto
  next
    case False
    then show ?thesis using key tk i
      by (intro exI [of _ "take (Suc i) ks"] exI [of _ "[]"]) auto
  qed
qed simp

lemma bpt_skip_greater_upd: "i \<le> m \<Longrightarrow> bpt_skip_greater k i (A[m := x]) = bpt_skip_greater k i A"
  by (induction i) (auto simp: bpt_get_key_def read_arr_def intro!: bindC_cong)

lemma bpt_shift_greater_eq:
  "i < length A \<Longrightarrow> bpt_skip_greater k i A = ret j \<Longrightarrow>
   j \<le> i \<and> bpt_shift_greater k i A = bindC (shift_loop j (i - j) A) (\<lambda>A'. ret (j, A'))"
proof (induction i arbitrary: A)
  case (Suc i)
  from Suc.prems(2) obtain x where x: "bpt_get_key A i = ret x" by (auto simp: bindC_eq_ret)
  show ?case
  proof (cases "k < x")
    case True
    let ?A = "A[Suc i := A ! i]"
    have "bpt_skip_greater k i A = ret j" using Suc.prems x True by simp
    then have "bpt_skip_greater k i ?A = ret j" by (simp add: bpt_skip_greater_upd)
    then have IH: "j \<le> i" "bpt_shift_greater k i ?A = bindC (shift_loop j (i - j) ?A) (\<lambda>A'. ret (j, A'))"
      using Suc.IH [of ?A] Suc.prems(1) by simp_all
    then have "Suc i - j = Suc (i - j)" by simp
    then show ?thesis using IH Suc.prems(1) x True by (simp only: shift_loop.simps) simp
  next
    case False
    then have j: "j = Suc i" using Suc.prems x by simp
    show ?thesis unfolding j using False x by simp
  qed
qed simp

text \<open>What \<open>insert_not_full\<close> needs of a subtree, and what it then does.\<close>

definition bpt_ready :: "bplustree_dram_node heap \<Rightarrow> bptree \<Rightarrow> nat \<Rightarrow> u64 \<Rightarrow> ptr \<Rightarrow> ptr \<Rightarrow> bool" where
  "bpt_ready h t d k p q \<longleftrightarrow> bpt_sub h d t p q \<and> sorted_keys (content t) \<and>
     bp_size t < BPLUSTREE_MAX_KEYS \<and> map_of (content t) k = None"

definition bpt_inserted ::
  "bplustree_dram_node heap comp \<Rightarrow> bplustree_dram_node heap \<Rightarrow> bptree \<Rightarrow> nat \<Rightarrow> u64 \<Rightarrow> string \<Rightarrow>
   ptr \<Rightarrow> ptr \<Rightarrow> bool" where
  "bpt_inserted run h t d k v p q \<longleftrightarrow> (\<exists>h' t'. run = ret h' \<and> bpt_step h t h' t' d p q \<and>
     content t' = upd_assoc k v (content t))"

lemma bpt_insert_leaf:
  assumes r: "bpt_ready h (BL a es) 0 k p q" and v: "fits v"
  shows "bpt_inserted (bpt_insert_not_full h (Some a) k v) h (BL a es) 0 k v p q"
proof -
  have h: "bpt_sub h 0 (BL a es) p q" and so: "sorted_keys es" and room: "length es < BPLUSTREE_MAX_KEYS"
    and new: "map_of es k = None" using r by (simp_all add: bpt_ready_def)
  obtain n where n: "mem h a = Some n" "bpt_leaf n es" using bpt_sub_parts [OF h] by auto
  have nk: "bpt_nk n = length es" and ln: "length (bpt_entries n) = BPLUSTREE_MAX_KEYS"
    and te: "take (length es) (bpt_entries n) = map bpt_slot es" and lf: "bpt_is_leaf n \<noteq> 0"
    using n(2) by (simp_all add: bpt_leaf_def bpt_consts)
  obtain ks1 ks2 where ks: "map fst es = ks1 @ ks2"
      and sk: "bpt_skip_greater k (length es) (bpt_entries n) = ret (length ks1)"
      and k: "ks1 \<noteq> [] \<longrightarrow> last ks1 \<le> k" "\<forall>x \<in> set ks2. k < x"
    using bpt_skip_greater_cut [OF bpt_leaf_keys [OF n(2)], of "length es" k] by auto
  obtain es1 es2 where es: "es = es1 @ es2" "map fst es1 = ks1" "map fst es2 = ks2"
    using ks by (auto simp: map_eq_append_conv)
  have len: "length ks1 = length es1" using es(2) by auto
  have "es1 \<noteq> [] \<Longrightarrow> fst (last es1) \<noteq> k"
    using new es by (auto simp: map_of_eq_None_iff map_add_def split: option.splits)
  then have k1: "es1 \<noteq> [] \<Longrightarrow> fst (last es1) < k"
    using k(1) es(2) by (metis last_map map_is_Nil_conv order_le_imp_less_or_eq)
  have k2: "es2 \<noteq> [] \<Longrightarrow> k < fst (hd es2)" using k(2) es(3) by (metis hd_in_set hd_map map_is_Nil_conv)
  have up: "upd_assoc k v es = es1 @ (k, v) # es2"
    using leaf_miss(2) [OF so [unfolded es(1)] k1 k2] unfolding es(1) by simp
  have lt: "length es < length (bpt_entries n)" "length es1 \<le> length es" using room ln es by simp_all
  obtain es' where sh: "shift_loop (length es1) (length es - length es1) (bpt_entries n) = ret es'"
      "length es' = length (bpt_entries n)"
      "\<forall>x. take (Suc (length es)) (es'[length es1 := x]) =
        take (length es1) (map bpt_slot es) @ x # drop (length es1) (map bpt_slot es)"
    using shift_insert [OF te lt] by blast
  have gr: "bpt_shift_greater k (bpt_nk n) (bpt_entries n) = ret (length es1, es')"
    using bpt_shift_greater_eq [OF lt(1) sk] sh(1) nk len by simp
  let ?n = "n\<lparr>bpt_entries := es'[length es1 := bpt_slot (k, v)], bpt_nk := bpt_nk n + 1\<rparr>"
  have "bpt_leaf ?n (es1 @ (k, v) # es2)"
    using n(2) sh(2,3) nk ln room es(1) by (simp add: bpt_leaf_def)
  then have "bpt_step h (BL a es) (h\<lparr>mem := (mem h)(a \<mapsto> ?n)\<rparr>) (BL a (upd_assoc k v es)) 0 p q"
    using es(1) up by (intro bpt_step_leaf [OF h n(1)]) simp_all
  moreover have "bpt_insert_not_full h (Some a) k v = ret (h\<lparr>mem := (mem h)(a \<mapsto> ?n)\<rparr>)"
    using n(1) v gr sh(2) lt ln lf by (subst bpt_insert_not_full.simps) (simp add: bpt_slot_def)
  ultimately show ?thesis unfolding bpt_inserted_def by fastforce
qed

text \<open>Insertion into one child, seen at its parent.\<close>

lemma bpt_insert_child:
  assumes IH: "\<And>h t p q. bpt_ready h t d k p q \<Longrightarrow>
      bpt_inserted (bpt_insert_not_full h (Some (bp_addr t)) k v) h t d k v p q"
    and r: "bpt_sub h (Suc d) (BN a (ts1 @ c # ts2)) p q" "sorted_keys (contents_of (ts1 @ c # ts2))"
      "map_of (contents_of (ts1 @ c # ts2)) k = None"
    and k: "ts1 \<noteq> [] \<Longrightarrow> least_key c \<le> k" "ts2 \<noteq> [] \<Longrightarrow> k < least_key (hd ts2)"
    and room: "bp_size c < BPLUSTREE_MAX_KEYS"
  shows "bpt_inserted (bpt_insert_not_full h (Some (bp_addr c)) k v) h (BN a (ts1 @ c # ts2)) (Suc d) k v p q"
proof -
  have ne: "\<forall>t \<in> set (ts1 @ c # ts2). content t \<noteq> []" using bpt_kids [OF r(1)] by metis
  note cut = content_cut [OF r(2) ne k]
  have "bpt_ready h c d k (kid_prev p ts1) (kid_next ts2 q)"
    using bpt_sub_kid [OF r(1)] cut(1,3) r(3) room by (simp add: bpt_ready_def)
  from IH [OF this] obtain h' c' where
      1: "bpt_insert_not_full h (Some (bp_addr c)) k v = ret h'" "bpt_step h c h' c' d (kid_prev p ts1) (kid_next ts2 q)"
      "content c' = upd_assoc k v (content c)"
    unfolding bpt_inserted_def by blast
  have "bpt_step h (BN a (ts1 @ c # ts2)) h' (BN a (ts1 @ c' # ts2)) (Suc d) p q"
    by (rule bpt_step_kid [OF r(1) 1(2) least_key_upd [OF 1(3) cut(4)]])
  moreover have "content (BN a (ts1 @ c' # ts2)) = upd_assoc k v (content (BN a (ts1 @ c # ts2)))"
    using cut(2) [of v] by (simp add: 1(3))
  ultimately show ?thesis using 1(1) unfolding bpt_inserted_def by blast
qed

text \<open>An insertion after a split: the parent has a key more.\<close>

definition bpt_grown ::
  "bplustree_dram_node heap comp \<Rightarrow> bplustree_dram_node heap \<Rightarrow> bptree \<Rightarrow> nat \<Rightarrow> u64 \<Rightarrow> string \<Rightarrow>
   ptr \<Rightarrow> ptr \<Rightarrow> bool" where
  "bpt_grown run h t d k v p q \<longleftrightarrow> (\<exists>h' t'. run = ret h' \<and> bpt_step h t h' t' d p q \<and>
     content t' = upd_assoc k v (content t) \<and> bp_size t < bp_size t')"

lemma bpt_grownI:
  assumes 1: "bpt_step h t h1 t1 d p q" "content t1 = content t" "bp_size t < bp_size t1"
    and 2: "bpt_inserted run h1 t1 d k v p q"
  shows "bpt_grown run h t d k v p q"
proof -
  obtain h' t' where r: "run = ret h'" "bpt_step h1 t1 h' t' d p q" "content t' = upd_assoc k v (content t1)"
    using 2 unfolding bpt_inserted_def by blast
  moreover have "bp_size t1 \<le> bp_size t'" using r(2) by (simp add: bpt_step_def)
  ultimately show ?thesis using bpt_step_trans [OF 1(1) r(2)] 1(2,3) unfolding bpt_grown_def by auto
qed

lemma bpt_grown_inserted: "bpt_grown run h t d k v p q \<Longrightarrow> bpt_inserted run h t d k v p q"
  unfolding bpt_grown_def bpt_inserted_def by blast

lemma seps_nth: "Suc i < length ts \<Longrightarrow> seps ts ! i = least_key (ts ! Suc i)"
  by (simp add: seps_def nth_tl)

text \<open>Choosing the half of a split child.\<close>

lemma bpt_insert_half:
  assumes IH: "\<And>h t p q. bpt_ready h t d k p q \<Longrightarrow>
      bpt_inserted (bpt_insert_not_full h (Some (bp_addr t)) k v) h t d k v p q"
    and sp: "bpt_split_ok run h (Suc d) a ts1 c ts2 p q"
    and so: "sorted_keys (contents_of (ts1 @ c # ts2))" and new: "map_of (contents_of (ts1 @ c # ts2)) k = None"
    and k: "ts1 \<noteq> [] \<Longrightarrow> least_key c \<le> k" "ts2 \<noteq> [] \<Longrightarrow> k < least_key (hd ts2)"
  shows "bpt_grown (bindC run (\<lambda>h. bindC (load h (Some a)) (\<lambda>n. bindC (bpt_get_key (bpt_entries n) (length ts1)) (\<lambda>s.
      bindC (read_slot (bpt_children n) (if s < k then length ts1 + 1 else length ts1)) (\<lambda>c.
        bpt_insert_not_full h c k v))))) h (BN a (ts1 @ c # ts2)) (Suc d) k v p q"
proof -
  obtain h1 l r where run: "run = ret h1"
      and st: "bpt_step h (BN a (ts1 @ c # ts2)) h1 (BN a (ts1 @ [l, r] @ ts2)) (Suc d) p q"
      and co: "content c = content l @ content r"
      and sz: "bp_size l < BPLUSTREE_MAX_KEYS" "bp_size r < BPLUSTREE_MAX_KEYS"
    using sp unfolding bpt_split_ok_def by blast
  let ?ts = "ts1 @ [l, r] @ ts2"
  have cs: "contents_of ?ts = contents_of (ts1 @ c # ts2)" by (simp add: co)
  have h1: "bpt_sub h1 (Suc d) (BN a ?ts) p q" using st by (simp add: bpt_step_def)
  note so' = so [folded cs] and new' = new [folded cs]
  obtain n where n: "mem h1 a = Some n" "bpt_inner n ?ts" and ne: "\<forall>t \<in> set ?ts. content t \<noteq> []"
    using bpt_kids [OF h1] by metis
  have sep: "bpt_get_key (bpt_entries n) (length ts1) = ret (least_key r)"
    using bpt_inner_key [OF n(2), of "length ts1"] by (simp add: seps_nth nth_append)
  have lk: "least_key l = least_key c" using ne by (simp add: least_key_def co)
  have "least_key r \<in> fst ` set (contents_of ?ts)" using least_key_in [of r] ne by auto
  then have rk: "least_key r \<noteq> k" using new' by (auto simp: map_of_eq_None_iff)
  note grown = bpt_grownI [OF st]
  show ?thesis
  proof (cases "least_key r < k")
    case True
    have e: "?ts = (ts1 @ [l]) @ r # ts2" by simp
    have "bpt_inserted (bpt_insert_not_full h1 (Some (bp_addr r)) k v) h1 (BN a ?ts) (Suc d) k v p q"
      unfolding e by (rule bpt_insert_child [OF IH h1 [unfolded e] so' [unfolded e] new' [unfolded e] _ k(2) sz(2)])
        (use True in auto)
    moreover have "read_slot (bpt_children n) (length ts1 + 1) = ret (Some (bp_addr r))"
      using bpt_inner_child [OF n(2) [unfolded e]] by simp
    ultimately show ?thesis using True run n(1) sep grown cs by simp
  next
    case False
    have e: "?ts = ts1 @ l # r # ts2" by simp
    have "bpt_inserted (bpt_insert_not_full h1 (Some (bp_addr l)) k v) h1 (BN a ?ts) (Suc d) k v p q"
      unfolding e by (rule bpt_insert_child [OF IH h1 [unfolded e] so' [unfolded e] new' [unfolded e] _ _ sz(1)])
        (use False rk k(1) lk in auto)
    moreover have "read_slot (bpt_children n) (length ts1) = ret (Some (bp_addr l))"
      using bpt_inner_child [OF n(2) [unfolded e]] by simp
    ultimately show ?thesis using False run n(1) sep grown cs by simp
  qed
qed

lemma bpt_insert_not_full_tree:
  assumes v: "fits v"
  shows "bpt_ready h t d k p q \<Longrightarrow> bpt_inserted (bpt_insert_not_full h (Some (bp_addr t)) k v) h t d k v p q"
proof (induction d arbitrary: h t p q)
  case 0
  then obtain a es where t: "t = BL a es" using bp_bal_0 bpt_sub_parts unfolding bpt_ready_def by blast
  show ?case using bpt_insert_leaf [OF _ v] 0 unfolding t by simp
next
  case (Suc d)
  then obtain a ts where t: "t = BN a ts" using bp_bal_Suc bpt_sub_parts unfolding bpt_ready_def by blast
  have h: "bpt_sub h (Suc d) (BN a ts) p q" and so: "sorted_keys (contents_of ts)"
    and room: "length ts < BPLUSTREE_MAX_CHILDREN" and new: "map_of (contents_of ts) k = None"
    using Suc.prems by (auto simp: bpt_ready_def t bpt_consts)
  obtain n where n: "mem h a = Some n" "bpt_inner n ts" and lf: "bpt_is_leaf n = 0"
    using bpt_kids [OF h] by metis
  have ts: "ts \<noteq> []" and nk: "bpt_nk n = length (seps ts)" using n(2) by (auto simp: bpt_inner_def)
  have nk': "bpt_nk n \<le> length (seps ts)" "take (bpt_nk n) (seps ts) = seps ts" using nk by simp_all
  obtain ks1 ks2 where ks: "seps ts = ks1 @ ks2"
      and sk: "bpt_skip_greater k (bpt_nk n) (bpt_entries n) = ret (length ks1)"
      and k: "ks1 \<noteq> [] \<longrightarrow> last ks1 \<le> k" "\<forall>x \<in> set ks2. k < x"
    using bpt_skip_greater_cut [OF bpt_inner_keys [OF n(2)] nk'(1), of k] unfolding nk'(2) by blast
  obtain ts1 c ts2 where c: "ts = ts1 @ c # ts2" "length ts1 = length ks1"
      "ts1 \<noteq> [] \<Longrightarrow> least_key c = last ks1" "ts2 \<noteq> [] \<Longrightarrow> least_key (hd ts2) = hd ks2"
      "length ts2 = length ks2"
    using seps_at [OF ts ks] by metis
  have k1: "least_key c \<le> k" if "ts1 \<noteq> []"
  proof -
    have "ks1 \<noteq> []" using that c(2) by auto
    then show ?thesis using k(1) c(3) that by simp
  qed
  have k2: "k < least_key (hd ts2)" if "ts2 \<noteq> []"
  proof -
    have "ks2 \<noteq> []" using that c(5) by auto
    then show ?thesis using k(2) c(4) that by simp
  qed
  note h = h [unfolded c(1)] and so = so [unfolded c(1)] and new = new [unfolded c(1)]
    and room = room [unfolded c(1)] and child = bpt_inner_child [OF n(2) [unfolded c(1)]]
  obtain cn where cn: "mem h (bp_addr c) = Some cn" "bpt_nk cn = bp_size c" "bp_size c \<le> BPLUSTREE_MAX_KEYS"
    using bpt_sub_parts [OF bpt_sub_kid [OF h]]
    by (cases c) (auto simp: bpt_leaf_def bpt_inner_def bpt_consts)
  have run: "bpt_insert_not_full h (Some (bp_addr t)) k v =
     (if bp_size c = BPLUSTREE_MAX_KEYS
      then bindC (bpt_split_node (length ts1) (Some a) (Some (bp_addr c)) h) (\<lambda>h. bindC (load h (Some a)) (\<lambda>n.
           bindC (bpt_get_key (bpt_entries n) (length ts1)) (\<lambda>s.
           bindC (read_slot (bpt_children n) (if s < k then length ts1 + 1 else length ts1)) (\<lambda>c.
             bpt_insert_not_full h c k v))))
      else bpt_insert_not_full h (Some (bp_addr c)) k v)"
    using t n(1) sk [folded c(2)] cn child lf
    by (subst bpt_insert_not_full.simps) (simp add: bpt_is_node_full_def)
  show ?case
  proof (cases "bp_size c = BPLUSTREE_MAX_KEYS")
    case True
    show ?thesis
      using bpt_grown_inserted [OF bpt_insert_half [OF Suc.IH bpt_split_node_step [OF h room True] so new k1 k2]] True
      unfolding run unfolding t c(1) by simp
  next
    case False
    then have "bp_size c < BPLUSTREE_MAX_KEYS" using cn(3) by simp
    from bpt_insert_child [OF Suc.IH h so new k1 k2 this] False show ?thesis
      unfolding run unfolding t c(1) by simp
  qed
qed

section \<open>The tree as a store\<close>

definition bpt_inv :: "bplustree_dram \<Rightarrow> nat \<Rightarrow> bptree \<Rightarrow> bool" where
  "bpt_inv s d t \<longleftrightarrow> bpt_root s = Some (bp_addr t) \<and> bpt_sub (bpt_heap s) d t NULL NULL \<and>
     sorted_keys (content t) \<and> 1 \<le> bp_size t"

definition bpt_rep :: "bplustree_dram \<Rightarrow> kv_map \<Rightarrow> bool" where
  "bpt_rep s m \<longleftrightarrow> (bpt_root s = NULL \<and> heap_ok (bpt_heap s) \<and> m = Map.empty) \<or>
     (\<exists>d t. bpt_inv s d t \<and> m = map_of (content t))"

lemma bpt_insert_empty:
  assumes "bpt_root s = NULL" and ok: "heap_ok (bpt_heap s)" and "fits v"
  shows "\<exists>s' t. bpt_insert s k v = ret (1, s') \<and> bpt_inv s' 0 t \<and> content t = [(k, v)]"
proof -
  let ?b = "brk (bpt_heap s)"
  let ?n = "\<lparr>bpt_is_leaf = BPT_LEAF_TRUE, bpt_nk = 1,
      bpt_entries = (replicate BPLUSTREE_MAX_KEYS \<lparr>bpt_key = None, bpt_value = None\<rparr>)[0 := bpt_slot (k, v)],
      bpt_children = replicate BPLUSTREE_MAX_CHILDREN None, bpt_next = NULL, bpt_previous = NULL\<rparr>"
  let ?s = "s\<lparr>bpt_heap := (bpt_heap s)\<lparr>mem := (mem (bpt_heap s))(?b \<mapsto> ?n), brk := Suc ?b\<rparr>,
      bpt_root := Some ?b\<rparr>"
  have "bpt_insert s k v = ret (1, ?s)"
    using assms by (simp add: bpt_insert_def bpt_create_node_def malloc_def bpt_slot_def bpt_consts)
  moreover have "bpt_leaf ?n [(k, v)]"
    by (simp add: bpt_leaf_def bpt_consts take_replicate_upd)
  then have "bpt_inv ?s 0 (BL ?b [(k, v)])"
    using ok by (simp add: bpt_inv_def bpt_sub_def)
  ultimately show ?thesis by (intro exI [of _ ?s] exI [of _ "BL ?b [(k, v)]"]) simp
qed

text \<open>Growing the tree: the full root becomes the only child of a new root, which is then split.\<close>

lemma bpt_grow:
  assumes sub: "bpt_sub h d t NULL NULL" and full: "bp_size t = BPLUSTREE_MAX_KEYS"
  defines "n \<equiv> \<lparr>bpt_is_leaf = BPT_LEAF_FALSE, bpt_nk = 0,
      bpt_entries = replicate BPLUSTREE_MAX_KEYS \<lparr>bpt_key = None, bpt_value = None\<rparr>,
      bpt_children = (replicate BPLUSTREE_MAX_CHILDREN None)[0 := Some (Some (bp_addr t))],
      bpt_next = NULL, bpt_previous = NULL\<rparr>"
  defines "h' \<equiv> h\<lparr>brk := Suc (brk h), mem := (mem h)(brk h \<mapsto> n)\<rparr>"
  shows "bpt_sub h' (Suc d) (BN (brk h) [t]) NULL NULL"
proof -
  have "bpt_inner n [t]" by (simp add: n_def bpt_inner_def bpt_consts take_replicate_upd)
  moreover have b: "brk h \<notin> set (bp_addrs t)" using bpt_sub_less [OF sub, of "brk h"] by auto
  moreover have same: "mem h' x = mem h x" if "x \<in> set (bp_addrs t)" for x
    using that b by (auto simp: h'_def)
  have "bpt_tree (mem h') t"
    by (rule bpt_tree_agree [of t "mem h"]) (use sub same in \<open>simp_all add: bpt_sub_def\<close>)
  moreover have "dll (mem h') NULL (Some (hd (leaves t))) (leaves t) NULL =
      dll (mem h) NULL (Some (hd (leaves t))) (leaves t) NULL"
    by (intro dll_frame same) (use leaves_subset [of t] in blast)
  ultimately show ?thesis
    using sub full by (auto simp: bpt_sub_def h'_def bpt_consts heap_ok_def less_Suc_eq)
qed

lemma bpt_insert_nonempty:
  assumes inv: "bpt_inv s d t" and v: "fits v"
  shows "\<exists>s' d' t'. bpt_insert s k v = ret (1, s') \<and> bpt_inv s' d' t' \<and> content t' = upd_assoc k v (content t)"
proof -
  let ?h = "bpt_heap s"
  have r: "bpt_root s = Some (bp_addr t)" and sub: "bpt_sub ?h d t NULL NULL"
    and so: "sorted_keys (content t)" and ne: "1 \<le> bp_size t"
    using inv by (auto simp: bpt_inv_def)
  obtain n where n: "mem ?h (bp_addr t) = Some n" "bpt_nk n = bp_size t" "bp_size t \<le> BPLUSTREE_MAX_KEYS"
    using bpt_sub_parts [OF sub] by (cases t) (auto simp: bpt_leaf_def bpt_inner_def bpt_consts)
  show ?thesis
  proof (cases "map_of (content t) k")
    case (Some w)
    then obtain h' t' where 1: "bpt_update_if_found ?h (Some (bp_addr t)) k v = ret (True, h')"
        "bpt_step ?h t h' t' d NULL NULL" "content t' = upd_assoc k v (content t)"
      using bpt_update_if_found_tree [OF v sub so, of k] by auto
    then have "bpt_insert s k v = ret (1, s\<lparr>bpt_heap := h'\<rparr>)" using r by (simp add: bpt_insert_def)
    moreover have "bpt_inv (s\<lparr>bpt_heap := h'\<rparr>) d t'"
      using 1(2,3) so ne r by (simp add: bpt_inv_def bpt_step_def)
    ultimately show ?thesis using 1(3) by blast
  next
    case None
    then have nf: "bpt_update_if_found ?h (Some (bp_addr t)) k v = ret (False, ?h)"
      using bpt_update_if_found_tree [OF v sub so, of k] by simp
    show ?thesis
    proof (cases "bp_size t = BPLUSTREE_MAX_KEYS")
      case True
      let ?b = "brk ?h"
      let ?n = "\<lparr>bpt_is_leaf = BPT_LEAF_FALSE, bpt_nk = 0,
          bpt_entries = replicate BPLUSTREE_MAX_KEYS \<lparr>bpt_key = None, bpt_value = None\<rparr>,
          bpt_children = (replicate BPLUSTREE_MAX_CHILDREN None)[0 := Some (Some (bp_addr t))],
          bpt_next = NULL, bpt_previous = NULL\<rparr>"
      let ?h0 = "?h\<lparr>brk := Suc ?b, mem := (mem ?h)(?b \<mapsto> ?n)\<rparr>" and ?t0 = "BN ?b ([] @ t # [])"
      let ?run = "bindC (bpt_split_node (length ([] :: bptree list)) (Some ?b) (Some (bp_addr t)) ?h0) (\<lambda>h.
        bindC (load h (Some ?b)) (\<lambda>n. bindC (bpt_get_key (bpt_entries n) (length ([] :: bptree list))) (\<lambda>s.
        bindC (read_slot (bpt_children n) (if s < k then length ([] :: bptree list) + 1 else length ([] :: bptree list)))
          (\<lambda>c. bpt_insert_not_full h c k v))))"
      have g: "bpt_sub ?h0 (Suc d) ?t0 NULL NULL" using bpt_grow [OF sub True] by simp
      have sp: "bpt_split_ok (bpt_split_node (length ([] :: bptree list)) (Some ?b) (Some (bp_addr t)) ?h0)
          ?h0 (Suc d) ?b [] t [] NULL NULL"
        by (rule bpt_split_node_step [OF g _ True]) (simp add: bpt_consts)
      have "bpt_grown ?run ?h0 ?t0 (Suc d) k v NULL NULL"
        by (rule bpt_insert_half [OF _ sp]) (use so None bpt_insert_not_full_tree [OF v] in simp_all)
      then obtain h' t' where 1: "?run = ret h'" "bpt_step ?h0 ?t0 h' t' (Suc d) NULL NULL"
          "content t' = upd_assoc k v (content t)" "0 < bp_size t'"
        unfolding bpt_grown_def by auto
      have "bpt_insert s k v = bindC ?run (\<lambda>h. ret (1, s\<lparr>bpt_heap := h, bpt_root := Some ?b\<rparr>))"
        using r nf n(1,2) True
        by (simp add: bpt_insert_def bpt_is_node_full_def bpt_create_node_def malloc_def bindC_assoc bpt_consts
            cong: if_cong)
      then have "bpt_insert s k v = ret (1, s\<lparr>bpt_heap := h', bpt_root := Some ?b\<rparr>)" using 1(1) by simp
      moreover have "bpt_inv (s\<lparr>bpt_heap := h', bpt_root := Some ?b\<rparr>) (Suc d) t'"
        using 1(2-4) so by (simp add: bpt_inv_def bpt_step_def)
      ultimately show ?thesis using 1(3) by blast
    next
      case False
      then have "bpt_ready ?h t d k NULL NULL" using sub so None n(3) by (simp add: bpt_ready_def)
      from bpt_insert_not_full_tree [OF v this] obtain h' t' where
          1: "bpt_insert_not_full ?h (Some (bp_addr t)) k v = ret h'"
          "bpt_step ?h t h' t' d NULL NULL" "content t' = upd_assoc k v (content t)"
        unfolding bpt_inserted_def by blast
      then have "bpt_insert s k v = ret (1, s\<lparr>bpt_heap := h'\<rparr>)"
        using r nf n(1,2) False by (simp add: bpt_insert_def bpt_is_node_full_def)
      moreover have "bpt_inv (s\<lparr>bpt_heap := h'\<rparr>) d t'"
        using 1(2,3) so ne r by (simp add: bpt_inv_def bpt_step_def)
      ultimately show ?thesis using 1(3) by blast
    qed
  qed
qed

lemma bpt_rep_nonempty:
  assumes "bpt_rep s m" and "m \<noteq> Map.empty"
  obtains d t where "bpt_inv s d t" and "m = map_of (content t)"
  using assms by (auto simp: bpt_rep_def)

lemma bpt_read_present: "bpt_rep s m \<Longrightarrow> m k = Some v \<Longrightarrow> bpt_read s k r = ret (1, StrP v)"
proof -
  assume rep: "bpt_rep s m" and k: "m k = Some v"
  then have "m \<noteq> Map.empty" by auto
  with rep obtain d t where i: "bpt_inv s d t" and m: "m = map_of (content t)" by (rule bpt_rep_nonempty)
  have "bpt_search (bpt_heap s) (Some (bp_addr t)) k =
      ret (case map_of (content t) k of None \<Rightarrow> NullP | Some v \<Rightarrow> StrP v)"
    by (rule bpt_search_tree [where d = d and m = "BPLUSTREE_MIN_DEGREE - 1"])
      (use i in \<open>simp_all add: bpt_inv_def bpt_sub_def\<close>)
  then show ?thesis using i k m by (simp add: bpt_read_def bpt_check_def bpt_inv_def)
qed

lemma bpt_insert_ok:
  assumes "bpt_rep s m" and "fits v"
  shows "\<exists>s'. bpt_insert s k v = ret (1, s') \<and> bpt_rep s' (m(k \<mapsto> v))"
proof (cases "bpt_root s = NULL")
  case True
  with assms(1) have m: "m = Map.empty" "heap_ok (bpt_heap s)" by (auto simp: bpt_rep_def bpt_inv_def)
  with bpt_insert_empty [OF True m(2) assms(2), of k] obtain s' t where
      "bpt_insert s k v = ret (1, s')" "bpt_inv s' 0 t" "content t = [(k, v)]" by blast
  moreover from this(3) have "m(k \<mapsto> v) = map_of (content t)" using m by (simp add: fun_eq_iff)
  ultimately show ?thesis unfolding bpt_rep_def by blast
next
  case False
  with assms(1) obtain d t where i: "bpt_inv s d t" and m: "m = map_of (content t)"
    by (auto simp: bpt_rep_def)
  obtain s' d' t' where "bpt_insert s k v = ret (1, s')" "bpt_inv s' d' t'"
      "content t' = upd_assoc k v (content t)"
    using bpt_insert_nonempty [OF i assms(2)] by blast
  moreover from this(3) have "m(k \<mapsto> v) = map_of (content t')" by (simp add: m)
  ultimately show ?thesis unfolding bpt_rep_def by blast
qed

lemma bpt_update_ok:
  assumes "bpt_rep s m" and "m k = Some w" and "fits v"
  shows "\<exists>s'. bpt_update s k v = ret (1, s') \<and> bpt_rep s' (m(k \<mapsto> v))"
proof -
  have "bpt_root s \<noteq> NULL" using assms(1,2) by (auto simp: bpt_rep_def bpt_inv_def)
  then show ?thesis using bpt_insert_ok [OF assms(1,3)] by (simp add: bpt_update_def bpt_check_def)
qed

lemma bpt_scan_inv:
  assumes "bpt_inv s d t" and "len \<noteq> 0"
  shows "bpt_scan s k len res = ret (1, res @ rows (scan_prefix len (filter (\<lambda>e. k \<le> fst e) (content t))))"
proof (rule bpt_scan_tree)
  show "bpt_tree (mem (bpt_heap s)) t" "bp_bal d t" "bp_min (BPLUSTREE_MIN_DEGREE - 1) t" "sorted_keys (content t)"
    "bpt_root s = Some (bp_addr t)" "dll (mem (bpt_heap s)) NULL (Some (hd (leaves t))) (leaves t) NULL"
    using assms(1) by (simp_all add: bpt_inv_def bpt_sub_def)
qed (rule assms(2))

lemma bpt_rep_scan:
  assumes "bpt_rep s m" and "m \<noteq> Map.empty" and "len \<noteq> 0"
  shows "\<exists>xs. is_range m k xs \<and> bpt_scan s k len res = ret (1, res @ rows (scan_prefix len xs))"
proof -
  obtain d t where i: "bpt_inv s d t" and m: "m = map_of (content t)"
    using assms(1,2) by (rule bpt_rep_nonempty)
  then have "is_range m k (filter (\<lambda>e. k \<le> fst e) (content t))"
    by (simp add: filter_range bpt_inv_def)
  then show ?thesis using bpt_scan_inv [OF i assms(3)] by blast
qed

lemma bpt_rep_init: "bpt_rep bpt_init Map.empty"
  by (simp add: bpt_rep_def bpt_init_def)

interpretation bpt: scan_store bpt_ops bpt_rep "\<lambda>_. True"
  by unfold_locales
     (simp_all add: bpt_ops_def bpt_read_present bpt_insert_ok bpt_update_ok bpt_rep_scan)

section \<open>Destruction\<close>

text \<open>
  The leaves are freed from left to right, so the leaf being freed is always the first of the chain;
  unlinking it only clears the back link of its successor.
\<close>

definition unlink :: "ptr \<Rightarrow> nat \<Rightarrow> bplustree_dram_node option \<Rightarrow> bplustree_dram_node option" where
  "unlink q a x = (if q = Some a then map_option (\<lambda>n. n\<lparr>bpt_previous := NULL\<rparr>) x else x)"

lemma unlink_other [simp]: "q \<noteq> Some a \<Longrightarrow> unlink q a x = x"
  by (simp add: unlink_def)

lemma unlink_None [simp]: "unlink q a None = None"
  by (simp add: unlink_def)

lemma same_node_unlink [simp]: "same_node x (unlink q a x)"
  by (cases "q = Some a") (auto simp: unlink_def same_node_def)

lemma bpt_free_leaf_eq:
  assumes "mem h a = Some n" and "bpt_previous n = NULL"
    and nx: "\<And>b. bpt_next n = Some b \<Longrightarrow> b \<noteq> a \<and> (\<exists>m. mem h b = Some m)"
  shows "bpt_free_leaf (Some a) h = ret (h\<lparr>mem := \<lambda>x. if x = a then None else unlink (bpt_next n) x (mem h x)\<rparr>)"
proof (cases "bpt_next n")
  case None
  then show ?thesis using assms(1,2) by (auto simp: bpt_free_leaf_def unlink_def fun_eq_iff)
next
  case (Some b)
  then obtain m where "b \<noteq> a" "mem h b = Some m" using nx by blast
  then show ?thesis using assms(1,2) Some by (auto simp: bpt_free_leaf_def unlink_def fun_eq_iff)
qed

text \<open>Freeing any leaf of a doubly linked chain leaves the others linked.\<close>

definition relinked :: "ptr \<Rightarrow> ptr \<Rightarrow> (nat \<rightharpoonup> bplustree_dram_node) \<Rightarrow> nat \<rightharpoonup> bplustree_dram_node" where
  "relinked p q M x =
     (if q = Some x then map_option (\<lambda>n. n\<lparr>bpt_previous := p\<rparr>) (M x)
      else if p = Some x then map_option (\<lambda>n. n\<lparr>bpt_next := q\<rparr>) (M x) else M x)"

lemma dll_new_next:
  assumes d: "dll M p s as (Some a)" and "distinct as"
    and e: "\<And>b n. as \<noteq> [] \<Longrightarrow> b = last as \<Longrightarrow> M b = Some n \<Longrightarrow> M' b = Some (n\<lparr>bpt_next := q\<rparr>)"
    and f: "\<And>b. b \<in> set (butlast as) \<Longrightarrow> M' b = M b"
  shows "dll M' p (next_of as q) as q"
proof (cases as rule: rev_cases)
  case (snoc bs b)
  have "dll M p s bs (Some b)" and "dll M (prev_of p bs) (Some b) [b] (Some a)"
    using d unfolding snoc dll_append by simp_all
  then obtain n where n: "M b = Some n" "bpt_previous n = prev_of p bs" by auto
  have "M' b = Some (n\<lparr>bpt_next := q\<rparr>)" by (rule e) (simp_all add: snoc n)
  moreover have "dll M' p s bs (Some b)" using \<open>dll M p s bs (Some b)\<close> f by (subst dll_frame [of bs M' M]) (simp_all add: snoc)
  moreover have "s = next_of as q" using dll_start [OF d] by (simp add: snoc next_of_def)
  ultimately show ?thesis using n unfolding snoc dll_append by simp
qed simp

lemma bpt_free_leaf_relinked:
  assumes n: "mem h a = Some n" "bpt_previous n = p" "bpt_next n = q" and "q = NULL \<or> q \<noteq> p"
    and "q \<noteq> Some a" and "p \<noteq> Some a"
    and q: "\<And>b. q = Some b \<Longrightarrow> \<exists>x. mem h b = Some x" and p: "\<And>b. p = Some b \<Longrightarrow> \<exists>x. mem h b = Some x"
  shows "bpt_free_leaf (Some a) h = ret (h\<lparr>mem := (relinked p q (mem h))(a := None)\<rparr>)"
proof (cases p)
  case None
  then show ?thesis
    using n q assms(5) by (cases q) (force simp: bpt_free_leaf_def relinked_def fun_eq_iff)+
next
  case (Some b)
  obtain x where x: "mem h b = Some x" using p Some by blast
  show ?thesis
  proof (cases q)
    case None
    have "b \<noteq> a" using assms(6) Some by simp
    have "(relinked p q (mem h))(a := None) = (mem h)(b \<mapsto> x\<lparr>bpt_next := NULL\<rparr>, a := None)"
      using x Some None by (auto simp: relinked_def fun_eq_iff)
    then show ?thesis using n x Some None \<open>b \<noteq> a\<close> by (simp add: bpt_free_leaf_def)
  next
    case (Some c)
    obtain y where y: "mem h c = Some y" using q Some by blast
    have "b \<noteq> a" "c \<noteq> a" "b \<noteq> c" using assms(4-6) Some \<open>p = Some b\<close> by auto
    moreover from this have "(relinked p q (mem h))(a := None) =
        (mem h)(c \<mapsto> y\<lparr>bpt_previous := Some b\<rparr>, b \<mapsto> x\<lparr>bpt_next := Some c\<rparr>, a := None)"
      using x y Some \<open>p = Some b\<close> by (auto simp: relinked_def fun_eq_iff)
    ultimately show ?thesis using n x y Some \<open>p = Some b\<close> by (simp add: bpt_free_leaf_def)
  qed
qed

lemma bpt_free_leaf_dll:
  assumes d: "dll (mem h) NULL s (as @ a # bs) NULL" and dis: "distinct (as @ a # bs)"
  shows "\<exists>h'. bpt_free_leaf (Some a) h = ret h' \<and> mem h' a = None \<and>
    dll (mem h') NULL (next_of (as @ bs) NULL) (as @ bs) NULL"
proof -
  let ?p = "prev_of NULL as" and ?q = "next_of bs NULL"
  have l: "dll (mem h) NULL s as (Some a)" and r: "dll (mem h) ?p (Some a) (a # bs) NULL"
    using d unfolding dll_append by simp_all
  then obtain n where n: "mem h a = Some n" "bpt_previous n = ?p" "dll (mem h) (Some a) (bpt_next n) bs NULL"
    by auto
  then have nq: "bpt_next n = ?q" using dll_start by blast
  have qa: "?q \<noteq> Some a" "?p \<noteq> Some a" "?q = NULL \<or> ?q \<noteq> ?p"
    using dis by (auto simp: next_of_def prev_of_def split: if_splits) (metis disjoint_iff last_in_set list.set_intros(1) hd_in_set)+
  have q: "\<exists>x. mem h b = Some x" if "?q = Some b" for b
    using that n(3) by (cases bs) (auto simp: nq)
  have p: "\<exists>x. mem h b = Some x" if "?p = Some b" for b
  proof (cases as rule: rev_cases)
    case (snoc cs c)
    then show ?thesis using l that by (auto simp: dll_append prev_of_def)
  qed (use that in simp)
  let ?M = "(relinked ?p ?q (mem h))(a := None)"
  have run: "bpt_free_leaf (Some a) h = ret (h\<lparr>mem := ?M\<rparr>)"
  proof (rule bpt_free_leaf_relinked [OF n(1,2) nq])
    show "?q = NULL \<or> ?q \<noteq> ?p" by (rule qa)
  qed (use qa p q in auto)
  have "dll ?M NULL (next_of as ?q) as ?q"
  proof (rule dll_new_next [OF l])
    show "?M b = Some (m\<lparr>bpt_next := ?q\<rparr>)" if "as \<noteq> []" "b = last as" "mem h b = Some m" for b m
      using that qa by (auto simp: relinked_def prev_of_def)
    show "?M b = mem h b" if "b \<in> set (butlast as)" for b
    proof -
      have "as = butlast as @ [last as]" using that by (cases as) auto
      then have "b \<noteq> last as" "b \<in> set as" using dis that by (metis distinct_append disjoint_iff list.set_intros(1)) (metis in_set_butlastD that)
      moreover have "b \<notin> set bs" "b \<noteq> a" using dis calculation(2) by auto
      ultimately show ?thesis using that by (auto simp: relinked_def prev_of_def next_of_def)
    qed
  qed (use dis in simp)
  moreover have "dll ?M ?p ?q bs NULL"
  proof (rule dll_new_prev)
    show "dll (mem h) (Some a) ?q bs NULL" using n(3) nq by simp
    show "?M b = Some (m\<lparr>bpt_previous := ?p\<rparr>)" if "bs \<noteq> []" "b = hd bs" "mem h b = Some m" for b m
      using that qa by (auto simp: relinked_def next_of_def)
    show "?M b = mem h b" if "b \<in> set (tl bs)" for b
    proof -
      have "b \<in> set bs" "b \<noteq> hd bs" using dis that by (cases bs; auto)+
      moreover have "b \<notin> set as" "b \<noteq> a" using dis calculation(1) by auto
      ultimately show ?thesis by (auto simp: relinked_def prev_of_def next_of_def)
    qed
  qed
  moreover have "next_of as ?q = next_of (as @ bs) NULL" by (simp add: next_of_def)
  ultimately have "dll ?M NULL (next_of (as @ bs) NULL) (as @ bs) NULL" unfolding dll_append by simp
  with run show ?thesis by (intro exI [of _ "h\<lparr>mem := ?M\<rparr>"]) simp
qed

lemma bpt_sub_unlinked:
  assumes h: "bpt_sub h d t p q" and g: "heap_ok g"
    and eq: "\<And>x. x \<in> set (bp_addrs t) \<Longrightarrow> mem g x = unlink (Some (hd (leaves t))) x (mem h x)"
    and q: "\<And>b. q = Some b \<Longrightarrow> mem g b = mem h b"
  shows "bpt_sub g d t NULL q"
proof -
  have ne: "leaves t \<noteq> []" by (rule bpt_sub_leaves [OF h])
  have dl: "distinct (leaves t)" using h by (simp add: bpt_sub_def distinct_leaves)
  have "bpt_tree (mem g) t"
    by (rule bpt_tree_agree [of t "mem h"]) (use h eq in \<open>simp_all add: bpt_sub_def\<close>)
  moreover have "dll (mem g) NULL (Some (hd (leaves t))) (leaves t) q"
  proof (rule dll_new_prev)
    show "dll (mem h) p (Some (hd (leaves t))) (leaves t) q" using h by (simp add: bpt_sub_def)
    show "mem g x = Some (n\<lparr>bpt_previous := NULL\<rparr>)" if "x = hd (leaves t)" "mem h x = Some n" for x n
      using eq [of x] leaves_subset [of t] hd_in_set [OF ne] that by (auto simp: unlink_def)
    show "mem g x = mem h x" if "x \<in> set (tl (leaves t))" for x
    proof -
      have "x \<noteq> hd (leaves t)" "x \<in> set (leaves t)" using that dl ne by (cases "leaves t"; auto)+
      then show ?thesis using eq [of x] leaves_subset [of t] by auto
    qed
  qed
  ultimately show ?thesis using h g q by (auto simp: bpt_sub_def)
qed

lemma bpt_kid_next_notin:
  assumes h: "bpt_sub h (Suc d) (BN a (ts1 @ c # ts2)) p q" and b: "kid_next ts2 q = Some b"
  shows "b \<notin> set (a # addrs_of ts1 @ bp_addrs c)"
proof (cases "leaves_of ts2 = []")
  case True
  then have "q = Some b" using b by (simp only: next_of_simps)
  then show ?thesis using h by (auto simp: bpt_sub_def)
next
  case False
  then have "b \<in> set (addrs_of ts2)"
    using leaves_of_subset [of ts2] hd_in_set [OF False] next_of_ne [OF False, of q] b by auto
  moreover have "distinct (a # addrs_of ts1 @ bp_addrs c @ addrs_of ts2)" using h by (simp add: bpt_sub_def)
  ultimately show ?thesis by (auto simp del: set_concat)
qed

text \<open>One round of the loop over the children.\<close>

lemma bpt_free_kid:
  assumes IH: "\<And>t h q. bpt_sub h d t NULL q \<Longrightarrow> bpt_recursive_free (Some (bp_addr t)) h =
       ret (h\<lparr>mem := \<lambda>x. if x \<in> set (bp_addrs t) then None else unlink q x (mem h x)\<rparr>)"
    and h: "bpt_sub h (Suc d) (BN a (ts1 @ c # ts2)) NULL q"
    and g: "g = h\<lparr>mem := \<lambda>x. if x \<in> set (addrs_of ts1) then None else unlink (kid_next (c # ts2) q) x (mem h x)\<rparr>"
  shows "bpt_recursive_free (Some (bp_addr c)) g = ret (h\<lparr>mem := \<lambda>x. if x \<in> set (addrs_of (ts1 @ [c])) then None
      else unlink (kid_next ts2 q) x (mem h x)\<rparr>)"
    and "mem g a = mem h a"
proof -
  have lc: "leaves c \<noteq> []" by (rule bpt_kid_leaves [OF h])
  have hc: "hd (leaves c) \<in> set (bp_addrs c)" using leaves_subset [of c] hd_in_set [OF lc] by blast
  have first: "kid_next (c # ts2) q = Some (hd (leaves c))" using lc by (simp add: next_of_ne)
  have dis: "distinct (a # addrs_of ts1 @ bp_addrs c @ addrs_of ts2)" using h by (simp add: bpt_sub_def)
  have "hd (leaves c) \<noteq> a" using dis hc by auto
  then show "mem g a = mem h a" using dis unfolding g first by (simp del: set_concat)
  have notin: "x \<notin> set (addrs_of ts1)" if "x \<in> set (bp_addrs c)" for x
    using dis that by (auto simp del: set_concat)
  have "bpt_sub g d c NULL (kid_next ts2 q)"
  proof (rule bpt_sub_unlinked [OF bpt_sub_kid [OF h]])
    have "mem h x \<noteq> None" if "mem g x \<noteq> None" for x
      using that unfolding g by (auto simp: unlink_def split: if_splits)
    then show "heap_ok g" using h unfolding bpt_sub_def heap_ok_def g by (fastforce simp: dom_def)
    show "mem g x = unlink (Some (hd (leaves c))) x (mem h x)" if "x \<in> set (bp_addrs c)" for x
      using notin [OF that] unfolding g first by simp
    show "mem g b = mem h b" if "kid_next ts2 q = Some b" for b
    proof -
      have b: "b \<notin> set (addrs_of ts1)" "b \<noteq> hd (leaves c)" using bpt_kid_next_notin [OF h that] hc by auto
      then show ?thesis unfolding g first by (simp del: set_concat)
    qed
  qed
  note IH [OF this]
  moreover have "(if x \<in> set (bp_addrs c) then None else unlink (kid_next ts2 q) x (mem g x)) =
      (if x \<in> set (addrs_of (ts1 @ [c])) then None else unlink (kid_next ts2 q) x (mem h x))" for x
  proof (cases "x \<in> set (addrs_of ts1) \<or> x \<in> set (bp_addrs c)")
    case True
    then show ?thesis unfolding g by (auto simp del: set_concat)
  next
    case False
    then have "hd (leaves c) \<noteq> x" using hc by auto
    then show ?thesis using False unfolding g first by (simp del: set_concat)
  qed
  moreover have "g\<lparr>mem := M\<rparr> = h\<lparr>mem := M\<rparr>" for M by (simp add: g)
  ultimately show "bpt_recursive_free (Some (bp_addr c)) g = ret (h\<lparr>mem := \<lambda>x. if x \<in> set (addrs_of (ts1 @ [c])) then None
      else unlink (kid_next ts2 q) x (mem h x)\<rparr>)"
    by (simp only:)
qed

lemma bpt_recursive_free_tree:
  "bpt_sub h d t NULL q \<Longrightarrow> bpt_recursive_free (Some (bp_addr t)) h =
     ret (h\<lparr>mem := \<lambda>x. if x \<in> set (bp_addrs t) then None else unlink q x (mem h x)\<rparr>)"
proof (induction d arbitrary: t h q)
  case 0
  then obtain a es where t: "t = BL a es" using bp_bal_0 bpt_sub_parts by blast
  obtain n where n: "mem h a = Some n" "bpt_leaf n es" "bpt_previous n = NULL" "bpt_next n = q"
    using 0 by (auto simp: t bpt_sub_def)
  have "bpt_free_leaf (Some a) h = ret (h\<lparr>mem := \<lambda>x. if x = a then None else unlink (bpt_next n) x (mem h x)\<rparr>)"
    using 0 n(4) by (intro bpt_free_leaf_eq [OF n(1,3)]) (auto simp: t bpt_sub_def)
  moreover have "bpt_is_leaf n \<noteq> 0" using n(2) by (simp add: bpt_leaf_def bpt_consts)
  ultimately show ?case unfolding n(4) [symmetric] using n(1) by (subst bpt_recursive_free.simps) (simp add: t)
next
  case (Suc d)
  then obtain a ts where t: "t = BN a ts" using bp_bal_Suc bpt_sub_parts by blast
  note h = Suc.prems [unfolded t]
  obtain n where n: "mem h a = Some n" "bpt_inner n ts" and lf: "bpt_is_leaf n = 0"
    using bpt_kids [OF h] by metis
  have nk: "bpt_nk n + 1 = length ts" using n(2) by (simp add: bpt_inner_def)
  have dis: "distinct (a # addrs_of ts)" using h by (simp add: bpt_sub_def)
  have lq: "leaves_of ts \<noteq> []" "hd (leaves_of ts) \<in> set (addrs_of ts)"
  proof -
    show ne: "leaves_of ts \<noteq> []" using bpt_sub_leaves [OF h] by simp
    show "hd (leaves_of ts) \<in> set (addrs_of ts)" using leaves_of_subset [of ts] hd_in_set [OF ne] by blast
  qed
  let ?body = "\<lambda>i h. bindC (load h (Some a)) (\<lambda>n. bindC (read_slot (bpt_children n) i) (\<lambda>c. bpt_recursive_free c h))"
  let ?P = "\<lambda>i g. g = h\<lparr>mem := \<lambda>x. if x \<in> set (addrs_of (take i ts)) then None
      else unlink (kid_next (drop i ts) q) x (mem h x)\<rparr>"
  have "\<exists>g'. for_loop 0 (length ts) ?body h = ret g' \<and> ?P (0 + length ts) g'"
  proof (rule for_loop_inv)
    have "unlink (Some (hd (leaves_of ts))) x (mem h x) = mem h x" for x
      using dll_hd [of "mem h" NULL _ "leaves_of ts" q] h lq(1) by (fastforce simp: unlink_def bpt_sub_def)
    then show "?P 0 h" using lq(1) by (simp add: next_of_ne)
    fix j g assume j: "j < 0 + length ts" and P: "?P j g"
    obtain ts1 c ts2 where c: "ts = ts1 @ c # ts2" "length ts1 = j"
      using j id_take_nth_drop [of j ts] by (metis add_0 length_take min.absorb4)
    have g: "g = h\<lparr>mem := \<lambda>x. if x \<in> set (addrs_of ts1) then None else unlink (kid_next (c # ts2) q) x (mem h x)\<rparr>"
    proof -
      have "take j ts = ts1" "drop j ts = c # ts2" using c by auto
      then show ?thesis using P by (simp only:)
    qed
    note kid = bpt_free_kid [OF Suc.IH h [unfolded c(1)] g]
    have "?body j g = ret (h\<lparr>mem := \<lambda>x. if x \<in> set (addrs_of (ts1 @ [c])) then None
        else unlink (kid_next ts2 q) x (mem h x)\<rparr>)"
      using kid n(1) bpt_inner_child [OF n(2) [unfolded c(1)]] c(2) by simp
    moreover have "take (Suc j) ts = ts1 @ [c]" "drop (Suc j) ts = ts2" using c by auto
    ultimately show "\<exists>g'. ?body j g = ret g' \<and> ?P (Suc j) g'" by (simp only:) blast
  qed
  then have run: "for_loop 0 (bpt_nk n + 1) ?body h =
      ret (h\<lparr>mem := \<lambda>x. if x \<in> set (addrs_of ts) then None else unlink q x (mem h x)\<rparr>)"
    unfolding nk by (simp cong: if_cong del: set_concat)
  have "q \<noteq> Some a" "a \<notin> set (addrs_of ts)" using h by (auto simp: bpt_sub_def)
  then show ?case
    using n(1) lf run by (subst bpt_recursive_free.simps) (auto simp: t fun_eq_iff simp del: set_concat)
qed

lemma bpt_destroy_inv:
  assumes "bpt_inv s d t"
  shows "\<exists>s'. bpt_destroy s = ret s' \<and> bpt_root s' = NULL \<and>
     mem (bpt_heap s') = mem (bpt_heap s) |` (- set (bp_addrs t))"
  using assms bpt_recursive_free_tree [of "bpt_heap s" d t NULL]
  by (auto simp: bpt_inv_def bpt_destroy_def bpt_check_def restrict_map_def fun_eq_iff)

lemma bpt_inv_free_leaf:
  assumes "bpt_inv s d t" and "leaves t = as @ a # bs"
  shows "\<exists>h. bpt_free_leaf (Some a) (bpt_heap s) = ret h \<and> mem h a = None \<and>
    dll (mem h) NULL (next_of (as @ bs) NULL) (as @ bs) NULL"
proof (rule bpt_free_leaf_dll)
  have b: "bpt_sub (bpt_heap s) d t NULL NULL" using assms(1) by (simp add: bpt_inv_def)
  then have "dll (mem (bpt_heap s)) NULL (Some (hd (leaves t))) (leaves t) NULL" by (simp add: bpt_sub_def)
  then show "dll (mem (bpt_heap s)) NULL (Some (hd (leaves t))) (as @ a # bs) NULL" by (simp only: assms(2))
  have "distinct (leaves t)" using b by (simp add: bpt_sub_def distinct_leaves)
  then show "distinct (as @ a # bs)" by (simp only: assms(2))
qed

section \<open>Properties\<close>

text \<open>
  C4: an insertion keeps the B+ tree invariant (all leaves at one depth, at least
  \<open>BPLUSTREE_MIN_DEGREE - 1\<close> and at most \<open>BPLUSTREE_MAX_KEYS\<close> keys in every node but the root, each
  separator the least key of the subtree to its right, keys in order, no node shared, the leaves
  doubly linked from left to right) and the content of the leaves is the old one with the key set to
  the value.
\<close>

theorem bpt_insert_keeps_invariant:
  "bpt_inv s d t \<Longrightarrow> fits v \<Longrightarrow>
   \<exists>s' d' t'. bpt_insert s k v = ret (1, s') \<and> bpt_inv s' d' t' \<and> content t' = upd_assoc k v (content t)"
  by (rule bpt_insert_nonempty)

theorem bpt_insert_keeps_invariant_witness:
  "\<exists>s s' d t. bpt_insert bpt_init 5 ''x'' = ret (1, s) \<and> bpt_insert s 2 ''y'' = ret (1, s') \<and>
     bpt_inv s' d t \<and> content t = [(2, ''y''), (5, ''x'')]"
proof -
  obtain s t where s: "bpt_insert bpt_init 5 ''x'' = ret (1, s)" "bpt_inv s 0 t" "content t = [(5, ''x'')]"
    using bpt_insert_empty [of bpt_init "''x''" 5]
    by (auto simp: bpt_init_def fits_def DEFAULT_VALUE_LEN_def)
  show ?thesis
    using bpt_insert_keeps_invariant [OF s(2), of "''y''" 2] s
    by (fastforce simp: fits_def DEFAULT_VALUE_LEN_def)
qed

text \<open>
  C6: from the empty tree, any valid sequence of database calls gives the results of a map, and
  the heap then holds a B+ tree with that content.
\<close>

theorem bpt_refines_map:
  "valid_run (\<lambda>_. True) upsert Map.empty cs \<Longrightarrow>
   \<exists>s'. db_run bpt_ops bpt_init cs = ret (fst (spec_run upsert Map.empty cs), s') \<and>
     bpt_rep s' (snd (spec_run upsert Map.empty cs))"
  by (rule bpt.db_run_refines [OF bpt_rep_init])

theorem bpt_refines_map_witness:
  "\<exists>s'. db_run bpt_ops bpt_init
      [DBInsert 3 [(''field'', ''a'')], DBInsert 1 [(''field'', ''b'')], DBUpdate 3 [(''field'', ''c'')],
       DBRead 3, DBRead 1] =
      ret ([RDone 0, RDone 0, RDone 0, RRead 0 [(3, ''c'')], RRead 0 [(1, ''b'')]], s')"
  using bpt_refines_map [of "[DBInsert 3 [(''field'', ''a'')], DBInsert 1 [(''field'', ''b'')],
      DBUpdate 3 [(''field'', ''c'')], DBRead 3, DBRead 1]"]
  by (auto simp: fits_def DEFAULT_VALUE_LEN_def c_str_def kOK_def)

text \<open>
  C17: a scan of a non-empty B+ tree descends to one leaf and follows the links from it: it appends,
  one entry per row and in key order, the entries with keys from the given one on, the first \<open>len\<close>
  of them, and all of them when \<open>len\<close> is negative. (For \<open>len = 0\<close> the result depends on whether the
  first leaf has such an entry.)
\<close>

theorem bpt_scan_range:
  "bpt_rep s m \<Longrightarrow> m \<noteq> Map.empty \<Longrightarrow> len \<noteq> 0 \<Longrightarrow>
   \<exists>xs. sorted_keys xs \<and> map_of xs = m |` {k..} \<and>
     bpt_scan s k len res = ret (1, res @ map (\<lambda>x. [x]) (if 1 \<le> len then take (nat len) xs else xs))"
  using bpt_rep_scan [of s m len k res] by (auto simp: is_range_def scan_prefix_def)

theorem bpt_scan_range_witness:
  "\<exists>s xs. bpt_insert bpt_init 5 ''x'' = ret (1, s) \<and> map_of xs = [5 \<mapsto> ''x''] |` {3..} \<and>
     bpt_scan s 3 1 [] = ret (1, map (\<lambda>x. [x]) (take 1 xs))"
proof -
  obtain s where s: "bpt_insert bpt_init 5 ''x'' = ret (1, s)" "bpt_rep s [5 \<mapsto> ''x'']"
    using bpt_insert_ok [OF bpt_rep_init, of "''x''" 5] by (auto simp: fits_def DEFAULT_VALUE_LEN_def)
  obtain xs where "map_of xs = [5 \<mapsto> ''x''] |` {3..}"
      "bpt_scan s 3 1 [] = ret (1, [] @ map (\<lambda>x. [x]) (if 1 \<le> (1 :: int) then take (nat 1) xs else xs))"
    using bpt_scan_range [OF s(2), of 1 3 "[]"] by auto
  with s(1) show ?thesis by (intro exI [of _ s] exI [of _ xs]) simp
qed

text \<open>
  C36: destroying a non-empty tree frees each of its nodes exactly once and nothing else, and leaves
  the root null. The call that frees a leaf unlinks it first: made on any leaf of the tree, it leaves
  the remaining leaves doubly linked in their order.
\<close>

theorem bpt_destroy_frees:
  "bpt_inv s d t \<Longrightarrow>
   (\<exists>s'. bpt_destroy s = ret s' \<and> bpt_root s' = NULL \<and>
      mem (bpt_heap s') = mem (bpt_heap s) |` (- set (bp_addrs t))) \<and>
   (\<forall>as a bs. leaves t = as @ a # bs \<longrightarrow>
      (\<exists>h. bpt_free_leaf (Some a) (bpt_heap s) = ret h \<and> mem h a = None \<and>
         dll (mem h) NULL (next_of (as @ bs) NULL) (as @ bs) NULL))"
  using bpt_destroy_inv [of s d t] bpt_inv_free_leaf [of s d t] by blast

theorem bpt_destroy_frees_witness:
  "\<exists>s s' a h. bpt_insert bpt_init 5 ''x'' = ret (1, s) \<and> bpt_destroy s = ret s' \<and> bpt_root s' = NULL \<and>
     bpt_free_leaf (Some a) (bpt_heap s) = ret h \<and> mem h a = None"
proof -
  obtain s t where s: "bpt_insert bpt_init 5 ''x'' = ret (1, s)" "bpt_inv s 0 t"
    using bpt_insert_empty [of bpt_init "''x''" 5]
    by (auto simp: bpt_init_def fits_def DEFAULT_VALUE_LEN_def)
  then have "leaves t \<noteq> []" using bpt_sub_leaves by (auto simp: bpt_inv_def)
  then obtain a bs where "leaves t = [] @ a # bs" by (cases "leaves t") auto
  with bpt_destroy_frees [OF s(2)] s(1) show ?thesis by blast
qed

end
