(* ===== verification/Locked_Trees.thy ===== *)
theory Locked_Trees
  imports Lock_Code B_Tree B_Plus_Update RB_Tree
begin

text \<open>
  The locked variants of the B-tree, the B+ tree and the red-black tree, from
  \<^verbatim>\<open>*_dram_concurrent_lock.cc\<close> (a read-write lock) and \<^verbatim>\<open>*_dram_concurrent_mlock.cc\<close> (a mutex). The
  two files of a store differ in the calls that take the lock for reading, which is the argument
  \<open>md\<close>. A statement here is one call of the tree code (a search, an update in place, a descent with
  its splits, a repair of colours). A read returns the pointer its search gives: \<open>*_locate\<close> is the
  search with that result, \<open>*_value\<close> what is at an address. The argument \<open>b\<close> of the invariants says that the tree is not
  empty, which the tests before the lock call need.
\<close>

section \<open>B-tree\<close>

text \<open>The methods of \<open>BTreeDramConcurrentLock\<close>; with a mutex, reads take the lock exclusively too.\<close>

definition bt_conc_init :: "int \<Rightarrow> (int \<times> btree_dram locked) comp" where
  "bt_conc_init rc = bindC (lock_init rc) (\<lambda>_. ret (1, \<lparr>inner = bt_init, lock_live = True\<rparr>))"

text \<open>What follows the lock call, whose result is \<open>rc\<close>, is a definition of its own.\<close>

text \<open>\<open>return current_node->entries[i].value\<close>, as an address: slot \<open>i\<close> of the node.\<close>

definition slot_ref :: "ptr \<Rightarrow> nat \<Rightarrow> vref" where
  "slot_ref p i = (case p of None \<Rightarrow> NullRef | Some a \<Rightarrow> Ref a i)"

partial_function (option) bt_locate ::
  "btree_dram_node heap \<Rightarrow> ptr \<Rightarrow> u64 \<Rightarrow> vref comp" where
  "bt_locate h current_node key =
     bindC (load h current_node) (\<lambda>n.
     bindC (bt_find_index (entries n) (nk n) key 0) (\<lambda>i.
     bindC (bt_key_at n key i) (\<lambda>found.
       if found then ret (slot_ref current_node i)
       else if is_leaf n \<noteq> 0 then ret NullRef
       else bindC (read_slot (children n) i) (\<lambda>c. bt_locate h c key))))"

definition bt_find :: "btree_dram \<Rightarrow> u64 \<Rightarrow> vref comp" where
  "bt_find s key = bt_locate (bt_heap s) (bt_root s) key"

definition bt_value :: "btree_dram \<Rightarrow> nat \<Rightarrow> nat \<Rightarrow> outp comp" where
  "bt_value s a i = bindC (load (bt_heap s) (Some a)) (\<lambda>n.
     bindC (read_slot (entries n) i) (\<lambda>e. ret (StrP (ent_value e))))"

definition bt_read_at :: "btree_dram \<Rightarrow> u64 \<Rightarrow> (int \<times> vref) comp" where
  "bt_read_at = find_at bt_check bt_find"

definition bt_conc_found :: "u64 \<Rightarrow> int \<Rightarrow> btree_dram routine" where
  "bt_conc_found key = find_locked (\<lambda>s. bt_find s key)"

definition bt_conc_read :: "lock_mode \<Rightarrow> u64 \<Rightarrow> btree_dram routine" where
  "bt_conc_read md key = checked bt_check (Acquire md (bt_conc_found key))"

definition bt_conc_fill :: "u64 \<Rightarrow> string \<Rightarrow> btree_dram routine" where
  "bt_conc_fill key value =
     Step (\<lambda>s. bindC (load (bt_heap s) (bt_root s)) (\<lambda>n.
       bindC (copy_value value) (\<lambda>v.
       bindC (write_arr (entries n) 0 (Some \<lparr>ent_key = key, ent_value = v\<rparr>)) (\<lambda>es.
       bindC (store (bt_heap s) (bt_root s) (n\<lparr>entries := es, nk := 1\<rparr>)) (\<lambda>h.
         ret (s\<lparr>bt_heap := h\<rparr>, Release (Done (RStatus 1))))))))"

definition bt_conc_add :: "u64 \<Rightarrow> string \<Rightarrow> btree_dram routine" where
  "bt_conc_add key value =
     Step (\<lambda>s. bindC (load (bt_heap s) (bt_root s)) (\<lambda>r.
       if bt_is_node_full (nk r) \<noteq> 0
       then let (new_root, h) = bt_create_node LEAF_NODE_FALSE_FLAG (bt_heap s) in
            bindC (load h new_root) (\<lambda>n.
            bindC (write_arr (children n) 0 (Some (bt_root s))) (\<lambda>cs.
            bindC (store h new_root (n\<lparr>children := cs\<rparr>)) (\<lambda>h.
            bindC (bt_split_node 0 new_root (bt_root s) h) (\<lambda>h.
            bindC (load h new_root) (\<lambda>n.
            bindC (read_slot (entries n) 0) (\<lambda>e.
            bindC (read_slot (children n) (if ent_key e < key then 1 else 0)) (\<lambda>c.
            bindC (bt_insert_not_full h c key value) (\<lambda>h.
              ret (s\<lparr>bt_heap := h, bt_root := new_root\<rparr>, Release (Done (RStatus 1)))))))))))
       else bindC (bt_insert_not_full (bt_heap s) (bt_root s) key value) (\<lambda>h.
              ret (s\<lparr>bt_heap := h\<rparr>, Release (Done (RStatus 1))))))"

definition bt_conc_locked :: "u64 \<Rightarrow> string \<Rightarrow> int \<Rightarrow> btree_dram routine" where
  "bt_conc_locked key value rc =
     (if rc \<noteq> 0 then Done (RStatus 0)
      else Step (\<lambda>s.
        if bt_root s = NULL
        then let (root, h) = bt_create_node LEAF_NODE_TRUE_FLAG (bt_heap s) in
             ret (s\<lparr>bt_heap := h, bt_root := root\<rparr>, bt_conc_fill key value)
        else bindC (bt_update_if_found (bt_heap s) (bt_root s) key value) (\<lambda>(is_updated, h).
             ret (s\<lparr>bt_heap := h\<rparr>,
               if is_updated then Release (Done (RStatus 1)) else bt_conc_add key value))))"

definition bt_conc_insert :: "u64 \<Rightarrow> string \<Rightarrow> btree_dram routine" where
  "bt_conc_insert key value = Acquire Exclusive (bt_conc_locked key value)"

definition bt_conc_update :: "u64 \<Rightarrow> string \<Rightarrow> btree_dram routine" where
  "bt_conc_update key value = checked bt_check (bt_conc_insert key value)"

definition bt_conc_scan :: "u64 \<Rightarrow> int \<Rightarrow> scan_result \<Rightarrow> btree_dram routine" where
  "bt_conc_scan key len result = Step (\<lambda>s. crash (Thrown ''Scan: function not implemented!''))"

definition bt_conc_destroy :: "btree_dram locked \<Rightarrow> btree_dram locked comp" where
  "bt_conc_destroy S = bindC (bt_destroy (inner S)) (\<lambda>s. ret (S\<lparr>inner := s, lock_live := False\<rparr>))"

fun bt_conc_code :: "lock_mode \<Rightarrow> kv_call \<Rightarrow> btree_dram routine" where
  "bt_conc_code md (CRead k) = bt_conc_read md k"
| "bt_conc_code md (CUpdate k v) = bt_conc_update k v"
| "bt_conc_code md (CInsert k v) = bt_conc_insert k v"
| "bt_conc_code md (CScan k len res) = bt_conc_scan k len res"

definition bt_alive :: "bool \<Rightarrow> btree_dram \<Rightarrow> bool" where
  "bt_alive b s \<longleftrightarrow> (b \<longrightarrow> bt_root s \<noteq> NULL)"

definition bt_locked_inv :: "bool \<Rightarrow> btree_dram \<Rightarrow> bool" where
  "bt_locked_inv b s \<longleftrightarrow> bt_alive b s \<and> (\<exists>m. bt_rep s m)"

lemma bt_upd_swap: "s\<lparr>bt_root := p, bt_heap := h\<rparr> = s\<lparr>bt_heap := h, bt_root := p\<rparr>"
  by simp

lemma bt_insert_section:
  assumes i: "bt_insert s k v = ret (r, s')" and al: "bt_alive b s'"
  shows "sec_run (bt_alive b) Exclusive 2 (bt_conc_locked k v 0) s = ret (RStatus r, s')"
proof (cases "bt_root s = NULL")
  case True
  then show ?thesis
    using i al
    by (auto simp: bt_conc_locked_def bt_insert_def bt_conc_fill_def bindC_eq_ret case_prod_beta Let_def
        bt_alive_def numeral_2_eq_2 bt_upd_swap)
next
  case False
  then obtain a where a: "bt_root s = Some a" by auto
  obtain u h where u: "bt_update_if_found (bt_heap s) (Some a) k v = ret (u, h)"
    using i a by (auto simp: bt_insert_def bindC_eq_ret)
  let ?s = "s\<lparr>bt_heap := h\<rparr>" and ?f = "stmt_of (bt_conc_add k v)"
  have al1: "bt_alive b ?s" using a by (simp add: bt_alive_def)
  have "\<not> u \<Longrightarrow> ?f ?s = returning (bt_insert s k v)"
    using u a by (simp add: bt_conc_add_def bt_insert_def bindC_assoc bindC_if case_prod_beta
        Let_def cong: if_cong)
  then have "\<not> u \<Longrightarrow> ?f ?s = ret (s', Release (Done (RStatus r)))" by (simp add: i)
  moreover have "is_Step (bt_conc_add k v)" by (simp add: bt_conc_add_def)
  moreover have "u \<Longrightarrow> r = 1 \<and> s' = ?s" using i u a by (simp add: bt_insert_def)
  ultimately show ?thesis
    using u a al al1 by (auto simp: bt_conc_locked_def numeral_2_eq_2 sec_run_is_Step)
qed

lemma bt_check_alive: "bt_alive True s \<Longrightarrow> bt_check s = ret ()"
  by (simp add: bt_alive_def bt_check_def)

lemma bt_locked_insert:
  assumes "bt_locked_inv b s" and "fits v"
  shows "\<exists>s'. bt_insert s k v = ret (1, s') \<and> bt_locked_inv b s'"
proof -
  obtain m where m: "bt_rep s m" using assms(1) by (auto simp: bt_locked_inv_def)
  obtain s' where s': "bt_insert s k v = ret (1, s')" "bt_rep s' (m(k \<mapsto> v))"
    using bt_insert_ok [OF m assms(2)] by blast
  moreover have "m(k \<mapsto> v) \<noteq> Map.empty" by simp
  ultimately have "bt_root s' \<noteq> NULL" by (auto simp: bt_rep_def bt_inv_def simp del: fun_upd_apply)
  with s' show ?thesis by (auto simp: bt_locked_inv_def bt_alive_def)
qed

lemma bt_locked_read:
  assumes "bt_locked_inv True s"
  shows "\<exists>r. bt_search (bt_heap s) (bt_root s) k = ret r"
proof -
  obtain m where m: "bt_rep s m" and ne: "bt_root s \<noteq> NULL"
    using assms by (auto simp: bt_locked_inv_def bt_alive_def)
  then obtain d t where "bt_inv s d t" by (auto simp: bt_rep_def)
  then show ?thesis using bt_search_tree by (fastforce simp: bt_inv_def bt_sub_def)
qed

lemma bt_locate_search:
  assumes "bt_search (bt_heap s) p k = ret x"
  shows "\<exists>q. bt_locate (bt_heap s) p k = ret q \<and>
    follow bt_value s r q = ret (case x of None \<Rightarrow> NullP | Some v \<Rightarrow> StrP v)"
proof -
  have "\<forall>x. h = bt_heap s \<longrightarrow> y = Inr x \<longrightarrow> (\<exists>q. bt_locate h p k = ret q \<and>
      follow bt_value s r q = ret (case x of None \<Rightarrow> NullP | Some v \<Rightarrow> StrP v))"
    if "bt_search h p k = Some y" for h y
    using that
  proof (induction rule: bt_search.raw_induct [rotated, consumes 1])
    case (1 f h p k y)
    show ?case
    proof (intro allI impI)
      fix x assume h: "h = bt_heap s" and y: "y = Inr x"
      obtain n i found where n: "load h p = ret n" "bt_find_index (entries n) (nk n) k 0 = ret i"
          "bt_key_at n k i = ret found"
        and b: "(if found then bindC (read_slot (entries n) i) (\<lambda>e. ret (Some (ent_value e)))
           else if is_leaf n \<noteq> 0 then ret None else bindC (read_slot (children n) i) (\<lambda>c. f h c k)) = ret x"
        using 1(2) unfolding y bindC_eq_ret by blast
      obtain a where a: "p = Some a" using n(1) by (cases p) simp_all
      note loc = bt_locate.simps [of h p k]
      show "\<exists>q. bt_locate h p k = ret q \<and>
          follow bt_value s r q = ret (case x of None \<Rightarrow> NullP | Some v \<Rightarrow> StrP v)"
      proof (cases "\<not> found \<and> is_leaf n = 0")
        case True
        then obtain c where c: "read_slot (children n) i = ret c" "f h c k = ret x"
          using b by (auto simp: bindC_eq_ret)
        obtain q where "bt_locate h c k = ret q"
            "follow bt_value s r q = ret (case x of None \<Rightarrow> NullP | Some v \<Rightarrow> StrP v)"
          using 1(1) [OF c(2)] h by blast
        then show ?thesis using True n c(1) by (simp add: loc)
      next
        case False
        then show ?thesis using n b a h
          by (cases found) (auto simp: bt_locate.simps [of "bt_heap s" "Some a" k] slot_ref_def bt_value_def bindC_eq_ret)
      qed
    qed
  qed
  from this [OF assms] show ?thesis by blast
qed

lemma bt_reads_through:
  assumes s: "bt_locked_inv True s"
  shows "reads_through bt_ops bt_read_at bt_value s k"
  unfolding reads_through_def
proof
  fix r
  have chk: "bt_check s = ret ()" using s by (auto simp: bt_locked_inv_def bt_check_alive)
  obtain x where x: "bt_search (bt_heap s) (bt_root s) k = ret x" using bt_locked_read [OF s] by blast
  show "op_read bt_ops s k r =
      bindC (bt_read_at s k) (\<lambda>(st, q). bindC (follow bt_value s r q) (\<lambda>x. ret (st, x)))"
    using bt_locate_search [OF x, of r] x chk
    by (auto simp: bt_ops_def bt_read_def bt_read_at_def find_at_def bt_find_def)
qed

lemma bt_serves_read:
  "serves (bt_alive True) (bt_locked_inv True) 2 (bt_conc_read md k) (kv_seq bt_ops bt_read_at (CRead k))"
  unfolding bt_conc_read_def bt_conc_found_def bt_read_at_def
proof (rule serves_read [OF bt_check_alive _ bt_reads_through [unfolded bt_read_at_def]])
  fix s assume s: "bt_locked_inv True s"
  then show "bt_alive True s" by (simp add: bt_locked_inv_def)
  then show "\<exists>x. op_read bt_ops s k Unset = ret x"
    using bt_locked_read [OF s, of k] by (auto simp: bt_ops_def bt_read_def bt_check_alive)
qed simp_all

lemma bt_locked_section:
  assumes s: "bt_locked_inv b s" and v: "fits v"
  shows "\<exists>s'. bt_insert s k v = ret (1, s') \<and> bt_locked_inv b s' \<and>
    sec_run (bt_alive b) Exclusive 2 (bt_conc_locked k v 0) s = ret (RStatus 1, s')"
  using bt_locked_insert [OF s v, of k] bt_insert_section unfolding bt_locked_inv_def by blast

lemma bt_serves_insert:
  "fits v \<Longrightarrow> serves (bt_alive b) (bt_locked_inv b) 2 (bt_conc_insert k v) (kv_seq bt_ops bt_read_at (CInsert k v))"
  unfolding bt_conc_insert_def
proof (rule serves_acquire)
  fix s assume "fits v" and "bt_locked_inv b s"
  then show "\<exists>r s'. kv_seq bt_ops bt_read_at (CInsert k v) s = ret (r, s') \<and> bt_locked_inv b s' \<and>
      sec_run (bt_alive b) Exclusive 2 (bt_conc_locked k v 0) s = ret (r, s')"
    using bt_locked_section [of b s v k] by (auto simp: bt_ops_def)
qed

lemma bt_serves_update:
  "fits v \<Longrightarrow> serves (bt_alive True) (bt_locked_inv True) 2 (bt_conc_update k v)
     (kv_seq bt_ops bt_read_at (CUpdate k v))"
  unfolding bt_conc_update_def bt_conc_insert_def
proof (rule serves_checked [OF bt_check_alive])
  fix s assume "fits v" and s: "bt_locked_inv True s"
  then show "\<exists>r s'. kv_seq bt_ops bt_read_at (CUpdate k v) s = ret (r, s') \<and> bt_locked_inv True s' \<and>
      sec_run (bt_alive True) Exclusive 2 (bt_conc_locked k v 0) s = ret (r, s')"
    using bt_locked_section [OF s, of v k] bt_check_alive [of s]
    by (auto simp: bt_ops_def bt_update_def bt_locked_inv_def)
qed

lemma bt_locked:
  "locked_store bt_ops bt_read_at bt_value (bt_conc_code md) (bt_alive b) (bt_locked_inv b) (writes_ok b) 2"
proof (rule locked_store_calls)
  show "bt_locked_inv b s \<Longrightarrow> bt_alive b s" for s by (simp add: bt_locked_inv_def)
qed (cases b, auto simp: bt_serves_insert bt_serves_update bt_serves_read bt_reads_through writes_ok_def
      simp del: kv_seq.simps)

interpretation bt_lock: locked_store bt_ops bt_read_at bt_value "bt_conc_code md" "bt_alive b" "bt_locked_inv b" "writes_ok b" 2
  for md b by (rule bt_locked)

section \<open>B+ tree\<close>

definition bpt_conc_init :: "int \<Rightarrow> (int \<times> bplustree_dram locked) comp" where
  "bpt_conc_init rc = bindC (lock_init rc) (\<lambda>_. ret (1, \<lparr>inner = bpt_init, lock_live = True\<rparr>))"

definition bpt_conc_scanned :: "u64 \<Rightarrow> int \<Rightarrow> scan_result \<Rightarrow> int \<Rightarrow> bplustree_dram routine" where
  "bpt_conc_scanned key len result rc =
     (if rc \<noteq> 0 then Done (RScan 0 result)
      else Step (\<lambda>s.
        bindC (bpt_descend (bpt_heap s) (bpt_root s) key) (\<lambda>leaf.
        if leaf = NULL then ret (s, Release (Done (RScan 1 result)))
        else bindC (load (bpt_heap s) leaf) (\<lambda>n.
             bindC (bpt_find_index (bpt_entries n) (bpt_nk n) key 0) (\<lambda>i.
             bindC (bpt_scan_chain (bpt_heap s) leaf i len 0 result) (\<lambda>result.
               ret (s, Release (Done (RScan 1 result)))))))))"

definition bpt_conc_scan :: "lock_mode \<Rightarrow> u64 \<Rightarrow> int \<Rightarrow> scan_result \<Rightarrow> bplustree_dram routine" where
  "bpt_conc_scan md key len result = checked bpt_check (Acquire md (bpt_conc_scanned key len result))"

partial_function (option) bpt_locate ::
  "bplustree_dram_node heap \<Rightarrow> ptr \<Rightarrow> u64 \<Rightarrow> vref comp" where
  "bpt_locate h current_node key =
     bindC (load h current_node) (\<lambda>n.
     bindC (bpt_find_index (bpt_entries n) (bpt_nk n) key 0) (\<lambda>i.
     bindC (bpt_key_at n key i) (\<lambda>hit.
       if bpt_is_leaf n \<noteq> 0
       then ret (if hit then slot_ref current_node i else NullRef)
       else bindC (read_slot (bpt_children n) (if hit then i + 1 else i)) (\<lambda>c. bpt_locate h c key))))"

definition bpt_find :: "bplustree_dram \<Rightarrow> u64 \<Rightarrow> vref comp" where
  "bpt_find s key = bpt_locate (bpt_heap s) (bpt_root s) key"

definition bpt_slot_value :: "bplustree_dram \<Rightarrow> nat \<Rightarrow> nat \<Rightarrow> outp comp" where
  "bpt_slot_value s a i = bindC (load (bpt_heap s) (Some a)) (\<lambda>n.
     bindC (read_arr (bpt_entries n) i) (\<lambda>e.
       ret (case bpt_value e of None \<Rightarrow> RawP | Some v \<Rightarrow> StrP v)))"

definition bpt_read_at :: "bplustree_dram \<Rightarrow> u64 \<Rightarrow> (int \<times> vref) comp" where
  "bpt_read_at = find_at bpt_check bpt_find"

definition bpt_conc_found :: "u64 \<Rightarrow> int \<Rightarrow> bplustree_dram routine" where
  "bpt_conc_found key = find_locked (\<lambda>s. bpt_find s key)"

definition bpt_conc_read :: "lock_mode \<Rightarrow> u64 \<Rightarrow> bplustree_dram routine" where
  "bpt_conc_read md key = checked bpt_check (Acquire md (bpt_conc_found key))"

definition bpt_conc_fill :: "u64 \<Rightarrow> string \<Rightarrow> bplustree_dram routine" where
  "bpt_conc_fill key value =
     Step (\<lambda>s. bindC (load (bpt_heap s) (bpt_root s)) (\<lambda>n.
       bindC (copy_value value) (\<lambda>v.
       bindC (write_arr (bpt_entries n) 0 \<lparr>bpt_key = Some key, bpt_value = Some v\<rparr>) (\<lambda>es.
       bindC (store (bpt_heap s) (bpt_root s) (n\<lparr>bpt_entries := es, bpt_nk := 1\<rparr>)) (\<lambda>h.
         ret (s\<lparr>bpt_heap := h\<rparr>, Release (Done (RStatus 1))))))))"

definition bpt_conc_add :: "u64 \<Rightarrow> string \<Rightarrow> bplustree_dram routine" where
  "bpt_conc_add key value =
     Step (\<lambda>s. bindC (load (bpt_heap s) (bpt_root s)) (\<lambda>r.
       if bpt_is_node_full (bpt_nk r) \<noteq> 0
       then let (new_root, h) = bpt_create_node BPT_LEAF_FALSE (bpt_heap s) in
            bindC (load h new_root) (\<lambda>n.
            bindC (write_arr (bpt_children n) 0 (Some (bpt_root s))) (\<lambda>cs.
            bindC (store h new_root (n\<lparr>bpt_children := cs\<rparr>)) (\<lambda>h.
            bindC (bpt_split_node 0 new_root (bpt_root s) h) (\<lambda>h.
            bindC (load h new_root) (\<lambda>n.
            bindC (bpt_get_key (bpt_entries n) 0) (\<lambda>k.
            bindC (read_slot (bpt_children n) (if k < key then 1 else 0)) (\<lambda>c.
            bindC (bpt_insert_not_full h c key value) (\<lambda>h.
              ret (s\<lparr>bpt_heap := h, bpt_root := new_root\<rparr>, Release (Done (RStatus 1)))))))))))
       else bindC (bpt_insert_not_full (bpt_heap s) (bpt_root s) key value) (\<lambda>h.
              ret (s\<lparr>bpt_heap := h\<rparr>, Release (Done (RStatus 1))))))"

definition bpt_conc_locked :: "u64 \<Rightarrow> string \<Rightarrow> int \<Rightarrow> bplustree_dram routine" where
  "bpt_conc_locked key value rc =
     (if rc \<noteq> 0 then Done (RStatus 0)
      else Step (\<lambda>s.
        if bpt_root s = NULL
        then let (root, h) = bpt_create_node BPT_LEAF_TRUE (bpt_heap s) in
             ret (s\<lparr>bpt_heap := h, bpt_root := root\<rparr>, bpt_conc_fill key value)
        else bindC (bpt_update_if_found (bpt_heap s) (bpt_root s) key value) (\<lambda>(is_updated, h).
             ret (s\<lparr>bpt_heap := h\<rparr>,
               if is_updated then Release (Done (RStatus 1)) else bpt_conc_add key value))))"

definition bpt_conc_insert :: "u64 \<Rightarrow> string \<Rightarrow> bplustree_dram routine" where
  "bpt_conc_insert key value = Acquire Exclusive (bpt_conc_locked key value)"

definition bpt_conc_update :: "u64 \<Rightarrow> string \<Rightarrow> bplustree_dram routine" where
  "bpt_conc_update key value = checked bpt_check (bpt_conc_insert key value)"

definition bpt_conc_destroy :: "bplustree_dram locked \<Rightarrow> bplustree_dram locked comp" where
  "bpt_conc_destroy S = bindC (bpt_destroy (inner S)) (\<lambda>s. ret (S\<lparr>inner := s, lock_live := False\<rparr>))"

fun bpt_conc_code :: "lock_mode \<Rightarrow> kv_call \<Rightarrow> bplustree_dram routine" where
  "bpt_conc_code md (CRead k) = bpt_conc_read md k"
| "bpt_conc_code md (CUpdate k v) = bpt_conc_update k v"
| "bpt_conc_code md (CInsert k v) = bpt_conc_insert k v"
| "bpt_conc_code md (CScan k len res) = bpt_conc_scan md k len res"

definition scans_ok :: "bool \<Rightarrow> kv_call \<Rightarrow> bool" where
  "scans_ok b c \<longleftrightarrow> (case c of CScan k len res \<Rightarrow> b \<and> len \<noteq> 0 | _ \<Rightarrow> writes_ok b c)"

definition bpt_alive :: "bool \<Rightarrow> bplustree_dram \<Rightarrow> bool" where
  "bpt_alive b s \<longleftrightarrow> (b \<longrightarrow> bpt_root s \<noteq> NULL)"

definition bpt_locked_inv :: "bool \<Rightarrow> bplustree_dram \<Rightarrow> bool" where
  "bpt_locked_inv b s \<longleftrightarrow> bpt_alive b s \<and> (\<exists>m. bpt_rep s m)"

lemma bpt_upd_swap: "s\<lparr>bpt_root := p, bpt_heap := h\<rparr> = s\<lparr>bpt_heap := h, bpt_root := p\<rparr>"
  by simp

lemma bpt_check_alive: "bpt_alive True s \<Longrightarrow> bpt_check s = ret ()"
  by (simp add: bpt_alive_def bpt_check_def)

lemma bpt_locked_tree:
  assumes "bpt_locked_inv True s"
  obtains d t where "bpt_inv s d t"
  using assms by (auto simp: bpt_locked_inv_def bpt_alive_def bpt_rep_def)

lemma bpt_insert_section:
  assumes i: "bpt_insert s k v = ret (r, s')" and al: "bpt_alive b s'"
  shows "sec_run (bpt_alive b) Exclusive 2 (bpt_conc_locked k v 0) s = ret (RStatus r, s')"
proof (cases "bpt_root s = NULL")
  case True
  then show ?thesis
    using i al
    by (auto simp: bpt_conc_locked_def bpt_insert_def bpt_conc_fill_def bindC_eq_ret case_prod_beta Let_def
        bpt_alive_def numeral_2_eq_2 bpt_upd_swap)
next
  case False
  then obtain a where a: "bpt_root s = Some a" by auto
  obtain u h where u: "bpt_update_if_found (bpt_heap s) (Some a) k v = ret (u, h)"
    using i a by (auto simp: bpt_insert_def bindC_eq_ret)
  let ?s = "s\<lparr>bpt_heap := h\<rparr>" and ?f = "stmt_of (bpt_conc_add k v)"
  have al1: "bpt_alive b ?s" using a by (simp add: bpt_alive_def)
  have "\<not> u \<Longrightarrow> ?f ?s = returning (bpt_insert s k v)"
    using u a by (simp add: bpt_conc_add_def bpt_insert_def bindC_assoc bindC_if case_prod_beta
        Let_def cong: if_cong)
  then have "\<not> u \<Longrightarrow> ?f ?s = ret (s', Release (Done (RStatus r)))" by (simp add: i)
  moreover have "is_Step (bpt_conc_add k v)" by (simp add: bpt_conc_add_def)
  moreover have "u \<Longrightarrow> r = 1 \<and> s' = ?s" using i u a by (simp add: bpt_insert_def)
  ultimately show ?thesis
    using u a al al1 by (auto simp: bpt_conc_locked_def numeral_2_eq_2 sec_run_is_Step)
qed

lemma bpt_locked_insert:
  assumes s: "bpt_locked_inv b s" and v: "fits v"
  shows "\<exists>s'. bpt_insert s k v = ret (1, s') \<and> bpt_locked_inv b s' \<and>
    sec_run (bpt_alive b) Exclusive 2 (bpt_conc_locked k v 0) s = ret (RStatus 1, s')"
proof -
  obtain m where m: "bpt_rep s m" using s by (auto simp: bpt_locked_inv_def)
  obtain s' where s': "bpt_insert s k v = ret (1, s')" "bpt_rep s' (m(k \<mapsto> v))"
    using bpt_insert_ok [OF m v] by blast
  have "m(k \<mapsto> v) \<noteq> Map.empty" by simp
  then have "bpt_root s' \<noteq> NULL" using bpt_rep_nonempty [OF s'(2)] by (fastforce simp: bpt_inv_def)
  then have "bpt_locked_inv b s'" using s'(2) by (auto simp: bpt_locked_inv_def bpt_alive_def)
  with s'(1) bpt_insert_section [OF s'(1), of b] show ?thesis by (auto simp: bpt_locked_inv_def)
qed

lemma bpt_serves_insert:
  "fits v \<Longrightarrow> serves (bpt_alive b) (bpt_locked_inv b) 2 (bpt_conc_insert k v) (kv_seq bpt_ops bpt_read_at (CInsert k v))"
  unfolding bpt_conc_insert_def
proof (rule serves_acquire)
  fix s assume "fits v" and "bpt_locked_inv b s"
  then show "\<exists>r s'. kv_seq bpt_ops bpt_read_at (CInsert k v) s = ret (r, s') \<and> bpt_locked_inv b s' \<and>
      sec_run (bpt_alive b) Exclusive 2 (bpt_conc_locked k v 0) s = ret (r, s')"
    using bpt_locked_insert [of b s v k] by (auto simp: bpt_ops_def)
qed

lemma bpt_serves_update:
  "fits v \<Longrightarrow> serves (bpt_alive True) (bpt_locked_inv True) 2 (bpt_conc_update k v) (kv_seq bpt_ops bpt_read_at (CUpdate k v))"
  unfolding bpt_conc_update_def bpt_conc_insert_def
proof (rule serves_checked [OF bpt_check_alive])
  fix s assume "fits v" and s: "bpt_locked_inv True s"
  then show "\<exists>r s'. kv_seq bpt_ops bpt_read_at (CUpdate k v) s = ret (r, s') \<and> bpt_locked_inv True s' \<and>
      sec_run (bpt_alive True) Exclusive 2 (bpt_conc_locked k v 0) s = ret (r, s')"
    using bpt_locked_insert [OF s, of v k] bpt_check_alive [of s]
    by (auto simp: bpt_ops_def bpt_update_def bpt_locked_inv_def)
qed

lemma bpt_locate_search:
  assumes "bpt_search (bpt_heap s) p k = ret x"
  shows "\<exists>q. bpt_locate (bpt_heap s) p k = ret q \<and> follow bpt_slot_value s r q = ret x"
proof -
  have "\<forall>x. h = bpt_heap s \<longrightarrow> y = Inr x \<longrightarrow>
      (\<exists>q. bpt_locate h p k = ret q \<and> follow bpt_slot_value s r q = ret x)"
    if "bpt_search h p k = Some y" for h y
    using that
  proof (induction rule: bpt_search.raw_induct [rotated, consumes 1])
    case (1 f h p k y)
    show ?case
    proof (intro allI impI)
      fix x assume h: "h = bpt_heap s" and y: "y = Inr x"
      obtain n i hit where n: "load h p = ret n" "bpt_find_index (bpt_entries n) (bpt_nk n) k 0 = ret i"
          "bpt_key_at n k i = ret hit"
        and b: "(if bpt_is_leaf n \<noteq> 0
           then if hit then bindC (read_arr (bpt_entries n) i) (\<lambda>e.
                  ret (case bpt_value e of None \<Rightarrow> RawP | Some v \<Rightarrow> StrP v)) else ret NullP
           else bindC (read_slot (bpt_children n) (if hit then i + 1 else i)) (\<lambda>c. f h c k)) = ret x"
        using 1(2) unfolding y bindC_eq_ret by blast
      obtain a where a: "p = Some a" using n(1) by (cases p) simp_all
      note loc = bpt_locate.simps [of h p k]
      show "\<exists>q. bpt_locate h p k = ret q \<and> follow bpt_slot_value s r q = ret x"
      proof (cases "bpt_is_leaf n = 0")
        case True
        then obtain c where c: "read_slot (bpt_children n) (if hit then i + 1 else i) = ret c" "f h c k = ret x"
          using b by (auto simp: bindC_eq_ret)
        obtain q where "bpt_locate h c k = ret q" "follow bpt_slot_value s r q = ret x"
          using 1(1) [OF c(2)] h by blast
        then show ?thesis using True n c(1) by (simp add: loc)
      next
        case False
        then show ?thesis using n b a h
          by (cases hit) (auto simp: bpt_locate.simps [of "bpt_heap s" "Some a" k] slot_ref_def bpt_slot_value_def bindC_eq_ret)
      qed
    qed
  qed
  from this [OF assms] show ?thesis by blast
qed

lemma bpt_locked_read:
  assumes s: "bpt_locked_inv True s"
  shows "\<exists>x. bpt_search (bpt_heap s) (bpt_root s) k = ret x"
proof -
  obtain d t where "bpt_inv s d t" using s by (rule bpt_locked_tree)
  then show ?thesis
    using bpt_search_tree [of "bpt_heap s" t d "BPLUSTREE_MIN_DEGREE - 1" k]
    by (auto simp: bpt_inv_def bpt_sub_def)
qed

lemma bpt_reads_through:
  assumes s: "bpt_locked_inv True s"
  shows "reads_through bpt_ops bpt_read_at bpt_slot_value s k"
  unfolding reads_through_def
proof
  fix r
  have chk: "bpt_check s = ret ()" using s by (auto simp: bpt_locked_inv_def bpt_check_alive)
  obtain x where x: "bpt_search (bpt_heap s) (bpt_root s) k = ret x" using bpt_locked_read [OF s] by blast
  show "op_read bpt_ops s k r =
      bindC (bpt_read_at s k) (\<lambda>(st, q). bindC (follow bpt_slot_value s r q) (\<lambda>x. ret (st, x)))"
    using bpt_locate_search [OF x, of r] x chk
    by (auto simp: bpt_ops_def bpt_read_def bpt_read_at_def find_at_def bpt_find_def)
qed

lemma bpt_serves_read:
  "serves (bpt_alive True) (bpt_locked_inv True) 2 (bpt_conc_read md k) (kv_seq bpt_ops bpt_read_at (CRead k))"
  unfolding bpt_conc_read_def bpt_conc_found_def bpt_read_at_def
proof (rule serves_read [OF bpt_check_alive _ bpt_reads_through [unfolded bpt_read_at_def]])
  fix s assume s: "bpt_locked_inv True s"
  then show "bpt_alive True s" by (simp add: bpt_locked_inv_def)
  then show "\<exists>x. op_read bpt_ops s k Unset = ret x"
    using bpt_locked_read [OF s, of k] by (auto simp: bpt_ops_def bpt_read_def bpt_check_alive)
qed simp_all

lemma bpt_serves_scan:
  assumes len: "len \<noteq> 0"
  shows "serves (bpt_alive True) (bpt_locked_inv True) 2 (bpt_conc_scan md k len r) (kv_seq bpt_ops bpt_read_at (CScan k len r))"
  unfolding bpt_conc_scan_def
proof (rule serves_checked [OF bpt_check_alive])
  fix s assume s: "bpt_locked_inv True s"
  then obtain d t where "bpt_inv s d t" by (rule bpt_locked_tree)
  then obtain r' where r': "bpt_scan s k len r = ret (1, r')" using bpt_scan_inv [OF _ len] by blast
  have al: "bpt_alive True s" using s by (simp add: bpt_locked_inv_def)
  have "stmt_of (bpt_conc_scanned k len r 0) s = bindC (bpt_scan s k len r) (\<lambda>(st, r'). ret (s, Release (Done (RScan st r'))))"
    using bpt_check_alive [OF al]
    by (simp add: bpt_conc_scanned_def bpt_scan_def bindC_assoc bindC_if cong: if_cong)
  moreover have "is_Step (bpt_conc_scanned k len r 0)" by (simp add: bpt_conc_scanned_def)
  ultimately show "\<exists>r' s'. kv_seq bpt_ops bpt_read_at (CScan k len r) s = ret (r', s') \<and> bpt_locked_inv True s' \<and>
      sec_run (bpt_alive True) md 2 (bpt_conc_scanned k len r 0) s = ret (r', s')"
    using s al r' by (simp add: bpt_ops_def sec_run_is_Step numeral_2_eq_2)
qed

lemma bpt_locked: "locked_store bpt_ops bpt_read_at bpt_slot_value (bpt_conc_code md) (bpt_alive b) (bpt_locked_inv b) (scans_ok b) 2"
proof (rule locked_store_calls)
  show "bpt_locked_inv b s \<Longrightarrow> bpt_alive b s" for s by (simp add: bpt_locked_inv_def)
qed (cases b, auto simp: bpt_serves_insert bpt_serves_update bpt_serves_read bpt_serves_scan bpt_reads_through
      scans_ok_def writes_ok_def simp del: kv_seq.simps)

interpretation bpt_lock: locked_store bpt_ops bpt_read_at bpt_slot_value "bpt_conc_code md" "bpt_alive b" "bpt_locked_inv b" "scans_ok b" 2
  for md b by (rule bpt_locked)

section \<open>Red-black tree\<close>

definition rb_conc_init :: "int \<Rightarrow> (int \<times> rbtree_dram locked) comp" where
  "rb_conc_init rc = bindC (lock_init rc) (\<lambda>_. ret (1, \<lparr>inner = rb_init, lock_live = True\<rparr>))"

definition rb_conc_scan :: "u64 \<Rightarrow> int \<Rightarrow> scan_result \<Rightarrow> rbtree_dram routine" where
  "rb_conc_scan key len result = Step (\<lambda>s. crash (Thrown ''Scan: function not implemented!''))"

partial_function (option) rb_locate ::
  "rbtree_dram_node heap \<Rightarrow> ptr \<Rightarrow> u64 \<Rightarrow> vref comp" where
  "rb_locate h current_node key =
     (if current_node = NULL then ret NoRef
      else bindC (load h current_node) (\<lambda>n.
        if rb_key n = key then ret (node_ref current_node)
        else if rb_key n > key then rb_locate h (rb_left n) key
        else rb_locate h (rb_right n) key))"

definition rb_find :: "rbtree_dram \<Rightarrow> u64 \<Rightarrow> vref comp" where
  "rb_find s key = rb_locate (rb_heap s) (rb_root s) key"

definition rb_node_value :: "rbtree_dram \<Rightarrow> nat \<Rightarrow> nat \<Rightarrow> outp comp" where
  "rb_node_value s a i = bindC (load (rb_heap s) (Some a)) (\<lambda>n. ret (StrP (rb_value n)))"

definition rb_read_at :: "rbtree_dram \<Rightarrow> u64 \<Rightarrow> (int \<times> vref) comp" where
  "rb_read_at = find_at rb_check rb_find"

definition rb_conc_found :: "u64 \<Rightarrow> int \<Rightarrow> rbtree_dram routine" where
  "rb_conc_found key = find_locked (\<lambda>s. rb_find s key)"

definition rb_conc_read :: "lock_mode \<Rightarrow> u64 \<Rightarrow> rbtree_dram routine" where
  "rb_conc_read md key = checked rb_check (Acquire md (rb_conc_found key))"

text \<open>The statements of \<open>insert\<close>: a new node, then the repair of the colours from it.\<close>

definition rb_conc_fix :: "ptr \<Rightarrow> rbtree_dram routine" where
  "rb_conc_fix new_node =
     Step (\<lambda>s. bindC (rb_fix_violation new_node s) (\<lambda>s. ret (s, Release (Done (RStatus 1)))))"

definition rb_conc_locked :: "rbtree_dram_node \<Rightarrow> u64 \<Rightarrow> string \<Rightarrow> int \<Rightarrow> rbtree_dram routine" where
  "rb_conc_locked junk key value rc =
     (if rc \<noteq> 0 then Done (RStatus 0)
      else Step (\<lambda>s.
        if rb_root s = NULL
        then bindC (rb_create_new_node junk key value s) (\<lambda>(new_node, s).
               ret (s\<lparr>rb_root := new_node\<rparr>, rb_conc_fix new_node))
        else bindC (rb_bst_upsert junk (rb_root s) key value s) (\<lambda>(new_node, s).
               ret (s, if new_node \<noteq> NULL then rb_conc_fix new_node else Release (Done (RStatus 1))))))"

definition rb_conc_insert :: "rbtree_dram_node \<Rightarrow> u64 \<Rightarrow> string \<Rightarrow> rbtree_dram routine" where
  "rb_conc_insert junk key value = Acquire Exclusive (rb_conc_locked junk key value)"

definition rb_conc_update :: "rbtree_dram_node \<Rightarrow> u64 \<Rightarrow> string \<Rightarrow> rbtree_dram routine" where
  "rb_conc_update junk key value = checked rb_check (rb_conc_insert junk key value)"

definition rb_conc_destroy :: "rbtree_dram locked \<Rightarrow> rbtree_dram locked comp" where
  "rb_conc_destroy S = bindC (rb_destroy (inner S)) (\<lambda>s. ret (S\<lparr>inner := s, lock_live := False\<rparr>))"

fun rb_conc_code :: "lock_mode \<Rightarrow> rbtree_dram_node \<Rightarrow> kv_call \<Rightarrow> rbtree_dram routine" where
  "rb_conc_code md junk (CRead k) = rb_conc_read md k"
| "rb_conc_code md junk (CUpdate k v) = rb_conc_update junk k v"
| "rb_conc_code md junk (CInsert k v) = rb_conc_insert junk k v"
| "rb_conc_code md junk (CScan k len res) = rb_conc_scan k len res"

definition rb_alive :: "bool \<Rightarrow> rbtree_dram \<Rightarrow> bool" where
  "rb_alive b s \<longleftrightarrow> (b \<longrightarrow> rb_root s \<noteq> NULL)"

definition rb_locked_inv :: "bool \<Rightarrow> rbtree_dram \<Rightarrow> bool" where
  "rb_locked_inv b s \<longleftrightarrow> rb_alive b s \<and> (\<exists>m. rb_rep s m)"

lemma rb_check_alive: "rb_alive True s \<Longrightarrow> rb_check s = ret ()"
  by (simp add: rb_alive_def rb_check_def)

lemma rb_at_root:
  assumes "rb_at s t fs" and "t \<noteq> Lf \<or> fs \<noteq> []"
  shows "rb_root s \<noteq> NULL"
proof (cases fs)
  case Nil
  then show ?thesis using assms by (auto simp: rb_at_def)
next
  case (Cons f gs)
  then have "rb_path (mem (rb_heap s)) (rb_root s) (rptr t) (f # gs)" using assms by (simp add: rb_at_def)
  from rb_path_root [OF this] show ?thesis by blast
qed

text \<open>The root is there between the two statements.\<close>

lemma rb_upsert_root:
  assumes s: "rb_rep s m" and ne: "rb_root s \<noteq> NULL" and v: "fits v"
  obtains p s1 where "rb_bst_upsert junk (rb_root s) k v s = ret (p, s1)" and "rb_root s1 \<noteq> NULL"
proof -
  obtain t where t: "rb_inv s t" using s by (auto simp: rb_rep_def)
  have tl: "t \<noteq> Lf" and root: "rb_root s = rptr t" using ne rb_inv_root [OF t] by auto
  have "rb_upserted junk s t [] k v"
    using t tl v by (intro rb_bst_upsert_tree) (simp_all add: rb_inv_def)
  then have "\<exists>p s1. rb_bst_upsert junk (rptr t) k v s = ret (p, s1) \<and> rb_root s1 \<noteq> NULL"
    using tl rb_at_root
    by (auto simp: rb_upserted_def same_shape_def split: if_splits) (metis rbt.distinct(1) rptr_NULL)+
  then show thesis using that root by auto
qed

lemma rb_insert_section:
  assumes s: "rb_rep s m" and v: "fits v" and i: "rb_insert junk s k v = ret (r, s')"
    and al: "rb_alive b s'"
  shows "sec_run (rb_alive b) Exclusive 2 (rb_conc_locked junk k v 0) s = ret (RStatus r, s')"
proof (cases "rb_root s = NULL")
  case True
  obtain t where "rb_inv s t" using s by (auto simp: rb_rep_def)
  then have ok: "heap_ok (rb_heap s)" by (simp add: rb_inv_def rb_at_def)
  obtain p s1 where p: "rb_create_new_node junk k v s = ret (p, s1)" "p \<noteq> NULL"
    using rb_create_new_node_ok [OF ok v, of junk k] by blast
  let ?s = "s1\<lparr>rb_root := p\<rparr>"
  have "stmt_of (rb_conc_fix p) ?s = returning (rb_insert junk s k v)"
    using p True by (simp add: rb_conc_fix_def rb_insert_def bindC_assoc)
  moreover have "is_Step (rb_conc_fix p)" by (simp add: rb_conc_fix_def)
  moreover have "rb_alive b ?s" using p by (simp add: rb_alive_def)
  ultimately show ?thesis
    using i al p True by (simp add: rb_conc_locked_def numeral_2_eq_2 sec_run_is_Step)
next
  case False
  then obtain a where a: "rb_root s = Some a" by auto
  obtain p s1 where p: "rb_bst_upsert junk (Some a) k v s = ret (p, s1)" "rb_root s1 \<noteq> NULL"
    using rb_upsert_root [OF s False v] unfolding a by blast
  have al1: "rb_alive b s1" using p by (simp add: rb_alive_def)
  have "p \<noteq> NULL \<Longrightarrow> stmt_of (rb_conc_fix p) s1 = returning (rb_insert junk s k v)"
    using p a by (simp add: rb_conc_fix_def rb_insert_def bindC_assoc)
  moreover have "is_Step (rb_conc_fix p)" by (simp add: rb_conc_fix_def)
  moreover have "p = NULL \<Longrightarrow> r = 1 \<and> s' = s1" using i p a by (simp add: rb_insert_def)
  ultimately show ?thesis
    using i al al1 p a
    by (cases "p = NULL") (simp_all add: rb_conc_locked_def numeral_2_eq_2 sec_run_is_Step)
qed

lemma rb_locked_insert:
  assumes s: "rb_locked_inv b s" and v: "fits v"
  shows "\<exists>s'. rb_insert junk s k v = ret (1, s') \<and> rb_locked_inv b s' \<and>
    sec_run (rb_alive b) Exclusive 2 (rb_conc_locked junk k v 0) s = ret (RStatus 1, s')"
proof -
  obtain m where m: "rb_rep s m" using s by (auto simp: rb_locked_inv_def)
  obtain s' where s': "rb_insert junk s k v = ret (1, s')" "rb_rep s' (m(k \<mapsto> v))"
    using rb_insert_ok [OF m v, of junk k] by blast
  then obtain t where t: "rb_inv s' t" "m(k \<mapsto> v) = map_of (rb_inorder t)" by (auto simp: rb_rep_def)
  have "map_of (rb_inorder t) k = Some v" using t(2) by (metis fun_upd_same)
  then have "t \<noteq> Lf" by (cases t) auto
  then have "rb_root s' \<noteq> NULL" using rb_inv_root [OF t(1)] by simp
  then have "rb_alive b s'" "rb_locked_inv b s'" using s'(2) by (auto simp: rb_locked_inv_def rb_alive_def)
  with s'(1) rb_insert_section [OF m v s'(1), of b] show ?thesis by auto
qed

lemma rb_serves_insert:
  "fits v \<Longrightarrow> serves (rb_alive b) (rb_locked_inv b) 2 (rb_conc_insert junk k v) (kv_seq (rb_ops junk) rb_read_at (CInsert k v))"
  unfolding rb_conc_insert_def
proof (rule serves_acquire)
  fix s assume "fits v" and "rb_locked_inv b s"
  then show "\<exists>r s'. kv_seq (rb_ops junk) rb_read_at (CInsert k v) s = ret (r, s') \<and> rb_locked_inv b s' \<and>
      sec_run (rb_alive b) Exclusive 2 (rb_conc_locked junk k v 0) s = ret (r, s')"
    using rb_locked_insert [of b s v junk k] by (auto simp: rb_ops_def)
qed

lemma rb_serves_update:
  "fits v \<Longrightarrow> serves (rb_alive True) (rb_locked_inv True) 2 (rb_conc_update junk k v) (kv_seq (rb_ops junk) rb_read_at (CUpdate k v))"
  unfolding rb_conc_update_def rb_conc_insert_def
proof (rule serves_checked [OF rb_check_alive])
  fix s assume "fits v" and s: "rb_locked_inv True s"
  then show "\<exists>r s'. kv_seq (rb_ops junk) rb_read_at (CUpdate k v) s = ret (r, s') \<and> rb_locked_inv True s' \<and>
      sec_run (rb_alive True) Exclusive 2 (rb_conc_locked junk k v 0) s = ret (r, s')"
    using rb_locked_insert [OF s, of v junk k] rb_check_alive [of s]
    by (auto simp: rb_ops_def rb_update_def rb_locked_inv_def)
qed

lemma rb_locate_lookup:
  assumes "rb_lookup (rb_heap s) p k r = ret x"
  shows "\<exists>q. rb_locate (rb_heap s) p k = ret q \<and> follow rb_node_value s r q = ret x"
proof -
  have "\<forall>x. h = rb_heap s \<longrightarrow> y = Inr x \<longrightarrow>
      (\<exists>q. rb_locate h p k = ret q \<and> follow rb_node_value s r q = ret x)"
    if "rb_lookup h p k r = Some y" for h y
    using that
  proof (induction rule: rb_lookup.raw_induct [rotated, consumes 1])
    case (1 f h p k r y)
    show ?case
    proof (intro allI impI)
      fix x assume h: "h = rb_heap s" and y: "y = Inr x"
      note loc = rb_locate.simps [of h p k]
      show "\<exists>q. rb_locate h p k = ret q \<and> follow rb_node_value s r q = ret x"
      proof (cases p)
        case None
        then show ?thesis using 1(2) y loc by simp
      next
        case (Some a)
        note loc = rb_locate.simps [of "rb_heap s" "Some a" k]
        obtain n where n: "load h p = ret n"
          and b: "(if rb_key n = k then ret (StrP (rb_value n))
             else if rb_key n > k then f h (rb_left n) k r else f h (rb_right n) k r) = ret x"
          using 1(2) Some unfolding y by (auto simp: bindC_eq_ret)
        consider "rb_key n = k" | "rb_key n > k" "f h (rb_left n) k r = ret x"
          | "rb_key n < k" "f h (rb_right n) k r = ret x"
          using b by (cases "rb_key n = k"; cases "rb_key n > k") (simp_all add: linorder_not_less)
        then show ?thesis
        proof cases
          case 1
          then show ?thesis using n b Some h by (simp add: loc rb_node_value_def)
        next
          case 2
          then show ?thesis using 1(1) [OF 2(2)] n Some h by (auto simp: loc)
        next
          case 3
          then show ?thesis using 1(1) [OF 3(2)] n Some h by (auto simp: loc)
        qed
      qed
    qed
  qed
  from this [OF assms] show ?thesis by blast
qed

lemma rb_locked_read:
  assumes s: "rb_locked_inv b s"
  shows "\<exists>x. rb_lookup (rb_heap s) (rb_root s) k r = ret x"
proof -
  obtain t where t: "rb_inv s t" using s by (auto simp: rb_locked_inv_def rb_rep_def)
  then show ?thesis
    using rb_lookup_tree [of "rb_heap s" NULL t k r] rb_inv_root [OF t]
    by (auto simp: rb_inv_def rb_at_def)
qed

lemma rb_reads_through:
  assumes s: "rb_locked_inv True s"
  shows "reads_through (rb_ops junk) rb_read_at rb_node_value s k"
  unfolding reads_through_def
proof
  fix r
  have chk: "rb_check s = ret ()" using s by (auto simp: rb_locked_inv_def rb_check_alive)
  obtain x where x: "rb_lookup (rb_heap s) (rb_root s) k r = ret x" using rb_locked_read [OF s] by blast
  show "op_read (rb_ops junk) s k r =
      bindC (rb_read_at s k) (\<lambda>(st, q). bindC (follow rb_node_value s r q) (\<lambda>x. ret (st, x)))"
    using rb_locate_lookup [OF x] x chk
    by (auto simp: rb_ops_def rb_read_def rb_read_at_def find_at_def rb_find_def)
qed

lemma rb_serves_read:
  "serves (rb_alive True) (rb_locked_inv True) 2 (rb_conc_read md k) (kv_seq (rb_ops junk) rb_read_at (CRead k))"
  unfolding rb_conc_read_def rb_conc_found_def rb_read_at_def
proof (rule serves_read [OF rb_check_alive _ rb_reads_through [unfolded rb_read_at_def]])
  fix s assume s: "rb_locked_inv True s"
  then show "rb_alive True s" by (simp add: rb_locked_inv_def)
  then show "\<exists>x. op_read (rb_ops junk) s k Unset = ret x"
    using rb_locked_read [OF s, of k Unset] by (auto simp: rb_ops_def rb_read_def rb_check_alive)
qed simp_all

lemma rb_locked:
  "locked_store (rb_ops junk) rb_read_at rb_node_value (rb_conc_code md junk) (rb_alive b) (rb_locked_inv b) (writes_ok b) 2"
proof (rule locked_store_calls)
  show "rb_locked_inv b s \<Longrightarrow> rb_alive b s" for s by (simp add: rb_locked_inv_def)
qed (cases b, auto simp: rb_serves_insert rb_serves_update rb_serves_read rb_reads_through writes_ok_def simp del: kv_seq.simps)

interpretation rb_lock: locked_store "rb_ops junk" rb_read_at rb_node_value "rb_conc_code md junk" "rb_alive b" "rb_locked_inv b" "writes_ok b" 2
  for md junk b by (rule rb_locked)

end
