(* ===== verification/Array_Store.thy ===== *)
theory Array_Store
  imports Storeds_DB
begin

text \<open>
  \<^verbatim>\<open>src/storeds/array/array_dram.cc\<close>: a fixed array of 128-byte values indexed by the key modulo
  \<open>ARRAY_SIZE\<close>. A slot is \<open>None\<close> until it is written (the memory of \<^verbatim>\<open>malloc\<close>). The lemmas show
  that the array is a map for keys below \<open>ARRAY_SIZE\<close>, that other keys alias, and when a scan leaves
  the array.
\<close>

section \<open>State\<close>

definition ARRAY_SIZE :: int where "ARRAY_SIZE = 1000000"

type_synonym slots = "nat \<Rightarrow> string option"

record array_dram =
  array :: "slots block"

section \<open>Operations\<close>

definition arr_check :: "array_dram \<Rightarrow> int" where
  "arr_check s = (if array s = NullBlock then - 1 else 1)"

text \<open>\<open>malloc_ok\<close>: whether \<^verbatim>\<open>malloc\<close> returned a block.\<close>

definition arr_init :: "bool \<Rightarrow> int \<times> array_dram" where
  "arr_init malloc_ok =
     (if malloc_ok then (1, \<lparr>array = LiveBlock (\<lambda>_. None)\<rparr>) else (- 1, \<lparr>array = NullBlock\<rparr>))"

definition arr_offset :: "u64 \<Rightarrow> int" where
  "arr_offset key = uint (key mod word_of_int ARRAY_SIZE)"

text \<open>The element \<open>array[i]\<close>, and its characters read as a C string.\<close>

definition arr_elem :: "slots \<Rightarrow> int \<Rightarrow> string option comp" where
  "arr_elem a i = (if 0 \<le> i \<and> i < ARRAY_SIZE then ret (a (nat i)) else crash OutOfBounds)"

definition arr_string :: "slots \<Rightarrow> int \<Rightarrow> string comp" where
  "arr_string a i = bindC (arr_elem a i)
     (\<lambda>e. case e of None \<Rightarrow> crash UninitRead | Some v \<Rightarrow> ret v)"

definition arr_read :: "array_dram \<Rightarrow> u64 \<Rightarrow> outp \<Rightarrow> (int \<times> outp) comp" where
  "arr_read s key result =
     bindC (deref (array s)) (\<lambda>a.
     bindC (arr_elem a (arr_offset key)) (\<lambda>e.
       ret (1, case e of None \<Rightarrow> RawP | Some v \<Rightarrow> StrP v)))"

text \<open>\<open>for (i = 0; i < len && i < ARRAY_SIZE; i++)\<close>\<close>

function arr_scan_loop :: "slots \<Rightarrow> int \<Rightarrow> int \<Rightarrow> int \<Rightarrow> scan_result \<Rightarrow> scan_result comp" where
  "arr_scan_loop a offset len i result =
     (if i < len \<and> i < ARRAY_SIZE
      then bindC (arr_string a (offset + i)) (\<lambda>v.
             arr_scan_loop a offset len (i + 1) (result @ [[(word_of_int (offset + i), v)]]))
      else ret result)"
  by auto
termination by (relation "measure (\<lambda>(a, offset, len, i, result). nat (ARRAY_SIZE - i))") auto

declare arr_scan_loop.simps [simp del]

definition arr_scan :: "array_dram \<Rightarrow> u64 \<Rightarrow> int \<Rightarrow> scan_result \<Rightarrow> (int \<times> scan_result) comp" where
  "arr_scan s key len result =
     (if 0 < len then
        bindC (deref (array s)) (\<lambda>a.
        bindC (arr_scan_loop a (arr_offset key) len 0 result) (\<lambda>r. ret (1, r)))
      else ret (1, result))"

definition arr_write :: "slots \<Rightarrow> int \<Rightarrow> string \<Rightarrow> slots comp" where
  "arr_write a i value =
     bindC (arr_elem a i) (\<lambda>_.
     bindC (copy_value value) (\<lambda>v. ret (a(nat i := Some v))))"

definition arr_update :: "array_dram \<Rightarrow> u64 \<Rightarrow> string \<Rightarrow> (int \<times> array_dram) comp" where
  "arr_update s key value =
     bindC (deref (array s)) (\<lambda>a.
     bindC (arr_string a (arr_offset key)) (\<lambda>dummy_read.
     bindC (copy_value dummy_read) (\<lambda>_.
     bindC (arr_write a (arr_offset key) value) (\<lambda>a'.
       ret (1, s\<lparr>array := LiveBlock a'\<rparr>)))))"

definition arr_insert :: "array_dram \<Rightarrow> u64 \<Rightarrow> string \<Rightarrow> (int \<times> array_dram) comp" where
  "arr_insert s key value =
     bindC (deref (array s)) (\<lambda>a.
     bindC (arr_write a (arr_offset key) value) (\<lambda>a'.
       ret (1, s\<lparr>array := LiveBlock a'\<rparr>)))"

definition arr_destroy :: "array_dram \<Rightarrow> array_dram comp" where
  "arr_destroy s = bindC (free_block (array s)) (\<lambda>b. ret (s\<lparr>array := b\<rparr>))"

section \<open>The array as a map\<close>

definition arr_key_ok :: "u64 \<Rightarrow> bool" where
  "arr_key_ok k \<longleftrightarrow> k < 1000000"

definition arr_rep :: "array_dram \<Rightarrow> kv_map \<Rightarrow> bool" where
  "arr_rep s m \<longleftrightarrow> (\<exists>a. array s = LiveBlock a \<and> (\<forall>k. m k \<noteq> None \<longrightarrow> arr_key_ok k) \<and>
     (\<forall>k. arr_key_ok k \<longrightarrow> a (unat k) = m k) \<and> (\<forall>k v. m k = Some v \<longrightarrow> fits v))"

lemma arr_offset_bounds [simp]: "0 \<le> arr_offset k" "arr_offset k < ARRAY_SIZE"
proof -
  have "arr_offset k = uint k mod 1000000"
    unfolding arr_offset_def ARRAY_SIZE_def by (subst uint_mod) simp
  then show "0 \<le> arr_offset k" "arr_offset k < ARRAY_SIZE" by (simp_all add: ARRAY_SIZE_def)
qed

lemma arr_offset_ok: "arr_key_ok k \<Longrightarrow> arr_offset k = uint k"
  unfolding arr_offset_def arr_key_ok_def ARRAY_SIZE_def of_int_numeral
  by (subst mod_word_less) (assumption | rule refl)+

lemma arr_offset_nat: "arr_key_ok k \<Longrightarrow> nat (arr_offset k) = unat k"
  by (simp only: arr_offset_ok unat_eq_nat_uint)

lemma arr_elem_offset [simp]: "arr_elem a (arr_offset k) = ret (a (nat (arr_offset k)))"
  by (simp add: arr_elem_def)

lemma arr_rep_init: "arr_rep (snd (arr_init True)) Map.empty"
  by (simp add: arr_rep_def arr_init_def)

lemma arr_read_ok: "arr_rep s m \<Longrightarrow> m k = Some v \<Longrightarrow> arr_read s k r = ret (1, StrP v)"
  by (auto simp: arr_rep_def arr_read_def arr_offset_nat)

lemma arr_rep_write:
  assumes "arr_rep s m" "array s = LiveBlock a" "arr_key_ok k" "fits v"
  shows "arr_rep (s\<lparr>array := LiveBlock (a(unat k := Some v))\<rparr>) (m(k \<mapsto> v))"
proof -
  have "x = k" if "unat x = unat k" for x :: u64
    using that by (simp only: word_unat_eq_iff)
  then show ?thesis using assms by (auto simp: arr_rep_def)
qed

lemma arr_insert_ok:
  assumes "arr_rep s m" "arr_key_ok k" "fits v"
  shows "\<exists>s'. arr_insert s k v = ret (1, s') \<and> arr_rep s' (m(k \<mapsto> v))"
proof -
  obtain a where a: "array s = LiveBlock a" using assms(1) by (auto simp: arr_rep_def)
  have "arr_insert s k v = ret (1, s\<lparr>array := LiveBlock (a(unat k := Some v))\<rparr>)"
    using assms(2,3) a by (simp add: arr_insert_def arr_write_def arr_offset_nat)
  then show ?thesis using arr_rep_write [OF assms(1) a assms(2,3)] by blast
qed

lemma arr_update_ok:
  assumes "arr_rep s m" "m k = Some w" "fits v"
  shows "\<exists>s'. arr_update s k v = ret (1, s') \<and> arr_rep s' (m(k \<mapsto> v))"
proof -
  obtain a where a: "array s = LiveBlock a" "a (unat k) = Some w" and k: "arr_key_ok k" and w: "fits w"
    using assms(1,2) by (auto simp: arr_rep_def)
  have "arr_update s k v = ret (1, s\<lparr>array := LiveBlock (a(unat k := Some v))\<rparr>)"
    using assms(3) k a w
    by (simp add: arr_update_def arr_string_def arr_write_def arr_offset_nat)
  then show ?thesis using arr_rep_write [OF assms(1) a(1) k assms(3)] by blast
qed

definition arr_ops :: "array_dram storeds_base" where
  "arr_ops = \<lparr>op_read = arr_read, op_scan = arr_scan, op_update = arr_update,
     op_insert = arr_insert, op_destroy = arr_destroy\<rparr>"

interpretation arr: upsert_store arr_ops arr_rep arr_key_ok
  by unfold_locales (simp_all add: arr_ops_def arr_read_ok arr_update_ok arr_insert_ok del: fun_upd_apply)

section \<open>Scans\<close>

definition arr_entry :: "(nat \<Rightarrow> string) \<Rightarrow> int \<Rightarrow> (u64 \<times> string) list" where
  "arr_entry f i = [(word_of_int i, f (nat i))]"

lemma arr_scan_loop_in:
  assumes a: "\<forall>j. int j < ARRAY_SIZE \<longrightarrow> a j = Some (f j)" and "0 \<le> offset"
  shows "0 \<le> i \<Longrightarrow> n = nat (min len ARRAY_SIZE - i) \<Longrightarrow> offset + i + int n \<le> ARRAY_SIZE \<Longrightarrow>
    arr_scan_loop a offset len i res =
      ret (res @ map (\<lambda>j. arr_entry f (offset + i + int j)) [0..<n])"
proof (induction n arbitrary: i res)
  case 0
  then show ?case by (subst arr_scan_loop.simps) auto
next
  case (Suc n)
  then have i: "i < len" "i < ARRAY_SIZE" "n = nat (min len ARRAY_SIZE - (i + 1))" by auto
  from Suc.prems have o: "offset + i < ARRAY_SIZE" by linarith
  then have "a (nat (offset + i)) = Some (f (nat (offset + i)))"
    using Suc.prems(1) a assms(2) by simp
  then have step: "arr_scan_loop a offset len i res =
      arr_scan_loop a offset len (i + 1) (res @ [arr_entry f (offset + i)])"
    using i o Suc.prems(1) assms(2)
    by (subst arr_scan_loop.simps) (simp add: arr_string_def arr_elem_def arr_entry_def)
  have "map (\<lambda>j. arr_entry f (offset + i + int j)) [0..<Suc n] =
      arr_entry f (offset + i) # map (\<lambda>j. arr_entry f (offset + (i + 1) + int j)) [0..<n]"
    by (simp add: upt_conv_Cons map_Suc_upt [symmetric] comp_def add.assoc del: upt_Suc)
  moreover have "arr_scan_loop a offset len (i + 1) (res @ [arr_entry f (offset + i)]) =
      ret ((res @ [arr_entry f (offset + i)]) @ map (\<lambda>j. arr_entry f (offset + (i + 1) + int j)) [0..<n])"
    using Suc.prems(1,3) i(3) by (intro Suc.IH) (simp, simp, linarith)
  ultimately show ?case by (simp add: step del: upt_Suc)
qed

lemma arr_scan_loop_out:
  assumes a: "\<forall>j. int j < ARRAY_SIZE \<longrightarrow> a j = Some (f j)" and "0 \<le> offset"
  shows "0 \<le> i \<Longrightarrow> n = nat (ARRAY_SIZE - (offset + i)) \<Longrightarrow> offset + i \<le> ARRAY_SIZE \<Longrightarrow>
    ARRAY_SIZE < offset + min len ARRAY_SIZE \<Longrightarrow>
    arr_scan_loop a offset len i res = crash OutOfBounds"
proof (induction n arbitrary: i res)
  case 0
  then show ?case using assms(2)
    by (subst arr_scan_loop.simps) (auto simp: arr_string_def arr_elem_def)
next
  case (Suc n)
  then have "i < len" "i < ARRAY_SIZE" "n = nat (ARRAY_SIZE - (offset + (i + 1)))"
      "offset + i < ARRAY_SIZE" by auto
  moreover have "a (nat (offset + i)) = Some (f (nat (offset + i)))"
    using calculation(4) Suc.prems a assms(2) by simp
  ultimately show ?case
    using Suc.prems Suc.IH [of "i + 1"] assms(2)
    by (subst arr_scan_loop.simps) (simp add: arr_string_def arr_elem_def)
qed

section \<open>Properties\<close>

text \<open>
  C23: on a fresh array, any valid sequence of database calls whose inserted keys are below
  \<open>ARRAY_SIZE\<close> gives the results of a map.
\<close>

theorem arr_refines_map:
  "valid_run arr_key_ok upsert Map.empty cs \<Longrightarrow>
   \<exists>s'. db_run arr_ops (snd (arr_init True)) cs = ret (fst (spec_run upsert Map.empty cs), s') \<and>
     arr_rep s' (snd (spec_run upsert Map.empty cs))"
  by (rule arr.db_run_refines [OF arr_rep_init])

theorem arr_refines_map_witness:
  "\<exists>s'. db_run arr_ops (snd (arr_init True)) [DBInsert 7 [(''field'', ''a'')], DBRead 7] =
      ret ([RDone 0, RRead 0 [(7, ''a'')]], s')"
  using arr_refines_map [of "[DBInsert 7 [(''field'', ''a'')], DBRead 7]"]
  by (auto simp: arr_key_ok_def fits_def DEFAULT_VALUE_LEN_def c_str_def kOK_def)

text \<open>
  C37: with every slot written, a scan returns the \<open>min len ARRAY_SIZE\<close> slots from the key's on,
  unless these run over the end of the array: then it reads outside it, since the loop's guard
  bounds \<open>i\<close> and not \<open>offset + i\<close>.
\<close>

theorem arr_scan_bounds:
  assumes s: "array s = LiveBlock a" and a: "\<forall>j. int j < ARRAY_SIZE \<longrightarrow> a j = Some (f j)"
    and len: "0 < len"
  shows "arr_scan s key len res =
     (let offset = arr_offset key; n = min len ARRAY_SIZE in
      if offset + n \<le> ARRAY_SIZE
      then ret (1, res @ map (\<lambda>j. arr_entry f (offset + int j)) [0..<nat n])
      else crash OutOfBounds)"
proof (cases "arr_offset key + min len ARRAY_SIZE \<le> ARRAY_SIZE")
  case True
  then have "arr_scan_loop a (arr_offset key) len 0 res =
      ret (res @ map (\<lambda>j. arr_entry f (arr_offset key + 0 + int j)) [0..<nat (min len ARRAY_SIZE)])"
    using arr_offset_bounds(1) [of key] len
    by (intro arr_scan_loop_in [OF a]) (auto simp: ARRAY_SIZE_def)
  then show ?thesis using True s len by (simp add: arr_scan_def)
next
  case False
  then have "arr_scan_loop a (arr_offset key) len 0 res = crash OutOfBounds"
    using arr_offset_bounds [of key]
    by (intro arr_scan_loop_out [OF a _ _ refl]) (simp_all add: less_imp_le)
  then show ?thesis using False s len by (simp add: arr_scan_def)
qed

theorem arr_scan_bounds_witness:
  "arr_scan \<lparr>array = LiveBlock (\<lambda>_. Some ''v'')\<rparr> 999999 2 [] = crash OutOfBounds \<and>
   arr_scan \<lparr>array = LiveBlock (\<lambda>_. Some ''v'')\<rparr> 999999 1 [] = ret (1, [[(999999, ''v'')]])"
proof -
  have o: "arr_offset 999999 = 999999"
    by (simp add: arr_offset_ok arr_key_ok_def)
  show ?thesis
    using arr_scan_bounds [of "\<lparr>array = LiveBlock (\<lambda>_. Some ''v'')\<rparr>" "\<lambda>_. Some ''v''" "\<lambda>_. ''v''" 2 999999 "[]"]
      arr_scan_bounds [of "\<lparr>array = LiveBlock (\<lambda>_. Some ''v'')\<rparr>" "\<lambda>_. Some ''v''" "\<lambda>_. ''v''" 1 999999 "[]"]
    by (simp add: o ARRAY_SIZE_def arr_entry_def)
qed

text \<open>
  Keys that agree modulo \<open>ARRAY_SIZE\<close> share a slot, so inserting one changes what a read of
  the other returns.
\<close>

lemma arr_aliasing:
  "array s = LiveBlock a \<Longrightarrow> arr_offset j = arr_offset k \<Longrightarrow> fits v \<Longrightarrow>
   \<exists>s'. arr_insert s j v = ret (1, s') \<and> arr_read s' k r = ret (1, StrP v)"
  by (simp add: arr_insert_def arr_write_def arr_read_def)

end
