(* ===== verification/Linked_List.thy ===== *)
theory Linked_List
  imports Storeds_DB
begin

text \<open>
  \<^verbatim>\<open>src/storeds/linkedlist/linkedlist_dram.cc\<close>: the append-only linked list. The node and the
  list object are records over an explicit heap, so the pointer behaviour is the code's: what
  \<^verbatim>\<open>malloc\<close> leaves in \<^verbatim>\<open>next\<close> (the code never writes it in \<^verbatim>\<open>create_node\<close>) is the argument
  \<open>junk\<close>, and \<^verbatim>\<open>free\<close> removes the block. The lemmas relate the operations to the list of
  pairs in insertion order.
\<close>

section \<open>State\<close>

record ll_dram_node =
  ll_key :: u64
  ll_value :: string
  ll_next :: ptr

record linkedlist_dram =
  ll_heap :: "ll_dram_node heap"
  ll_head :: ptr
  ll_tail :: ptr

section \<open>Operations\<close>

definition ll_check :: "linkedlist_dram \<Rightarrow> unit comp" where
  "ll_check s = assertC (ll_head s \<noteq> NULL)"

definition ll_init :: "linkedlist_dram" where
  "ll_init = \<lparr>ll_heap = empty_heap, ll_head = NULL, ll_tail = NULL\<rparr>"

definition ll_scan ::
  "linkedlist_dram \<Rightarrow> u64 \<Rightarrow> int \<Rightarrow> scan_result \<Rightarrow> (int \<times> scan_result) comp" where
  "ll_scan s key len result = crash (Thrown ''Scan: function not implemented!'')"

text \<open>The search loop \<^verbatim>\<open>while (current_node != NULL)\<close> of \<open>read\<close> and \<open>update\<close>.\<close>

definition ll_find :: "ll_dram_node heap \<Rightarrow> ptr \<Rightarrow> u64 \<Rightarrow> ptr comp" where
  "ll_find h current_node key = search_chain ll_next ll_key h current_node key"

definition ll_read :: "linkedlist_dram \<Rightarrow> u64 \<Rightarrow> outp \<Rightarrow> (int \<times> outp) comp" where
  "ll_read s key result =
     bindC (ll_check s) (\<lambda>_.
     bindC (ll_find (ll_heap s) (ll_head s) key) (\<lambda>p.
       if p = NULL then ret (1, result)
       else bindC (load (ll_heap s) p) (\<lambda>n. ret (1, StrP (ll_value n)))))"

definition ll_update :: "linkedlist_dram \<Rightarrow> u64 \<Rightarrow> string \<Rightarrow> (int \<times> linkedlist_dram) comp" where
  "ll_update s key value =
     bindC (ll_check s) (\<lambda>_.
     bindC (ll_find (ll_heap s) (ll_head s) key) (\<lambda>p.
       if p = NULL then ret (1, s)
       else bindC (load (ll_heap s) p) (\<lambda>n.
            bindC (copy_value value) (\<lambda>v.
            bindC (store (ll_heap s) p (n\<lparr>ll_value := v\<rparr>)) (\<lambda>h.
              ret (1, s\<lparr>ll_heap := h\<rparr>))))))"

definition ll_create_node ::
  "ll_dram_node \<Rightarrow> ll_dram_node heap \<Rightarrow> u64 \<Rightarrow> string \<Rightarrow> (ptr \<times> ll_dram_node heap) comp" where
  "ll_create_node junk h key value =
     (let (new_node, h1) = malloc h junk in
      bindC (load h1 new_node) (\<lambda>n.
      bindC (copy_value value) (\<lambda>v.
      bindC (store h1 new_node (n\<lparr>ll_key := key, ll_value := v\<rparr>)) (\<lambda>h2.
        ret (new_node, h2)))))"

definition ll_insert ::
  "ll_dram_node \<Rightarrow> linkedlist_dram \<Rightarrow> u64 \<Rightarrow> string \<Rightarrow> (int \<times> linkedlist_dram) comp" where
  "ll_insert junk s key value =
     bindC (ll_create_node junk (ll_heap s) key value) (\<lambda>(new_node, h).
       if ll_head s = NULL
       then ret (1, s\<lparr>ll_heap := h, ll_head := new_node, ll_tail := new_node\<rparr>)
       else bindC (load h (ll_tail s)) (\<lambda>t.
            bindC (store h (ll_tail s) (t\<lparr>ll_next := new_node\<rparr>)) (\<lambda>h'.
            bindC (load h' (ll_tail s)) (\<lambda>t'.
              ret (1, s\<lparr>ll_heap := h', ll_tail := ll_next t'\<rparr>)))))"

definition ll_free_loop :: "ll_dram_node heap \<Rightarrow> ptr \<Rightarrow> ll_dram_node heap comp" where
  "ll_free_loop h head = free_chain ll_next h head"

definition ll_destroy :: "linkedlist_dram \<Rightarrow> linkedlist_dram comp" where
  "ll_destroy s =
     bindC (if ll_tail s \<noteq> NULL then cfree (ll_heap s) (ll_tail s) else ret (ll_heap s)) (\<lambda>h.
     bindC (ll_free_loop h (ll_head s)) (\<lambda>h'.
       ret (s\<lparr>ll_heap := h', ll_head := NULL\<rparr>)))"

section \<open>The list the heap represents\<close>

text \<open>
  \<open>ll_list s as q\<close>: the nodes at \<open>as\<close> are the list from \<open>head\<close> to \<open>tail\<close>, and the last one's
  \<open>next\<close> field holds \<open>q\<close>.
\<close>

definition ll_list :: "linkedlist_dram \<Rightarrow> nat list \<Rightarrow> ptr \<Rightarrow> bool" where
  "ll_list s as q \<longleftrightarrow> heap_ok (ll_heap s) \<and> distinct as \<and>
     (if as = [] then ll_head s = NULL \<and> ll_tail s = NULL \<and> q = NULL
      else chain ll_next (mem (ll_heap s)) (ll_head s) as q \<and> ll_tail s = Some (last as))"

abbreviation ll_pairs :: "linkedlist_dram \<Rightarrow> nat list \<Rightarrow> (u64 \<times> string) list" where
  "ll_pairs s as \<equiv> assoc_of ll_key ll_value (mem (ll_heap s)) as"

text \<open>
  The list as a map: the first binding of a key counts. The \<open>next\<close> field of the last node may hold
  anything.
\<close>

definition ll_rep :: "linkedlist_dram \<Rightarrow> (u64 \<rightharpoonup> string) \<Rightarrow> bool" where
  "ll_rep s m \<longleftrightarrow> (\<exists>as q. ll_list s as q \<and> m = map_of (ll_pairs s as))"

lemma ll_list_init [simp]: "ll_list ll_init [] NULL"
  by (simp add: ll_list_def ll_init_def)

lemma ll_list_head: "ll_list s as q \<Longrightarrow> ll_head s = NULL \<longleftrightarrow> as = []"
  by (cases as) (auto simp: ll_list_def)

lemma ll_check_list: "ll_list s as q \<Longrightarrow> ll_check s = assertC (as \<noteq> [])"
  by (simp add: ll_check_def ll_list_head)

lemma ll_list_chain:
  "ll_list s as q \<Longrightarrow> as \<noteq> [] \<Longrightarrow> chain ll_next (mem (ll_heap s)) (ll_head s) as q"
  by (simp add: ll_list_def)

lemma ll_read_found:
  assumes l: "ll_list s as q" and k: "map_of (ll_pairs s as) k = Some v"
  shows "ll_read s k r = ret (1, StrP v)"
proof -
  have ne: "as \<noteq> []" using k by auto
  from ll_list_chain [OF l ne] k show ?thesis
    by (rule search_chain_found) (simp add: ll_read_def ll_find_def ll_check_list [OF l] ne)
qed

lemma ll_read_missing:
  assumes l: "ll_list s as q" and ne: "as \<noteq> []" and k: "map_of (ll_pairs s as) k = None"
  shows "ll_read s k r =
     bindC (ll_find (ll_heap s) q k) (\<lambda>p. if p = NULL then ret (1, r)
       else bindC (load (ll_heap s) p) (\<lambda>n. ret (1, StrP (ll_value n))))"
  using ne by (simp add: ll_read_def ll_find_def ll_check_list [OF l]
      search_chain_missing [OF ll_list_chain [OF l ne] k])

lemma ll_create_node_eq:
  "fits v \<Longrightarrow> ll_create_node junk h k v =
     ret (Some (brk h), h\<lparr>mem := (mem h)(brk h \<mapsto> junk\<lparr>ll_key := k, ll_value := v\<rparr>),
                          brk := Suc (brk h)\<rparr>)"
  by (simp add: ll_create_node_def malloc_def)

lemma ll_list_fresh:
  assumes l: "ll_list s as q"
  shows "brk (ll_heap s) \<notin> set as"
proof
  assume b: "brk (ll_heap s) \<in> set as"
  then have "as \<noteq> []" by auto
  with l b obtain n where "mem (ll_heap s) (brk (ll_heap s)) = Some n"
    using chain_allocated ll_list_chain by metis
  with l show False by (simp add: ll_list_def heap_ok_fresh)
qed

lemma ll_insert_list:
  assumes l: "ll_list s as q" and v: "fits v"
  shows "\<exists>s'. ll_insert junk s k v = ret (1, s') \<and>
     ll_list s' (as @ [brk (ll_heap s)]) (ll_next junk) \<and>
     ll_pairs s' (as @ [brk (ll_heap s)]) = ll_pairs s as @ [(k, v)]"
proof (cases "as = []")
  case True
  with l v show ?thesis
    by (auto simp: ll_insert_def ll_list_def ll_create_node_eq heap_ok_def less_Suc_eq)
next
  case False
  let ?h = "ll_heap s" and ?b = "brk (ll_heap s)"
  obtain bs t where as: "as = bs @ [t]" using False by (metis append_butlast_last_id)
  have hd: "ll_head s \<noteq> NULL" and tl: "ll_tail s = Some t" and d: "t \<notin> set bs" "distinct bs"
    and c: "chain ll_next (mem ?h) (ll_head s) (bs @ [t]) q" and ok: "heap_ok ?h"
    using l False as ll_list_head [OF l] by (auto simp: ll_list_def)
  obtain tn where tn: "mem ?h t = Some tn" using c by auto
  have b: "?b \<notin> set bs" "?b \<noteq> t" "t < ?b"
    using ll_list_fresh [OF l] as ok tn by (auto intro: heap_ok_less)
  show ?thesis
    using v hd tl tn b c d ok unfolding as
    by (auto simp: ll_insert_def ll_create_node_eq ll_list_def chain_frame contents_frame
        heap_ok_def less_Suc_eq)
qed

lemma ll_update_list:
  assumes l: "ll_list s as q" and v: "fits v" and k: "map_of (ll_pairs s as) k = Some w"
  shows "\<exists>s'. ll_update s k v = ret (1, s') \<and> ll_list s' as q \<and>
     map_of (ll_pairs s' as) = (map_of (ll_pairs s as))(k \<mapsto> v)"
proof -
  let ?m = "mem (ll_heap s)"
  have ne: "as \<noteq> []" using k by auto
  note c = ll_list_chain [OF l ne]
  obtain a n where a: "search_chain ll_next ll_key (ll_heap s) (ll_head s) k = ret (Some a)"
      "a \<in> set as" "?m a = Some n" "ll_key n = k" "find_key ll_key ?m k as = Some a"
    using search_chain_found [OF c k] by metis
  have "map_of (assoc_of ll_key ll_value (?m(a \<mapsto> n\<lparr>ll_value := v\<rparr>)) as) =
      (map_of (ll_pairs s as))(k \<mapsto> v)"
    using l a by (subst assoc_upd_found [OF a(5)]) (auto simp: ll_list_def)
  moreover have "chain ll_next (?m(a \<mapsto> n\<lparr>ll_value := v\<rparr>)) (ll_head s) as q"
    using c a by (simp add: chain_upd_same_next)
  ultimately show ?thesis
    using a ne v l by (auto simp: ll_update_def ll_find_def ll_check_list [OF l] ll_list_def heap_ok_def)
qed

lemma ll_update_missing:
  assumes l: "ll_list s as NULL" and ne: "as \<noteq> []" and k: "map_of (ll_pairs s as) k = None"
  shows "ll_update s k v = ret (1, s)"
  using ne by (simp add: ll_update_def ll_find_def ll_check_list [OF l]
      search_chain_missing [OF ll_list_chain [OF l ne] k])

section \<open>The list as a store\<close>

text \<open>
  Whatever \<^verbatim>\<open>malloc\<close> leaves in \<open>next\<close>, the list is a store whose first insert of a key counts, as
  long as the keys looked for are in it.
\<close>

definition ll_ops :: "ll_dram_node \<Rightarrow> linkedlist_dram storeds_base" where
  "ll_ops junk = \<lparr>op_read = ll_read, op_scan = ll_scan, op_update = ll_update,
     op_insert = ll_insert junk, op_destroy = ll_destroy\<rparr>"

interpretation ll: log_store "ll_ops junk" ll_rep "\<lambda>_. True" for junk
proof unfold_locales
  fix s m k v r
  assume "ll_rep s m" and "m k = Some v"
  then show "op_read (ll_ops junk) s k r = ret (1, StrP v)"
    by (auto simp: ll_rep_def ll_ops_def intro: ll_read_found)
next
  fix s m k w v
  assume "ll_rep s m" and "m k = Some w" and "fits v"
  then show "\<exists>s'. op_update (ll_ops junk) s k v = ret (1, s') \<and> ll_rep s' (m(k \<mapsto> v))"
    using ll_update_list unfolding ll_rep_def ll_ops_def by fastforce
next
  fix s m k v
  assume "ll_rep s m" and v: "fits v"
  then obtain as q where l: "ll_list s as q" and m: "m = map_of (ll_pairs s as)"
    by (auto simp: ll_rep_def)
  obtain s' where s': "ll_insert junk s k v = ret (1, s')"
      "ll_list s' (as @ [brk (ll_heap s)]) (ll_next junk)"
      "ll_pairs s' (as @ [brk (ll_heap s)]) = ll_pairs s as @ [(k, v)]"
    using ll_insert_list [OF l v, of junk k] by auto
  have "map_of (ll_pairs s' (as @ [brk (ll_heap s)])) = add_new m k v"
    unfolding s'(3) m add_new_def by (rule ext) (auto simp: map_add_def split: option.splits)
  then have "ll_rep s' (add_new m k v)"
    using s'(2) unfolding ll_rep_def
    by (intro exI [of _ "as @ [brk (ll_heap s)]"] exI [of _ "ll_next junk"]) simp
  then show "\<exists>s'. op_insert (ll_ops junk) s k v = ret (1, s') \<and>
      ll_rep s' (add_new m k v)"
    using s'(1) by (auto simp: ll_ops_def)
qed


lemma ll_rep_init [simp]: "ll_rep ll_init Map.empty"
  unfolding ll_rep_def by (rule exI [of _ "[]"], rule exI [of _ NULL]) simp

lemma ll_destroy_list:
  assumes "ll_list s as q" and "as \<noteq> []"
  shows "ll_destroy s = crash WildDeref"
proof -
  let ?h = "ll_heap s"
  obtain bs t where as: "as = bs @ [t]" using assms(2) by (metis append_butlast_last_id)
  have c: "chain ll_next (mem ?h) (ll_head s) (bs @ [t]) q" and tl: "ll_tail s = Some t"
    and d: "distinct (bs @ [t])"
    using assms as by (auto simp: ll_list_def)
  obtain n where n: "mem ?h t = Some n" using c by auto
  have "ll_free_loop (?h\<lparr>mem := (mem ?h)(t := None)\<rparr>) (ll_head s) = crash WildDeref"
    unfolding ll_free_loop_def by (rule free_chain_freed [OF c d]) simp
  then show ?thesis by (simp add: ll_destroy_def tl n)
qed

section \<open>Properties\<close>

text \<open>
  C22: any sequence of database calls on the linked list that reads and updates only keys already
  inserted gives exactly the results of a map in which the first insert of a key counts, and leaves
  a list holding that map, whatever \<^verbatim>\<open>malloc\<close> left in the nodes (\<open>junk\<close>), the \<open>next\<close> field included,
  which the code never initialises.
\<close>

theorem ll_refines_map:
  "valid_run (\<lambda>_. True) add_new Map.empty cs \<Longrightarrow>
   \<exists>s'. db_run (ll_ops junk) ll_init cs = ret (fst (spec_run add_new Map.empty cs), s') \<and>
     ll_rep s' (snd (spec_run add_new Map.empty cs))"
  by (rule ll.db_run_refines [OF ll_rep_init])

theorem ll_refines_map_witness:
  "\<forall>junk. \<exists>s'. db_run (ll_ops junk) ll_init
      [DBInsert 3 [(''field'', ''a'')], DBUpdate 3 [(''field'', ''b'')], DBRead 3] =
      ret ([RDone 0, RDone 0, RRead 0 [(3, ''b'')]], s')"
  using ll_refines_map [of "[DBInsert 3 [(''field'', ''a'')], DBUpdate 3 [(''field'', ''b'')], DBRead 3]"]
  by (auto simp: add_new_def fits_def DEFAULT_VALUE_LEN_def c_str_def kOK_def)

text \<open>
  Destroying a non-empty list touches freed memory: the tail is freed first and the loop
  that frees the nodes then walks from the head into it.
\<close>

lemma ll_destroy_use_after_free:
  "ll_list s as q \<Longrightarrow> as \<noteq> [] \<Longrightarrow> ll_destroy s = crash WildDeref"
  by (rule ll_destroy_list)

lemma ll_destroy_use_after_free_example:
  "\<forall>junk. \<exists>s. ll_insert junk ll_init 1 ''x'' = ret (1, s) \<and> ll_destroy s = crash WildDeref"
proof
  fix junk
  obtain s' where "ll_insert junk ll_init 1 ''x'' = ret (1, s')"
      "ll_list s' ([] @ [brk (ll_heap ll_init)]) (ll_next junk)"
    using ll_insert_list [OF ll_list_init, of "''x''" junk 1]
    by (auto simp: fits_def DEFAULT_VALUE_LEN_def)
  then show "\<exists>s. ll_insert junk ll_init 1 ''x'' = ret (1, s) \<and> ll_destroy s = crash WildDeref"
    using ll_destroy_use_after_free by blast
qed

text \<open>
  \<open>create_node\<close> never writes \<open>next\<close>. If the memory \<^verbatim>\<open>malloc\<close> returned for the last node
  held a wild pointer there, then reading a key that is not in the list follows it.
\<close>

lemma ll_read_missing_wild:
  "ll_list s as (Some w) \<Longrightarrow> as \<noteq> [] \<Longrightarrow> mem (ll_heap s) w = None \<Longrightarrow>
   map_of (ll_pairs s as) k = None \<Longrightarrow> ll_read s k r = crash WildDeref"
  by (simp add: ll_read_missing ll_find_def search_chain.simps [of _ _ _ "Some w"])

end
