(* ===== verification/Hash_List.thy ===== *)
theory Hash_List
  imports Linked_List Hash_Table
begin

text \<open>
  \<^verbatim>\<open>src/storeds/hashlist/hl_dram.cc\<close>: the hash list. Its bucket chains hold keys and pointers into
  a linked list, whose nodes hold the values, so two heaps are involved: a value is reached
  through an entry. \<open>struct dram_hashlist\<close> and \<open>struct hl_dram_buckets\<close> have the fields of the
  hash table's structures and share their records; the list part is the list object of
  \<open>Linked_List\<close>. The lemmas show that the two structures stay in step and that the store is a map.
\<close>

section \<open>State\<close>

record hl_dram_entry =
  he_key :: u64
  he_ll_p :: ptr
  he_next :: ptr

type_synonym hl_dram_buckets = dram_buckets
type_synonym dram_hashlist = dram_hashtable

record hl_dram =
  hl_heap :: "hl_dram_entry heap"
  hl_root :: "dram_hashlist block"
  hl_list :: linkedlist_dram

section \<open>Operations\<close>

definition hl_check :: "hl_dram \<Rightarrow> unit comp" where
  "hl_check s =
     (if hl_root s = NullBlock then crash AssertFail
      else bindC (deref (hl_root s)) (\<lambda>r. assertC (buckets r \<noteq> NullBlock)))"

definition hl_hash_function :: "dram_hashlist \<Rightarrow> hl_dram_buckets \<Rightarrow> u64 \<Rightarrow> u64" where
  "hl_hash_function r b value =
     (let a = hash_fun_coeff_a r; c = hash_fun_coeff_b r; p = hash_fun_coeff_p r; len = nbuckets b
      in ((value * ucast a + ucast c) mod p) mod len)"

definition hl_init :: "u32 \<Rightarrow> (nat \<Rightarrow> u32) \<Rightarrow> (int \<times> hl_dram) comp" where
  "hl_init time rnd =
     bindC (ht_init_coeff rnd 0) (\<lambda>(a, i).
       ret (1, \<lparr>hl_heap = empty_heap, hl_root = LiveBlock
         \<lparr>seed = time, hash_fun_coeff_a = a, hash_fun_coeff_b = rnd i,
          hash_fun_coeff_p = HASH_FUNC_COEFF_P,
          buckets = LiveBlock \<lparr>nbuckets = of_nat INIT_BUCKETS_NUM, bucket = LiveBlock (\<lambda>_. NULL)\<rparr>\<rparr>,
         hl_list = \<lparr>ll_heap = empty_heap, ll_head = NULL, ll_tail = NULL\<rparr>\<rparr>))"

definition hl_scan :: "hl_dram \<Rightarrow> u64 \<Rightarrow> int \<Rightarrow> scan_result \<Rightarrow> (int \<times> scan_result) comp" where
  "hl_scan s key len result = crash (Thrown ''Scan: function not implemented!'')"

definition hl_read :: "hl_dram \<Rightarrow> u64 \<Rightarrow> outp \<Rightarrow> (int \<times> outp) comp" where
  "hl_read s key result =
     bindC (hl_check s) (\<lambda>_.
     bindC (deref (hl_root s)) (\<lambda>r.
     bindC (deref (buckets r)) (\<lambda>b.
     bindC (bucket_get b (unat (hl_hash_function r b key))) (\<lambda>head.
     bindC (search_chain he_next he_key (hl_heap s) head key) (\<lambda>p.
       if p = NULL then ret (1, result)
       else bindC (load (hl_heap s) p) (\<lambda>e.
            bindC (load (ll_heap (hl_list s)) (he_ll_p e)) (\<lambda>n. ret (1, StrP (ll_value n)))))))))"

text \<open>As in the hash table, \<open>new_hash_entry\<close> allocates a second block for \<open>next\<close>.\<close>

definition hl_new_hash_entry ::
  "hl_dram_entry \<Rightarrow> hl_dram_entry heap \<Rightarrow> u64 \<Rightarrow> ptr \<Rightarrow> (ptr \<times> hl_dram_entry heap) comp" where
  "hl_new_hash_entry junk h key ll_p =
     (let (entry_p, h1) = malloc h junk in
      bindC (load h1 entry_p) (\<lambda>n.
      bindC (store h1 entry_p (n\<lparr>he_key := key, he_ll_p := ll_p\<rparr>)) (\<lambda>h2.
      let (next_p, h3) = malloc h2 junk in
      bindC (load h3 entry_p) (\<lambda>n'.
      bindC (store h3 entry_p (n'\<lparr>he_next := next_p\<rparr>)) (\<lambda>h4. ret (entry_p, h4))))))"

definition hl_create_ll_node ::
  "ll_dram_node \<Rightarrow> ll_dram_node heap \<Rightarrow> u64 \<Rightarrow> string \<Rightarrow> (ptr \<times> ll_dram_node heap) comp" where
  "hl_create_ll_node junk h key value =
     (let (new_node, h1) = malloc h junk in
      bindC (load h1 new_node) (\<lambda>n.
      bindC (copy_value value) (\<lambda>v.
      bindC (store h1 new_node (n\<lparr>ll_key := key, ll_value := v\<rparr>)) (\<lambda>h2.
        ret (new_node, h2)))))"

text \<open>The new node and the list with it at the tail.\<close>

definition hl_append ::
  "ll_dram_node \<Rightarrow> linkedlist_dram \<Rightarrow> u64 \<Rightarrow> string \<Rightarrow> (ptr \<times> linkedlist_dram) comp" where
  "hl_append junk l key value =
     bindC (hl_create_ll_node junk (ll_heap l) key value) (\<lambda>(new_node, h).
       if ll_head l = NULL
       then ret (new_node, l\<lparr>ll_heap := h, ll_head := new_node, ll_tail := new_node\<rparr>)
       else bindC (load h (ll_tail l)) (\<lambda>t.
            bindC (store h (ll_tail l) (t\<lparr>ll_next := new_node\<rparr>)) (\<lambda>h'.
            bindC (load h' (ll_tail l)) (\<lambda>t'.
              ret (new_node, l\<lparr>ll_heap := h', ll_tail := ll_next t'\<rparr>)))))"

definition hl_insert ::
  "hl_dram_entry \<Rightarrow> ll_dram_node \<Rightarrow> hl_dram \<Rightarrow> u64 \<Rightarrow> string \<Rightarrow> (int \<times> hl_dram) comp" where
  "hl_insert junk ll_junk s key value =
     bindC (hl_check s) (\<lambda>_.
     bindC (deref (hl_root s)) (\<lambda>r.
     bindC (deref (buckets r)) (\<lambda>b.
     let hash_value = unat (hl_hash_function r b key) in
     bindC (bucket_get b hash_value) (\<lambda>head.
     bindC (search_chain he_next he_key (hl_heap s) head key) (\<lambda>p.
       if p \<noteq> NULL
       then bindC (load (hl_heap s) p) (\<lambda>e.
            bindC (load (ll_heap (hl_list s)) (he_ll_p e)) (\<lambda>n.
            bindC (copy_value value) (\<lambda>v.
            bindC (store (ll_heap (hl_list s)) (he_ll_p e) (n\<lparr>ll_value := v\<rparr>)) (\<lambda>h.
              ret (1, s\<lparr>hl_list := (hl_list s)\<lparr>ll_heap := h\<rparr>\<rparr>)))))
       else bindC (hl_append ll_junk (hl_list s) key value) (\<lambda>(new_node, l).
            bindC (hl_new_hash_entry junk (hl_heap s) key new_node) (\<lambda>(entry_p, h).
            bindC (bucket_get b hash_value) (\<lambda>first.
            bindC (load h entry_p) (\<lambda>n.
            bindC (store h entry_p (n\<lparr>he_next := first\<rparr>)) (\<lambda>h'.
            bindC (bucket_set b hash_value entry_p) (\<lambda>b'.
              ret (1, \<lparr>hl_heap = h', hl_root = LiveBlock (r\<lparr>buckets := LiveBlock b'\<rparr>),
                hl_list = l\<rparr>))))))))))))"

definition hl_update ::
  "hl_dram_entry \<Rightarrow> ll_dram_node \<Rightarrow> hl_dram \<Rightarrow> u64 \<Rightarrow> string \<Rightarrow> (int \<times> hl_dram) comp" where
  "hl_update junk ll_junk s key value = hl_insert junk ll_junk s key value"

definition free_hl_entry_chain :: "hl_dram_entry heap \<Rightarrow> ptr \<Rightarrow> hl_dram_entry heap comp" where
  "free_hl_entry_chain h head = free_chain he_next h head"

definition hl_destroy_buckets :: "hl_dram_buckets \<Rightarrow> hl_dram_entry heap \<Rightarrow> hl_dram_entry heap comp" where
  "hl_destroy_buckets b h =
     for_loop 0 INIT_BUCKETS_NUM (\<lambda>i h. bindC (bucket_get b i) (\<lambda>entry_p.
       if entry_p \<noteq> NULL then free_hl_entry_chain h entry_p else ret h)) h"

text \<open>\<open>if (tail != NULL) free(tail);\<close> and the loop from \<open>head\<close>, as in the linked list.\<close>

definition hl_destroy_list :: "linkedlist_dram \<Rightarrow> linkedlist_dram comp" where
  "hl_destroy_list l =
     bindC (if ll_tail l \<noteq> NULL then cfree (ll_heap l) (ll_tail l) else ret (ll_heap l)) (\<lambda>h.
     bindC (free_chain ll_next h (ll_head l)) (\<lambda>h'.
       ret (l\<lparr>ll_heap := h', ll_head := NULL\<rparr>)))"

definition hl_destroy :: "hl_dram \<Rightarrow> hl_dram comp" where
  "hl_destroy s =
     bindC (hl_check s) (\<lambda>_.
     bindC (deref (hl_root s)) (\<lambda>r.
     bindC (deref (buckets r)) (\<lambda>b.
     bindC (hl_destroy_buckets b (hl_heap s)) (\<lambda>h.
     bindC (free_block (bucket b)) (\<lambda>_.
     bindC (free_block (buckets r)) (\<lambda>_.
     bindC (free_block (hl_root s)) (\<lambda>root'.
     bindC (hl_destroy_list (hl_list s)) (\<lambda>l.
       ret (s\<lparr>hl_heap := h, hl_root := root', hl_list := l\<rparr>)))))))))"

section \<open>Invariant\<close>

text \<open>
  \<open>hl_inv s r b f B as q\<close>: the buckets are chains \<open>B\<close> of entries under their hash, the list is
  \<open>as\<close>, and every entry points to its own list node, which has the entry's key.
\<close>

definition hl_inv ::
  "hl_dram \<Rightarrow> dram_hashlist \<Rightarrow> hl_dram_buckets \<Rightarrow> (nat \<Rightarrow> ptr) \<Rightarrow> (nat \<Rightarrow> nat list) \<Rightarrow> nat list \<Rightarrow> ptr \<Rightarrow> bool" where
  "hl_inv s r b f B as q \<longleftrightarrow>
     hl_root s = LiveBlock r \<and> buckets r = LiveBlock b \<and> bucket b = LiveBlock f \<and>
     nbuckets b = of_nat INIT_BUCKETS_NUM \<and> heap_ok (hl_heap s) \<and>
     (\<forall>i. chain he_next (mem (hl_heap s)) (f i) (B i) NULL \<and> distinct (B i) \<and>
        (\<forall>a \<in> set (B i). unat (hl_hash_function r b (he_key (the (mem (hl_heap s) a)))) = i \<and>
          (\<exists>x \<in> set as. he_ll_p (the (mem (hl_heap s) a)) = Some x \<and>
            ll_key (the (mem (ll_heap (hl_list s)) x)) = he_key (the (mem (hl_heap s) a))))) \<and>
     inj_on (\<lambda>a. he_ll_p (the (mem (hl_heap s) a))) (\<Union>i. set (B i)) \<and>
     ll_list (hl_list s) as q"

text \<open>The value behind an entry, and the map.\<close>

definition hl_val :: "hl_dram \<Rightarrow> nat \<Rightarrow> string" where
  "hl_val s a = ll_value (the (mem (ll_heap (hl_list s)) (the (he_ll_p (the (mem (hl_heap s) a))))))"

definition hl_map :: "hl_dram \<Rightarrow> dram_hashlist \<Rightarrow> hl_dram_buckets \<Rightarrow> (nat \<Rightarrow> nat list) \<Rightarrow> kv_map" where
  "hl_map s r b B k = map_option (hl_val s)
     (find_key he_key (mem (hl_heap s)) k (B (unat (hl_hash_function r b k))))"

definition hl_rep :: "hl_dram \<Rightarrow> kv_map \<Rightarrow> bool" where
  "hl_rep s m \<longleftrightarrow> (\<exists>r b f B as q. hl_inv s r b f B as q \<and> m = hl_map s r b B)"

lemma hl_hash_eq: "hl_hash_function = hash_function"
  by (simp add: hl_hash_function_def hash_function_def fun_eq_iff)

lemma hl_inv_live:
  assumes "hl_inv s r b f B as q"
  shows "hl_check s = ret ()" and "hl_root s = LiveBlock r" and "buckets r = LiveBlock b"
    and "bucket b = LiveBlock f" and "heap_ok (hl_heap s)"
    and "chain he_next (mem (hl_heap s)) (f i) (B i) NULL" and "distinct (B i)"
    and "bucket_get b (unat (hl_hash_function r b k)) = ret (f (unat (hl_hash_function r b k)))"
    and "unat (hl_hash_function r b k) < INIT_BUCKETS_NUM"
    and "ll_list (hl_list s) as q"
  using assms hash_function_less [of b r k]
  by (auto simp: hl_inv_def hl_check_def bucket_get_def hl_hash_eq)

lemma hl_inv_entry:
  assumes "hl_inv s r b f B as q" and "a \<in> set (B i)"
  obtains e x n where "mem (hl_heap s) a = Some e" and "he_ll_p e = Some x" and "x \<in> set as"
    and "mem (ll_heap (hl_list s)) x = Some n" and "ll_key n = he_key e"
    and "unat (hl_hash_function r b (he_key e)) = i" and "a < brk (hl_heap s)"
proof -
  obtain e where e: "mem (hl_heap s) a = Some e"
    using chain_allocated [OF hl_inv_live(6) [OF assms(1)] assms(2)] by blast
  with assms obtain x where x: "x \<in> set as" "he_ll_p e = Some x"
      "ll_key (the (mem (ll_heap (hl_list s)) x)) = he_key e" "unat (hl_hash_function r b (he_key e)) = i"
    by (fastforce simp: hl_inv_def)
  have l: "ll_list (hl_list s) as q" using assms(1) by (simp add: hl_inv_def)
  obtain n where "mem (ll_heap (hl_list s)) x = Some n"
    using chain_allocated [OF ll_list_chain [OF l] x(1)] x(1) by force
  with that e x heap_ok_less [OF hl_inv_live(5) [OF assms(1)] e] show thesis by simp
qed

lemma hl_inv_disjoint: "hl_inv s r b f B as q \<Longrightarrow> a \<in> set (B i) \<Longrightarrow> a \<in> set (B j) \<Longrightarrow> i = j"
  using hl_inv_entry by (metis option.inject)

text \<open>The search of a bucket, and what it finds.\<close>

lemma hl_search:
  assumes inv: "hl_inv s r b f B as q"
  shows "search_chain he_next he_key (hl_heap s) (f i) k = ret (find_key he_key (mem (hl_heap s)) k (B i))"
  using search_chain_eq [OF hl_inv_live(6) [OF inv, of i], of he_key k]
  by (simp split: option.splits)

lemma hl_read_eq:
  assumes inv: "hl_inv s r b f B as q"
  shows "hl_read s k res = (case hl_map s r b B k of Some v \<Rightarrow> ret (1, StrP v) | None \<Rightarrow> ret (1, res))"
proof (cases "find_key he_key (mem (hl_heap s)) k (B (unat (hl_hash_function r b k)))")
  case None
  then show ?thesis by (simp add: hl_read_def hl_inv_live [OF inv] hl_search [OF inv] hl_map_def)
next
  case (Some a)
  then have "a \<in> set (B (unat (hl_hash_function r b k)))" using find_key_Some by metis
  with inv obtain e x n where "mem (hl_heap s) a = Some e" "he_ll_p e = Some x"
      "mem (ll_heap (hl_list s)) x = Some n"
    using hl_inv_entry by metis
  with Some show ?thesis
    by (simp add: hl_read_def hl_inv_live [OF inv] hl_search [OF inv] hl_map_def hl_val_def)
qed


section \<open>Insertion\<close>

lemma hl_insert_present:
  assumes inv: "hl_inv s r b f B as q" and v: "fits v" and k: "hl_map s r b B k = Some w"
  shows "\<exists>s'. hl_insert junk ll_junk s k v = ret (1, s') \<and> hl_inv s' r b f B as q \<and>
     hl_map s' r b B = (hl_map s r b B)(k \<mapsto> v)"
proof -
  let ?i = "unat (hl_hash_function r b k)" and ?h = "hl_heap s" and ?l = "hl_list s"
  obtain a where fk: "find_key he_key (mem ?h) k (B ?i) = Some a" using k by (auto simp: hl_map_def)
  then have a: "a \<in> set (B ?i)" "he_key (the (mem ?h a)) = k" using find_key_Some by metis+
  obtain e x n where e: "mem ?h a = Some e" "he_ll_p e = Some x" "mem (ll_heap ?l) x = Some n" "x \<in> set as"
    using hl_inv_entry [OF inv a(1)] by metis
  let ?l' = "?l\<lparr>ll_heap := (ll_heap ?l)\<lparr>mem := (mem (ll_heap ?l))(x \<mapsto> n\<lparr>ll_value := v\<rparr>)\<rparr>\<rparr>"
  let ?s = "s\<lparr>hl_list := ?l'\<rparr>"
  have run: "hl_insert junk ll_junk s k v = ret (1, ?s)"
    using e v fk by (simp add: hl_insert_def hl_inv_live [OF inv] hl_search [OF inv] Let_def)
  have "ll_list ?l' as q"
    using hl_inv_live(10) [OF inv] e(3) by (auto simp: ll_list_def chain_upd_same_next heap_ok_def)
  moreover have "ll_key (the (mem (ll_heap ?l') y)) = ll_key (the (mem (ll_heap ?l) y))" for y
    using e(3) by simp
  ultimately have inv': "hl_inv ?s r b f B as q"
    using inv unfolding hl_inv_def by (simp del: fun_upd_apply)
  have "hl_map ?s r b B j = ((hl_map s r b B)(k \<mapsto> v)) j" for j
  proof (cases "find_key he_key (mem ?h) j (B (unat (hl_hash_function r b j)))")
    case None
    then show ?thesis using fk by (auto simp: hl_map_def)
  next
    case (Some c)
    then have c: "c \<in> set (B (unat (hl_hash_function r b j)))" "he_key (the (mem ?h c)) = j"
      using find_key_Some by metis+
    have "hl_val ?s c = (if c = a then v else hl_val s c)"
    proof (cases "c = a")
      case False
      obtain e' x' where "mem ?h c = Some e'" "he_ll_p e' = Some x'" using hl_inv_entry [OF inv c(1)] by metis
      moreover from this False have "x' \<noteq> x"
        using inv a(1) c(1) e(1,2) unfolding hl_inv_def inj_on_def by (metis UNIV_I UN_I option.sel)
      ultimately show ?thesis using False by (simp add: hl_val_def)
    qed (use e in \<open>simp add: hl_val_def\<close>)
    with Some fk a c show ?thesis by (auto simp: hl_map_def)
  qed
  with run inv' show ?thesis by blast
qed

lemma hl_append_eq:
  assumes "ll_list l as q" and "fits v"
  shows "\<exists>l'. hl_append junk l k v = ret (Some (brk (ll_heap l)), l') \<and>
    ll_list l' (as @ [brk (ll_heap l)]) (ll_next junk) \<and>
    ll_pairs l' (as @ [brk (ll_heap l)]) = ll_pairs l as @ [(k, v)]"
proof -
  have c: "hl_create_ll_node junk (ll_heap l) k v = ll_create_node junk (ll_heap l) k v"
    by (simp add: hl_create_ll_node_def ll_create_node_def)
  have "hl_append junk l k v = bindC (ll_insert junk l k v) (\<lambda>(_, l'). ret (Some (brk (ll_heap l)), l'))"
    unfolding hl_append_def ll_insert_def c by (simp add: ll_create_node_eq [OF assms(2)] bindC_assoc)
  with ll_insert_list [OF assms, of junk k] show ?thesis by auto
qed

lemma hl_new_hash_entry_eq:
  "hl_new_hash_entry junk h k p = ret (Some (brk h), h\<lparr>
     mem := (mem h)(Suc (brk h) \<mapsto> junk,
       brk h \<mapsto> junk\<lparr>he_key := k, he_ll_p := p, he_next := Some (Suc (brk h))\<rparr>),
     brk := Suc (Suc (brk h))\<rparr>)"
  by (simp add: hl_new_hash_entry_def malloc_def fun_upd_twist)

lemma find_key_agree:
  "(\<And>a. a \<in> set as \<Longrightarrow> m' a = m a) \<Longrightarrow> find_key key m' k as = find_key key m k as"
  by (induction as) simp_all

lemma hl_inv_add:
  assumes inv: "hl_inv s r b f B as q" and i: "i = unat (hl_hash_function r b k)"
    and old: "\<And>a. a < brk (hl_heap s) \<Longrightarrow> mem h' a = mem (hl_heap s) a" and ok: "heap_ok h'"
    and new: "mem h' a0 = Some e" "he_key e = k" "he_next e = f i" "he_ll_p e = Some x0"
      "brk (hl_heap s) \<le> a0"
    and l': "ll_list l' (as @ [x0]) q'" "ll_pairs l' (as @ [x0]) = ll_pairs (hl_list s) as @ [(k, v)]"
  defines "b' \<equiv> b\<lparr>bucket := LiveBlock (f(i := Some a0))\<rparr>"
  defines "r' \<equiv> r\<lparr>buckets := LiveBlock b'\<rparr>"
  defines "B' \<equiv> B(i := a0 # B i)"
  defines "s' \<equiv> \<lparr>hl_heap = h', hl_root = LiveBlock r', hl_list = l'\<rparr>"
  shows "hl_inv s' r' b' (f(i := Some a0)) B' (as @ [x0]) q'"
    and "hl_map s r b B k = None \<Longrightarrow> hl_map s' r' b' B' = (hl_map s r b B)(k \<mapsto> v)"
proof -
  have entry: "a < brk (hl_heap s) \<and> mem h' a = mem (hl_heap s) a" if "a \<in> set (B j)" for a j
    using hl_inv_entry [OF inv that] old by metis
  then have agree: "\<And>a j. a \<in> set (B j) \<Longrightarrow> mem h' a = mem (hl_heap s) a" by blast
  have fresh: "a0 \<notin> set (B j)" for j using entry new(5) by (meson not_le)
  have ch: "chain he_next (mem h') (f j) (B j) NULL" for j
    using hl_inv_live(6) [OF inv, of j] by (subst chain_agree [OF agree]) auto
  have kv: "ll_key (the (mem (ll_heap l') x)) = ll_key (the (mem (ll_heap (hl_list s)) x)) \<and>
      ll_value (the (mem (ll_heap l') x)) = ll_value (the (mem (ll_heap (hl_list s)) x))"
    if "x \<in> set as" for x
    using l'(2) that by (simp add: contents_def)
  have kv0: "ll_key (the (mem (ll_heap l') x0)) = k" "ll_value (the (mem (ll_heap l') x0)) = v"
    using l'(2) by (simp_all add: contents_def)
  have x0: "x0 \<notin> set as" using l'(1) by (simp add: ll_list_def)
  have hash: "hl_hash_function r' b' = hl_hash_function r b"
    by (simp add: hl_hash_eq r'_def b'_def)
  have lp: "he_ll_p (the (mem h' a)) = he_ll_p (the (mem (hl_heap s) a)) \<and>
      he_ll_p (the (mem h' a)) \<noteq> Some x0" if "a \<in> set (B j)" for a j
    using hl_inv_entry [OF inv that] agree [OF that] x0 by (metis option.sel)
  have inj: "inj_on (\<lambda>a. he_ll_p (the (mem h' a))) (\<Union>j. set (B' j))"
  proof -
    have "(\<Union>j. set (B' j)) = insert a0 (\<Union>j. set (B j))" by (auto simp: B'_def split: if_splits)
    moreover have "inj_on (\<lambda>a. he_ll_p (the (mem h' a))) (\<Union>j. set (B j))"
      using inv lp unfolding hl_inv_def inj_on_def by (metis UN_E)
    moreover have "he_ll_p (the (mem h' a0)) \<notin> (\<lambda>a. he_ll_p (the (mem h' a))) ` (\<Union>j. set (B j))"
      using lp new(1,4) by fastforce
    ultimately show ?thesis unfolding inj_on_insert by auto
  qed
  have node: "unat (hl_hash_function r b (he_key (the (mem h' a)))) = j \<and>
      (\<exists>x \<in> set (as @ [x0]). he_ll_p (the (mem h' a)) = Some x \<and>
        ll_key (the (mem (ll_heap l') x)) = he_key (the (mem h' a)))" if "a \<in> set (B' j)" for a j
  proof (cases "a = a0")
    case True
    with that fresh have "j = i" by (auto simp: B'_def split: if_splits)
    with True new kv0 i show ?thesis by simp
  next
    case False
    then have a: "a \<in> set (B j)" using that by (auto simp: B'_def split: if_splits)
    with hl_inv_entry [OF inv a] agree [OF a] kv show ?thesis by (metis Un_iff option.sel set_append)
  qed
  have "chain he_next (mem h') ((f(i := Some a0)) j) (B' j) NULL \<and> distinct (B' j)" for j
    using ch new fresh hl_inv_live(7) [OF inv] by (simp add: B'_def)
  with inj node inv l'(1) ok show "hl_inv s' r' b' (f(i := Some a0)) B' (as @ [x0]) q'"
    unfolding hl_inv_def hash by (simp add: s'_def r'_def b'_def)
  have fk: "find_key he_key (mem h') j (B u) = find_key he_key (mem (hl_heap s)) j (B u)" for j u
    by (rule find_key_agree) (rule agree)
  have val: "hl_val s' a = hl_val s a" if "a \<in> set (B j)" for a j
    using hl_inv_entry [OF inv that] agree [OF that] kv unfolding hl_val_def s'_def
    by (metis option.sel hl_dram.select_convs(1,3))
  show "hl_map s' r' b' B' = (hl_map s r b B)(k \<mapsto> v)" if none: "hl_map s r b B k = None"
  proof
    fix j
    have *: "map_option (hl_val s') (find_key he_key (mem (hl_heap s)) j (B u)) =
        map_option (hl_val s) (find_key he_key (mem (hl_heap s)) j (B u))" for u
      using val find_key_Some [of he_key "mem (hl_heap s)" j "B u"]
      by (cases "find_key he_key (mem (hl_heap s)) j (B u)") auto
    show "hl_map s' r' b' B' j = ((hl_map s r b B)(k \<mapsto> v)) j"
      using new kv0 fk * i unfolding hl_map_def hash
      by (auto simp: B'_def s'_def hl_val_def)
  qed
qed


lemma hl_insert_new:
  assumes inv: "hl_inv s r b f B as q" and v: "fits v" and k: "hl_map s r b B k = None"
  shows "\<exists>s' r' b' f' B' x. hl_insert junk ll_junk s k v = ret (1, s') \<and>
     hl_inv s' r' b' f' B' (as @ [x]) (ll_next ll_junk) \<and> hl_map s' r' b' B' = (hl_map s r b B)(k \<mapsto> v)"
proof -
  let ?i = "unat (hl_hash_function r b k)" and ?h = "hl_heap s" and ?a = "brk (hl_heap s)"
  let ?x = "brk (ll_heap (hl_list s))"
  obtain l' where l': "hl_append ll_junk (hl_list s) k v = ret (Some ?x, l')"
      "ll_list l' (as @ [?x]) (ll_next ll_junk)" "ll_pairs l' (as @ [?x]) = ll_pairs (hl_list s) as @ [(k, v)]"
    using hl_append_eq [OF hl_inv_live(10) [OF inv] v] by blast
  let ?n = "junk\<lparr>he_key := k, he_ll_p := Some ?x, he_next := f ?i\<rparr>"
  let ?h' = "?h\<lparr>mem := (mem ?h)(Suc ?a \<mapsto> junk, ?a \<mapsto> ?n), brk := Suc (Suc ?a)\<rparr>"
  let ?b' = "b\<lparr>bucket := LiveBlock (f(?i := Some ?a))\<rparr>"
  let ?s = "\<lparr>hl_heap = ?h', hl_root = LiveBlock (r\<lparr>buckets := LiveBlock ?b'\<rparr>), hl_list = l'\<rparr>"
  have "find_key he_key (mem ?h) k (B ?i) = None" using k by (simp add: hl_map_def)
  then have "hl_insert junk ll_junk s k v = ret (1, ?s)"
    by (simp add: hl_insert_def hl_inv_live [OF inv] hl_search [OF inv] l'(1) hl_new_hash_entry_eq
        bucket_set_def Let_def)
  moreover have "heap_ok ?h'" using hl_inv_live(5) [OF inv] by (auto simp: heap_ok_def less_Suc_eq)
  then have "hl_inv ?s (r\<lparr>buckets := LiveBlock ?b'\<rparr>) ?b' (f(?i := Some ?a)) (B(?i := ?a # B ?i))
      (as @ [?x]) (ll_next ll_junk)"
    and "hl_map ?s (r\<lparr>buckets := LiveBlock ?b'\<rparr>) ?b' (B(?i := ?a # B ?i)) = (hl_map s r b B)(k \<mapsto> v)"
    using hl_inv_add [OF inv refl _ _ _ _ _ _ _ l'(2,3), of ?h' ?a ?n] k by simp_all
  ultimately show ?thesis by blast
qed

section \<open>The contract\<close>

lemma hl_rep_insert:
  assumes "hl_rep s m" and "fits v"
  shows "\<exists>s'. hl_insert junk ll_junk s k v = ret (1, s') \<and> hl_rep s' (m(k \<mapsto> v))"
proof -
  obtain r b f B as q where inv: "hl_inv s r b f B as q" and m: "m = hl_map s r b B"
    using assms(1) by (auto simp: hl_rep_def)
  show ?thesis
  proof (cases "m k")
    case None
    then show ?thesis
      using hl_insert_new [OF inv assms(2), of k junk ll_junk] unfolding m hl_rep_def by metis
  next
    case (Some w)
    then show ?thesis
      using hl_insert_present [OF inv assms(2), of k w junk ll_junk] unfolding m hl_rep_def by metis
  qed
qed

lemma hl_rep_read: "hl_rep s m \<Longrightarrow> m k = Some v \<Longrightarrow> hl_read s k r = ret (1, StrP v)"
  by (auto simp: hl_rep_def hl_read_eq)

definition hl_ops :: "hl_dram_entry \<Rightarrow> ll_dram_node \<Rightarrow> hl_dram storeds_base" where
  "hl_ops junk ll_junk = \<lparr>op_read = hl_read, op_scan = hl_scan, op_update = hl_update junk ll_junk,
     op_insert = hl_insert junk ll_junk, op_destroy = hl_destroy\<rparr>"

interpretation hl: upsert_store "hl_ops junk ll_junk" hl_rep "\<lambda>_. True" for junk ll_junk
  by unfold_locales (simp_all add: hl_ops_def hl_update_def hl_rep_read hl_rep_insert)

lemma hl_inv_init:
  assumes "hl_init time rnd = ret (c, s)"
  shows "c = 1 \<and> (\<exists>r b f. hl_inv s r b f (\<lambda>_. []) [] NULL)"
proof -
  obtain a i where s: "c = 1" "s = \<lparr>hl_heap = empty_heap, hl_root = LiveBlock
         \<lparr>seed = time, hash_fun_coeff_a = a, hash_fun_coeff_b = rnd i,
          hash_fun_coeff_p = HASH_FUNC_COEFF_P,
          buckets = LiveBlock \<lparr>nbuckets = of_nat INIT_BUCKETS_NUM, bucket = LiveBlock (\<lambda>_. NULL)\<rparr>\<rparr>,
         hl_list = \<lparr>ll_heap = empty_heap, ll_head = NULL, ll_tail = NULL\<rparr>\<rparr>"
    using assms by (auto simp: hl_init_def bindC_eq_ret)
  have "hl_inv s (case hl_root s of LiveBlock r \<Rightarrow> r)
      \<lparr>nbuckets = of_nat INIT_BUCKETS_NUM, bucket = LiveBlock (\<lambda>_. NULL)\<rparr> (\<lambda>_. NULL) (\<lambda>_. []) [] NULL"
    by (simp add: s hl_inv_def ll_list_def)
  with s(1) show ?thesis by blast
qed

lemma hl_rep_init: "hl_init time rnd = ret (c, s) \<Longrightarrow> hl_rep s Map.empty"
proof -
  assume "hl_init time rnd = ret (c, s)"
  then obtain r b f where "hl_inv s r b f (\<lambda>_. []) [] NULL" using hl_inv_init by blast
  moreover have "hl_map s r b (\<lambda>_. []) = Map.empty" by (simp add: hl_map_def fun_eq_iff)
  ultimately show ?thesis unfolding hl_rep_def by metis
qed

section \<open>Destruction\<close>

lemma hl_destroy_buckets_ok:
  assumes inv: "hl_inv s r b f B as q"
  shows "\<exists>h'. hl_destroy_buckets b (hl_heap s) = ret h' \<and>
     mem h' = mem (hl_heap s) |` (- (\<Union>j<INIT_BUCKETS_NUM. set (B j)))"
proof -
  let ?M = "mem (hl_heap s)"
  let ?body = "\<lambda>i h. bindC (bucket_get b i) (\<lambda>entry_p.
      if entry_p \<noteq> NULL then free_hl_entry_chain h entry_p else ret h)"
  let ?P = "\<lambda>i (h :: hl_dram_entry heap). mem h = ?M |` (- (\<Union>j<i. set (B j)))"
  have "\<exists>h'. for_loop 0 INIT_BUCKETS_NUM ?body (hl_heap s) = ret h' \<and> ?P (0 + INIT_BUCKETS_NUM) h'"
  proof (rule for_loop_inv)
    show "?P 0 (hl_heap s)" by (simp add: restrict_map_def)
    fix i and h :: "hl_dram_entry heap" assume i: "i < 0 + INIT_BUCKETS_NUM" and P: "?P i h"
    have "mem h a = ?M a" if "a \<in> set (B i)" for a
    proof -
      have "a \<notin> (\<Union>j<i. set (B j))" using hl_inv_disjoint [OF inv that] by blast
      then show ?thesis by (simp add: P restrict_map_def)
    qed
    then have "chain he_next (mem h) (f i) (B i) NULL = chain he_next ?M (f i) (B i) NULL"
      by (rule chain_agree)
    then have c: "chain he_next (mem h) (f i) (B i) NULL" using hl_inv_live(6) [OF inv, of i] by simp
    have "mem h |` (- set (B i)) = ?M |` (- (\<Union>j<Suc i. set (B j)))"
      unfolding P by (auto simp: restrict_map_def fun_eq_iff less_Suc_eq)
    then have fr: "free_chain he_next h (f i) = ret (h\<lparr>mem := ?M |` (- (\<Union>j<Suc i. set (B j)))\<rparr>)"
      by (simp only: free_chain_ok [OF c hl_inv_live(7) [OF inv]])
    have "?body i h = free_chain he_next h (f i)"
      using i hl_inv_live(4) [OF inv] by (simp add: bucket_get_def free_hl_entry_chain_def)
    then show "\<exists>h'. ?body i h = ret h' \<and> ?P (Suc i) h'" by (simp add: fr)
  qed
  then show ?thesis by (simp add: hl_destroy_buckets_def)
qed

lemma hl_destroy_eq:
  assumes inv: "hl_inv s r b f B as q"
  shows "\<exists>h'. hl_destroy_buckets b (hl_heap s) = ret h' \<and>
    mem h' = mem (hl_heap s) |` (- (\<Union>j<INIT_BUCKETS_NUM. set (B j))) \<and>
    hl_destroy s = (if as = [] then ret (s\<lparr>hl_heap := h', hl_root := FreedBlock\<rparr>) else crash WildDeref)"
proof -
  obtain h' where h': "hl_destroy_buckets b (hl_heap s) = ret h'"
      "mem h' = mem (hl_heap s) |` (- (\<Union>j<INIT_BUCKETS_NUM. set (B j)))"
    using hl_destroy_buckets_ok [OF inv] by blast
  have l: "ll_list (hl_list s) as q" by (rule hl_inv_live(10) [OF inv])
  have d: "hl_destroy_list = ll_destroy"
    by (simp add: hl_destroy_list_def ll_destroy_def ll_free_loop_def fun_eq_iff)
  show ?thesis
  proof (cases "as = []")
    case True
    then have "ll_destroy (hl_list s) = ret (hl_list s)"
      using l by (auto simp: ll_destroy_def ll_free_loop_def ll_list_def)
    with True h' show ?thesis by (intro exI [of _ h']) (simp add: hl_destroy_def hl_inv_live [OF inv] d)
  next
    case False
    with h' show ?thesis
      by (intro exI [of _ h']) (simp add: hl_destroy_def hl_inv_live [OF inv] d ll_destroy_list [OF l])
  qed
qed

section \<open>Properties\<close>

text \<open>
  C19: from a freshly initialised hash list, any valid sequence of database calls gives the results
  of a map, whatever \<^verbatim>\<open>malloc\<close> leaves in the entries and in the list nodes.
\<close>

theorem hl_refines_map:
  "hl_init time rnd = ret (c, s) \<Longrightarrow> valid_run (\<lambda>_. True) upsert Map.empty cs \<Longrightarrow>
   \<exists>s'. db_run (hl_ops junk ll_junk) s cs = ret (fst (spec_run upsert Map.empty cs), s') \<and>
     hl_rep s' (snd (spec_run upsert Map.empty cs))"
  by (rule hl.db_run_refines) (auto dest: hl_rep_init)

lemma hl_init_example: "\<exists>s. hl_init 5 (\<lambda>i. of_nat i) = ret (1, s)"
proof -
  have "ht_init_coeff (\<lambda>i. of_nat i) 0 = ret (1, 2)"
    using ht_init_coeff_first [of "\<lambda>i. of_nat i" 0 1] by simp
  then show ?thesis by (simp add: hl_init_def)
qed

theorem hl_refines_map_witness:
  "\<forall>junk ll_junk. \<exists>s s'. hl_init 5 (\<lambda>i. of_nat i) = ret (1, s) \<and>
    db_run (hl_ops junk ll_junk) s [DBInsert 3 [(''field'', ''a'')], DBInsert 3 [(''field'', ''b'')], DBRead 3] =
      ret ([RDone 0, RDone 0, RRead 0 [(3, ''b'')]], s')"
proof (intro allI)
  fix junk ll_junk
  obtain s where s: "hl_init 5 (\<lambda>i. of_nat i) = ret (1, s)" using hl_init_example by blast
  show "\<exists>s s'. hl_init 5 (\<lambda>i. of_nat i) = ret (1, s) \<and>
    db_run (hl_ops junk ll_junk) s [DBInsert 3 [(''field'', ''a'')], DBInsert 3 [(''field'', ''b'')], DBRead 3] =
      ret ([RDone 0, RDone 0, RRead 0 [(3, ''b'')]], s')"
    using s hl_refines_map [OF s,
        of "[DBInsert 3 [(''field'', ''a'')], DBInsert 3 [(''field'', ''b'')], DBRead 3]" junk ll_junk]
    by (auto simp: fits_def DEFAULT_VALUE_LEN_def c_str_def kOK_def)
qed

text \<open>
  C33: \<open>destroy\<close> of an initialised hash list first frees exactly the entries of all bucket chains,
  whatever the list holds. With at least one record in the value list it then reads freed memory
  (the tail is freed before the loop that walks to it); only when that list is empty does it return,
  with the entries gone and the table freed.
\<close>

theorem hl_destroy_faults:
  "hl_inv s r b f B as q \<Longrightarrow>
   \<exists>h. hl_destroy_buckets b (hl_heap s) = ret h \<and>
     mem h = mem (hl_heap s) |` (- (\<Union>j<INIT_BUCKETS_NUM. set (B j))) \<and>
     hl_destroy s = (if as = [] then ret (s\<lparr>hl_heap := h, hl_root := FreedBlock\<rparr>) else crash WildDeref)"
  by (rule hl_destroy_eq)

theorem hl_destroy_faults_witness:
  "\<forall>junk ll_junk. \<exists>s0 s1. hl_init 5 (\<lambda>i. of_nat i) = ret (1, s0) \<and>
     hl_insert junk ll_junk s0 1 ''x'' = ret (1, s1) \<and> hl_destroy s1 = crash WildDeref"
proof (intro allI)
  fix junk ll_junk
  obtain s where s: "hl_init 5 (\<lambda>i. of_nat i) = ret (1, s)" using hl_init_example by blast
  obtain r b f where inv: "hl_inv s r b f (\<lambda>_. []) [] NULL" using hl_inv_init [OF s] by blast
  have "hl_map s r b (\<lambda>_. []) 1 = None" by (simp add: hl_map_def)
  with hl_insert_new [OF inv, of "''x''" 1 junk ll_junk] obtain s' r' b' f' B' x where
      s': "hl_insert junk ll_junk s 1 ''x'' = ret (1, s')" "hl_inv s' r' b' f' B' [x] (ll_next ll_junk)"
    by (auto simp: fits_def DEFAULT_VALUE_LEN_def)
  with s hl_destroy_faults [OF s'(2)]
  show "\<exists>s0 s1. hl_init 5 (\<lambda>i. of_nat i) = ret (1, s0) \<and>
     hl_insert junk ll_junk s0 1 ''x'' = ret (1, s1) \<and> hl_destroy s1 = crash WildDeref" by auto
qed

end
