(* ===== verification/Locked_Tables.thy ===== *)
theory Locked_Tables
  imports Lock_Code Array_Store Hash_List Skip_List
begin

text \<open>
  The locked variants of the array, the hash table, the hash list, the linked list and the skip
  list: \<^verbatim>\<open>*_dram_concurrent_lock.cc\<close> (a read-write lock) and \<^verbatim>\<open>*_dram_concurrent_mlock.cc\<close> (a mutex).
  The two files of a store differ in the calls that take the lock for reading, which is the
  argument \<open>md\<close> here: \<open>Shared\<close> in the first, \<open>Exclusive\<close> in the second. What follows the lock
  call, whose result is \<open>rc\<close>, is a definition of its own; \<open>*_find\<close> is what a read does under the
  lock, up to the pointer it returns, and \<open>*_value\<close> what is at that address.
\<close>

section \<open>Array\<close>

definition arr_conc_init :: "int \<Rightarrow> bool \<Rightarrow> (int \<times> array_dram locked) comp" where
  "arr_conc_init rc malloc_ok = bindC (lock_init rc) (\<lambda>_.
     ret (fst (arr_init malloc_ok), \<lparr>inner = snd (arr_init malloc_ok), lock_live = True\<rparr>))"

text \<open>\<open>check\<close> prints a message when the array is missing; its result is dropped.\<close>

definition arr_conc_check :: "array_dram \<Rightarrow> unit comp" where
  "arr_conc_check s = (if arr_check s = - 1 then ret () else ret ())"

text \<open>\<open>result = array[offset]\<close>\<close>

definition arr_find :: "array_dram \<Rightarrow> u64 \<Rightarrow> vref comp" where
  "arr_find s key = bindC (deref (array s)) (\<lambda>a. ret (Ref 0 (nat (arr_offset key))))"

definition arr_value :: "array_dram \<Rightarrow> nat \<Rightarrow> nat \<Rightarrow> outp comp" where
  "arr_value s a i = bindC (deref (array s)) (\<lambda>es.
     bindC (arr_elem es (int i)) (\<lambda>e. ret (case e of None \<Rightarrow> RawP | Some v \<Rightarrow> StrP v)))"

definition arr_read_at :: "array_dram \<Rightarrow> u64 \<Rightarrow> (int \<times> vref) comp" where
  "arr_read_at = find_at arr_conc_check arr_find"

definition arr_conc_found :: "u64 \<Rightarrow> int \<Rightarrow> array_dram routine" where
  "arr_conc_found key = find_locked (\<lambda>s. arr_find s key)"

definition arr_conc_read :: "lock_mode \<Rightarrow> u64 \<Rightarrow> array_dram routine" where
  "arr_conc_read md key = checked arr_conc_check (Acquire md (arr_conc_found key))"

definition arr_conc_scanned :: "u64 \<Rightarrow> int \<Rightarrow> scan_result \<Rightarrow> int \<Rightarrow> array_dram routine" where
  "arr_conc_scanned key len result rc =
     (if rc \<noteq> 0 then Done (RScan 0 result)
      else Step (\<lambda>s.
        if 0 < len
        then bindC (deref (array s)) (\<lambda>a.
             bindC (arr_scan_loop a (arr_offset key) len 0 result) (\<lambda>r.
               ret (s, Release (Done (RScan 1 r)))))
        else ret (s, Release (Done (RScan 1 result)))))"

definition arr_conc_scan :: "lock_mode \<Rightarrow> u64 \<Rightarrow> int \<Rightarrow> scan_result \<Rightarrow> array_dram routine" where
  "arr_conc_scan md key len result = checked arr_conc_check (Acquire md (arr_conc_scanned key len result))"

definition arr_conc_write :: "u64 \<Rightarrow> string \<Rightarrow> array_dram routine" where
  "arr_conc_write key value =
     Step (\<lambda>s. bindC (deref (array s)) (\<lambda>a.
       bindC (arr_write a (arr_offset key) value) (\<lambda>a'.
         ret (s\<lparr>array := LiveBlock a'\<rparr>, Release (Done (RStatus 1))))))"

definition arr_conc_updated :: "u64 \<Rightarrow> string \<Rightarrow> int \<Rightarrow> array_dram routine" where
  "arr_conc_updated key value rc =
     (if rc \<noteq> 0 then Done (RStatus 0)
      else Step (\<lambda>s. bindC (deref (array s)) (\<lambda>a.
             bindC (arr_string a (arr_offset key)) (\<lambda>dummy_read.
             bindC (copy_value dummy_read) (\<lambda>_. ret (s, arr_conc_write key value))))))"

definition arr_conc_update :: "u64 \<Rightarrow> string \<Rightarrow> array_dram routine" where
  "arr_conc_update key value = checked arr_conc_check (Acquire Exclusive (arr_conc_updated key value))"

definition arr_conc_inserted :: "u64 \<Rightarrow> string \<Rightarrow> int \<Rightarrow> array_dram routine" where
  "arr_conc_inserted key value rc = (if rc \<noteq> 0 then Done (RStatus 0) else arr_conc_write key value)"

definition arr_conc_insert :: "u64 \<Rightarrow> string \<Rightarrow> array_dram routine" where
  "arr_conc_insert key value = checked arr_conc_check (Acquire Exclusive (arr_conc_inserted key value))"

definition arr_conc_destroy :: "array_dram locked \<Rightarrow> array_dram locked comp" where
  "arr_conc_destroy S = bindC (arr_conc_check (inner S)) (\<lambda>_.
     bindC (arr_destroy (inner S)) (\<lambda>s. ret (S\<lparr>inner := s, lock_live := False\<rparr>)))"

fun arr_conc_code :: "lock_mode \<Rightarrow> kv_call \<Rightarrow> array_dram routine" where
  "arr_conc_code md (CRead k) = arr_conc_read md k"
| "arr_conc_code md (CUpdate k v) = arr_conc_update k v"
| "arr_conc_code md (CInsert k v) = arr_conc_insert k v"
| "arr_conc_code md (CScan k len res) = arr_conc_scan md k len res"

text \<open>
  \<open>Ks\<close>: the keys whose slots have been written. An update reads the slot first; a scan reads the
  slots from the key's on.
\<close>

definition arr_locked_inv :: "u64 set \<Rightarrow> array_dram \<Rightarrow> bool" where
  "arr_locked_inv Ks s \<longleftrightarrow> (\<exists>a. array s = LiveBlock a \<and>
     (\<forall>k \<in> Ks. a (nat (arr_offset k)) \<noteq> None) \<and>
     (\<forall>k v. a (nat (arr_offset k)) = Some v \<longrightarrow> fits v))"

definition arr_call_ok :: "u64 set \<Rightarrow> kv_call \<Rightarrow> bool" where
  "arr_call_ok Ks c \<longleftrightarrow> (case c of CRead k \<Rightarrow> True | CUpdate k v \<Rightarrow> k \<in> Ks \<and> fits v
     | CInsert k v \<Rightarrow> fits v
     | CScan k len res \<Rightarrow> \<forall>j. 0 \<le> j \<and> j < min len ARRAY_SIZE \<longrightarrow> (\<exists>k' \<in> Ks. arr_offset k' = arr_offset k + j))"

lemma arr_reads_through: "reads_through arr_ops arr_read_at arr_value s k"
  by (simp add: reads_through_def arr_ops_def arr_read_def arr_read_at_def find_at_def arr_conc_check_def
      arr_find_def arr_value_def arr_offset_bounds bindC_assoc, cases "array s") simp_all

lemma arr_scan_loop_written:
  assumes "\<And>j. i \<le> j \<Longrightarrow> j < min len ARRAY_SIZE \<Longrightarrow>
     0 \<le> off + j \<and> off + j < ARRAY_SIZE \<and> a (nat (off + j)) \<noteq> None"
  shows "\<exists>r. arr_scan_loop a off len i res = ret r"
  using assms
proof (induction a off len i res rule: arr_scan_loop.induct)
  case (1 a off len i res)
  show ?case
  proof (cases "i < len \<and> i < ARRAY_SIZE")
    case False
    then show ?thesis by (subst arr_scan_loop.simps) auto
  next
    case True
    then obtain v where v: "0 \<le> off + i" "off + i < ARRAY_SIZE" "a (nat (off + i)) = Some v"
      using 1(2) [of i] by auto
    have str: "arr_string a (off + i) = ret v" using v by (simp add: arr_string_def arr_elem_def)
    have "\<exists>r. arr_scan_loop a off len (i + 1) (res @ [[(word_of_int (off + i), v)]]) = ret r"
      by (rule 1(1) [OF True str]) (use 1(2) in auto)
    then show ?thesis using True str by (subst arr_scan_loop.simps) simp
  qed
qed

lemma arr_locked_scan:
  assumes s: "arr_locked_inv Ks s" and c: "arr_call_ok Ks (CScan k len res)"
  shows "\<exists>r. arr_scan s k len res = ret (1, r)"
proof -
  obtain a where a: "array s = LiveBlock a" "\<And>k. k \<in> Ks \<Longrightarrow> a (nat (arr_offset k)) \<noteq> None"
    using s by (auto simp: arr_locked_inv_def)
  have "\<exists>r. arr_scan_loop a (arr_offset k) len 0 res = ret r"
  proof (rule arr_scan_loop_written)
    fix j assume "0 \<le> j" and "j < min len ARRAY_SIZE"
    then obtain k' where "k' \<in> Ks" "arr_offset k' = arr_offset k + j" using c by (auto simp: arr_call_ok_def)
    then show "0 \<le> arr_offset k + j \<and> arr_offset k + j < ARRAY_SIZE \<and> a (nat (arr_offset k + j)) \<noteq> None"
      using a(2) [of k'] arr_offset_bounds [of k'] by simp
  qed
  then show ?thesis using a(1) by (auto simp: arr_scan_def)
qed

lemma arr_locked:
  "locked_store arr_ops arr_read_at arr_value (arr_conc_code md) (\<lambda>_. True) (arr_locked_inv Ks) (arr_call_ok Ks) 2"
proof (rule locked_storeI)
  have chk: "\<And>s. True \<Longrightarrow> arr_conc_check s = ret ()" by (simp add: arr_conc_check_def)
  fix c assume ok: "arr_call_ok Ks c"
  show "serves (\<lambda>_. True) (arr_locked_inv Ks) 2 (arr_conc_code md c) (kv_seq arr_ops arr_read_at c)"
  proof (cases c)
    case (CRead k)
    have "serves (\<lambda>_. True) (arr_locked_inv Ks) 2 (arr_conc_read md k) (kv_seq arr_ops arr_read_at (CRead k))"
      unfolding arr_conc_read_def arr_conc_found_def arr_read_at_def
    proof (rule serves_read [OF chk _ arr_reads_through [unfolded arr_read_at_def]])
      show "arr_locked_inv Ks s \<Longrightarrow> \<exists>x. op_read arr_ops s k Unset = ret x" for s
        by (auto simp: arr_locked_inv_def arr_ops_def arr_read_def)
    qed simp_all
    with CRead show ?thesis by simp
  next
    case (CUpdate k v)
    have kv: "k \<in> Ks" "fits v" using ok CUpdate by (simp_all add: arr_call_ok_def)
    have "serves (\<lambda>_. True) (arr_locked_inv Ks) 2 (arr_conc_update k v) (kv_seq arr_ops arr_read_at (CUpdate k v))"
      unfolding arr_conc_update_def
    proof (rule serves_checked [OF chk])
      fix s assume s: "arr_locked_inv Ks s"
      then obtain a where a: "array s = LiveBlock a" by (auto simp: arr_locked_inv_def)
      then obtain w where w: "a (nat (arr_offset k)) = Some w" "fits w"
        using s kv(1) by (auto simp: arr_locked_inv_def)
      show "\<exists>r s'. kv_seq arr_ops arr_read_at (CUpdate k v) s = ret (r, s') \<and> arr_locked_inv Ks s' \<and>
          sec_run (\<lambda>_. True) Exclusive 2 (arr_conc_updated k v 0) s = ret (r, s')"
        using s a w kv
        by (simp add: arr_locked_inv_def arr_conc_updated_def arr_conc_write_def arr_ops_def
          arr_update_def arr_string_def arr_write_def numeral_2_eq_2)
    qed simp
    with CUpdate show ?thesis by simp
  next
    case (CInsert k v)
    have "serves (\<lambda>_. True) (arr_locked_inv Ks) 2 (arr_conc_insert k v) (kv_seq arr_ops arr_read_at (CInsert k v))"
      unfolding arr_conc_insert_def
      by (rule serves_checked [OF chk]) (use ok CInsert in
        \<open>auto simp: arr_locked_inv_def arr_call_ok_def arr_conc_inserted_def arr_conc_write_def arr_ops_def
          arr_insert_def arr_write_def numeral_2_eq_2\<close>)
    with CInsert show ?thesis by simp
  next
    case (CScan k len res)
    have "serves (\<lambda>_. True) (arr_locked_inv Ks) 2 (arr_conc_scan md k len res) (kv_seq arr_ops arr_read_at (CScan k len res))"
      unfolding arr_conc_scan_def
    proof (rule serves_checked [OF chk])
      fix s assume s: "arr_locked_inv Ks s"
      obtain r where r: "arr_scan s k len res = ret (1, r)" using arr_locked_scan [OF s] ok CScan by blast
      have "stmt_of (arr_conc_scanned k len res 0) s = bindC (arr_scan s k len res) (\<lambda>(st, r). ret (s, Release (Done (RScan st r))))"
        by (simp add: arr_conc_scanned_def arr_scan_def bindC_assoc)
      moreover have "is_Step (arr_conc_scanned k len res 0)" by (simp add: arr_conc_scanned_def)
      ultimately show "\<exists>r s'. kv_seq arr_ops arr_read_at (CScan k len res) s = ret (r, s') \<and> arr_locked_inv Ks s' \<and>
          sec_run (\<lambda>_. True) md 2 (arr_conc_scanned k len res 0) s = ret (r, s')"
        using s r by (simp add: arr_ops_def sec_run_is_Step numeral_2_eq_2)
    qed simp
    with CScan show ?thesis by simp
  qed
qed (simp_all add: arr_reads_through)

interpretation arr_lock: locked_store arr_ops arr_read_at arr_value "arr_conc_code md" "\<lambda>_. True" "arr_locked_inv Ks" "arr_call_ok Ks" 2
  for md Ks by (rule arr_locked)

section \<open>Hash table\<close>

definition ht_conc_init :: "int \<Rightarrow> u32 \<Rightarrow> (nat \<Rightarrow> u32) \<Rightarrow> (int \<times> ht_dram locked) comp" where
  "ht_conc_init rc time rnd = bindC (lock_init rc) (\<lambda>_.
     bindC (ht_init time rnd) (\<lambda>(st, s). ret (st, \<lparr>inner = s, lock_live = True\<rparr>)))"

definition ht_conc_scan :: "u64 \<Rightarrow> int \<Rightarrow> scan_result \<Rightarrow> ht_dram routine" where
  "ht_conc_scan key len result = Step (\<lambda>s. crash (Thrown ''Scan: function not implemented!''))"

definition ht_find :: "ht_dram \<Rightarrow> u64 \<Rightarrow> vref comp" where
  "ht_find s key =
     bindC (deref (root_p s)) (\<lambda>r.
     bindC (deref (buckets r)) (\<lambda>b.
     bindC (bucket_get b (unat (hash_function r b key))) (\<lambda>head.
     bindC (search_chain de_next de_key (ht_heap s) head key) (\<lambda>p. ret (node_ref p)))))"

definition ht_value :: "ht_dram \<Rightarrow> nat \<Rightarrow> nat \<Rightarrow> outp comp" where
  "ht_value s a i = bindC (load (ht_heap s) (Some a)) (\<lambda>n. ret (StrP (de_value n)))"

definition ht_read_at :: "ht_dram \<Rightarrow> u64 \<Rightarrow> (int \<times> vref) comp" where
  "ht_read_at = find_at ht_check ht_find"

definition ht_conc_found :: "u64 \<Rightarrow> int \<Rightarrow> ht_dram routine" where
  "ht_conc_found key = find_locked (\<lambda>s. ht_find s key)"

definition ht_conc_read :: "lock_mode \<Rightarrow> u64 \<Rightarrow> ht_dram routine" where
  "ht_conc_read md key = checked ht_check (Acquire md (ht_conc_found key))"

text \<open>The statements of \<open>insert\<close>: search; then overwrite, or make an entry and link it.\<close>

definition ht_conc_overwrite :: "ptr \<Rightarrow> string \<Rightarrow> ht_dram routine" where
  "ht_conc_overwrite p value = Step (\<lambda>s.
     bindC (load (ht_heap s) p) (\<lambda>n.
     bindC (copy_value value) (\<lambda>v.
     bindC (store (ht_heap s) p (n\<lparr>de_value := v\<rparr>)) (\<lambda>h.
       ret (s\<lparr>ht_heap := h\<rparr>, Release (Done (RStatus 1)))))))"

definition ht_conc_link :: "nat \<Rightarrow> ptr \<Rightarrow> ht_dram routine" where
  "ht_conc_link hash_value entry_p = Step (\<lambda>s.
     bindC (deref (root_p s)) (\<lambda>r.
     bindC (deref (buckets r)) (\<lambda>b.
     bindC (bucket_get b hash_value) (\<lambda>first.
     bindC (load (ht_heap s) entry_p) (\<lambda>n.
     bindC (store (ht_heap s) entry_p (n\<lparr>de_next := first\<rparr>)) (\<lambda>h.
     bindC (bucket_set b hash_value entry_p) (\<lambda>b'.
       ret (s\<lparr>ht_heap := h, root_p := LiveBlock (r\<lparr>buckets := LiveBlock b'\<rparr>)\<rparr>,
         Release (Done (RStatus 1))))))))))"

definition ht_conc_add :: "dram_entry \<Rightarrow> nat \<Rightarrow> u64 \<Rightarrow> string \<Rightarrow> ht_dram routine" where
  "ht_conc_add junk hash_value key value = Step (\<lambda>s.
     bindC (ht_new_entry junk (ht_heap s) key value) (\<lambda>(entry_p, h).
       ret (s\<lparr>ht_heap := h\<rparr>, ht_conc_link hash_value entry_p)))"

definition ht_conc_locked :: "dram_entry \<Rightarrow> u64 \<Rightarrow> string \<Rightarrow> int \<Rightarrow> ht_dram routine" where
  "ht_conc_locked junk key value rc =
     (if rc \<noteq> 0 then Done (RStatus 0)
      else Step (\<lambda>s. bindC (deref (root_p s)) (\<lambda>r.
             bindC (deref (buckets r)) (\<lambda>b.
             let hash_value = unat (hash_function r b key) in
             bindC (bucket_get b hash_value) (\<lambda>head.
             bindC (search_chain de_next de_key (ht_heap s) head key) (\<lambda>p.
               ret (s, if p \<noteq> NULL then ht_conc_overwrite p value
                       else ht_conc_add junk hash_value key value)))))))"

definition ht_conc_insert :: "dram_entry \<Rightarrow> u64 \<Rightarrow> string \<Rightarrow> ht_dram routine" where
  "ht_conc_insert junk key value = checked ht_check (Acquire Exclusive (ht_conc_locked junk key value))"

definition ht_conc_update :: "dram_entry \<Rightarrow> u64 \<Rightarrow> string \<Rightarrow> ht_dram routine" where
  "ht_conc_update junk key value = ht_conc_insert junk key value"

definition ht_conc_destroy :: "ht_dram locked \<Rightarrow> ht_dram locked comp" where
  "ht_conc_destroy S = bindC (ht_destroy (inner S)) (\<lambda>s. ret (S\<lparr>inner := s, lock_live := False\<rparr>))"

fun ht_conc_code :: "lock_mode \<Rightarrow> dram_entry \<Rightarrow> kv_call \<Rightarrow> ht_dram routine" where
  "ht_conc_code md junk (CRead k) = ht_conc_read md k"
| "ht_conc_code md junk (CUpdate k v) = ht_conc_update junk k v"
| "ht_conc_code md junk (CInsert k v) = ht_conc_insert junk k v"
| "ht_conc_code md junk (CScan k len res) = ht_conc_scan k len res"

definition ht_alive :: "ht_dram \<Rightarrow> bool" where
  "ht_alive s \<longleftrightarrow> returns (ht_check s)"

definition ht_locked_inv :: "ht_dram \<Rightarrow> bool" where
  "ht_locked_inv s \<longleftrightarrow> (\<exists>m. ht_rep s m)"

lemma ht_alive_check: "ht_alive s \<Longrightarrow> ht_check s = ret ()"
  by (auto simp: ht_alive_def returns_def)

lemma ht_alive_heap [simp]: "ht_alive (s\<lparr>ht_heap := h\<rparr>) = ht_alive s"
  by (simp add: ht_alive_def ht_check_def)

lemma ht_locked_alive: "ht_locked_inv s \<Longrightarrow> ht_alive s"
  by (auto simp: ht_locked_inv_def ht_alive_def ht_rep_def ht_inv_live)

lemma ht_insert_section:
  assumes i: "ht_insert junk s k v = ret (t, s')" and al: "ht_alive s" "ht_alive s'"
  shows "sec_run ht_alive Exclusive 3 (ht_conc_locked junk k v 0) s = ret (RStatus t, s')"
proof -
  let ?i = "\<lambda>r b. unat (hash_function r b k)"
  obtain r b hd p where rb: "deref (root_p s) = ret r" "deref (buckets r) = ret b"
      "bucket_get b (?i r b) = ret hd" "search_chain de_next de_key (ht_heap s) hd k = ret p"
    using i by (auto simp: ht_insert_def bindC_eq_ret Let_def)
  show ?thesis
  proof (cases "p = NULL")
    case False
    have "stmt_of (ht_conc_overwrite p v) s = returning (ht_insert junk s k v)"
      using rb False al(1)
      by (simp add: ht_conc_overwrite_def ht_insert_def ht_alive_check Let_def bindC_assoc)
    moreover have "is_Step (ht_conc_overwrite p v)" by (simp add: ht_conc_overwrite_def)
    ultimately show ?thesis
      using i al rb False by (simp add: ht_conc_locked_def Let_def numeral_3_eq_3 sec_run_is_Step)
  next
    case True
    then obtain e h where e: "ht_new_entry junk (ht_heap s) k v = ret (e, h)"
      using i rb al by (auto simp: ht_insert_def ht_alive_check bindC_eq_ret Let_def)
    let ?s = "s\<lparr>ht_heap := h\<rparr>"
    have "stmt_of (ht_conc_link (?i r b) e) ?s = returning (ht_insert junk s k v)"
      using rb True al(1) e
      by (simp add: ht_conc_link_def ht_insert_def ht_alive_check Let_def bindC_assoc)
    moreover have "is_Step (ht_conc_link (?i r b) e)" by (simp add: ht_conc_link_def)
    ultimately show ?thesis
      using i al rb True e
      by (simp add: ht_conc_locked_def ht_conc_add_def Let_def numeral_3_eq_3 sec_run_is_Step)
  qed
qed

lemma ht_serves_insert:
  assumes v: "fits v"
  shows "serves ht_alive ht_locked_inv 3 (ht_conc_insert junk k v) (kv_seq (ht_ops junk) ht_read_at (CInsert k v))"
  unfolding ht_conc_insert_def
proof (rule serves_checked [OF ht_alive_check])
  fix s assume s: "ht_locked_inv s"
  then obtain m where "ht_rep s m" by (auto simp: ht_locked_inv_def)
  then obtain s' where s': "ht_insert junk s k v = ret (1, s')" "ht_locked_inv s'"
    using ht_rep_insert [OF _ v] by (fastforce simp: ht_locked_inv_def)
  then show "\<exists>r s'. kv_seq (ht_ops junk) ht_read_at (CInsert k v) s = ret (r, s') \<and> ht_locked_inv s' \<and>
      sec_run ht_alive Exclusive 3 (ht_conc_locked junk k v 0) s = ret (r, s')"
    using ht_insert_section [OF s'(1) ht_locked_alive [OF s] ht_locked_alive [OF s'(2)]]
    by (simp add: ht_ops_def)
qed

lemma ht_reads_through: "reads_through (ht_ops junk) ht_read_at ht_value s k"
  unfolding reads_through_def
proof
  fix r
  have follow: "bindC (follow ht_value s r (node_ref p)) f = (if p = NULL then f r
      else bindC (load (ht_heap s) p) (\<lambda>n. f (StrP (de_value n))))" for p and f :: "outp \<Rightarrow> (int \<times> outp) comp"
    by (cases p) (simp_all add: ht_value_def bindC_assoc)
  show "op_read (ht_ops junk) s k r =
      bindC (ht_read_at s k) (\<lambda>(st, q). bindC (follow ht_value s r q) (\<lambda>x. ret (st, x)))"
    by (simp add: ht_ops_def ht_read_def ht_read_at_def find_at_def ht_find_def bindC_assoc follow)
qed

lemma ht_serves_read:
  "serves ht_alive ht_locked_inv 3 (ht_conc_read md k) (kv_seq (ht_ops junk) ht_read_at (CRead k))"
  unfolding ht_conc_read_def ht_conc_found_def ht_read_at_def
proof (rule serves_read [OF ht_alive_check ht_locked_alive ht_reads_through [unfolded ht_read_at_def]])
  fix s assume "ht_locked_inv s"
  then obtain rt b f B where "ht_inv s rt b f B" by (auto simp: ht_locked_inv_def ht_rep_def)
  then show "\<exists>x. op_read (ht_ops junk) s k Unset = ret x"
    using ht_read_eq [of s rt b f B k Unset] by (cases "ht_map s rt b B k") (auto simp: ht_ops_def)
qed simp_all

lemma ht_locked:
  "locked_store (ht_ops junk) ht_read_at ht_value (ht_conc_code md junk) ht_alive ht_locked_inv (writes_ok True) 3"
proof (rule locked_store_calls [OF ht_locked_alive])
  have "kv_seq (ht_ops junk) ht_read_at (CUpdate k v) = kv_seq (ht_ops junk) ht_read_at (CInsert k v)" for k v
    by (simp add: fun_eq_iff ht_ops_def ht_update_def)
  then show "writes_ok True (CUpdate k v) \<Longrightarrow>
      serves ht_alive ht_locked_inv 3 (ht_conc_code md junk (CUpdate k v)) (kv_seq (ht_ops junk) ht_read_at (CUpdate k v))" for k v
    using ht_serves_insert by (simp add: ht_conc_update_def writes_ok_def)
qed (simp_all add: ht_serves_insert ht_serves_read ht_reads_through writes_ok_def del: kv_seq.simps)

interpretation ht_lock: locked_store "ht_ops junk" ht_read_at ht_value "ht_conc_code md junk" ht_alive ht_locked_inv "writes_ok True" 3
  for md junk by (rule ht_locked)

section \<open>Skip list\<close>

definition sk_conc_init :: "int \<Rightarrow> (nat \<Rightarrow> u32) \<Rightarrow> (int \<times> skiplist_dram locked) comp" where
  "sk_conc_init rc rnd = bindC (lock_init rc) (\<lambda>_.
     bindC (sk_init rnd) (\<lambda>(st, s). ret (st, \<lparr>inner = s, lock_live = True\<rparr>)))"

definition sk_conc_scanned :: "u64 \<Rightarrow> int \<Rightarrow> scan_result \<Rightarrow> int \<Rightarrow> skiplist_dram routine" where
  "sk_conc_scanned key len result rc =
     (if rc \<noteq> 0 then Done (RScan 0 result)
      else Step (\<lambda>s.
        bindC (sk_find (sk_heap s) (sk_head s) key) (\<lambda>path.
        bindC (sk_candidate (sk_heap s) path) (\<lambda>p.
        bindC (sk_scan_loop (sk_heap s) p 0 len result) (\<lambda>r.
          ret (s, Release (Done (RScan 1 r))))))))"

definition sk_conc_scan :: "lock_mode \<Rightarrow> u64 \<Rightarrow> int \<Rightarrow> scan_result \<Rightarrow> skiplist_dram routine" where
  "sk_conc_scan md key len result = checked sk_check (Acquire md (sk_conc_scanned key len result))"

definition sk_find_value :: "skiplist_dram \<Rightarrow> u64 \<Rightarrow> vref comp" where
  "sk_find_value s key =
     bindC (sk_find (sk_heap s) (sk_head s) key) (\<lambda>path.
     bindC (sk_candidate (sk_heap s) path) (\<lambda>p.
     bindC (sk_key_at (sk_heap s) p key) (\<lambda>found. ret (if found then node_ref p else NoRef))))"

definition sk_value :: "skiplist_dram \<Rightarrow> nat \<Rightarrow> nat \<Rightarrow> outp comp" where
  "sk_value s a i = bindC (sk_get_entry (sk_heap s) (Some a)) (\<lambda>e. ret (StrP (ske_value e)))"

definition sk_read_at :: "skiplist_dram \<Rightarrow> u64 \<Rightarrow> (int \<times> vref) comp" where
  "sk_read_at = find_at sk_check sk_find_value"

definition sk_conc_found :: "u64 \<Rightarrow> int \<Rightarrow> skiplist_dram routine" where
  "sk_conc_found key = find_locked (\<lambda>s. sk_find_value s key)"

definition sk_conc_read :: "lock_mode \<Rightarrow> u64 \<Rightarrow> skiplist_dram routine" where
  "sk_conc_read md key = checked sk_check (Acquire md (sk_conc_found key))"

text \<open>The statements of \<open>insert\<close>: \<open>find\<close>; then overwrite, or fill a new node and link its levels.\<close>

definition sk_conc_overwrite :: "ptr \<Rightarrow> string \<Rightarrow> skiplist_dram routine" where
  "sk_conc_overwrite p value = Step (\<lambda>s.
     bindC (load (sk_heap s) p) (\<lambda>n.
     bindC (sk_get_entry (sk_heap s) p) (\<lambda>e.
     bindC (copy_value value) (\<lambda>v.
     bindC (store (sk_heap s) p (n\<lparr>sk_entry := Some (e\<lparr>ske_value := v\<rparr>)\<rparr>)) (\<lambda>h.
       ret (s\<lparr>sk_heap := h\<rparr>, Release (Done (RStatus 1))))))))"

definition sk_conc_link :: "ptr option list \<Rightarrow> ptr \<Rightarrow> skiplist_dram routine" where
  "sk_conc_link path new_node = Step (\<lambda>s.
     bindC (sk_insert_node (sk_rand s) new_node path SKIPLIST_BASE_LEVEL (sk_heap s)) (\<lambda>(calls, h).
       ret (s\<lparr>sk_heap := h, sk_rand := \<lambda>i. sk_rand s (i + calls)\<rparr>, Release (Done (RStatus 1)))))"

definition sk_conc_add :: "ptr option list \<Rightarrow> u64 \<Rightarrow> string \<Rightarrow> skiplist_dram routine" where
  "sk_conc_add path key value = Step (\<lambda>s.
     let (new_node, h) = malloc (sk_heap s)
       \<lparr>sk_entry = None, sk_next = replicate SKIPLIST_LEVELS_NUM None\<rparr> in
     bindC (load h new_node) (\<lambda>n.
     bindC (copy_value value) (\<lambda>v.
     bindC (store h new_node (n\<lparr>sk_entry := Some \<lparr>ske_key = key, ske_value = v\<rparr>\<rparr>)) (\<lambda>h.
       ret (s\<lparr>sk_heap := h\<rparr>, sk_conc_link path new_node)))))"

definition sk_conc_locked :: "u64 \<Rightarrow> string \<Rightarrow> int \<Rightarrow> skiplist_dram routine" where
  "sk_conc_locked key value rc =
     (if rc \<noteq> 0 then Done (RStatus 0)
      else Step (\<lambda>s.
        bindC (sk_find (sk_heap s) (sk_head s) key) (\<lambda>path.
        bindC (sk_candidate (sk_heap s) path) (\<lambda>p.
        bindC (sk_key_at (sk_heap s) p key) (\<lambda>found.
          ret (s, if found then sk_conc_overwrite p value else sk_conc_add path key value))))))"

definition sk_conc_insert :: "u64 \<Rightarrow> string \<Rightarrow> skiplist_dram routine" where
  "sk_conc_insert key value = checked sk_check (Acquire Exclusive (sk_conc_locked key value))"

definition sk_conc_update :: "u64 \<Rightarrow> string \<Rightarrow> skiplist_dram routine" where
  "sk_conc_update key value = sk_conc_insert key value"

definition sk_conc_destroy :: "skiplist_dram locked \<Rightarrow> skiplist_dram locked comp" where
  "sk_conc_destroy S = bindC (sk_destroy (inner S)) (\<lambda>s. ret (S\<lparr>inner := s, lock_live := False\<rparr>))"

fun sk_conc_code :: "lock_mode \<Rightarrow> kv_call \<Rightarrow> skiplist_dram routine" where
  "sk_conc_code md (CRead k) = sk_conc_read md k"
| "sk_conc_code md (CUpdate k v) = sk_conc_update k v"
| "sk_conc_code md (CInsert k v) = sk_conc_insert k v"
| "sk_conc_code md (CScan k len res) = sk_conc_scan md k len res"

definition sk_alive :: "skiplist_dram \<Rightarrow> bool" where
  "sk_alive s \<longleftrightarrow> sk_head s \<noteq> NULL"

definition sk_locked_inv :: "skiplist_dram \<Rightarrow> bool" where
  "sk_locked_inv s \<longleftrightarrow> (\<exists>m. sk_rep s m)"

definition values_ok :: "kv_call \<Rightarrow> bool" where
  "values_ok c \<longleftrightarrow> (case c of CUpdate k v \<Rightarrow> fits v | CInsert k v \<Rightarrow> fits v | _ \<Rightarrow> True)"

lemma sk_alive_check: "sk_alive s \<Longrightarrow> sk_check s = ret ()"
  by (auto simp: sk_alive_def sk_check_def)

lemma sk_locked_alive: "sk_locked_inv s \<Longrightarrow> sk_alive s"
  by (auto simp: sk_locked_inv_def sk_alive_def sk_rep_def)

lemma sk_insert_section:
  assumes i: "sk_insert s k v = ret (t, s')" and al: "sk_alive s" "sk_alive s'"
  shows "sec_run sk_alive Exclusive 3 (sk_conc_locked k v 0) s = ret (RStatus t, s')"
proof -
  obtain path p found where f: "sk_find (sk_heap s) (sk_head s) k = ret path"
      "sk_candidate (sk_heap s) path = ret p" "sk_key_at (sk_heap s) p k = ret found"
    using i by (auto simp: sk_insert_def bindC_eq_ret)
  show ?thesis
  proof (cases found)
    case True
    have "stmt_of (sk_conc_overwrite p v) s = returning (sk_insert s k v)"
      using f True al(1) by (simp add: sk_conc_overwrite_def sk_insert_def sk_alive_check bindC_assoc)
    moreover have "is_Step (sk_conc_overwrite p v)" by (simp add: sk_conc_overwrite_def)
    ultimately show ?thesis
      using i al f True by (simp add: sk_conc_locked_def numeral_3_eq_3 sec_run_is_Step)
  next
    case False
    let ?n = "\<lparr>sk_entry = None, sk_next = replicate SKIPLIST_LEVELS_NUM None\<rparr>"
    obtain new h1 where m: "malloc (sk_heap s) ?n = (new, h1)" by fastforce
    then obtain n h where n: "load h1 new = ret n" "copy_value v = ret v"
        "store h1 new (n\<lparr>sk_entry := Some \<lparr>ske_key = k, ske_value = v\<rparr>\<rparr>) = ret h"
      using i f False by (auto simp: sk_insert_def bindC_eq_ret copy_value_def split: if_splits)
    let ?s = "s\<lparr>sk_heap := h\<rparr>"
    have "stmt_of (sk_conc_link path new) ?s = returning (sk_insert s k v)"
      using f False al(1) m n
      by (simp add: sk_conc_link_def sk_insert_def sk_alive_check bindC_assoc split_def)
    moreover have "is_Step (sk_conc_link path new)" by (simp add: sk_conc_link_def)
    moreover have "sk_alive ?s" using al by (simp add: sk_alive_def)
    ultimately show ?thesis
      using i al f False m n
      by (simp add: sk_conc_locked_def sk_conc_add_def numeral_3_eq_3 sec_run_is_Step)
  qed
qed

lemma sk_serves_insert:
  assumes v: "fits v"
  shows "serves sk_alive sk_locked_inv 3 (sk_conc_insert k v) (kv_seq sk_ops sk_read_at (CInsert k v))"
  unfolding sk_conc_insert_def
proof (rule serves_checked [OF sk_alive_check])
  fix s assume s: "sk_locked_inv s"
  then obtain m where "sk_rep s m" by (auto simp: sk_locked_inv_def)
  then obtain s' where s': "sk_insert s k v = ret (1, s')" "sk_locked_inv s'"
    using sk_rep_insert [OF _ v] by (fastforce simp: sk_locked_inv_def)
  then show "\<exists>r s'. kv_seq sk_ops sk_read_at (CInsert k v) s = ret (r, s') \<and> sk_locked_inv s' \<and>
      sec_run sk_alive Exclusive 3 (sk_conc_locked k v 0) s = ret (r, s')"
    using sk_insert_section [OF s'(1) sk_locked_alive [OF s] sk_locked_alive [OF s'(2)]]
    by (simp add: sk_ops_def)
qed

lemma sk_reads_through: "reads_through sk_ops sk_read_at sk_value s k"
  unfolding reads_through_def
proof
  fix r
  have "bindC (sk_key_at (sk_heap s) p k) (\<lambda>found.
        if found then bindC (sk_get_entry (sk_heap s) p) (\<lambda>e. ret (1, StrP (ske_value e))) else ret (1, r)) =
      bindC (sk_key_at (sk_heap s) p k) (\<lambda>found.
        bindC (follow sk_value s r (if found then node_ref p else NoRef)) (\<lambda>x. ret (1 :: int, x)))" for p
    by (rule bindC_cong [OF refl]) (cases p, auto simp: sk_value_def sk_key_at_def bindC_assoc)
  then show "op_read sk_ops s k r =
      bindC (sk_read_at s k) (\<lambda>(st, q). bindC (follow sk_value s r q) (\<lambda>x. ret (st, x)))"
    by (simp add: sk_ops_def sk_read_def sk_read_at_def find_at_def sk_find_value_def bindC_assoc)
qed

lemma sk_serves_read: "serves sk_alive sk_locked_inv 3 (sk_conc_read md k) (kv_seq sk_ops sk_read_at (CRead k))"
  unfolding sk_conc_read_def sk_conc_found_def sk_read_at_def
proof (rule serves_read [OF sk_alive_check sk_locked_alive sk_reads_through [unfolded sk_read_at_def]])
  fix s assume s: "sk_locked_inv s"
  then obtain hp L where "sk_head s = Some hp" "sk_lists (mem (sk_heap s)) hp L"
    by (auto simp: sk_locked_inv_def sk_rep_def)
  then show "\<exists>x. op_read sk_ops s k Unset = ret x"
    using sk_read_eq [of s hp L k Unset]
    by (cases "map_of (sk_pairs (mem (sk_heap s)) (L 0)) k") (auto simp: sk_ops_def)
qed simp_all

lemma sk_serves_scan:
  "serves sk_alive sk_locked_inv 3 (sk_conc_scan md k len r) (kv_seq sk_ops sk_read_at (CScan k len r))"
  unfolding sk_conc_scan_def
proof (rule serves_checked [OF sk_alive_check])
  fix s assume s: "sk_locked_inv s"
  then obtain r' where r': "sk_scan s k len r = ret (1, r')"
    using sk_rep_scan by (fastforce simp: sk_locked_inv_def)
  have al: "sk_alive s" by (rule sk_locked_alive [OF s])
  have "stmt_of (sk_conc_scanned k len r 0) s = bindC (sk_scan s k len r) (\<lambda>(st, r'). ret (s, Release (Done (RScan st r'))))"
    using al by (simp add: sk_conc_scanned_def sk_scan_def sk_alive_check bindC_assoc)
  moreover have "is_Step (sk_conc_scanned k len r 0)" by (simp add: sk_conc_scanned_def)
  ultimately show "\<exists>r' s'. kv_seq sk_ops sk_read_at (CScan k len r) s = ret (r', s') \<and> sk_locked_inv s' \<and>
      sec_run sk_alive md 3 (sk_conc_scanned k len r 0) s = ret (r', s')"
    using s al r' by (simp add: sk_ops_def sec_run_is_Step numeral_3_eq_3)
qed

lemma sk_locked: "locked_store sk_ops sk_read_at sk_value (sk_conc_code md) sk_alive sk_locked_inv values_ok 3"
proof (rule locked_store_calls [OF sk_locked_alive])
  have "kv_seq sk_ops sk_read_at (CUpdate k v) = kv_seq sk_ops sk_read_at (CInsert k v)" for k v
    by (simp add: fun_eq_iff sk_ops_def sk_update_def)
  then show "values_ok (CUpdate k v) \<Longrightarrow>
      serves sk_alive sk_locked_inv 3 (sk_conc_code md (CUpdate k v)) (kv_seq sk_ops sk_read_at (CUpdate k v))" for k v
    using sk_serves_insert by (simp add: sk_conc_update_def values_ok_def)
qed (simp_all add: sk_serves_insert sk_serves_read sk_serves_scan sk_reads_through values_ok_def del: kv_seq.simps)

interpretation sk_lock: locked_store sk_ops sk_read_at sk_value "sk_conc_code md" sk_alive sk_locked_inv values_ok 3
  for md by (rule sk_locked)

section \<open>Linked list\<close>

text \<open>Only a mutex variant exists. \<open>insert\<close> makes no test before it takes the lock.\<close>

definition ll_mlock_init :: "int \<Rightarrow> (int \<times> linkedlist_dram locked) comp" where
  "ll_mlock_init rc = (let s = ll_init in
     bindC (lock_init rc) (\<lambda>_. ret (1, \<lparr>inner = s, lock_live = True\<rparr>)))"

definition ll_mlock_scan :: "u64 \<Rightarrow> int \<Rightarrow> scan_result \<Rightarrow> linkedlist_dram routine" where
  "ll_mlock_scan key len result = Step (\<lambda>s. crash (Thrown ''Scan: function not implemented!''))"

definition ll_find_value :: "linkedlist_dram \<Rightarrow> u64 \<Rightarrow> vref comp" where
  "ll_find_value s key = bindC (ll_find (ll_heap s) (ll_head s) key) (\<lambda>p. ret (node_ref p))"

definition ll_node_value :: "linkedlist_dram \<Rightarrow> nat \<Rightarrow> nat \<Rightarrow> outp comp" where
  "ll_node_value s a i = bindC (load (ll_heap s) (Some a)) (\<lambda>n. ret (StrP (ll_value n)))"

definition ll_read_at :: "linkedlist_dram \<Rightarrow> u64 \<Rightarrow> (int \<times> vref) comp" where
  "ll_read_at = find_at ll_check ll_find_value"

definition ll_mlock_found :: "u64 \<Rightarrow> int \<Rightarrow> linkedlist_dram routine" where
  "ll_mlock_found key = find_locked (\<lambda>s. ll_find_value s key)"

definition ll_mlock_read :: "u64 \<Rightarrow> linkedlist_dram routine" where
  "ll_mlock_read key = checked ll_check (Acquire Exclusive (ll_mlock_found key))"

definition ll_mlock_write :: "ptr \<Rightarrow> string \<Rightarrow> linkedlist_dram routine" where
  "ll_mlock_write p value = Step (\<lambda>s.
     bindC (load (ll_heap s) p) (\<lambda>n.
     bindC (copy_value value) (\<lambda>v.
     bindC (store (ll_heap s) p (n\<lparr>ll_value := v\<rparr>)) (\<lambda>h.
       ret (s\<lparr>ll_heap := h\<rparr>, Release (Done (RStatus 1)))))))"

definition ll_mlock_search :: "u64 \<Rightarrow> string \<Rightarrow> int \<Rightarrow> linkedlist_dram routine" where
  "ll_mlock_search key value rc =
     (if rc \<noteq> 0 then Done (RStatus 0)
      else Step (\<lambda>s. bindC (ll_find (ll_heap s) (ll_head s) key) (\<lambda>p.
             ret (s, if p = NULL then Release (Done (RStatus 1)) else ll_mlock_write p value))))"

definition ll_mlock_update :: "u64 \<Rightarrow> string \<Rightarrow> linkedlist_dram routine" where
  "ll_mlock_update key value = checked ll_check (Acquire Exclusive (ll_mlock_search key value))"

definition ll_mlock_create_node ::
  "ll_dram_node \<Rightarrow> ll_dram_node heap \<Rightarrow> u64 \<Rightarrow> string \<Rightarrow> (ptr \<times> ll_dram_node heap) comp" where
  "ll_mlock_create_node junk h key value =
     (let (new_node, h1) = malloc h junk in
      bindC (load h1 new_node) (\<lambda>n.
      bindC (copy_value value) (\<lambda>v.
      bindC (store h1 new_node (n\<lparr>ll_key := key, ll_value := v\<rparr>)) (\<lambda>h2.
        ret (new_node, h2)))))"

definition ll_mlock_link :: "ptr \<Rightarrow> linkedlist_dram routine" where
  "ll_mlock_link new_node = Step (\<lambda>s.
     if ll_head s = NULL
     then ret (s\<lparr>ll_head := new_node, ll_tail := new_node\<rparr>, Release (Done (RStatus 1)))
     else bindC (load (ll_heap s) (ll_tail s)) (\<lambda>t.
          bindC (store (ll_heap s) (ll_tail s) (t\<lparr>ll_next := new_node\<rparr>)) (\<lambda>h.
          bindC (load h (ll_tail s)) (\<lambda>t'.
            ret (s\<lparr>ll_heap := h, ll_tail := ll_next t'\<rparr>, Release (Done (RStatus 1)))))))"

definition ll_mlock_locked :: "ll_dram_node \<Rightarrow> u64 \<Rightarrow> string \<Rightarrow> int \<Rightarrow> linkedlist_dram routine" where
  "ll_mlock_locked junk key value rc =
     (if rc \<noteq> 0 then Done (RStatus 0)
      else Step (\<lambda>s. bindC (ll_mlock_create_node junk (ll_heap s) key value) (\<lambda>(new_node, h).
             ret (s\<lparr>ll_heap := h\<rparr>, ll_mlock_link new_node))))"

definition ll_mlock_insert :: "ll_dram_node \<Rightarrow> u64 \<Rightarrow> string \<Rightarrow> linkedlist_dram routine" where
  "ll_mlock_insert junk key value = Acquire Exclusive (ll_mlock_locked junk key value)"

definition ll_mlock_destroy :: "linkedlist_dram locked \<Rightarrow> linkedlist_dram locked comp" where
  "ll_mlock_destroy S = (let s = inner S in
     bindC (if ll_tail s \<noteq> NULL
            then bindC (cfree (ll_heap s) (ll_tail s)) (\<lambda>h. ret (s\<lparr>ll_heap := h, ll_tail := NULL\<rparr>))
            else ret s) (\<lambda>s.
     bindC (ll_free_loop (ll_heap s) (ll_head s)) (\<lambda>h.
       ret (S\<lparr>inner := s\<lparr>ll_heap := h, ll_head := NULL\<rparr>, lock_live := False\<rparr>))))"

fun ll_mlock_code :: "ll_dram_node \<Rightarrow> kv_call \<Rightarrow> linkedlist_dram routine" where
  "ll_mlock_code junk (CRead k) = ll_mlock_read k"
| "ll_mlock_code junk (CUpdate k v) = ll_mlock_update k v"
| "ll_mlock_code junk (CInsert k v) = ll_mlock_insert junk k v"
| "ll_mlock_code junk (CScan k len res) = ll_mlock_scan k len res"

text \<open>
  \<open>Ks\<close>: keys the list holds. Only these can be read or updated: a search for another key runs into
  the \<open>next\<close> field of the last node, which holds what \<^verbatim>\<open>malloc\<close> left there (\<open>q\<close>).
\<close>

definition ll_alive :: "u64 set \<Rightarrow> linkedlist_dram \<Rightarrow> bool" where
  "ll_alive Ks s \<longleftrightarrow> (Ks \<noteq> {} \<longrightarrow> ll_head s \<noteq> NULL)"

definition ll_locked_inv :: "u64 set \<Rightarrow> linkedlist_dram \<Rightarrow> bool" where
  "ll_locked_inv Ks s \<longleftrightarrow> (\<exists>m. ll_rep s m \<and> Ks \<subseteq> dom m)"

definition ll_call_ok :: "u64 set \<Rightarrow> kv_call \<Rightarrow> bool" where
  "ll_call_ok Ks c \<longleftrightarrow> (case c of CRead k \<Rightarrow> k \<in> Ks | CUpdate k v \<Rightarrow> k \<in> Ks \<and> fits v
     | CInsert k v \<Rightarrow> fits v | CScan k len res \<Rightarrow> False)"

lemma ll_alive_check: "k \<in> Ks \<Longrightarrow> ll_alive Ks s \<Longrightarrow> ll_check s = ret ()"
  by (auto simp: ll_alive_def ll_check_def)

lemma ll_alive_heap [simp]: "ll_alive Ks (s\<lparr>ll_heap := h\<rparr>) = ll_alive Ks s"
  by (simp add: ll_alive_def)

lemma ll_locked_alive:
  assumes "ll_locked_inv Ks s"
  shows "ll_alive Ks s"
proof -
  obtain as q where l: "ll_list s as q" "Ks \<subseteq> dom (map_of (ll_pairs s as))"
    using assms by (auto simp: ll_locked_inv_def ll_rep_def)
  show ?thesis using ll_list_head [OF l(1)] l(2) by (cases as) (auto simp: ll_alive_def)
qed

lemma ll_mlock_create: "ll_mlock_create_node = ll_create_node"
  by (simp add: ll_mlock_create_node_def ll_create_node_def fun_eq_iff)

lemma ll_locked_insert:
  assumes "ll_locked_inv Ks s" and "fits v"
  shows "\<exists>s'. ll_insert junk s k v = ret (1, s') \<and> ll_locked_inv Ks s'"
proof -
  obtain m where m: "ll_rep s m" "Ks \<subseteq> dom m" using assms(1) by (auto simp: ll_locked_inv_def)
  obtain s' where s': "ll_insert junk s k v = ret (1, s')" "ll_rep s' (add_new m k v)"
    using ll.insert_law [OF m(1) TrueI assms(2), of junk k] by (auto simp: ll_ops_def)
  moreover have "Ks \<subseteq> dom (add_new m k v)" using m(2) by (auto simp: add_new_def)
  ultimately show ?thesis by (auto simp: ll_locked_inv_def)
qed

lemma ll_serves_insert:
  assumes v: "fits v"
  shows "serves (ll_alive Ks) (ll_locked_inv Ks) 2 (ll_mlock_insert junk k v)
    (kv_seq (ll_ops junk) ll_read_at (CInsert k v))"
  unfolding ll_mlock_insert_def
proof (rule serves_acquire)
  fix s assume s: "ll_locked_inv Ks s"
  obtain s' where s': "ll_insert junk s k v = ret (1, s')" "ll_locked_inv Ks s'"
    using ll_locked_insert [OF s v] by blast
  note al = ll_locked_alive [OF s] ll_locked_alive [OF s'(2)]
  obtain p h where p: "ll_create_node junk (ll_heap s) k v = ret (p, h)"
    using v by (simp add: ll_create_node_eq)
  have "stmt_of (ll_mlock_link p) (s\<lparr>ll_heap := h\<rparr>) = returning (ll_insert junk s k v)"
    using p by (simp add: ll_mlock_link_def ll_insert_def bindC_assoc bindC_if cong: if_cong)
  moreover have "is_Step (ll_mlock_link p)" by (simp add: ll_mlock_link_def)
  ultimately show "\<exists>r s'. kv_seq (ll_ops junk) ll_read_at (CInsert k v) s = ret (r, s') \<and> ll_locked_inv Ks s' \<and>
      sec_run (ll_alive Ks) Exclusive 2 (ll_mlock_locked junk k v 0) s = ret (r, s')"
    using s' al p
    by (auto simp: ll_ops_def ll_mlock_locked_def ll_mlock_create sec_run_is_Step numeral_2_eq_2)
qed

lemma ll_locked_update:
  assumes s: "ll_locked_inv Ks s" and k: "k \<in> Ks" and v: "fits v"
  shows "\<exists>s'. ll_update s k v = ret (1, s') \<and> ll_locked_inv Ks s'"
proof -
  obtain m w where m: "ll_rep s m" "Ks \<subseteq> dom m" "m k = Some w"
    using s k unfolding ll_locked_inv_def by blast
  obtain s' where s': "ll_update s k v = ret (1, s')" "ll_rep s' (m(k \<mapsto> v))"
    using ll.update_law [OF m(1) m(3) v] by (auto simp: ll_ops_def)
  moreover have "Ks \<subseteq> dom (m(k \<mapsto> v))" using m(2) by auto
  ultimately show ?thesis unfolding ll_locked_inv_def by blast
qed

lemma ll_serves_update:
  assumes k: "k \<in> Ks" and v: "fits v"
  shows "serves (ll_alive Ks) (ll_locked_inv Ks) 2 (ll_mlock_update k v)
    (kv_seq (ll_ops junk) ll_read_at (CUpdate k v))"
  unfolding ll_mlock_update_def
proof (rule serves_checked [OF ll_alive_check [OF k]])
  fix s assume s: "ll_locked_inv Ks s"
  obtain s' where s': "ll_update s k v = ret (1, s')" "ll_locked_inv Ks s'"
    using ll_locked_update [OF s k v] by blast
  note al = ll_locked_alive [OF s] ll_locked_alive [OF s'(2)]
  note chk = ll_alive_check [OF k al(1)]
  obtain p where p: "ll_find (ll_heap s) (ll_head s) k = ret p"
    using s'(1) by (auto simp: ll_update_def bindC_eq_ret)
  have "p \<noteq> NULL \<Longrightarrow> stmt_of (ll_mlock_write p v) s = returning (ll_update s k v)"
    using p chk by (simp add: ll_mlock_write_def ll_update_def bindC_assoc)
  moreover have "is_Step (ll_mlock_write p v)" by (simp add: ll_mlock_write_def)
  moreover have "p = NULL \<Longrightarrow> s' = s" using s'(1) p chk by (simp add: ll_update_def)
  ultimately show "\<exists>r s'. kv_seq (ll_ops junk) ll_read_at (CUpdate k v) s = ret (r, s') \<and> ll_locked_inv Ks s' \<and>
      sec_run (ll_alive Ks) Exclusive 2 (ll_mlock_search k v 0) s = ret (r, s')"
    using s' al p
    by (cases "p = NULL") (auto simp: ll_ops_def ll_mlock_search_def sec_run_is_Step numeral_2_eq_2)
qed

lemma ll_reads_through: "reads_through (ll_ops junk) ll_read_at ll_node_value s k"
  unfolding reads_through_def
proof
  fix r
  have follow: "bindC (follow ll_node_value s r (node_ref p)) f = (if p = NULL then f r
      else bindC (load (ll_heap s) p) (\<lambda>n. f (StrP (ll_value n))))" for p and f :: "outp \<Rightarrow> (int \<times> outp) comp"
    by (cases p) (simp_all add: ll_node_value_def bindC_assoc)
  show "op_read (ll_ops junk) s k r =
      bindC (ll_read_at s k) (\<lambda>(st, q). bindC (follow ll_node_value s r q) (\<lambda>x. ret (st, x)))"
    by (simp add: ll_ops_def ll_read_def ll_read_at_def find_at_def ll_find_value_def bindC_assoc follow)
qed

lemma ll_serves_read:
  assumes k: "k \<in> Ks"
  shows "serves (ll_alive Ks) (ll_locked_inv Ks) 2 (ll_mlock_read k) (kv_seq (ll_ops junk) ll_read_at (CRead k))"
  unfolding ll_mlock_read_def ll_mlock_found_def ll_read_at_def
proof (rule serves_read [OF ll_alive_check [OF k] ll_locked_alive ll_reads_through [unfolded ll_read_at_def]])
  fix s assume "ll_locked_inv Ks s"
  then obtain m v where "ll_rep s m" "m k = Some v" using k unfolding ll_locked_inv_def by blast
  then show "\<exists>x. op_read (ll_ops junk) s k Unset = ret x" using ll.read_law by blast
qed simp_all

lemma ll_locked:
  "locked_store (ll_ops junk) ll_read_at ll_node_value (ll_mlock_code junk) (ll_alive Ks) (ll_locked_inv Ks)
     (ll_call_ok Ks) 2"
  by (rule locked_store_calls [OF ll_locked_alive ll_reads_through])
    (simp_all add: ll_serves_insert ll_serves_update ll_serves_read ll_call_ok_def del: kv_seq.simps)

interpretation ll_lock: locked_store "ll_ops junk" ll_read_at ll_node_value "ll_mlock_code junk" "ll_alive Ks"
    "ll_locked_inv Ks" "ll_call_ok Ks" 2
  for junk Ks by (rule ll_locked)

section \<open>Hash list\<close>

text \<open>Again only with a mutex, which \<open>init\<close> makes last.\<close>

definition hl_mlock_init :: "int \<Rightarrow> u32 \<Rightarrow> (nat \<Rightarrow> u32) \<Rightarrow> (int \<times> hl_dram locked) comp" where
  "hl_mlock_init rc time rnd =
     bindC (hl_init time rnd) (\<lambda>(st, s).
     bindC (lock_init rc) (\<lambda>_. ret (st, \<lparr>inner = s, lock_live = True\<rparr>)))"

definition hl_mlock_scan :: "u64 \<Rightarrow> int \<Rightarrow> scan_result \<Rightarrow> hl_dram routine" where
  "hl_mlock_scan key len result = Step (\<lambda>s. crash (Thrown ''Scan: function not implemented!''))"

definition hl_find :: "hl_dram \<Rightarrow> u64 \<Rightarrow> vref comp" where
  "hl_find s key =
     bindC (deref (hl_root s)) (\<lambda>r.
     bindC (deref (buckets r)) (\<lambda>b.
     bindC (bucket_get b (unat (hl_hash_function r b key))) (\<lambda>head.
     bindC (search_chain he_next he_key (hl_heap s) head key) (\<lambda>p.
       if p = NULL then ret NoRef
       else bindC (load (hl_heap s) p) (\<lambda>e.
            case he_ll_p e of None \<Rightarrow> crash NullDeref | Some a \<Rightarrow> ret (Ref a 0))))))"

definition hl_value :: "hl_dram \<Rightarrow> nat \<Rightarrow> nat \<Rightarrow> outp comp" where
  "hl_value s a i = bindC (load (ll_heap (hl_list s)) (Some a)) (\<lambda>n. ret (StrP (ll_value n)))"

definition hl_read_at :: "hl_dram \<Rightarrow> u64 \<Rightarrow> (int \<times> vref) comp" where
  "hl_read_at = find_at hl_check hl_find"

definition hl_mlock_found :: "u64 \<Rightarrow> int \<Rightarrow> hl_dram routine" where
  "hl_mlock_found key = find_locked (\<lambda>s. hl_find s key)"

definition hl_mlock_read :: "u64 \<Rightarrow> hl_dram routine" where
  "hl_mlock_read key = checked hl_check (Acquire Exclusive (hl_mlock_found key))"

text \<open>
  The statements of \<open>insert\<close>: search; then overwrite the value in the list, or append to the list
  and then add an entry. Between the last two the list holds a value no entry points to.
\<close>

definition hl_mlock_overwrite :: "ptr \<Rightarrow> string \<Rightarrow> hl_dram routine" where
  "hl_mlock_overwrite p value = Step (\<lambda>s.
     bindC (load (hl_heap s) p) (\<lambda>e.
     bindC (load (ll_heap (hl_list s)) (he_ll_p e)) (\<lambda>n.
     bindC (copy_value value) (\<lambda>v.
     bindC (store (ll_heap (hl_list s)) (he_ll_p e) (n\<lparr>ll_value := v\<rparr>)) (\<lambda>h.
       ret (s\<lparr>hl_list := (hl_list s)\<lparr>ll_heap := h\<rparr>\<rparr>, Release (Done (RStatus 1))))))))"

definition hl_mlock_link :: "hl_dram_entry \<Rightarrow> nat \<Rightarrow> u64 \<Rightarrow> ptr \<Rightarrow> hl_dram routine" where
  "hl_mlock_link junk hash_value key new_node = Step (\<lambda>s.
     bindC (hl_new_hash_entry junk (hl_heap s) key new_node) (\<lambda>(entry_p, h).
     bindC (deref (hl_root s)) (\<lambda>r.
     bindC (deref (buckets r)) (\<lambda>b.
     bindC (bucket_get b hash_value) (\<lambda>first.
     bindC (load h entry_p) (\<lambda>n.
     bindC (store h entry_p (n\<lparr>he_next := first\<rparr>)) (\<lambda>h'.
     bindC (bucket_set b hash_value entry_p) (\<lambda>b'.
       ret (\<lparr>hl_heap = h', hl_root = LiveBlock (r\<lparr>buckets := LiveBlock b'\<rparr>), hl_list = hl_list s\<rparr>,
         Release (Done (RStatus 1)))))))))))"

definition hl_mlock_append ::
  "hl_dram_entry \<Rightarrow> ll_dram_node \<Rightarrow> nat \<Rightarrow> u64 \<Rightarrow> string \<Rightarrow> hl_dram routine" where
  "hl_mlock_append junk ll_junk hash_value key value = Step (\<lambda>s.
     bindC (hl_append ll_junk (hl_list s) key value) (\<lambda>(new_node, l).
       ret (s\<lparr>hl_list := l\<rparr>, hl_mlock_link junk hash_value key new_node)))"

definition hl_mlock_locked ::
  "hl_dram_entry \<Rightarrow> ll_dram_node \<Rightarrow> u64 \<Rightarrow> string \<Rightarrow> int \<Rightarrow> hl_dram routine" where
  "hl_mlock_locked junk ll_junk key value rc =
     (if rc \<noteq> 0 then Done (RStatus 0)
      else Step (\<lambda>s. bindC (deref (hl_root s)) (\<lambda>r.
             bindC (deref (buckets r)) (\<lambda>b.
             let hash_value = unat (hl_hash_function r b key) in
             bindC (bucket_get b hash_value) (\<lambda>head.
             bindC (search_chain he_next he_key (hl_heap s) head key) (\<lambda>p.
               ret (s, if p \<noteq> NULL then hl_mlock_overwrite p value
                       else hl_mlock_append junk ll_junk hash_value key value)))))))"

definition hl_mlock_insert :: "hl_dram_entry \<Rightarrow> ll_dram_node \<Rightarrow> u64 \<Rightarrow> string \<Rightarrow> hl_dram routine" where
  "hl_mlock_insert junk ll_junk key value =
     checked hl_check (Acquire Exclusive (hl_mlock_locked junk ll_junk key value))"

definition hl_mlock_update :: "hl_dram_entry \<Rightarrow> ll_dram_node \<Rightarrow> u64 \<Rightarrow> string \<Rightarrow> hl_dram routine" where
  "hl_mlock_update junk ll_junk key value = hl_mlock_insert junk ll_junk key value"

definition hl_mlock_destroy :: "hl_dram locked \<Rightarrow> hl_dram locked comp" where
  "hl_mlock_destroy S = bindC (hl_destroy (inner S)) (\<lambda>s. ret (S\<lparr>inner := s, lock_live := False\<rparr>))"

fun hl_mlock_code :: "hl_dram_entry \<Rightarrow> ll_dram_node \<Rightarrow> kv_call \<Rightarrow> hl_dram routine" where
  "hl_mlock_code junk ll_junk (CRead k) = hl_mlock_read k"
| "hl_mlock_code junk ll_junk (CUpdate k v) = hl_mlock_update junk ll_junk k v"
| "hl_mlock_code junk ll_junk (CInsert k v) = hl_mlock_insert junk ll_junk k v"
| "hl_mlock_code junk ll_junk (CScan k len res) = hl_mlock_scan k len res"

definition hl_alive :: "hl_dram \<Rightarrow> bool" where
  "hl_alive s \<longleftrightarrow> returns (hl_check s)"

definition hl_locked_inv :: "hl_dram \<Rightarrow> bool" where
  "hl_locked_inv s \<longleftrightarrow> (\<exists>m. hl_rep s m)"

lemma hl_alive_check: "hl_alive s \<Longrightarrow> hl_check s = ret ()"
  by (auto simp: hl_alive_def returns_def)

lemma hl_alive_list [simp]: "hl_alive (s\<lparr>hl_list := l\<rparr>) = hl_alive s"
  by (simp add: hl_alive_def hl_check_def)

lemma hl_locked_alive: "hl_locked_inv s \<Longrightarrow> hl_alive s"
  by (auto simp: hl_locked_inv_def hl_alive_def hl_rep_def hl_inv_live)

lemma hl_insert_section:
  assumes i: "hl_insert junk lj s k v = ret (t, s')" and al: "hl_alive s" "hl_alive s'"
  shows "sec_run hl_alive Exclusive 3 (hl_mlock_locked junk lj k v 0) s = ret (RStatus t, s')"
proof -
  let ?i = "\<lambda>r b. unat (hl_hash_function r b k)"
  obtain r b hd p where rb: "deref (hl_root s) = ret r" "deref (buckets r) = ret b"
      "bucket_get b (?i r b) = ret hd" "search_chain he_next he_key (hl_heap s) hd k = ret p"
    using i by (auto simp: hl_insert_def bindC_eq_ret Let_def)
  show ?thesis
  proof (cases "p = NULL")
    case False
    have "stmt_of (hl_mlock_overwrite p v) s = returning (hl_insert junk lj s k v)"
      using rb False al(1)
      by (simp add: hl_mlock_overwrite_def hl_insert_def hl_alive_check Let_def bindC_assoc)
    moreover have "is_Step (hl_mlock_overwrite p v)" by (simp add: hl_mlock_overwrite_def)
    ultimately show ?thesis
      using i al rb False by (simp add: hl_mlock_locked_def Let_def numeral_3_eq_3 sec_run_is_Step)
  next
    case True
    then obtain x l where x: "hl_append lj (hl_list s) k v = ret (x, l)"
      using i rb al by (auto simp: hl_insert_def hl_alive_check bindC_eq_ret Let_def)
    let ?s = "s\<lparr>hl_list := l\<rparr>"
    have "stmt_of (hl_mlock_link junk (?i r b) k x) ?s = returning (hl_insert junk lj s k v)"
      using rb True al(1) x
      by (simp add: hl_mlock_link_def hl_insert_def hl_alive_check Let_def bindC_assoc split_def)
    moreover have "is_Step (hl_mlock_link junk (?i r b) k x)" by (simp add: hl_mlock_link_def)
    ultimately show ?thesis
      using i al rb True x
      by (simp add: hl_mlock_locked_def hl_mlock_append_def Let_def numeral_3_eq_3 sec_run_is_Step)
  qed
qed

lemma hl_serves_insert:
  assumes v: "fits v"
  shows "serves hl_alive hl_locked_inv 3 (hl_mlock_insert junk lj k v) (kv_seq (hl_ops junk lj) hl_read_at (CInsert k v))"
  unfolding hl_mlock_insert_def
proof (rule serves_checked [OF hl_alive_check])
  fix s assume s: "hl_locked_inv s"
  then obtain m where "hl_rep s m" by (auto simp: hl_locked_inv_def)
  then obtain s' where s': "hl_insert junk lj s k v = ret (1, s')" "hl_locked_inv s'"
    using hl_rep_insert [OF _ v] by (fastforce simp: hl_locked_inv_def)
  then show "\<exists>r s'. kv_seq (hl_ops junk lj) hl_read_at (CInsert k v) s = ret (r, s') \<and> hl_locked_inv s' \<and>
      sec_run hl_alive Exclusive 3 (hl_mlock_locked junk lj k v 0) s = ret (r, s')"
    using hl_insert_section [OF s'(1) hl_locked_alive [OF s] hl_locked_alive [OF s'(2)]]
    by (simp add: hl_ops_def)
qed

lemma hl_reads_through: "reads_through (hl_ops junk lj) hl_read_at hl_value s k"
  unfolding reads_through_def
proof
  fix r
  have "(if p = NULL then ret (1, r) else bindC (load (hl_heap s) p) (\<lambda>e.
        bindC (load (ll_heap (hl_list s)) (he_ll_p e)) (\<lambda>n. ret (1, StrP (ll_value n))))) =
      bindC (if p = NULL then ret NoRef else bindC (load (hl_heap s) p) (\<lambda>e.
          case he_ll_p e of None \<Rightarrow> crash NullDeref | Some a \<Rightarrow> ret (Ref a 0)))
        (\<lambda>q. bindC (follow hl_value s r q) (\<lambda>x. ret (1 :: int, x)))" for p
  proof (cases "p = NULL")
    case False
    have "bindC (load (ll_heap (hl_list s)) (he_ll_p e)) (\<lambda>n. ret (1, StrP (ll_value n))) =
        bindC (case he_ll_p e of None \<Rightarrow> crash NullDeref | Some a \<Rightarrow> ret (Ref a 0))
          (\<lambda>q. bindC (follow hl_value s r q) (\<lambda>x. ret (1 :: int, x)))" for e :: hl_dram_entry
      by (cases "he_ll_p e") (simp_all add: hl_value_def bindC_assoc load_def)
    with False show ?thesis by (simp add: bindC_assoc)
  qed simp
  then show "op_read (hl_ops junk lj) s k r =
      bindC (hl_read_at s k) (\<lambda>(st, q). bindC (follow hl_value s r q) (\<lambda>x. ret (st, x)))"
    by (simp add: hl_ops_def hl_read_def hl_read_at_def find_at_def hl_find_def bindC_assoc)
qed

lemma hl_serves_read:
  "serves hl_alive hl_locked_inv 3 (hl_mlock_read k) (kv_seq (hl_ops junk lj) hl_read_at (CRead k))"
  unfolding hl_mlock_read_def hl_mlock_found_def hl_read_at_def
proof (rule serves_read [OF hl_alive_check hl_locked_alive hl_reads_through [unfolded hl_read_at_def]])
  fix s assume "hl_locked_inv s"
  then obtain rt b f B as q where "hl_inv s rt b f B as q" by (auto simp: hl_locked_inv_def hl_rep_def)
  then show "\<exists>x. op_read (hl_ops junk lj) s k Unset = ret x"
    using hl_read_eq [of s rt b f B as q k Unset] by (cases "hl_map s rt b B k") (auto simp: hl_ops_def)
qed simp_all

lemma hl_locked:
  "locked_store (hl_ops junk lj) hl_read_at hl_value (hl_mlock_code junk lj) hl_alive hl_locked_inv (writes_ok True) 3"
proof (rule locked_store_calls [OF hl_locked_alive])
  have "kv_seq (hl_ops junk lj) hl_read_at (CUpdate k v) = kv_seq (hl_ops junk lj) hl_read_at (CInsert k v)" for k v
    by (simp add: fun_eq_iff hl_ops_def hl_update_def)
  then show "writes_ok True (CUpdate k v) \<Longrightarrow>
      serves hl_alive hl_locked_inv 3 (hl_mlock_code junk lj (CUpdate k v)) (kv_seq (hl_ops junk lj) hl_read_at (CUpdate k v))" for k v
    using hl_serves_insert by (simp add: hl_mlock_update_def writes_ok_def)
qed (simp_all add: hl_serves_insert hl_serves_read hl_reads_through writes_ok_def del: kv_seq.simps)

interpretation hl_lock: locked_store "hl_ops junk lj" hl_read_at hl_value "hl_mlock_code junk lj" hl_alive hl_locked_inv "writes_ok True" 3
  for junk lj by (rule hl_locked)

end
