(* ===== verification/Locked_Stores.thy ===== *)
theory Locked_Stores
  imports Locked_Trees Locked_Tables
begin

text \<open>
  The mutex variants \<^verbatim>\<open>*_dram_concurrent_mlock.cc\<close>, whose text is that of the variants with a
  read-write lock except that every lock call takes the one mutex, and what all the locked stores
  promise threads that share one: the results of some order of the calls.
\<close>

section \<open>Mutex variants\<close>

subsection \<open>Array\<close>

definition arr_mlock_init :: "int \<Rightarrow> bool \<Rightarrow> (int \<times> array_dram locked) comp" where
  "arr_mlock_init = arr_conc_init"

definition arr_mlock_read :: "u64 \<Rightarrow> array_dram routine" where
  "arr_mlock_read key = arr_conc_read Exclusive key"

definition arr_mlock_scan :: "u64 \<Rightarrow> int \<Rightarrow> scan_result \<Rightarrow> array_dram routine" where
  "arr_mlock_scan key len result = arr_conc_scan Exclusive key len result"

definition arr_mlock_update :: "u64 \<Rightarrow> string \<Rightarrow> array_dram routine" where
  "arr_mlock_update key value = arr_conc_update key value"

definition arr_mlock_insert :: "u64 \<Rightarrow> string \<Rightarrow> array_dram routine" where
  "arr_mlock_insert key value = arr_conc_insert key value"

definition arr_mlock_destroy :: "array_dram locked \<Rightarrow> array_dram locked comp" where
  "arr_mlock_destroy S = arr_conc_destroy S"

fun arr_mlock_code :: "kv_call \<Rightarrow> array_dram routine" where
  "arr_mlock_code (CRead k) = arr_mlock_read k"
| "arr_mlock_code (CUpdate k v) = arr_mlock_update k v"
| "arr_mlock_code (CInsert k v) = arr_mlock_insert k v"
| "arr_mlock_code (CScan k len res) = arr_mlock_scan k len res"

lemma arr_mlock_code_eq: "arr_mlock_code = arr_conc_code Exclusive"
proof
  fix c
  show "arr_mlock_code c = arr_conc_code Exclusive c"
    by (cases c) (simp_all add: arr_mlock_read_def arr_mlock_update_def arr_mlock_insert_def arr_mlock_scan_def)
qed

subsection \<open>Hash table\<close>

definition ht_mlock_init :: "int \<Rightarrow> u32 \<Rightarrow> (nat \<Rightarrow> u32) \<Rightarrow> (int \<times> ht_dram locked) comp" where
  "ht_mlock_init = ht_conc_init"

definition ht_mlock_read :: "u64 \<Rightarrow> ht_dram routine" where
  "ht_mlock_read key = ht_conc_read Exclusive key"

definition ht_mlock_scan :: "u64 \<Rightarrow> int \<Rightarrow> scan_result \<Rightarrow> ht_dram routine" where
  "ht_mlock_scan key len result = ht_conc_scan key len result"

definition ht_mlock_update :: "dram_entry \<Rightarrow> u64 \<Rightarrow> string \<Rightarrow> ht_dram routine" where
  "ht_mlock_update junk key value = ht_conc_update junk key value"

definition ht_mlock_insert :: "dram_entry \<Rightarrow> u64 \<Rightarrow> string \<Rightarrow> ht_dram routine" where
  "ht_mlock_insert junk key value = ht_conc_insert junk key value"

definition ht_mlock_destroy :: "ht_dram locked \<Rightarrow> ht_dram locked comp" where
  "ht_mlock_destroy S = ht_conc_destroy S"

fun ht_mlock_code :: "dram_entry \<Rightarrow> kv_call \<Rightarrow> ht_dram routine" where
  "ht_mlock_code junk (CRead k) = ht_mlock_read k"
| "ht_mlock_code junk (CUpdate k v) = ht_mlock_update junk k v"
| "ht_mlock_code junk (CInsert k v) = ht_mlock_insert junk k v"
| "ht_mlock_code junk (CScan k len res) = ht_mlock_scan k len res"

lemma ht_mlock_code_eq: "ht_mlock_code junk = ht_conc_code Exclusive junk"
proof
  fix c
  show "ht_mlock_code junk c = ht_conc_code Exclusive junk c"
    by (cases c) (simp_all add: ht_mlock_read_def ht_mlock_update_def ht_mlock_insert_def ht_mlock_scan_def)
qed

subsection \<open>Skip list\<close>

definition sk_mlock_init :: "int \<Rightarrow> (nat \<Rightarrow> u32) \<Rightarrow> (int \<times> skiplist_dram locked) comp" where
  "sk_mlock_init = sk_conc_init"

definition sk_mlock_read :: "u64 \<Rightarrow> skiplist_dram routine" where
  "sk_mlock_read key = sk_conc_read Exclusive key"

definition sk_mlock_scan :: "u64 \<Rightarrow> int \<Rightarrow> scan_result \<Rightarrow> skiplist_dram routine" where
  "sk_mlock_scan key len result = sk_conc_scan Exclusive key len result"

definition sk_mlock_update :: "u64 \<Rightarrow> string \<Rightarrow> skiplist_dram routine" where
  "sk_mlock_update key value = sk_conc_update key value"

definition sk_mlock_insert :: "u64 \<Rightarrow> string \<Rightarrow> skiplist_dram routine" where
  "sk_mlock_insert key value = sk_conc_insert key value"

definition sk_mlock_destroy :: "skiplist_dram locked \<Rightarrow> skiplist_dram locked comp" where
  "sk_mlock_destroy S = sk_conc_destroy S"

fun sk_mlock_code :: "kv_call \<Rightarrow> skiplist_dram routine" where
  "sk_mlock_code (CRead k) = sk_mlock_read k"
| "sk_mlock_code (CUpdate k v) = sk_mlock_update k v"
| "sk_mlock_code (CInsert k v) = sk_mlock_insert k v"
| "sk_mlock_code (CScan k len res) = sk_mlock_scan k len res"

lemma sk_mlock_code_eq: "sk_mlock_code = sk_conc_code Exclusive"
proof
  fix c
  show "sk_mlock_code c = sk_conc_code Exclusive c"
    by (cases c) (simp_all add: sk_mlock_read_def sk_mlock_update_def sk_mlock_insert_def sk_mlock_scan_def)
qed

subsection \<open>B-tree\<close>

definition bt_mlock_init :: "int \<Rightarrow> (int \<times> btree_dram locked) comp" where
  "bt_mlock_init = bt_conc_init"

definition bt_mlock_read :: "u64 \<Rightarrow> btree_dram routine" where
  "bt_mlock_read key = bt_conc_read Exclusive key"

definition bt_mlock_scan :: "u64 \<Rightarrow> int \<Rightarrow> scan_result \<Rightarrow> btree_dram routine" where
  "bt_mlock_scan key len result = bt_conc_scan key len result"

definition bt_mlock_update :: "u64 \<Rightarrow> string \<Rightarrow> btree_dram routine" where
  "bt_mlock_update key value = bt_conc_update key value"

definition bt_mlock_insert :: "u64 \<Rightarrow> string \<Rightarrow> btree_dram routine" where
  "bt_mlock_insert key value = bt_conc_insert key value"

definition bt_mlock_destroy :: "btree_dram locked \<Rightarrow> btree_dram locked comp" where
  "bt_mlock_destroy S = bt_conc_destroy S"

fun bt_mlock_code :: "kv_call \<Rightarrow> btree_dram routine" where
  "bt_mlock_code (CRead k) = bt_mlock_read k"
| "bt_mlock_code (CUpdate k v) = bt_mlock_update k v"
| "bt_mlock_code (CInsert k v) = bt_mlock_insert k v"
| "bt_mlock_code (CScan k len res) = bt_mlock_scan k len res"

lemma bt_mlock_code_eq: "bt_mlock_code = bt_conc_code Exclusive"
proof
  fix c
  show "bt_mlock_code c = bt_conc_code Exclusive c"
    by (cases c) (simp_all add: bt_mlock_read_def bt_mlock_update_def bt_mlock_insert_def bt_mlock_scan_def)
qed

subsection \<open>B+ tree\<close>

definition bpt_mlock_init :: "int \<Rightarrow> (int \<times> bplustree_dram locked) comp" where
  "bpt_mlock_init = bpt_conc_init"

definition bpt_mlock_read :: "u64 \<Rightarrow> bplustree_dram routine" where
  "bpt_mlock_read key = bpt_conc_read Exclusive key"

definition bpt_mlock_scan :: "u64 \<Rightarrow> int \<Rightarrow> scan_result \<Rightarrow> bplustree_dram routine" where
  "bpt_mlock_scan key len result = bpt_conc_scan Exclusive key len result"

definition bpt_mlock_update :: "u64 \<Rightarrow> string \<Rightarrow> bplustree_dram routine" where
  "bpt_mlock_update key value = bpt_conc_update key value"

definition bpt_mlock_insert :: "u64 \<Rightarrow> string \<Rightarrow> bplustree_dram routine" where
  "bpt_mlock_insert key value = bpt_conc_insert key value"

definition bpt_mlock_destroy :: "bplustree_dram locked \<Rightarrow> bplustree_dram locked comp" where
  "bpt_mlock_destroy S = bpt_conc_destroy S"

fun bpt_mlock_code :: "kv_call \<Rightarrow> bplustree_dram routine" where
  "bpt_mlock_code (CRead k) = bpt_mlock_read k"
| "bpt_mlock_code (CUpdate k v) = bpt_mlock_update k v"
| "bpt_mlock_code (CInsert k v) = bpt_mlock_insert k v"
| "bpt_mlock_code (CScan k len res) = bpt_mlock_scan k len res"

lemma bpt_mlock_code_eq: "bpt_mlock_code = bpt_conc_code Exclusive"
proof
  fix c
  show "bpt_mlock_code c = bpt_conc_code Exclusive c"
    by (cases c) (simp_all add: bpt_mlock_read_def bpt_mlock_update_def bpt_mlock_insert_def bpt_mlock_scan_def)
qed

subsection \<open>Red-black tree\<close>

definition rb_mlock_init :: "int \<Rightarrow> (int \<times> rbtree_dram locked) comp" where
  "rb_mlock_init = rb_conc_init"

definition rb_mlock_read :: "u64 \<Rightarrow> rbtree_dram routine" where
  "rb_mlock_read key = rb_conc_read Exclusive key"

definition rb_mlock_scan :: "u64 \<Rightarrow> int \<Rightarrow> scan_result \<Rightarrow> rbtree_dram routine" where
  "rb_mlock_scan key len result = rb_conc_scan key len result"

definition rb_mlock_update :: "rbtree_dram_node \<Rightarrow> u64 \<Rightarrow> string \<Rightarrow> rbtree_dram routine" where
  "rb_mlock_update junk key value = rb_conc_update junk key value"

definition rb_mlock_insert :: "rbtree_dram_node \<Rightarrow> u64 \<Rightarrow> string \<Rightarrow> rbtree_dram routine" where
  "rb_mlock_insert junk key value = rb_conc_insert junk key value"

definition rb_mlock_destroy :: "rbtree_dram locked \<Rightarrow> rbtree_dram locked comp" where
  "rb_mlock_destroy S = rb_conc_destroy S"

fun rb_mlock_code :: "rbtree_dram_node \<Rightarrow> kv_call \<Rightarrow> rbtree_dram routine" where
  "rb_mlock_code junk (CRead k) = rb_mlock_read k"
| "rb_mlock_code junk (CUpdate k v) = rb_mlock_update junk k v"
| "rb_mlock_code junk (CInsert k v) = rb_mlock_insert junk k v"
| "rb_mlock_code junk (CScan k len res) = rb_mlock_scan k len res"

lemma rb_mlock_code_eq: "rb_mlock_code junk = rb_conc_code Exclusive junk"
proof
  fix c
  show "rb_mlock_code junk c = rb_conc_code Exclusive junk c"
    by (cases c) (simp_all add: rb_mlock_read_def rb_mlock_update_def rb_mlock_insert_def rb_mlock_scan_def)
qed

section \<open>States in which the locks are used\<close>

text \<open>The load phase: the threads insert into a store just made.\<close>

fun load_ok :: "kv_call \<Rightarrow> bool" where
  "load_ok (CInsert k v) = fits v"
| "load_ok c = False"

lemma load_ok_cases: "load_ok c \<Longrightarrow> writes_ok b c \<and> scans_ok b c \<and> values_ok c \<and> arr_call_ok Ks c \<and> ll_call_ok Ks c"
  by (cases c) (simp_all add: writes_ok_def scans_ok_def values_ok_def arr_call_ok_def ll_call_ok_def)

lemma arr_locked_inv_init: "arr_locked_inv {} (snd (arr_init True))"
  by (simp add: arr_locked_inv_def arr_init_def)

lemma bt_locked_inv_init: "bt_locked_inv False bt_init"
  using bt_rep_init by (auto simp: bt_locked_inv_def bt_alive_def)

lemma bpt_locked_inv_init: "bpt_locked_inv False bpt_init"
  using bpt_rep_init by (auto simp: bpt_locked_inv_def bpt_alive_def)

lemma rb_locked_inv_init: "rb_locked_inv False rb_init"
  using rb_inv_init by (auto simp: rb_locked_inv_def rb_alive_def rb_rep_def)

lemma ll_locked_inv_init: "ll_locked_inv {} ll_init"
  unfolding ll_locked_inv_def by (intro exI [of _ Map.empty]) simp

text \<open>What the constructors make, when the lock can be made.\<close>

lemma conc_inits:
  "arr_conc_init 0 True = ret (ra, Sa) \<Longrightarrow> arr_locked_inv {} (inner Sa)"
  "ht_conc_init 0 time rnd = ret (rh, Sh) \<Longrightarrow> ht_locked_inv (inner Sh)"
  "sk_conc_init 0 rnd = ret (rk, Sk) \<Longrightarrow> sk_locked_inv (inner Sk)"
  "bt_conc_init 0 = ret (rb, Sb) \<Longrightarrow> bt_locked_inv False (inner Sb)"
  "bpt_conc_init 0 = ret (rp, Sp) \<Longrightarrow> bpt_locked_inv False (inner Sp)"
  "rb_conc_init 0 = ret (rr, Sr) \<Longrightarrow> rb_locked_inv False (inner Sr)"
  "ll_mlock_init 0 = ret (rl, Sl) \<Longrightarrow> ll_locked_inv {} (inner Sl)"
  "hl_mlock_init 0 time rnd = ret (rhl, Shl) \<Longrightarrow> hl_locked_inv (inner Shl)"
  using arr_locked_inv_init bt_locked_inv_init bpt_locked_inv_init rb_locked_inv_init ll_locked_inv_init
    ht_rep_init [of time rnd] hl_rep_init [of time rnd] sk_rep_init [of rnd]
  by (auto simp: arr_conc_init_def ht_conc_init_def sk_conc_init_def bt_conc_init_def bpt_conc_init_def
      rb_conc_init_def ll_mlock_init_def hl_mlock_init_def lock_init_def bindC_eq_ret
      ht_locked_inv_def hl_locked_inv_def sk_locked_inv_def)

text \<open>The run phase: the stores hold something.\<close>

lemma bt_locked_inv_rep: "bt_rep s m \<Longrightarrow> m \<noteq> Map.empty \<Longrightarrow> bt_locked_inv True s"
  by (auto simp: bt_locked_inv_def bt_alive_def bt_rep_def bt_inv_def)

lemma bpt_locked_inv_rep: "bpt_rep s m \<Longrightarrow> m \<noteq> Map.empty \<Longrightarrow> bpt_locked_inv True s"
  by (auto simp: bpt_locked_inv_def bpt_alive_def bpt_rep_def bpt_inv_def)

lemma rb_locked_inv_rep:
  assumes "rb_rep s m" and "m \<noteq> Map.empty"
  shows "rb_locked_inv True s"
proof -
  obtain t where t: "rb_inv s t" "m = map_of (rb_inorder t)" using assms(1) by (auto simp: rb_rep_def)
  then have "t \<noteq> Lf" using assms(2) by auto
  then show ?thesis using assms(1) rb_inv_root [OF t(1)] by (auto simp: rb_locked_inv_def rb_alive_def)
qed

lemma ll_locked_inv_rep: "ll_rep s m \<Longrightarrow> ll_locked_inv (dom m) s"
  by (auto simp: ll_locked_inv_def)

lemma arr_offset_key: "\<exists>j. arr_key_ok j \<and> nat (arr_offset k) = unat j"
proof -
  let ?j = "k mod 1000000 :: u64"
  have u: "unat ?j = unat k mod 1000000" by (simp add: unat_mod)
  have "nat (arr_offset k) = unat ?j" unfolding arr_offset_def ARRAY_SIZE_def by simp
  moreover have "?j < 1000000" by (simp add: word_less_nat_alt u)
  ultimately show ?thesis by (auto simp: arr_key_ok_def)
qed

lemma arr_locked_inv_rep:
  assumes s: "arr_rep s m"
  shows "arr_locked_inv (dom m) s"
proof -
  obtain a where a: "array s = LiveBlock a" "\<And>k. m k \<noteq> None \<Longrightarrow> arr_key_ok k"
      "\<And>k. arr_key_ok k \<Longrightarrow> a (unat k) = m k" "\<And>k v. m k = Some v \<Longrightarrow> fits v"
    using s by (auto simp: arr_rep_def)
  have "a (nat (arr_offset k)) \<noteq> None" if "k \<in> dom m" for k
    using that a(2,3) [of k] by (auto simp: arr_offset_nat)
  moreover have "fits v" if "a (nat (arr_offset k)) = Some v" for k v
    using arr_offset_key [of k] that a(3,4) by metis
  ultimately show ?thesis using a(1) by (auto simp: arr_locked_inv_def)
qed

lemmas mlock_code_eqs = arr_mlock_code_eq ht_mlock_code_eq sk_mlock_code_eq bt_mlock_code_eq bpt_mlock_code_eq
  rb_mlock_code_eq

section \<open>Properties\<close>

text \<open>
  C10: the load phase. Threads that insert into one store just made, with a mutex or a read-write
  lock, never fault, never get stuck, end after boundedly many steps, and leave the results and the
  store that the insertions give in the order in which the threads got the lock, whatever \<^verbatim>\<open>malloc\<close>
  leaves in the nodes (the \<open>junk\<close> arguments).
\<close>

theorem locked_load_serialises:
  assumes calls: "\<forall>c \<in> set (concat cs). load_ok c"
    and a: "arr_conc_init 0 True = ret (ra, Sa)" and h: "ht_conc_init 0 time rnd = ret (rh, Sh)"
    and k: "sk_conc_init 0 rnd = ret (rk, Sk)" and b: "bt_conc_init 0 = ret (rb, Sb)"
    and p: "bpt_conc_init 0 = ret (rp, Sp)" and r: "rb_conc_init 0 = ret (rr, Sr)"
    and l: "ll_mlock_init 0 = ret (rl, Sl)" and hl: "hl_mlock_init 0 time rnd = ret (rhl, Shl)"
  shows "lock_correct arr_ops arr_read_at arr_value (arr_conc_code md) 2 (inner Sa) cs \<and>
    lock_correct (ht_ops junk) ht_read_at ht_value (ht_conc_code md junk) 3 (inner Sh) cs \<and>
    lock_correct sk_ops sk_read_at sk_value (sk_conc_code md) 3 (inner Sk) cs \<and>
    lock_correct bt_ops bt_read_at bt_value (bt_conc_code md) 2 (inner Sb) cs \<and>
    lock_correct bpt_ops bpt_read_at bpt_slot_value (bpt_conc_code md) 2 (inner Sp) cs \<and>
    lock_correct (rb_ops junk2) rb_read_at rb_node_value (rb_conc_code md junk2) 2 (inner Sr) cs \<and>
    lock_correct (ll_ops junk5) ll_read_at ll_node_value (ll_mlock_code junk5) 2 (inner Sl) cs \<and>
    lock_correct (hl_ops junk3 junk4) hl_read_at hl_value (hl_mlock_code junk3 junk4) 3 (inner Shl) cs"
proof -
  have c: "writes_ok b c \<and> scans_ok b c \<and> values_ok c \<and> arr_call_ok Ks c \<and> ll_call_ok Ks c" if "c \<in> set (concat cs)" for b Ks c
    using calls that load_ok_cases by blast
  have "arr_locked_inv {} (inner Sa)" "ht_locked_inv (inner Sh)" "sk_locked_inv (inner Sk)"
    "bt_locked_inv False (inner Sb)" "bpt_locked_inv False (inner Sp)" "rb_locked_inv False (inner Sr)"
    "ll_locked_inv {} (inner Sl)" "hl_locked_inv (inner Shl)"
    by (rule conc_inits(1) [OF a] conc_inits(2) [OF h] conc_inits(3) [OF k] conc_inits(4) [OF b]
        conc_inits(5) [OF p] conc_inits(6) [OF r] conc_inits(7) [OF l] conc_inits(8) [OF hl])+
  note i = this
  show ?thesis
    by (intro conjI arr_lock.locked_correct [OF i(1)] ht_lock.locked_correct [OF i(2)]
        sk_lock.locked_correct [OF i(3)] bt_lock.locked_correct [OF i(4)] bpt_lock.locked_correct [OF i(5)]
        rb_lock.locked_correct [OF i(6)] ll_lock.locked_correct [OF i(7)] hl_lock.locked_correct [OF i(8)])
      (use c in blast)+
qed

theorem locked_load_serialises_witness:
  "\<forall>junk. \<exists>Sb Sh. bt_conc_init 0 = ret (1, Sb) \<and> ht_conc_init 0 5 of_nat = ret (1, Sh) \<and>
     lock_correct bt_ops bt_read_at bt_value (bt_conc_code Shared) 2 (inner Sb) [[CInsert 1 ''a'', CInsert 2 ''b''], [CInsert 1 ''c'']] \<and>
     lock_correct (ht_ops junk) ht_read_at ht_value (ht_conc_code Shared junk) 3 (inner Sh) [[CInsert 1 ''a'', CInsert 2 ''b''], [CInsert 1 ''c'']]"
proof
  fix junk
  have r: "ht_init_coeff of_nat 0 = ret (1, 2)"
    using ht_init_coeff_first [of of_nat 0 1] by simp
  obtain h l k where i: "ht_conc_init 0 5 of_nat = ret (1, h)" "hl_mlock_init 0 5 of_nat = ret (1, l)"
      "sk_conc_init 0 of_nat = ret (1, k)"
    using sk_rep_init [of of_nat]
    by (auto simp: ht_conc_init_def hl_mlock_init_def sk_conc_init_def lock_init_def ht_init_def hl_init_def r)
  have c: "\<forall>c \<in> set (concat [[CInsert 1 ''a'', CInsert 2 ''b''], [CInsert 1 ''c'']]). load_ok c"
    by (simp add: fits_def DEFAULT_VALUE_LEN_def)
  let ?S = "\<lambda>x. \<lparr>inner = x, lock_live = True\<rparr>"
  have e: "arr_conc_init 0 True = ret (1, ?S (snd (arr_init True)))" "bt_conc_init 0 = ret (1, ?S bt_init)"
      "bpt_conc_init 0 = ret (1, ?S bpt_init)" "rb_conc_init 0 = ret (1, ?S rb_init)"
      "ll_mlock_init 0 = ret (1, ?S ll_init)"
    by (simp_all add: arr_conc_init_def bt_conc_init_def bpt_conc_init_def rb_conc_init_def ll_mlock_init_def
        lock_init_def arr_init_def)
  show "\<exists>Sb Sh. bt_conc_init 0 = ret (1, Sb) \<and> ht_conc_init 0 5 of_nat = ret (1, Sh) \<and>
     lock_correct bt_ops bt_read_at bt_value (bt_conc_code Shared) 2 (inner Sb) [[CInsert 1 ''a'', CInsert 2 ''b''], [CInsert 1 ''c'']] \<and>
     lock_correct (ht_ops junk) ht_read_at ht_value (ht_conc_code Shared junk) 3 (inner Sh) [[CInsert 1 ''a'', CInsert 2 ''b''], [CInsert 1 ''c'']]"
    using locked_load_serialises [OF c e(1) i(1) i(3) e(2-5) i(2), of Shared junk] e(2) i(1)
    by (intro exI [of _ "?S bt_init"] exI [of _ h]) simp
qed

lemma scans_values_ok: "scans_ok b c \<Longrightarrow> values_ok c"
  by (cases c) (simp_all add: scans_ok_def values_ok_def writes_ok_def)

text \<open>Every store, holding one pair.\<close>

lemma one_pair_states:
  obtains sa sh sk sb sp sr sl shl where "arr_rep sa [1 \<mapsto> ''a'']" "ht_rep sh [1 \<mapsto> ''a'']"
    "sk_rep sk [1 \<mapsto> ''a'']" "bt_rep sb [1 \<mapsto> ''a'']" "bpt_rep sp [1 \<mapsto> ''a'']" "rb_rep sr [1 \<mapsto> ''a'']"
    "ll_rep sl [1 \<mapsto> ''a'']" "hl_rep shl [1 \<mapsto> ''a'']"
proof -
  have f: "fits ''a''" by (simp add: fits_def DEFAULT_VALUE_LEN_def)
  have r: "ht_init_coeff of_nat 0 = ret (1, 2)"
    using ht_init_coeff_first [of of_nat 0 1] by simp
  obtain h where h: "ht_rep h Map.empty" using ht_rep_init [of 5 of_nat] by (fastforce simp: ht_init_def r)
  obtain l where l: "hl_rep l Map.empty" using hl_rep_init [of 5 of_nat] by (fastforce simp: hl_init_def r)
  obtain k where k: "sk_rep k Map.empty" using sk_rep_init by blast
  have a: "add_new Map.empty 1 ''a'' = [1 \<mapsto> ''a'']" by (simp add: add_new_def)
  have k1: "arr_key_ok 1" by (simp add: arr_key_ok_def)
  obtain xa xh xk xb where x: "arr_rep xa [1 \<mapsto> ''a'']" "ht_rep xh [1 \<mapsto> ''a'']" "sk_rep xk [1 \<mapsto> ''a'']"
      "bt_rep xb [1 \<mapsto> ''a'']"
    using arr_insert_ok [OF arr_rep_init k1 f] ht_rep_insert [OF h f, of _ 1] sk_rep_insert [OF k f, of 1]
      bt_insert_ok [OF bt_rep_init f, of 1] by blast
  obtain xp xr xl xhl where y: "bpt_rep xp [1 \<mapsto> ''a'']" "rb_rep xr [1 \<mapsto> ''a'']" "ll_rep xl [1 \<mapsto> ''a'']"
      "hl_rep xhl [1 \<mapsto> ''a'']"
    using bpt_insert_ok [OF bpt_rep_init f, of 1] rb_insert_ok [OF rb_rep_init f, of _ 1]
      ll.insert_law [OF ll_rep_init TrueI f, of _ 1, unfolded a] hl_rep_insert [OF l f, of _ _ 1] by blast
  show thesis by (rule that [OF x y])
qed

text \<open>
  C9: the run phase with a read-write lock. Threads that read, update, insert and scan one
  store that holds something, readers sharing the lock, never fault, never get stuck and end, and
  what the calls return and leave is what they give one after the other. What a read returns is a
  pointer into the store; whenever no thread is writing, the pointer a read would give leads to what
  the \<open>read\<close> of the unlocked store gives. The caller follows it after the lock is released, when it
  may lead elsewhere (the next property). Scans, which copy the values under the lock, are made on
  the skip list and the B+ tree, and on the array where every slot they read has been written.
\<close>

theorem rwlock_run_serialises:
  assumes m: "m \<noteq> Map.empty"
    and s: "arr_rep sa m" "ht_rep sh m" "sk_rep sk m" "bt_rep sb m" "bpt_rep sp m" "rb_rep sr m"
    and c: "\<forall>c \<in> set (concat cs). writes_ok True c" "\<forall>c \<in> set (concat ds). scans_ok True c"
      "\<forall>c \<in> set (concat es). arr_call_ok (dom m) c"
  shows "lock_correct arr_ops arr_read_at arr_value (arr_conc_code Shared) 2 sa es \<and>
    lock_correct (ht_ops junk) ht_read_at ht_value (ht_conc_code Shared junk) 3 sh cs \<and>
    lock_correct sk_ops sk_read_at sk_value (sk_conc_code Shared) 3 sk ds \<and>
    lock_correct bt_ops bt_read_at bt_value (bt_conc_code Shared) 2 sb cs \<and>
    lock_correct bpt_ops bpt_read_at bpt_slot_value (bpt_conc_code Shared) 2 sp ds \<and>
    lock_correct (rb_ops junk2) rb_read_at rb_node_value (rb_conc_code Shared junk2) 2 sr cs"
proof -
  have i: "arr_locked_inv (dom m) sa" "ht_locked_inv sh" "sk_locked_inv sk"
    "bt_locked_inv True sb" "bpt_locked_inv True sp" "rb_locked_inv True sr"
    using s arr_locked_inv_rep bt_locked_inv_rep [OF _ m] bpt_locked_inv_rep [OF _ m] rb_locked_inv_rep [OF _ m]
    by (auto simp: ht_locked_inv_def sk_locked_inv_def)
  show ?thesis
    by (intro conjI arr_lock.locked_correct [OF i(1)] ht_lock.locked_correct [OF i(2)]
        sk_lock.locked_correct [OF i(3)] bt_lock.locked_correct [OF i(4)] bpt_lock.locked_correct [OF i(5)]
        rb_lock.locked_correct [OF i(6)])
      (use c scans_values_ok in blast)+
qed

theorem rwlock_run_serialises_witness:
  "\<exists>sa sp sk. arr_rep sa [1 \<mapsto> ''a''] \<and> bpt_rep sp [1 \<mapsto> ''a''] \<and> sk_rep sk [1 \<mapsto> ''a''] \<and>
     lock_correct arr_ops arr_read_at arr_value (arr_conc_code Shared) 2 sa
       [[CRead 1, CScan 1 1 []], [CUpdate 1 ''c'']] \<and>
     lock_correct bpt_ops bpt_read_at bpt_slot_value (bpt_conc_code Shared) 2 sp
       [[CRead 1, CInsert 2 ''b''], [CUpdate 1 ''c'', CScan 1 5 []]] \<and>
     lock_correct sk_ops sk_read_at sk_value (sk_conc_code Shared) 3 sk
       [[CRead 1, CInsert 2 ''b''], [CUpdate 1 ''c'', CScan 1 5 []]]"
proof -
  let ?ds = "[[CRead 1, CInsert 2 ''b''], [CUpdate 1 ''c'', CScan 1 5 []]]"
    and ?cs = "[[CRead 1, CInsert 2 ''b''], [CUpdate 1 ''c'']]"
    and ?es = "[[CRead 1, CScan 1 1 []], [CUpdate 1 ''c'']]" and ?m = "[1 \<mapsto> ''a''] :: kv_map"
  obtain sa sh sk sb sp sr sl shl where s: "arr_rep sa ?m" "ht_rep sh ?m"
    "sk_rep sk ?m" "bt_rep sb ?m" "bpt_rep sp ?m" "rb_rep sr ?m" "ll_rep sl ?m" "hl_rep shl ?m"
    by (rule one_pair_states)
  have "\<exists>k' \<in> dom ?m. arr_offset k' = arr_offset 1 + j" if "0 \<le> j \<and> j < min 1 ARRAY_SIZE" for j
    using that by (auto intro: exI [of _ 1])
  then have c: "\<forall>c \<in> set (concat ?cs). writes_ok True c" "\<forall>c \<in> set (concat ?ds). scans_ok True c"
      "\<forall>c \<in> set (concat ?es). arr_call_ok (dom ?m) c"
    by (simp_all add: writes_ok_def scans_ok_def arr_call_ok_def fits_def DEFAULT_VALUE_LEN_def)
  have m: "?m \<noteq> Map.empty" by simp
  show ?thesis
    using rwlock_run_serialises [OF m s(1-6) c] s(1,3,5) by blast
qed

text \<open>
  C11: the run phase with a mutex, where readers exclude each other too: the same for all eight
  stores, among them the linked list and the hash list, which have no other locked variant. Reads
  and updates of the linked list are of keys it holds, since nothing ends it for the others (the
  \<open>next\<close> field of the last node is what \<^verbatim>\<open>malloc\<close> left there).
\<close>

theorem mutex_run_serialises:
  assumes m: "m \<noteq> Map.empty"
    and s: "arr_rep sa m" "ht_rep sh m" "sk_rep sk m" "bt_rep sb m" "bpt_rep sp m" "rb_rep sr m"
      "ll_rep sl m" "hl_rep shl m"
    and c: "\<forall>c \<in> set (concat cs). writes_ok True c" "\<forall>c \<in> set (concat ds). scans_ok True c"
      "\<forall>c \<in> set (concat es). arr_call_ok (dom m) c" "\<forall>c \<in> set (concat ls). ll_call_ok (dom m) c"
  shows "lock_correct arr_ops arr_read_at arr_value arr_mlock_code 2 sa es \<and>
    lock_correct (ht_ops junk) ht_read_at ht_value (ht_mlock_code junk) 3 sh cs \<and>
    lock_correct sk_ops sk_read_at sk_value sk_mlock_code 3 sk ds \<and>
    lock_correct bt_ops bt_read_at bt_value bt_mlock_code 2 sb cs \<and>
    lock_correct bpt_ops bpt_read_at bpt_slot_value bpt_mlock_code 2 sp ds \<and>
    lock_correct (rb_ops junk2) rb_read_at rb_node_value (rb_mlock_code junk2) 2 sr cs \<and>
    lock_correct (ll_ops junk5) ll_read_at ll_node_value (ll_mlock_code junk5) 2 sl ls \<and>
    lock_correct (hl_ops junk3 junk4) hl_read_at hl_value (hl_mlock_code junk3 junk4) 3 shl cs"
proof -
  have i: "arr_locked_inv (dom m) sa" "ht_locked_inv sh" "sk_locked_inv sk"
    "bt_locked_inv True sb" "bpt_locked_inv True sp" "rb_locked_inv True sr"
    "ll_locked_inv (dom m) sl" "hl_locked_inv shl"
    using s arr_locked_inv_rep bt_locked_inv_rep [OF _ m] bpt_locked_inv_rep [OF _ m] rb_locked_inv_rep [OF _ m]
      ll_locked_inv_rep
    by (auto simp: ht_locked_inv_def sk_locked_inv_def hl_locked_inv_def)
  show ?thesis
    unfolding mlock_code_eqs
    by (intro conjI arr_lock.locked_correct [OF i(1)] ht_lock.locked_correct [OF i(2)]
        sk_lock.locked_correct [OF i(3)] bt_lock.locked_correct [OF i(4)] bpt_lock.locked_correct [OF i(5)]
        rb_lock.locked_correct [OF i(6)] ll_lock.locked_correct [OF i(7)] hl_lock.locked_correct [OF i(8)])
      (use c scans_values_ok in blast)+
qed

theorem mutex_run_serialises_witness:
  "\<forall>junk ll_junk. \<exists>sl shl. ll_rep sl [1 \<mapsto> ''a''] \<and> hl_rep shl [1 \<mapsto> ''a''] \<and>
     lock_correct (ll_ops ll_junk) ll_read_at ll_node_value (ll_mlock_code ll_junk) 2 sl [[CRead 1, CInsert 2 ''b''], [CUpdate 1 ''c'']] \<and>
     lock_correct (hl_ops junk ll_junk) hl_read_at hl_value (hl_mlock_code junk ll_junk) 3 shl [[CRead 1, CInsert 2 ''b''], [CUpdate 1 ''c'']]"
proof -
  let ?cs = "[[CRead 1, CInsert 2 ''b''], [CUpdate 1 ''c'']]" and ?m = "[1 \<mapsto> ''a''] :: kv_map"
  obtain sa sh sk sb sp sr sl shl where s: "arr_rep sa ?m" "ht_rep sh ?m"
    "sk_rep sk ?m" "bt_rep sb ?m" "bpt_rep sp ?m" "rb_rep sr ?m" "ll_rep sl ?m" "hl_rep shl ?m"
    by (rule one_pair_states)
  have c: "\<forall>c \<in> set (concat ?cs). writes_ok True c" "\<forall>c \<in> set (concat ?cs). scans_ok True c"
      "\<forall>c \<in> set (concat ?cs). arr_call_ok (dom ?m) c" "\<forall>c \<in> set (concat ?cs). ll_call_ok (dom ?m) c"
    by (simp_all add: writes_ok_def scans_ok_def arr_call_ok_def ll_call_ok_def fits_def DEFAULT_VALUE_LEN_def)
  have m: "?m \<noteq> Map.empty" by simp
  show ?thesis
    using mutex_run_serialises [OF m s c] s(7,8) by blast
qed

end
