(* ===== verification/Persistent_Memory.thy ===== *)
theory Persistent_Memory
  imports Storeds_DB "HOL-Library.Sublist"
begin

text \<open>
  Stores kept in a pool of \<^verbatim>\<open>libpmemobj\<close>, which is not part of the repository. What the code does to
  the pool is a sequence of events: plain writes, and the library calls that allocate, free, persist
  and delimit transactions. The contents of the pool as the program sees them follow from the
  events. What is left of them after a crash and the recovery on reopening is a parameter of the
  properties, a relation \<open>crash\<close>; \<open>documented\<close> says what the library's manual promises about it, and
  the properties assume no more than \<open>crash t d d' \<Longrightarrow> documented t d d'\<close>.
\<close>

section \<open>Events\<close>

text \<open>
  A location is a field (or a group of fields always written together) of an object; the contents
  of a location that is not allocated are \<open>None\<close>.
\<close>

datatype ('a, 'o) pm_event =
    Wr 'a 'o                            \<comment> \<open>a store through a direct pointer\<close>
  | Persist "'a set"                    \<comment> \<open>\<open>pmemobj_persist\<close>\<close>
  | Alloc "'a \<rightharpoonup> 'o"                     \<comment> \<open>\<open>pmemobj_alloc\<close>, with what it writes\<close>
  | Free "'a set"                       \<comment> \<open>\<open>pmemobj_free\<close>\<close>
  | TxBegin                             \<comment> \<open>\<open>TX_BEGIN\<close>\<close>
  | TxAdd "'a set"                      \<comment> \<open>\<open>pmemobj_tx_add_range\<close>\<close>
  | TxAlloc "'a \<rightharpoonup> 'o"                   \<comment> \<open>\<open>pmemobj_tx_alloc\<close>, \<open>pmemobj_tx_zalloc\<close>\<close>
  | TxFree "'a set"                     \<comment> \<open>\<open>pmemobj_tx_free\<close>\<close>
  | TxEnd                               \<comment> \<open>\<open>TX_END\<close>, which commits\<close>

type_synonym ('a, 'o) trace = "('a, 'o) pm_event list"

text \<open>What the program sees.\<close>

fun seen :: "'a \<Rightarrow> ('a, 'o) pm_event \<Rightarrow> 'o option \<Rightarrow> 'o option" where
  "seen x (Wr y v) c = (if x = y then Some v else c)"
| "seen x (Alloc f) c = (if f x \<noteq> None then f x else c)"
| "seen x (TxAlloc f) c = (if f x \<noteq> None then f x else c)"
| "seen x (Free X) c = (if x \<in> X then None else c)"
| "seen x (TxFree X) c = (if x \<in> X then None else c)"
| "seen x e c = c"

section \<open>The promise of the library\<close>

text \<open>
  Of one location: what the program sees, what can be found there after a crash now, and whether
  the open transaction covers it. A write outside the ranges of a transaction makes the location
  unpredictable until it is persisted. A transaction that does not commit is rolled back: the ranges
  added to it get back what they held when they were added, its allocations and frees are undone.
  One that commits makes everything it covers durable.
\<close>

record 'o cell =
  now :: "'o option"
  may :: "'o option set"
  logged :: bool

definition clean :: "'o option \<Rightarrow> 'o cell" where
  "clean v = \<lparr>now = v, may = {v}, logged = False\<rparr>"

definition covered :: "'o cell \<Rightarrow> 'o cell" where
  "covered c = (if logged c then c else c\<lparr>may := {now c}, logged := True\<rparr>)"

fun promised :: "'a \<Rightarrow> ('a, 'o) pm_event \<Rightarrow> 'o cell \<Rightarrow> 'o cell" where
  "promised x (Wr y v) c =
     (if x = y then c\<lparr>now := Some v, may := if logged c then may c else UNIV\<rparr> else c)"
| "promised x (Persist X) c = (if x \<in> X \<and> \<not> logged c then clean (now c) else c)"
| "promised x (Alloc f) c = (if f x \<noteq> None then clean (f x) else c)"
| "promised x (Free X) c = (if x \<in> X then clean None else c)"
| "promised x TxBegin c = c"
| "promised x (TxAdd X) c = (if x \<in> X then covered c else c)"
| "promised x (TxAlloc f) c = (if f x \<noteq> None then (covered c)\<lparr>now := f x\<rparr> else c)"
| "promised x (TxFree X) c = (if x \<in> X then (covered c)\<lparr>now := None\<rparr> else c)"
| "promised x TxEnd c = (if logged c then clean (now c) else c)"

definition cell_after :: "('a, 'o) trace \<Rightarrow> ('a \<rightharpoonup> 'o) \<Rightarrow> 'a \<Rightarrow> 'o cell" where
  "cell_after t d x = fold (promised x) t (clean (d x))"

text \<open>\<open>d\<close> before the events \<open>t\<close>, \<open>d'\<close> after a crash and the recovery.\<close>

definition documented :: "('a, 'o) trace \<Rightarrow> ('a \<rightharpoonup> 'o) \<Rightarrow> ('a \<rightharpoonup> 'o) \<Rightarrow> bool" where
  "documented t d d' \<longleftrightarrow> (\<forall>x. d' x \<in> may (cell_after t d x))"

definition view_after :: "('a, 'o) trace \<Rightarrow> ('a \<rightharpoonup> 'o) \<Rightarrow> 'a \<rightharpoonup> 'o" where
  "view_after t d x = fold (seen x) t (d x)"

text \<open>Everything is durable.\<close>

definition settled :: "('a, 'o) trace \<Rightarrow> ('a \<rightharpoonup> 'o) \<Rightarrow> bool" where
  "settled t d \<longleftrightarrow> (\<forall>x. cell_after t d x = clean (view_after t d x))"

lemma clean_simps [simp]: "now (clean v) = v" "may (clean v) = {v}" "logged (clean v) = False"
  by (simp_all add: clean_def)

lemma covered_simps [simp]:
  "now (covered c) = now c" "logged (covered c)" "logged c \<Longrightarrow> covered c = c"
  "\<not> logged c \<Longrightarrow> may (covered c) = {now c}"
  by (simp_all add: covered_def)

lemma now_promised: "now (promised x e c) = seen x e (now c)"
  by (cases e) simp_all

lemma now_fold_promised: "now (fold (promised x) t c) = fold (seen x) t (now c)"
  by (induction t arbitrary: c) (simp_all add: now_promised)

lemma view_after_cell: "view_after t d x = now (cell_after t d x)"
  by (simp add: view_after_def cell_after_def now_fold_promised)

lemma view_after_Nil [simp]: "view_after [] d = d"
  by (rule ext) (simp add: view_after_def)

lemma view_after_append: "view_after (t @ u) d = view_after u (view_after t d)"
  by (rule ext) (simp add: view_after_def)

lemma cell_after_append: "settled t d \<Longrightarrow> cell_after (t @ u) d = cell_after u (view_after t d)"
  by (rule ext) (simp add: settled_def cell_after_def)

lemma settled_Nil [simp]: "settled [] d"
  by (simp add: settled_def cell_after_def)

lemma settled_append: "settled t d \<Longrightarrow> settled u (view_after t d) \<Longrightarrow> settled (t @ u) d"
  by (simp add: settled_def cell_after_append view_after_append)

lemma documented_append: "settled t d \<Longrightarrow> documented (t @ u) d d' = documented u (view_after t d) d'"
  by (simp add: documented_def cell_after_append)

lemma documented_settled:
  assumes "settled t d"
  shows "documented t d d' \<longleftrightarrow> d' = view_after t d"
  using assms by (auto simp: documented_def settled_def)

section \<open>The pool of a running program\<close>

record ('a, 'o) pool =
  view :: "'a \<rightharpoonup> 'o"
  history :: "('a, 'o) trace"

definition pm_do :: "('a, 'o) pm_event \<Rightarrow> ('a, 'o) pool \<Rightarrow> ('a, 'o) pool" where
  "pm_do e P = \<lparr>view = (\<lambda>x. seen x e (view P x)), history = history P @ [e]\<rparr>"

definition pm_dos :: "('a, 'o) trace \<Rightarrow> ('a, 'o) pool \<Rightarrow> ('a, 'o) pool" where
  "pm_dos t P = fold pm_do t P"

definition opened :: "('a \<rightharpoonup> 'o) \<Rightarrow> ('a, 'o) pool" where
  "opened d = \<lparr>view = d, history = []\<rparr>"

definition pm_get :: "('a, 'o) pool \<Rightarrow> 'a \<Rightarrow> 'o comp" where
  "pm_get P x = (case view P x of None \<Rightarrow> crash WildDeref | Some v \<Rightarrow> ret v)"

lemma pm_get_Some [simp]: "view P x = Some v \<Longrightarrow> pm_get P x = ret v"
  by (simp add: pm_get_def)

lemma pm_dos_eq: "pm_dos t P = \<lparr>view = view_after t (view P), history = history P @ t\<rparr>"
proof (induction t arbitrary: P)
  case (Cons e t)
  then show ?case by (simp add: pm_dos_def pm_do_def view_after_def)
qed (simp add: pm_dos_def view_after_def)

text \<open>A pool whose history began with the contents \<open>d\<close>.\<close>

definition pool_from :: "('a \<rightharpoonup> 'o) \<Rightarrow> ('a, 'o) pool \<Rightarrow> bool" where
  "pool_from d P \<longleftrightarrow> view P = view_after (history P) d \<and> settled (history P) d"

lemma pool_from_opened [simp]: "pool_from d (opened d)"
  by (simp add: pool_from_def opened_def)

section \<open>Transactions that log what they write\<close>

text \<open>\<open>C\<close>: the locations covered so far; \<open>d\<close>: the contents at the start.\<close>

fun logs_writes :: "('a \<rightharpoonup> 'o) \<Rightarrow> 'a set \<Rightarrow> ('a, 'o) trace \<Rightarrow> bool" where
  "logs_writes d C [] \<longleftrightarrow> True"
| "logs_writes d C (Wr x v # t) \<longleftrightarrow> x \<in> C \<and> logs_writes d C t"
| "logs_writes d C (TxAdd X # t) \<longleftrightarrow> logs_writes d (C \<union> X) t"
| "logs_writes d C (TxAlloc f # t) \<longleftrightarrow> logs_writes d (C \<union> dom f) t"
| "logs_writes d C (TxFree X # t) \<longleftrightarrow> logs_writes d (C \<union> X) t"
| "logs_writes d C (e # t) \<longleftrightarrow> False"

lemma logs_writes_cell:
  assumes "logs_writes d C t" and "if x \<in> C then logged c \<and> may c = {d x} else c = clean (d x)"
  shows "may (fold (promised x) t c) = {d x} \<and>
    (logged (fold (promised x) t c) \<or> fold (promised x) t c = clean (d x))"
  using assms
proof (induction d C t arbitrary: c rule: logs_writes.induct)
  case (2 d C y v t)
  have "if x \<in> C then logged (promised x (Wr y v) c) \<and> may (promised x (Wr y v) c) = {d x}
      else promised x (Wr y v) c = clean (d x)"
    using 2(2,3) by auto
  with 2(1) [OF _ this] 2(2) show ?case by simp
next
  case (3 d C X t)
  have "if x \<in> C \<union> X then logged (promised x (TxAdd X) c) \<and> may (promised x (TxAdd X) c) = {d x}
      else promised x (TxAdd X) c = clean (d x)"
    using 3(3) by (auto split: if_splits)
  with 3(1) [OF _ this] 3(2) show ?case by simp
next
  case (4 d C f t)
  have "if x \<in> C \<union> dom f then logged (promised x (TxAlloc f) c) \<and> may (promised x (TxAlloc f) c) = {d x}
      else promised x (TxAlloc f) c = clean (d x)"
    using 4(3) by (auto simp: dom_def covered_def split: if_splits)
  with 4(1) [OF _ this] 4(2) show ?case by simp
next
  case (5 d C X t)
  have "if x \<in> C \<union> X then logged (promised x (TxFree X) c) \<and> may (promised x (TxFree X) c) = {d x}
      else promised x (TxFree X) c = clean (d x)"
    using 5(3) by (auto simp: covered_def split: if_splits)
  with 5(1) [OF _ this] 5(2) show ?case by simp
qed (auto split: if_splits)

lemma logs_writes_prefix: "logs_writes d C (t @ u) \<Longrightarrow> logs_writes d C t"
proof (induction t arbitrary: C)
  case (Cons e t)
  then show ?case by (cases e) auto
qed simp

text \<open>Until it commits, such a transaction has no effect that survives; then it has its whole effect.\<close>

lemma tx_rolled_back:
  assumes "logs_writes d {} t" and "documented (TxBegin # t) d d'"
  shows "d' = d"
proof
  fix x
  have "may (fold (promised x) t (clean (d x))) = {d x}"
    using logs_writes_cell [OF assms(1), of x "clean (d x)"] by simp
  moreover have "d' x \<in> may (cell_after (TxBegin # t) d x)" using assms(2) by (simp add: documented_def)
  ultimately show "d' x = d x" by (simp add: cell_after_def)
qed

lemma tx_committed:
  assumes "logs_writes d {} t"
  shows "settled (TxBegin # t @ [TxEnd]) d"
  unfolding settled_def
proof
  fix x
  let ?c = "fold (promised x) t (clean (d x))"
  have "logged ?c \<or> ?c = clean (d x)"
    using logs_writes_cell [OF assms, of x "clean (d x)"] by simp
  then show "cell_after (TxBegin # t @ [TxEnd]) d x = clean (view_after (TxBegin # t @ [TxEnd]) d x)"
    unfolding view_after_cell by (auto simp: cell_after_def)
qed

text \<open>
  \<open>durable_step d t d1\<close>: after a crash at any point of the events \<open>t\<close> the contents are \<open>d\<close> if the
  events include no commit, and \<open>d1\<close> otherwise; at the end everything is durable.
\<close>

fun commits :: "('a, 'o) trace \<Rightarrow> nat" where
  "commits [] = 0"
| "commits (TxEnd # t) = Suc (commits t)"
| "commits (e # t) = commits t"

lemma commits_append [simp]: "commits (t @ u) = commits t + commits u"
  by (induction t rule: commits.induct) simp_all

definition durable_step :: "('a \<rightharpoonup> 'o) \<Rightarrow> ('a, 'o) trace \<Rightarrow> bool" where
  "durable_step d t \<longleftrightarrow> settled t d \<and> commits t = 1 \<and>
     (\<forall>u d'. prefix u t \<longrightarrow> documented u d d' \<longrightarrow> d' = (if commits u = 0 then d else view_after t d))"

lemma logs_writes_commits: "logs_writes d C t \<Longrightarrow> commits t = 0"
  by (induction d C t rule: logs_writes.induct) simp_all

lemma durable_tx:
  assumes "logs_writes d {} t"
  shows "durable_step d (TxBegin # t @ [TxEnd])"
  unfolding durable_step_def
proof (intro conjI allI impI)
  show "settled (TxBegin # t @ [TxEnd]) d" by (rule tx_committed [OF assms])
  show "commits (TxBegin # t @ [TxEnd]) = 1" using logs_writes_commits [OF assms] by simp
  fix u d' assume p: "prefix u (TxBegin # t @ [TxEnd])" and dd: "documented u d d'"
  consider "u = []" | "u = TxBegin # t @ [TxEnd]" | w where "u = TxBegin # w" "prefix w t"
    using p by (cases u) (auto simp: prefix_snoc)
  then show "d' = (if commits u = 0 then d else view_after (TxBegin # t @ [TxEnd]) d)"
  proof cases
    case 1
    then show ?thesis using dd documented_settled [of "[]" d d'] by simp
  next
    case 2
    then show ?thesis
      using dd documented_settled [OF tx_committed [OF assms]] by simp
  next
    case 3
    then obtain v where "t = w @ v" by (auto simp: prefix_def)
    with assms have w: "logs_writes d {} w" using logs_writes_prefix by blast
    with 3 dd show ?thesis using tx_rolled_back [OF w] logs_writes_commits [OF w] by simp
  qed
qed

section \<open>Stores whose writes are durable and atomic\<close>

text \<open>Writes made one after the other, on the store and on a map.\<close>

fun puts :: "(('a, 'o) pool \<Rightarrow> u64 \<Rightarrow> string \<Rightarrow> (int \<times> ('a, 'o) pool) comp) \<Rightarrow>
    (u64 \<times> string) list \<Rightarrow> ('a, 'o) pool \<Rightarrow> ('a, 'o) pool comp" where
  "puts put [] P = ret P"
| "puts put ((k, x) # cs) P = bindC (put P k x) (\<lambda>(_, P'). puts put cs P')"

definition put_all :: "(u64 \<times> string) list \<Rightarrow> kv_map \<Rightarrow> kv_map" where
  "put_all cs m = fold (\<lambda>(k, x) m. m(k \<mapsto> x)) cs m"

lemma put_all_simps [simp]: "put_all [] m = m" "put_all ((k, x) # cs) m = put_all cs (m(k \<mapsto> x))"
  by (simp_all add: put_all_def)

text \<open>
  What a crash during the events \<open>t\<close> of the writes \<open>cs\<close> leaves: the writes that had committed.
\<close>

definition crash_consistent ::
  "(('a \<rightharpoonup> 'o) \<Rightarrow> kv_map \<Rightarrow> bool) \<Rightarrow> ('a \<rightharpoonup> 'o) \<Rightarrow> kv_map \<Rightarrow> (u64 \<times> string) list \<Rightarrow> ('a, 'o) trace \<Rightarrow> bool" where
  "crash_consistent rep d m cs t \<longleftrightarrow> settled t d \<and> commits t = length cs \<and>
     (\<forall>u d'. prefix u t \<longrightarrow> documented u d d' \<longrightarrow> rep d' (put_all (take (commits u) cs) m))"

lemma durable_step_prefix:
  assumes "durable_step d t" and "prefix u t" and "documented u d d'"
  shows "commits u = 0 \<and> d' = d \<or> commits u = 1 \<and> d' = view_after t d"
proof -
  obtain w where "t = u @ w" using assms(2) by (auto simp: prefix_def)
  then have "commits u \<le> 1" using assms(1) by (auto simp: durable_step_def)
  moreover have "d' = (if commits u = 0 then d else view_after t d)"
    using assms unfolding durable_step_def by blast
  ultimately show ?thesis by (cases "commits u") auto
qed

locale durable_store =
  fixes put :: "('a, 'o) pool \<Rightarrow> u64 \<Rightarrow> string \<Rightarrow> (int \<times> ('a, 'o) pool) comp"
    and rep :: "('a \<rightharpoonup> 'o) \<Rightarrow> kv_map \<Rightarrow> bool"
    and key_ok :: "u64 \<Rightarrow> bool"
  assumes put_law: "rep (view P) m \<Longrightarrow> key_ok k \<Longrightarrow> fits x \<Longrightarrow>
      \<exists>t. put P k x = ret (1, pm_dos t P) \<and> rep (view_after t (view P)) (m(k \<mapsto> x)) \<and>
        durable_step (view P) t"
begin

lemma puts_durable:
  "rep (view P) m \<Longrightarrow> \<forall>(k, x) \<in> set cs. key_ok k \<and> fits x \<Longrightarrow>
   \<exists>t. puts put cs P = ret (pm_dos t P) \<and> rep (view_after t (view P)) (put_all cs m) \<and>
     crash_consistent rep (view P) m cs t"
proof (induction cs arbitrary: P m)
  case Nil
  then show ?case
    by (intro exI [of _ "[]"])
      (auto simp: pm_dos_def crash_consistent_def documented_settled [OF settled_Nil])
next
  case (Cons c cs)
  obtain k x where c: "c = (k, x)" by (cases c)
  obtain t where t: "put P k x = ret (1, pm_dos t P)" "rep (view_after t (view P)) (m(k \<mapsto> x))"
      "durable_step (view P) t"
    using put_law [OF Cons.prems(1)] Cons.prems(2) c by force
  let ?d = "view P" and ?P = "pm_dos t P"
  have st: "settled t ?d" "commits t = 1" using t(3) by (simp_all add: durable_step_def)
  have v: "view ?P = view_after t ?d" by (simp add: pm_dos_eq)
  have "rep (view ?P) (m(k \<mapsto> x))" and "\<forall>(k, x) \<in> set cs. key_ok k \<and> fits x"
    using t(2) v Cons.prems(2) by simp_all
  from Cons.IH [OF this] obtain u where u: "puts put cs ?P = ret (pm_dos u ?P)"
      "rep (view_after u (view_after t ?d)) (put_all cs (m(k \<mapsto> x)))"
      "crash_consistent rep (view_after t ?d) (m(k \<mapsto> x)) cs u"
    unfolding v by blast
  have "rep d' (put_all (take (commits w) (c # cs)) m)"
    if w: "prefix w (t @ u)" and dd: "documented w ?d d'" for w d'
  proof -
    consider "prefix w t" | z where "w = t @ z" "prefix z u" using w by (auto simp: prefix_append)
    then show ?thesis
    proof cases
      case 1
      from durable_step_prefix [OF t(3) 1 dd] show ?thesis using Cons.prems(1) t(2) c by auto
    next
      case 2
      then have "documented z (view_after t ?d) d'" using dd documented_append [OF st(1)] by simp
      with 2(2) u(3) have "rep d' (put_all (take (commits z) cs) (m(k \<mapsto> x)))"
        unfolding crash_consistent_def by blast
      then show ?thesis using 2 st(2) c by simp
    qed
  qed
  moreover have "settled (t @ u) ?d" using settled_append [OF st(1)] u(3) by (simp add: crash_consistent_def)
  ultimately have cc: "crash_consistent rep ?d m (c # cs) (t @ u)"
    using st(2) u(3) by (simp add: crash_consistent_def)
  have "pm_dos u ?P = pm_dos (t @ u) P" by (simp add: pm_dos_def)
  then show ?case
    using t(1) u(1,2) c cc by (intro exI [of _ "t @ u"]) (simp add: view_after_append)
qed

lemma puts_crash_safe:
  assumes "\<And>t d d'. reopened t d d' \<Longrightarrow> documented t d d'"
    and "rep d m" and "\<forall>(k, x) \<in> set cs. key_ok k \<and> fits x"
  shows "\<exists>P'. puts put cs (opened d) = ret P' \<and> commits (history P') = length cs \<and>
    (\<forall>u d'. prefix u (history P') \<longrightarrow> reopened u d d' \<longrightarrow> rep d' (put_all (take (commits u) cs) m))"
proof -
  have "rep (view (opened d)) m" using assms(2) by (simp add: opened_def)
  from puts_durable [OF this assms(3)] obtain t where
      "puts put cs (opened d) = ret (pm_dos t (opened d))" and "crash_consistent rep d m cs t"
    by (auto simp: opened_def)
  then show ?thesis using assms(1) unfolding crash_consistent_def by (auto simp: pm_dos_eq opened_def)
qed

end

end
