(* ===== verification/Pmem_Hash.thy ===== *)
theory Pmem_Hash
  imports Persistent_Memory Hash_Table
begin

text \<open>
  \<^verbatim>\<open>src/storeds/hashmap/ht_pmem.cc\<close> and \<^verbatim>\<open>ht_pmem_tx.cc\<close>: the hash table in a persistent pool, with
  single persist calls (\<open>HtPmem\<close>) and with transactions (\<open>HtPmemTx\<close>). What \<^verbatim>\<open>pmemobj_alloc\<close> finds in
  the pool is the argument \<open>alloc\<close>, what it leaves in an entry \<open>junk\<close>. The lemmas show that the two are
  maps, what a crash at any point leaves of the second, and what it can do to the first.
\<close>

section \<open>State\<close>

text \<open>\<open>struct pmem_entry\<close>, put together from its two locations.\<close>

record pmem_entry =
  pe_key :: u64
  pe_value :: string
  pe_next :: ptr

text \<open>\<open>struct pmem_hashtable\<close> but its field \<open>buckets\<close>.\<close>

record pmem_hashtable =
  ph_seed :: u32
  ph_coeff_a :: u32
  ph_coeff_b :: u32
  ph_coeff_p :: u64

text \<open>
  Locations: the root's coefficients and its field \<open>buckets\<close>, the length and the slots of a
  \<open>struct pmem_buckets\<close>, key and link of an entry, and the value of an entry.
\<close>

datatype hp_addr =
    HRoot
  | HRootBuckets
  | HLen nat
  | HBucket nat nat
  | HEntry nat
  | HValue nat

datatype hp_obj = ORoot pmem_hashtable | OOid ptr | OLen u64 | OEntry u64 ptr | OVal string

type_synonym hp_image = "hp_addr \<rightharpoonup> hp_obj"
type_synonym ht_pmem = "(hp_addr, hp_obj) pool"

definition hp_mem :: "hp_image \<Rightarrow> nat \<rightharpoonup> pmem_entry" where
  "hp_mem v a = (case (v (HEntry a), v (HValue a)) of
     (Some (OEntry k n), Some (OVal x)) \<Rightarrow> Some \<lparr>pe_key = k, pe_value = x, pe_next = n\<rparr>
   | _ \<Rightarrow> None)"

text \<open>The entries as a heap, for the search loops.\<close>

definition hp_heap :: "hp_image \<Rightarrow> pmem_entry heap" where
  "hp_heap v = \<lparr>mem = hp_mem v, brk = 0\<rparr>"

section \<open>Operations\<close>

definition hp_root :: "ht_pmem \<Rightarrow> pmem_hashtable comp" where
  "hp_root P = bindC (pm_get P HRoot) (\<lambda>v. case v of ORoot r \<Rightarrow> ret r | _ \<Rightarrow> crash WildDeref)"

definition hp_oid :: "ht_pmem \<Rightarrow> hp_addr \<Rightarrow> ptr comp" where
  "hp_oid P x = bindC (pm_get P x) (\<lambda>v. case v of OOid p \<Rightarrow> ret p | _ \<Rightarrow> crash WildDeref)"

text \<open>\<open>pmemobj_direct(root_p->buckets)\<close> and its length.\<close>

definition hp_buckets :: "ht_pmem \<Rightarrow> (nat \<times> u64) comp" where
  "hp_buckets P = bindC (hp_oid P HRootBuckets) (\<lambda>p. case p of
     None \<Rightarrow> crash NullDeref
   | Some b \<Rightarrow> bindC (pm_get P (HLen b)) (\<lambda>v. case v of OLen n \<Rightarrow> ret (b, n) | _ \<Rightarrow> crash WildDeref))"

definition hp_check :: "ht_pmem \<Rightarrow> unit comp" where
  "hp_check P = bindC (hp_oid P HRootBuckets) (\<lambda>p. assertC (p \<noteq> NULL))"

definition hp_hash :: "pmem_hashtable \<Rightarrow> u64 \<Rightarrow> u64 \<Rightarrow> u64" where
  "hp_hash r len value =
     (let a = ph_coeff_a r; b = ph_coeff_b r; p = ph_coeff_p r
      in ((value * ucast a + ucast b) mod p) mod len)"

definition hp_reinit :: "ht_pmem \<Rightarrow> u64 \<Rightarrow> int \<times> ht_pmem" where
  "hp_reinit P new_len = (1, P)"

definition hp_scan :: "ht_pmem \<Rightarrow> u64 \<Rightarrow> int \<Rightarrow> scan_result \<Rightarrow> (int \<times> scan_result) comp" where
  "hp_scan P key len result = crash (Thrown ''Scan: function not implemented!'')"

text \<open>The loop of \<open>read\<close> goes on after it has found the key.\<close>

partial_function (option) hp_read_loop :: "hp_image \<Rightarrow> ptr \<Rightarrow> u64 \<Rightarrow> outp \<Rightarrow> outp comp" where
  "hp_read_loop v entry_oid key result =
     (if entry_oid = NULL then ret result
      else bindC (load (hp_heap v) entry_oid) (\<lambda>e.
             hp_read_loop v (pe_next e) key (if pe_key e = key then StrP (pe_value e) else result)))"

definition hp_read :: "ht_pmem \<Rightarrow> u64 \<Rightarrow> outp \<Rightarrow> (int \<times> outp) comp" where
  "hp_read P key result =
     bindC (hp_check P) (\<lambda>_.
     bindC (hp_buckets P) (\<lambda>(b, len).
     bindC (hp_root P) (\<lambda>r.
     bindC (hp_oid P (HBucket b (unat (hp_hash r len key)))) (\<lambda>head.
     bindC (hp_read_loop (view P) head key result) (\<lambda>result. ret (1, result))))))"

text \<open>The search of \<open>insert\<close>: the bucket, and the entry with the key or null.\<close>

definition hp_search :: "ht_pmem \<Rightarrow> u64 \<Rightarrow> (nat \<times> nat \<times> ptr \<times> ptr) comp" where
  "hp_search P key =
     bindC (hp_check P) (\<lambda>_.
     bindC (hp_buckets P) (\<lambda>(b, len).
     bindC (hp_root P) (\<lambda>r.
     let hash_value = unat (hp_hash r len key) in
     bindC (hp_oid P (HBucket b hash_value)) (\<lambda>head.
     bindC (search_chain pe_next pe_key (hp_heap (view P)) head key) (\<lambda>p.
       ret (b, hash_value, head, p))))))"

subsection \<open>With transactions\<close>

text \<open>
  \<open>&(buckets_p->bucket[hash_value])\<close> is added to the transaction with the size of an entry,
  152 bytes, which is nine slots and a half.
\<close>

definition hp_slots :: "nat \<Rightarrow> nat \<Rightarrow> hp_addr set" where
  "hp_slots b i = HBucket b ` {i..<i + 9}"

definition ht_tx_overwrite :: "nat \<Rightarrow> string \<Rightarrow> (hp_addr, hp_obj) trace" where
  "ht_tx_overwrite a v = [TxBegin, TxAdd {HEntry a, HValue a}, Wr (HValue a) (OVal v), TxEnd]"

definition ht_tx_link ::
  "pmem_entry \<Rightarrow> nat \<Rightarrow> nat \<Rightarrow> nat \<Rightarrow> ptr \<Rightarrow> u64 \<Rightarrow> string \<Rightarrow> (hp_addr, hp_obj) trace" where
  "ht_tx_link junk a b i first key v =
     [TxBegin, TxAdd (hp_slots b i),
      TxAlloc [HEntry a \<mapsto> OEntry (pe_key junk) (pe_next junk), HValue a \<mapsto> OVal (pe_value junk)],
      Wr (HEntry a) (OEntry key (pe_next junk)), Wr (HValue a) (OVal v),
      Wr (HEntry a) (OEntry key first), Wr (HBucket b i) (OOid (Some a)), TxEnd]"

text \<open>\<open>alloc\<close> gives the entry, or nothing, and then the transaction and the program abort.\<close>

definition ht_tx_insert ::
  "(hp_image \<Rightarrow> nat option) \<Rightarrow> pmem_entry \<Rightarrow> ht_pmem \<Rightarrow> u64 \<Rightarrow> string \<Rightarrow> (int \<times> ht_pmem) comp" where
  "ht_tx_insert alloc junk P key value =
     bindC (hp_search P key) (\<lambda>(b, hash_value, first, p). case p of
       Some a \<Rightarrow> bindC (copy_value value) (\<lambda>v. ret (1, pm_dos (ht_tx_overwrite a v) P))
     | None \<Rightarrow> (case alloc (view P) of
           None \<Rightarrow> crash AssertFail
         | Some a \<Rightarrow> bindC (copy_value value) (\<lambda>v.
             ret (1, pm_dos (ht_tx_link junk a b hash_value first key v) P))))"

definition ht_tx_update ::
  "(hp_image \<Rightarrow> nat option) \<Rightarrow> pmem_entry \<Rightarrow> ht_pmem \<Rightarrow> u64 \<Rightarrow> string \<Rightarrow> (int \<times> ht_pmem) comp" where
  "ht_tx_update alloc junk P key value = ht_tx_insert alloc junk P key value"

text \<open>
  \<open>init\<close> on the pool \<open>po\<close> that \<^verbatim>\<open>pmemobj_create\<close> or \<^verbatim>\<open>pmemobj_open\<close> returns; the root object exists.
  The bucket array has room for \<open>len * sizeof(struct pmem_entry)\<close> bytes of zeros.
\<close>

definition hp_zero_buckets :: "nat \<Rightarrow> hp_image" where
  "hp_zero_buckets b x = (case x of
     HLen b' \<Rightarrow> if b' = b then Some (OLen 0) else None
   | HBucket b' i \<Rightarrow> if b' = b \<and> 2 * i < 19 * INIT_BUCKETS_NUM then Some (OOid NULL) else None
   | _ \<Rightarrow> None)"

definition ht_tx_setup ::
  "pmem_hashtable \<Rightarrow> u32 \<Rightarrow> u32 \<Rightarrow> u32 \<Rightarrow> nat \<Rightarrow> (hp_addr, hp_obj) trace" where
  "ht_tx_setup r time a c b =
     [TxBegin, TxAdd {HRoot, HRootBuckets},
      Wr HRoot (ORoot (r\<lparr>ph_seed := time\<rparr>)),
      Wr HRoot (ORoot (r\<lparr>ph_seed := time, ph_coeff_a := a\<rparr>)),
      Wr HRoot (ORoot (r\<lparr>ph_seed := time, ph_coeff_a := a, ph_coeff_b := c\<rparr>)),
      Wr HRoot (ORoot (r\<lparr>ph_seed := time, ph_coeff_a := a, ph_coeff_b := c, ph_coeff_p := HASH_FUNC_COEFF_P\<rparr>)),
      TxAlloc (hp_zero_buckets b), Wr HRootBuckets (OOid (Some b)),
      Wr (HLen b) (OLen (of_nat INIT_BUCKETS_NUM)), TxEnd]"

definition ht_tx_init ::
  "(hp_image \<Rightarrow> nat option) \<Rightarrow> u32 \<Rightarrow> (nat \<Rightarrow> u32) \<Rightarrow> ht_pmem option \<Rightarrow> (int \<times> ht_pmem) comp" where
  "ht_tx_init alloc time rnd po = (case po of None \<Rightarrow> crash (Exited 0) | Some P \<Rightarrow>
     bindC (hp_root P) (\<lambda>r.
     bindC (ht_init_coeff rnd 0) (\<lambda>(a, i). case alloc (view P) of
         None \<Rightarrow> crash AssertFail
       | Some b \<Rightarrow> let P = pm_dos (ht_tx_setup r time a (rnd i) b) P in
           bindC (hp_check P) (\<lambda>_. ret (1, P)))))"

text \<open>The entries of a chain, in the order in which \<open>destroy\<close> frees them.\<close>

partial_function (option) hp_chain :: "hp_image \<Rightarrow> ptr \<Rightarrow> nat list comp" where
  "hp_chain v entry_oid = (case entry_oid of
     None \<Rightarrow> ret []
   | Some a \<Rightarrow> bindC (load (hp_heap v) (Some a)) (\<lambda>e.
               bindC (hp_chain v (pe_next e)) (\<lambda>as. ret (a # as))))"

definition hp_all_chains :: "ht_pmem \<Rightarrow> nat \<Rightarrow> nat \<Rightarrow> nat list comp" where
  "hp_all_chains P b n = for_loop 0 n (\<lambda>i as.
     bindC (hp_oid P (HBucket b i)) (\<lambda>p. bindC (hp_chain (view P) p) (\<lambda>bs. ret (as @ bs)))) []"

definition hp_buckets_of :: "ht_pmem \<Rightarrow> nat \<Rightarrow> hp_addr set" where
  "hp_buckets_of P b = dom (view P) \<inter> ({HLen b} \<union> range (HBucket b))"

definition ht_tx_destroy :: "ht_pmem \<Rightarrow> ht_pmem comp" where
  "ht_tx_destroy P =
     bindC (hp_buckets P) (\<lambda>(b, len).
     bindC (hp_all_chains P b (unat len)) (\<lambda>as.
       ret (pm_dos ([TxBegin, TxAdd {HRoot, HRootBuckets}] @ map (\<lambda>a. TxFree {HEntry a, HValue a}) as @
         [TxFree (hp_buckets_of P b), Wr HRootBuckets (OOid NULL), TxFree {HRoot, HRootBuckets}, TxEnd]) P)))"

subsection \<open>Without transactions\<close>

definition ht_pmem_overwrite :: "nat \<Rightarrow> string \<Rightarrow> (hp_addr, hp_obj) trace" where
  "ht_pmem_overwrite a v = [Wr (HValue a) (OVal v), Persist {HValue a}]"

definition ht_pmem_link ::
  "pmem_entry \<Rightarrow> nat \<Rightarrow> nat \<Rightarrow> nat \<Rightarrow> ptr \<Rightarrow> u64 \<Rightarrow> string \<Rightarrow> (hp_addr, hp_obj) trace" where
  "ht_pmem_link junk a b i first key v =
     [Alloc [HEntry a \<mapsto> OEntry (pe_key junk) (pe_next junk), HValue a \<mapsto> OVal (pe_value junk)],
      Wr (HEntry a) (OEntry key (pe_next junk)), Wr (HValue a) (OVal v),
      Wr (HEntry a) (OEntry key first), Wr (HBucket b i) (OOid (Some a)), Persist (hp_slots b i)]"

definition ht_pmem_insert ::
  "(hp_image \<Rightarrow> nat option) \<Rightarrow> pmem_entry \<Rightarrow> ht_pmem \<Rightarrow> u64 \<Rightarrow> string \<Rightarrow> (int \<times> ht_pmem) comp" where
  "ht_pmem_insert alloc junk P key value =
     bindC (hp_search P key) (\<lambda>(b, hash_value, first, p). case p of
       Some a \<Rightarrow> bindC (copy_value value) (\<lambda>v. ret (1, pm_dos (ht_pmem_overwrite a v) P))
     | None \<Rightarrow> (case alloc (view P) of
           None \<Rightarrow> crash AssertFail
         | Some a \<Rightarrow> bindC (copy_value value) (\<lambda>v.
             ret (1, pm_dos (ht_pmem_link junk a b hash_value first key v) P))))"

definition ht_pmem_update ::
  "(hp_image \<Rightarrow> nat option) \<Rightarrow> pmem_entry \<Rightarrow> ht_pmem \<Rightarrow> u64 \<Rightarrow> string \<Rightarrow> (int \<times> ht_pmem) comp" where
  "ht_pmem_update alloc junk P key value = ht_pmem_insert alloc junk P key value"

definition ht_pmem_setup ::
  "pmem_hashtable \<Rightarrow> u32 \<Rightarrow> u32 \<Rightarrow> u32 \<Rightarrow> nat \<Rightarrow> (hp_addr, hp_obj) trace" where
  "ht_pmem_setup r time a c b =
     [Wr HRoot (ORoot (r\<lparr>ph_seed := time\<rparr>)),
      Wr HRoot (ORoot (r\<lparr>ph_seed := time, ph_coeff_a := a\<rparr>)),
      Wr HRoot (ORoot (r\<lparr>ph_seed := time, ph_coeff_a := a, ph_coeff_b := c\<rparr>)),
      Wr HRoot (ORoot (r\<lparr>ph_seed := time, ph_coeff_a := a, ph_coeff_b := c, ph_coeff_p := HASH_FUNC_COEFF_P\<rparr>)),
      Alloc ((hp_zero_buckets b)(HRootBuckets \<mapsto> OOid (Some b))),
      Wr (HLen b) (OLen (of_nat INIT_BUCKETS_NUM)), Persist {HRoot, HRootBuckets}]"

definition ht_pmem_init ::
  "(hp_image \<Rightarrow> nat option) \<Rightarrow> u32 \<Rightarrow> (nat \<Rightarrow> u32) \<Rightarrow> ht_pmem option \<Rightarrow> (int \<times> ht_pmem) comp" where
  "ht_pmem_init alloc time rnd po = (case po of None \<Rightarrow> crash (Exited 0) | Some P \<Rightarrow>
     bindC (hp_root P) (\<lambda>r.
     bindC (ht_init_coeff rnd 0) (\<lambda>(a, i). case alloc (view P) of
         None \<Rightarrow> crash AssertFail
       | Some b \<Rightarrow> let P = pm_dos (ht_pmem_setup r time a (rnd i) b) P in
           bindC (hp_check P) (\<lambda>_. ret (1, P)))))"

text \<open>\<open>pmemobj_free(&root_p->buckets)\<close> also sets the pointer to null; the code then does it again.\<close>

definition ht_pmem_destroy :: "ht_pmem \<Rightarrow> ht_pmem comp" where
  "ht_pmem_destroy P =
     bindC (hp_check P) (\<lambda>_.
     bindC (hp_buckets P) (\<lambda>(b, len).
     bindC (hp_all_chains P b (unat len)) (\<lambda>as.
       ret (pm_dos (map (\<lambda>a. Free {HEntry a, HValue a}) as @
         [Free (hp_buckets_of P b), Wr HRootBuckets (OOid NULL), Persist {HRootBuckets}, Wr HRootBuckets (OOid NULL),
          Free {HRoot, HRootBuckets}]) P))))"

section \<open>The table as a map\<close>

definition hp_inv :: "hp_image \<Rightarrow> pmem_hashtable \<Rightarrow> nat \<Rightarrow> (nat \<Rightarrow> nat list) \<Rightarrow> bool" where
  "hp_inv v r b B \<longleftrightarrow>
     v HRoot = Some (ORoot r) \<and> v HRootBuckets = Some (OOid (Some b)) \<and>
     v (HLen b) = Some (OLen (of_nat INIT_BUCKETS_NUM)) \<and>
     (\<forall>i < INIT_BUCKETS_NUM. \<exists>p. v (HBucket b i) = Some (OOid p) \<and> chain pe_next (hp_mem v) p (B i) NULL) \<and>
     (\<forall>i. distinct (contents pe_key (hp_mem v) (B i)) \<and> (\<forall>a \<in> set (B i). hp_mem v a \<noteq> None \<and>
        unat (hp_hash r (of_nat INIT_BUCKETS_NUM) (pe_key (the (hp_mem v a)))) = i))"

abbreviation hp_bucket_of :: "pmem_hashtable \<Rightarrow> u64 \<Rightarrow> nat" where
  "hp_bucket_of r k \<equiv> unat (hp_hash r (of_nat INIT_BUCKETS_NUM) k)"

definition hp_map :: "hp_image \<Rightarrow> pmem_hashtable \<Rightarrow> (nat \<Rightarrow> nat list) \<Rightarrow> kv_map" where
  "hp_map v r B k = map_of (assoc_of pe_key pe_value (hp_mem v) (B (hp_bucket_of r k))) k"

definition hp_rep :: "hp_image \<Rightarrow> kv_map \<Rightarrow> bool" where
  "hp_rep v m \<longleftrightarrow> finite {a. v (HEntry a) \<noteq> None} \<and> (\<exists>r b B. hp_inv v r b B \<and> m = hp_map v r B)"

lemma hp_bucket_less: "hp_bucket_of r k < INIT_BUCKETS_NUM"
  by (simp add: hp_hash_def INIT_BUCKETS_NUM_def unat_mod Let_def)

lemma hp_mem_heap [simp]: "mem (hp_heap v) = hp_mem v"
  by (simp add: hp_heap_def)

lemma hp_inv_chain:
  assumes "hp_inv v r b B"
  obtains p where "v (HBucket b (hp_bucket_of r k)) = Some (OOid p)"
    and "chain pe_next (hp_mem v) p (B (hp_bucket_of r k)) NULL"
  using assms hp_bucket_less [of r k] by (auto simp: hp_inv_def)

lemma hp_inv_distinct:
  assumes "hp_inv v r b B"
  shows "distinct (B i)" and "distinct (contents pe_key (hp_mem v) (B i))"
  using assms by (simp_all add: hp_inv_def contents_def distinct_map)

lemma hp_inv_disjoint: "hp_inv v r b B \<Longrightarrow> a \<in> set (B i) \<Longrightarrow> a \<in> set (B j) \<Longrightarrow> i = j"
  unfolding hp_inv_def by metis

lemma hp_inv_mem: "hp_inv v r b B \<Longrightarrow> a \<in> set (B i) \<Longrightarrow> \<exists>n. hp_mem v a = Some n"
  unfolding hp_inv_def by (metis not_None_eq)

lemma hp_search_eq:
  assumes inv: "hp_inv (view P) r b B"
    and p: "view P (HBucket b (hp_bucket_of r k)) = Some (OOid p)"
    and c: "chain pe_next (hp_mem (view P)) p (B (hp_bucket_of r k)) NULL"
  shows "hp_search P k = ret (b, hp_bucket_of r k, p,
    find_key pe_key (hp_mem (view P)) k (B (hp_bucket_of r k)))"
proof -
  have "search_chain pe_next pe_key (hp_heap (view P)) p k =
      ret (find_key pe_key (hp_mem (view P)) k (B (hp_bucket_of r k)))"
    using search_chain_eq [of pe_next "hp_heap (view P)" p "B (hp_bucket_of r k)" NULL pe_key k] c
    by (simp split: option.splits)
  then show ?thesis
    using inv p by (simp add: hp_search_def hp_check_def hp_oid_def hp_buckets_def hp_root_def hp_inv_def Let_def)
qed

lemma hp_read_loop_eq:
  "chain pe_next (hp_mem v) p as NULL \<Longrightarrow> distinct (contents pe_key (hp_mem v) as) \<Longrightarrow>
   hp_read_loop v p k r =
     ret (case map_of (assoc_of pe_key pe_value (hp_mem v) as) k of None \<Rightarrow> r | Some x \<Rightarrow> StrP x)"
proof (induction as arbitrary: p r)
  case Nil
  then show ?case by (simp add: hp_read_loop.simps)
next
  case (Cons a as)
  then obtain e where e: "p = Some a" "hp_mem v a = Some e" "chain pe_next (hp_mem v) (pe_next e) as NULL" by auto
  have none: "map_of (assoc_of pe_key pe_value (hp_mem v) as) (pe_key e) = None"
    using Cons.prems(2) e(2) by (auto simp: map_of_eq_None_iff contents_def)
  show ?case
    using Cons.IH [OF e(3)] Cons.prems(2) e(1,2) none
    by (subst hp_read_loop.simps) (auto split: option.splits)
qed

lemma hp_read_eq:
  assumes inv: "hp_inv (view P) r b B"
  shows "hp_read P k res = ret (1, case hp_map (view P) r B k of None \<Rightarrow> res | Some x \<Rightarrow> StrP x)"
proof -
  obtain p where p: "view P (HBucket b (hp_bucket_of r k)) = Some (OOid p)"
    "chain pe_next (hp_mem (view P)) p (B (hp_bucket_of r k)) NULL"
    by (rule hp_inv_chain [OF inv])
  show ?thesis
    using hp_read_loop_eq [OF p(2) hp_inv_distinct(2) [OF inv], of k res] inv p(1)
    by (simp add: hp_read_def hp_check_def hp_oid_def hp_buckets_def hp_root_def hp_inv_def hp_map_def)
qed

subsection \<open>Writing\<close>

lemma hp_mem_upd [simp]:
  "hp_mem (v(HBucket b i \<mapsto> x)) = hp_mem v"
  by (simp add: hp_mem_def fun_eq_iff)

lemma hp_inv_overwrite:
  fixes x :: string
  assumes inv: "hp_inv v r b B" and f: "find_key pe_key (hp_mem v) k (B (hp_bucket_of r k)) = Some a"
  defines "v' \<equiv> v(HValue a \<mapsto> OVal x)"
  shows "hp_inv v' r b B" and "hp_map v' r B = (hp_map v r B)(k \<mapsto> x)"
proof -
  let ?i = "hp_bucket_of r k"
  have a: "a \<in> set (B ?i)" "pe_key (the (hp_mem v a)) = k"
    using find_key_Some [OF f, of pe_value] by auto
  then obtain n where n: "hp_mem v a = Some n" using hp_inv_mem [OF inv] by blast
  have mem: "hp_mem v' = (hp_mem v)(a \<mapsto> n\<lparr>pe_value := x\<rparr>)"
    using n by (auto simp: v'_def hp_mem_def fun_eq_iff split: option.splits hp_obj.splits)
  have key: "pe_key (the (hp_mem v' c)) = pe_key (the (hp_mem v c))" for c by (simp add: mem n)
  have dm: "(hp_mem v' c \<noteq> None) = (hp_mem v c \<noteq> None)" for c by (simp add: mem n)
  have ks: "contents pe_key (hp_mem v') cs = contents pe_key (hp_mem v) cs" for cs
    by (simp add: contents_def key)
  have ch: "chain pe_next (hp_mem v') p cs q = chain pe_next (hp_mem v) p cs q" for p cs q
    unfolding mem by (rule chain_upd_same_next [where m = "hp_mem v" and n = n]) (simp_all add: n)
  show "hp_inv v' r b B"
    unfolding hp_inv_def ks ch key dm using inv unfolding hp_inv_def by (simp add: v'_def)
  show "hp_map v' r B = (hp_map v r B)(k \<mapsto> x)"
  proof
    fix j
    show "hp_map v' r B j = ((hp_map v r B)(k \<mapsto> x)) j"
    proof (cases "hp_bucket_of r j = ?i")
      case True
      have "map_of (assoc_of pe_key pe_value (hp_mem v') (B ?i)) =
          (map_of (assoc_of pe_key pe_value (hp_mem v) (B ?i)))(k \<mapsto> pe_value (n\<lparr>pe_value := x\<rparr>))"
        by (rule assoc_upd_found [OF f hp_inv_distinct(1) [OF inv]]) (use a n in \<open>simp_all add: mem\<close>)
      then show ?thesis using True by (simp add: hp_map_def)
    next
      case False
      then have "a \<notin> set (B (hp_bucket_of r j))" "j \<noteq> k" using hp_inv_disjoint [OF inv a(1)] by auto
      then show ?thesis by (simp add: hp_map_def mem contents_frame)
    qed
  qed
qed

lemma hp_inv_link:
  fixes x :: string
  assumes inv: "hp_inv v r b B" and k: "hp_map v r B k = None"
    and p: "v (HBucket b (hp_bucket_of r k)) = Some (OOid p)"
    and fresh: "v (HEntry a) = None"
  defines "v' \<equiv> v(HEntry a \<mapsto> OEntry k p, HValue a \<mapsto> OVal x, HBucket b (hp_bucket_of r k) \<mapsto> OOid (Some a))"
    and "B' \<equiv> B(hp_bucket_of r k := a # B (hp_bucket_of r k))"
  shows "hp_inv v' r b B'" and "hp_map v' r B' = (hp_map v r B)(k \<mapsto> x)"
proof -
  let ?i = "hp_bucket_of r k" and ?n = "\<lparr>pe_key = k, pe_value = x, pe_next = p\<rparr>"
  have mem: "hp_mem v' = (hp_mem v)(a \<mapsto> ?n)"
    by (auto simp: v'_def hp_mem_def fun_eq_iff cong: option.case_cong hp_obj.case_cong)
  have "hp_mem v a = None" using fresh by (simp add: hp_mem_def)
  then have notin: "a \<notin> set (B j)" for j using hp_inv_mem [OF inv, of a j] by auto
  have ch: "chain pe_next (hp_mem v') q (B j) NULL = chain pe_next (hp_mem v) q (B j) NULL" for q j
    unfolding mem by (rule chain_frame [OF notin])
  have con': "contents f (hp_mem v') (B j) = contents f (hp_mem v) (B j)" for f :: "pmem_entry \<Rightarrow> u64 \<times> string" and j
    unfolding mem by (rule contents_frame [OF notin])
  have nk: "k \<notin> set (contents pe_key (hp_mem v) (B ?i))"
    using k by (simp add: hp_map_def map_of_eq_None_iff contents_def image_image)
  have ckey: "contents pe_key (hp_mem v') (B j) = contents pe_key (hp_mem v) (B j)" for j
    unfolding mem by (rule contents_frame [OF notin])
  have bk: "\<exists>q. v' (HBucket b j) = Some (OOid q) \<and> chain pe_next (hp_mem v') q (B' j) NULL" if "j < INIT_BUCKETS_NUM" for j
  proof (cases "j = ?i")
    case True
    obtain q where "v (HBucket b ?i) = Some (OOid q)" "chain pe_next (hp_mem v) q (B ?i) NULL"
      by (rule hp_inv_chain [OF inv])
    then show ?thesis using True p by (intro exI [of _ "Some a"]) (simp add: B'_def mem chain_frame [OF notin], simp add: v'_def)
  next
    case False
    then show ?thesis using inv that by (auto simp: hp_inv_def B'_def ch) (auto simp: v'_def)
  qed
  have rest: "distinct (contents pe_key (hp_mem v') (B' j)) \<and> (\<forall>c \<in> set (B' j). hp_mem v' c \<noteq> None \<and>
      hp_bucket_of r (pe_key (the (hp_mem v' c))) = j)" for j
    using inv nk notin by (auto simp: hp_inv_def B'_def ckey) (auto simp: mem)
  show "hp_inv v' r b B'"
    unfolding hp_inv_def using inv bk rest by (simp add: hp_inv_def) (simp add: v'_def)
  show "hp_map v' r B' = (hp_map v r B)(k \<mapsto> x)"
    by (auto simp: hp_map_def B'_def con' fun_eq_iff) (auto simp: mem)
qed

section \<open>Transactions are atomic\<close>

text \<open>The pool does not run out of space.\<close>

definition fresh_alloc :: "(hp_image \<Rightarrow> nat option) \<Rightarrow> bool" where
  "fresh_alloc alloc \<longleftrightarrow>
     (\<forall>v. finite {a. v (HEntry a) \<noteq> None} \<longrightarrow> (\<exists>a. alloc v = Some a \<and> v (HEntry a) = None))"

lemma hp_view_overwrite:
  "view_after (ht_tx_overwrite a x) d = d(HValue a \<mapsto> OVal x)"
  "view_after (ht_pmem_overwrite a x) d = d(HValue a \<mapsto> OVal x)"
  by (auto simp: view_after_def ht_tx_overwrite_def ht_pmem_overwrite_def fun_eq_iff)

lemma hp_view_link:
  "view_after (ht_tx_link junk a b i p k x) d =
     d(HEntry a \<mapsto> OEntry k p, HValue a \<mapsto> OVal x, HBucket b i \<mapsto> OOid (Some a))"
  "view_after (ht_pmem_link junk a b i p k x) d =
     d(HEntry a \<mapsto> OEntry k p, HValue a \<mapsto> OVal x, HBucket b i \<mapsto> OOid (Some a))"
  by (auto simp: view_after_def ht_tx_link_def ht_pmem_link_def fun_eq_iff)

lemma durable_overwrite: "durable_step d (ht_tx_overwrite a x)"
  using durable_tx [of d "[TxAdd {HEntry a, HValue a}, Wr (HValue a) (OVal x)]"]
  by (simp add: ht_tx_overwrite_def)

lemma hp_slots_first [simp]: "HBucket b i \<in> hp_slots b i"
  by (simp add: hp_slots_def)

lemma durable_link: "durable_step d (ht_tx_link junk a b i p k x)"
  using durable_tx [of d "[TxAdd (hp_slots b i),
      TxAlloc [HEntry a \<mapsto> OEntry (pe_key junk) (pe_next junk), HValue a \<mapsto> OVal (pe_value junk)],
      Wr (HEntry a) (OEntry k (pe_next junk)), Wr (HValue a) (OVal x),
      Wr (HEntry a) (OEntry k p), Wr (HBucket b i) (OOid (Some a))]"]
  by (simp add: ht_tx_link_def)

text \<open>What both insertions do, where \<open>over\<close> and \<open>link\<close> are their events.\<close>

lemma hp_insert_cases:
  assumes rep: "hp_rep (view P) m" and v: "fits x" and al: "fresh_alloc alloc"
  obtains (present) a where "m k \<noteq> None"
      "ht_tx_insert alloc junk P k x = ret (1, pm_dos (ht_tx_overwrite a x) P)"
      "ht_pmem_insert alloc junk P k x = ret (1, pm_dos (ht_pmem_overwrite a x) P)"
      "hp_rep ((view P)(HValue a \<mapsto> OVal x)) (m(k \<mapsto> x))"
      "view P (HValue a) \<noteq> None"
  | (new) r a b i p where "m k = None"
      "ht_tx_insert alloc junk P k x = ret (1, pm_dos (ht_tx_link junk a b i p k x) P)"
      "ht_pmem_insert alloc junk P k x = ret (1, pm_dos (ht_pmem_link junk a b i p k x) P)"
      "hp_rep ((view P)(HEntry a \<mapsto> OEntry k p, HValue a \<mapsto> OVal x, HBucket b i \<mapsto> OOid (Some a))) (m(k \<mapsto> x))"
      "view P HRoot = Some (ORoot r)" "i = hp_bucket_of r k" "view P HRootBuckets = Some (OOid (Some b))"
      "view P (HLen b) = Some (OLen (of_nat INIT_BUCKETS_NUM))"
proof -
  obtain r b B where inv: "hp_inv (view P) r b B" and m: "m = hp_map (view P) r B"
    and fin: "finite {a. view P (HEntry a) \<noteq> None}"
    using rep by (auto simp: hp_rep_def)
  let ?i = "hp_bucket_of r k"
  obtain p where p: "view P (HBucket b ?i) = Some (OOid p)" "chain pe_next (hp_mem (view P)) p (B ?i) NULL"
    by (rule hp_inv_chain [OF inv])
  note se = hp_search_eq [OF inv p]
  show thesis
  proof (cases "find_key pe_key (hp_mem (view P)) k (B ?i)")
    case (Some a)
    have "a \<in> set (B ?i)" using find_key_Some [OF Some, of pe_value] by simp
    then obtain n where "hp_mem (view P) a = Some n" using hp_inv_mem [OF inv] by blast
    then have "view P (HValue a) \<noteq> None" by (auto simp: hp_mem_def split: option.splits hp_obj.splits)
    moreover have "m k \<noteq> None" using find_key_Some [OF Some, of pe_value] by (simp add: m hp_map_def)
    moreover have "hp_rep ((view P)(HValue a \<mapsto> OVal x)) (m(k \<mapsto> x))"
      unfolding hp_rep_def m
      by (intro conjI exI, use fin in simp, rule hp_inv_overwrite(1) [OF inv Some])
        (rule hp_inv_overwrite(2) [OF inv Some, symmetric])
    moreover have "ht_tx_insert alloc junk P k x = ret (1, pm_dos (ht_tx_overwrite a x) P)"
      "ht_pmem_insert alloc junk P k x = ret (1, pm_dos (ht_pmem_overwrite a x) P)"
      using se Some v by (simp_all add: ht_tx_insert_def ht_pmem_insert_def)
    ultimately show thesis using present by blast
  next
    case None
    then have k: "hp_map (view P) r B k = None" unfolding hp_map_def by (rule find_key_None [THEN iffD1])
    obtain a where a: "alloc (view P) = Some a" "view P (HEntry a) = None"
      using al fin by (auto simp: fresh_alloc_def)
    let ?v = "(view P)(HEntry a \<mapsto> OEntry k p, HValue a \<mapsto> OVal x, HBucket b ?i \<mapsto> OOid (Some a))"
    have "{c. ?v (HEntry c) \<noteq> None} = insert a {c. view P (HEntry c) \<noteq> None}" by auto
    then have "finite {c. ?v (HEntry c) \<noteq> None}" using fin by (metis finite_insert)
    moreover have "upsert m k x = hp_map ?v r (B(?i := a # B ?i))"
      unfolding m by (rule hp_inv_link(2) [OF inv k p(1) a(2), symmetric])
    ultimately have "hp_rep ?v (m(k \<mapsto> x))"
      unfolding hp_rep_def using hp_inv_link(1) [OF inv k p(1) a(2), of x] by (intro conjI exI)
    moreover have "ht_tx_insert alloc junk P k x = ret (1, pm_dos (ht_tx_link junk a b ?i p k x) P)"
      "ht_pmem_insert alloc junk P k x = ret (1, pm_dos (ht_pmem_link junk a b ?i p k x) P)"
      using se None v a(1) by (simp_all add: ht_tx_insert_def ht_pmem_insert_def)
    ultimately show thesis
      using new [of a b ?i p r] k m inv by (simp add: hp_inv_def)
  qed
qed

definition ht_tx_ops :: "(hp_image \<Rightarrow> nat option) \<Rightarrow> pmem_entry \<Rightarrow> ht_pmem storeds_base" where
  "ht_tx_ops alloc junk = \<lparr>op_read = hp_read, op_scan = hp_scan, op_update = ht_tx_update alloc junk,
     op_insert = ht_tx_insert alloc junk, op_destroy = ht_tx_destroy\<rparr>"

definition ht_pmem_ops :: "(hp_image \<Rightarrow> nat option) \<Rightarrow> pmem_entry \<Rightarrow> ht_pmem storeds_base" where
  "ht_pmem_ops alloc junk = \<lparr>op_read = hp_read, op_scan = hp_scan, op_update = ht_pmem_update alloc junk,
     op_insert = ht_pmem_insert alloc junk, op_destroy = ht_pmem_destroy\<rparr>"

lemma hp_rep_read: "hp_rep (view P) m \<Longrightarrow> hp_read P k res = ret (1, case m k of None \<Rightarrow> res | Some x \<Rightarrow> StrP x)"
  by (auto simp: hp_rep_def hp_read_eq)

lemma ht_tx_insert_ok:
  assumes "hp_rep (view P) m" and "fits x" and "fresh_alloc alloc"
  shows "\<exists>t. ht_tx_insert alloc junk P k x = ret (1, pm_dos t P) \<and>
    hp_rep (view_after t (view P)) (m(k \<mapsto> x)) \<and> durable_step (view P) t"
  by (rule hp_insert_cases [OF assms, of k junk])
    (metis hp_view_overwrite(1) durable_overwrite, metis hp_view_link(1) durable_link)

lemma ht_pmem_insert_ok:
  assumes "hp_rep (view P) m" and "fits x" and "fresh_alloc alloc"
  shows "\<exists>t. ht_pmem_insert alloc junk P k x = ret (1, pm_dos t P) \<and>
    hp_rep (view_after t (view P)) (m(k \<mapsto> x))"
  by (rule hp_insert_cases [OF assms, of k junk]) (metis hp_view_overwrite(2), metis hp_view_link(2))

interpretation ht_tx: upsert_store "ht_tx_ops alloc junk" "\<lambda>P m. fresh_alloc alloc \<and> hp_rep (view P) m" "\<lambda>_. True"
  for alloc junk
proof unfold_locales
  show "\<exists>P'. op_insert (ht_tx_ops alloc junk) P k v = ret (1, P') \<and> fresh_alloc alloc \<and> hp_rep (view P') (m(k \<mapsto> v))"
    if "fresh_alloc alloc \<and> hp_rep (view P) m" "fits v" for P m k v
    using ht_tx_insert_ok [of P m v alloc junk k] that by (auto simp: ht_tx_ops_def pm_dos_eq)
  then show "\<exists>P'. op_update (ht_tx_ops alloc junk) P k v = ret (1, P') \<and> fresh_alloc alloc \<and> hp_rep (view P') (m(k \<mapsto> v))"
    if "fresh_alloc alloc \<and> hp_rep (view P) m" "fits v" for P m k v
    using that by (simp add: ht_tx_ops_def ht_tx_update_def)
qed (auto simp: ht_tx_ops_def hp_rep_read)

interpretation ht_pmem: upsert_store "ht_pmem_ops alloc junk" "\<lambda>P m. fresh_alloc alloc \<and> hp_rep (view P) m" "\<lambda>_. True"
  for alloc junk
proof unfold_locales
  show "\<exists>P'. op_insert (ht_pmem_ops alloc junk) P k v = ret (1, P') \<and> fresh_alloc alloc \<and> hp_rep (view P') (m(k \<mapsto> v))"
    if "fresh_alloc alloc \<and> hp_rep (view P) m" "fits v" for P m k v
    using ht_pmem_insert_ok [of P m v alloc junk k] that by (auto simp: ht_pmem_ops_def pm_dos_eq)
  then show "\<exists>P'. op_update (ht_pmem_ops alloc junk) P k v = ret (1, P') \<and> fresh_alloc alloc \<and> hp_rep (view P') (m(k \<mapsto> v))"
    if "fresh_alloc alloc \<and> hp_rep (view P) m" "fits v" for P m k v
    using that by (simp add: ht_pmem_ops_def ht_pmem_update_def)
qed (auto simp: ht_pmem_ops_def hp_rep_read)

interpretation ht_tx_durable: durable_store "ht_tx_insert alloc junk" "\<lambda>v m. fresh_alloc alloc \<and> hp_rep v m" "\<lambda>_. True"
  for alloc junk
  by unfold_locales (use ht_tx_insert_ok in blast)


section \<open>Opening\<close>

lemma hp_view_setup:
  assumes "v = view_after (ht_tx_setup r time a c b) d \<or> v = view_after (ht_pmem_setup r time a c b) d"
  shows "v HRoot = Some (ORoot (r\<lparr>ph_seed := time, ph_coeff_a := a, ph_coeff_b := c, ph_coeff_p := HASH_FUNC_COEFF_P\<rparr>))"
    and "v HRootBuckets = Some (OOid (Some b))" and "v (HLen b) = Some (OLen (of_nat INIT_BUCKETS_NUM))"
    and "i < INIT_BUCKETS_NUM \<Longrightarrow> v (HBucket b i) = Some (OOid NULL)" and "v (HEntry e) = d (HEntry e)"
  using assms by (auto simp: view_after_def ht_tx_setup_def ht_pmem_setup_def hp_zero_buckets_def)

lemma hp_inv_empty:
  assumes "v HRoot = Some (ORoot r)" and "v HRootBuckets = Some (OOid (Some b))"
    and "v (HLen b) = Some (OLen (of_nat INIT_BUCKETS_NUM))"
    and "\<And>i. i < INIT_BUCKETS_NUM \<Longrightarrow> v (HBucket b i) = Some (OOid NULL)"
    and "finite {a. v (HEntry a) \<noteq> None}"
  shows "hp_rep v Map.empty"
proof -
  have "hp_inv v r b (\<lambda>_. [])" using assms(1-4) by (simp add: hp_inv_def)
  moreover have "hp_map v r (\<lambda>_. []) = Map.empty" by (simp add: hp_map_def fun_eq_iff)
  ultimately show ?thesis using assms(5) unfolding hp_rep_def by metis
qed

text \<open>\<open>init\<close> makes an empty table, whatever the pool held.\<close>

lemma hp_init_ok:
  assumes root: "view P HRoot = Some (ORoot r)" and fin: "finite {a. view P (HEntry a) \<noteq> None}"
    and al: "fresh_alloc alloc" and rnd: "\<exists>i. rnd i \<noteq> 0"
  shows "\<exists>r' a c b. ht_tx_init alloc time rnd (Some P) = ret (1, pm_dos (ht_tx_setup r' time a c b) P) \<and>
      hp_rep (view_after (ht_tx_setup r' time a c b) (view P)) Map.empty"
    and "\<exists>r' a c b. ht_pmem_init alloc time rnd (Some P) = ret (1, pm_dos (ht_pmem_setup r' time a c b) P) \<and>
      hp_rep (view_after (ht_pmem_setup r' time a c b) (view P)) Map.empty"
proof -
  obtain b where b: "alloc (view P) = Some b" using al fin by (auto simp: fresh_alloc_def)
  obtain a i where a: "ht_init_coeff rnd 0 = ret (a, i)"
    using rnd ht_init_coeff_total [of rnd] by blast
  have chk: "hp_check Q = ret ()" if "view Q HRootBuckets = Some (OOid (Some b))" for Q
    using that by (simp add: hp_check_def hp_oid_def)
  have rep: "hp_rep v Map.empty"
    if v: "v = view_after (ht_tx_setup r time a (rnd i) b) (view P) \<or> v = view_after (ht_pmem_setup r time a (rnd i) b) (view P)" for v
    by (rule hp_inv_empty) (use hp_view_setup [OF v] fin in simp_all)
  show "\<exists>r' a c b. ht_tx_init alloc time rnd (Some P) = ret (1, pm_dos (ht_tx_setup r' time a c b) P) \<and>
      hp_rep (view_after (ht_tx_setup r' time a c b) (view P)) Map.empty"
    using root a b rep [OF disjI1]
    by (intro exI [of _ r] exI [of _ a] exI [of _ "rnd i"] exI [of _ b])
      (simp add: ht_tx_init_def hp_root_def chk pm_dos_eq hp_view_setup(2) [OF disjI1 [OF refl]])
  show "\<exists>r' a c b. ht_pmem_init alloc time rnd (Some P) = ret (1, pm_dos (ht_pmem_setup r' time a c b) P) \<and>
      hp_rep (view_after (ht_pmem_setup r' time a c b) (view P)) Map.empty"
    using root a b rep [OF disjI2]
    by (intro exI [of _ r] exI [of _ a] exI [of _ "rnd i"] exI [of _ b])
      (simp add: ht_pmem_init_def hp_root_def chk pm_dos_eq hp_view_setup(2) [OF disjI2 [OF refl]])
qed

lemma least_fresh_alloc: "fresh_alloc (\<lambda>v. Some (LEAST a. v (HEntry a) = None))"
  unfolding fresh_alloc_def
proof (intro allI impI exI conjI)
  fix v :: hp_image
  assume "finite {a. v (HEntry a) \<noteq> None}"
  then have "\<exists>a. v (HEntry a) = None" using ex_new_if_finite [of "{a. v (HEntry a) \<noteq> None}"] by auto
  then show "v (HEntry (LEAST a. v (HEntry a) = None)) = None" by (rule LeastI_ex)
qed simp

section \<open>A crash of the table without transactions\<close>

text \<open>The new entry is never persisted, so after a crash it may hold anything.\<close>

definition hp_torn :: "nat \<Rightarrow> u64 \<Rightarrow> string \<Rightarrow> hp_image \<Rightarrow> hp_image" where
  "hp_torn a k y v = v(HEntry a \<mapsto> OEntry k NULL, HValue a \<mapsto> OVal y)"

lemma hp_torn_documented:
  "documented (ht_pmem_link junk a b i p k x) d (hp_torn a k y (view_after (ht_pmem_link junk a b i p k x) d))"
  unfolding documented_def
proof
  fix z
  show "hp_torn a k y (view_after (ht_pmem_link junk a b i p k x) d) z
      \<in> may (cell_after (ht_pmem_link junk a b i p k x) d z)"
    by (cases "z = HBucket b i"; cases z)
      (auto simp: hp_torn_def cell_after_def view_after_def ht_pmem_link_def hp_slots_def)
qed

lemma hp_torn_read:
  assumes "v HRoot = Some (ORoot r)" and "v HRootBuckets = Some (OOid (Some b))"
    and "v (HLen b) = Some (OLen (of_nat INIT_BUCKETS_NUM))"
    and "v (HBucket b (hp_bucket_of r k)) = Some (OOid (Some a))"
    and "hp_bucket_of r k' = hp_bucket_of r k"
  shows "hp_read (opened (hp_torn a k y v)) k' res = ret (1, if k' = k then StrP y else res)"
proof -
  have "hp_mem (hp_torn a k y v) a = Some \<lparr>pe_key = k, pe_value = y, pe_next = NULL\<rparr>"
    by (simp add: hp_mem_def hp_torn_def)
  then have "hp_read_loop (hp_torn a k y v) (Some a) k' res = ret (if k' = k then StrP y else res)"
    by (simp add: hp_read_loop.simps)
  with assms show ?thesis
    by (simp add: hp_read_def hp_check_def hp_oid_def hp_buckets_def hp_root_def opened_def hp_torn_def)
qed

section \<open>Properties\<close>

text \<open>
  C12: the table with transactions is crash consistent: let any number of inserts run on the pool
  \<open>d\<close> that holds the map \<open>m\<close>, and let the program stop at any point \<open>u\<close> of its events. Whatever a
  reopening that keeps the library's promises finds, it is a well formed table that holds \<open>m\<close> with
  exactly the inserts whose transactions had committed, and no part of any other.
\<close>

theorem ht_tx_crash_consistent:
  assumes crash: "\<And>t d d'. reopened t d d' \<Longrightarrow> documented t d d'"
    and "fresh_alloc alloc" and "hp_rep d m" and "\<forall>(k, x) \<in> set cs. fits x"
  shows "\<exists>P'. puts (ht_tx_insert alloc junk) cs (opened d) = ret P' \<and> commits (history P') = length cs \<and>
    (\<forall>u d'. prefix u (history P') \<longrightarrow> reopened u d d' \<longrightarrow> hp_rep d' (put_all (take (commits u) cs) m))"
  using ht_tx_durable.puts_crash_safe [of reopened alloc d m cs junk, OF crash] assms(2-4) by simp

text \<open>The pool of a new table.\<close>

definition hp_new :: hp_image where
  "hp_new = view_after (ht_tx_setup \<lparr>ph_seed = 0, ph_coeff_a = 0, ph_coeff_b = 0, ph_coeff_p = 0\<rparr> 5 1 2 0) Map.empty"

lemma hp_new_rep: "hp_rep hp_new Map.empty"
  by (rule hp_inv_empty) (use hp_view_setup [OF disjI1, OF hp_new_def] in simp_all)

theorem ht_tx_crash_consistent_witness:
  "\<forall>junk. \<exists>alloc P'. puts (ht_tx_insert alloc junk) [(3, ''a''), (3, ''b'')] (opened hp_new) = ret P' \<and>
     {d'. documented (history P') hp_new d'} \<subseteq> {d'. hp_rep d' [3 \<mapsto> ''b'']}"
proof
  fix junk
  let ?cs = "[(3, ''a''), (3, ''b'')] :: (u64 \<times> string) list"
  let ?alloc = "\<lambda>v :: hp_image. Some (LEAST a. v (HEntry a) = None)"
  have "\<forall>(k, x) \<in> set ?cs. fits x" by (simp add: fits_def DEFAULT_VALUE_LEN_def)
  from ht_tx_crash_consistent [where reopened = documented and junk = junk, OF _ least_fresh_alloc hp_new_rep this]
  obtain P' where "puts (ht_tx_insert ?alloc junk) ?cs (opened hp_new) = ret P'" and "commits (history P') = 2"
      and "\<forall>u d'. prefix u (history P') \<longrightarrow> documented u hp_new d' \<longrightarrow>
        hp_rep d' (put_all (take (commits u) ?cs) Map.empty)"
    by auto
  then have "{d'. documented (history P') hp_new d'} \<subseteq> {d'. hp_rep d' [3 \<mapsto> ''b'']}"
    by (auto dest: spec [of _ "history P'"])
  with \<open>puts _ _ _ = _\<close> show "\<exists>alloc P'. puts (ht_tx_insert alloc junk) ?cs (opened hp_new) = ret P' \<and>
     {d'. documented (history P') hp_new d'} \<subseteq> {d'. hp_rep d' [3 \<mapsto> ''b'']}" by blast
qed

text \<open>
  C14: an insert of the table without transactions is not durable when it returns: it links a new
  entry that it never persists. The running program reads the value back; after a crash, the entry
  may hold any value \<open>y\<close> under the key, and every other key of the same bucket may be gone.
\<close>

theorem ht_pmem_insert_not_durable:
  assumes "fresh_alloc alloc" and "hp_rep d m" and "m k = None" and "fits x" and "d HRoot = Some (ORoot r)"
  shows "\<exists>P'. ht_pmem_insert alloc junk (opened d) k x = ret (1, P') \<and> hp_rep (view P') (m(k \<mapsto> x)) \<and>
    (\<forall>y. \<exists>d'. documented (history P') d d' \<and>
      (\<forall>k' res. hp_bucket_of r k' = hp_bucket_of r k \<longrightarrow>
        hp_read (opened d') k' res = ret (1, if k' = k then StrP y else res)))"
proof -
  have "hp_rep (view (opened d)) m" using assms(2) by (simp add: opened_def)
  from this assms(4,1) show ?thesis
  proof (rule hp_insert_cases [of _ _ _ _ k junk])
    fix r' a b i p
    let ?t = "ht_pmem_link junk a b i p k x"
    let ?v = "view_after ?t d"
    assume ins: "ht_pmem_insert alloc junk (opened d) k x = ret (1, pm_dos ?t (opened d))"
      and rep: "hp_rep ((view (opened d))(HEntry a \<mapsto> OEntry k p, HValue a \<mapsto> OVal x, HBucket b i \<mapsto> OOid (Some a))) (m(k \<mapsto> x))"
      and st: "view (opened d) HRoot = Some (ORoot r')" "i = hp_bucket_of r' k"
        "view (opened d) HRootBuckets = Some (OOid (Some b))"
        "view (opened d) (HLen b) = Some (OLen (of_nat INIT_BUCKETS_NUM))"
    have r: "r' = r" using st(1) assms(5) by (simp add: opened_def)
    have tr: "hp_read (opened (hp_torn a k y ?v)) k' res = ret (1, if k' = k then StrP y else res)"
      if "hp_bucket_of r k' = hp_bucket_of r k" for y k' res
      by (rule hp_torn_read [OF _ _ _ _ that, of _ b]) (use st r assms(5) in \<open>simp_all add: opened_def hp_view_link\<close>)
    have "\<forall>y. \<exists>d'. documented ?t d d' \<and> (\<forall>k' res. hp_bucket_of r k' = hp_bucket_of r k \<longrightarrow>
        hp_read (opened d') k' res = ret (1, if k' = k then StrP y else res))"
      by (intro allI exI conjI impI, rule hp_torn_documented) (rule tr)
    moreover have "history (pm_dos ?t (opened d)) = ?t" by (simp add: pm_dos_eq opened_def)
    moreover have "hp_rep (view (pm_dos ?t (opened d))) (m(k \<mapsto> x))"
      using rep by (simp add: pm_dos_eq opened_def hp_view_link)
    ultimately show ?thesis using ins by (intro exI [of _ "pm_dos ?t (opened d)"] conjI) simp_all
  qed (use assms(3) in simp)
qed

theorem ht_pmem_insert_not_durable_witness:
  "\<forall>junk. \<exists>alloc P' d'. ht_pmem_insert alloc junk (opened hp_new) 3 ''a'' = ret (1, P') \<and>
     hp_rep (view P') [3 \<mapsto> ''a''] \<and> documented (history P') hp_new d' \<and>
     hp_read (opened d') 3 Unset = ret (1, StrP ''z'')"
proof
  fix junk
  have "fits ''a''" by (simp add: fits_def DEFAULT_VALUE_LEN_def)
  from ht_pmem_insert_not_durable [OF least_fresh_alloc hp_new_rep _ this hp_view_setup(1) [OF disjI1, OF hp_new_def],
      where k = 3 and junk = junk]
  show "\<exists>alloc P' d'. ht_pmem_insert alloc junk (opened hp_new) 3 ''a'' = ret (1, P') \<and>
     hp_rep (view P') [3 \<mapsto> ''a''] \<and> documented (history P') hp_new d' \<and>
     hp_read (opened d') 3 Unset = ret (1, StrP ''z'')"
    by fastforce
qed

text \<open>
  C20: initialising either table on a pool whose root object exists gives an empty table, even when
  the pool already held the map \<open>m\<close>, and from there any valid sequence of database calls gives the
  results of a map that starts empty. So both work as stores, and neither keeps its contents from
  one run of the program to the next.
\<close>

theorem ht_pmem_starts_empty:
  assumes "fresh_alloc alloc" and "\<exists>i. rnd i \<noteq> 0" and "hp_rep (view P) m"
    and "valid_run (\<lambda>_. True) upsert Map.empty cs"
  shows "(\<exists>P1 P2. ht_tx_init alloc time rnd (Some P) = ret (1, P1) \<and>
      (\<forall>k res. hp_read P1 k res = ret (1, res)) \<and>
      db_run (ht_tx_ops alloc junk) P1 cs = ret (fst (spec_run upsert Map.empty cs), P2)) \<and>
    (\<exists>P1 P2. ht_pmem_init alloc time rnd (Some P) = ret (1, P1) \<and>
      (\<forall>k res. hp_read P1 k res = ret (1, res)) \<and>
      db_run (ht_pmem_ops alloc junk) P1 cs = ret (fst (spec_run upsert Map.empty cs), P2))"
proof
  obtain r where root: "view P HRoot = Some (ORoot r)" and fin: "finite {a. view P (HEntry a) \<noteq> None}"
    using assms(3) by (auto simp: hp_rep_def hp_inv_def)
  have rd: "\<forall>k res. hp_read P1 k res = ret (1, res)" if "hp_rep (view P1) Map.empty" for P1
    using hp_rep_read [OF that] by simp
  from hp_init_ok(1) [OF root fin assms(1,2), of time] obtain P1 where
    P1: "ht_tx_init alloc time rnd (Some P) = ret (1, P1)" "fresh_alloc alloc \<and> hp_rep (view P1) Map.empty"
    using assms(1) by (auto simp: pm_dos_eq)
  from ht_tx.db_run_refines [OF P1(2) assms(4), of junk] P1 rd
  show "\<exists>P1 P2. ht_tx_init alloc time rnd (Some P) = ret (1, P1) \<and>
      (\<forall>k res. hp_read P1 k res = ret (1, res)) \<and>
      db_run (ht_tx_ops alloc junk) P1 cs = ret (fst (spec_run upsert Map.empty cs), P2)" by blast
  from hp_init_ok(2) [OF root fin assms(1,2), of time] obtain P1 where
    P1: "ht_pmem_init alloc time rnd (Some P) = ret (1, P1)" "fresh_alloc alloc \<and> hp_rep (view P1) Map.empty"
    using assms(1) by (auto simp: pm_dos_eq)
  from ht_pmem.db_run_refines [OF P1(2) assms(4), of junk] P1 rd
  show "\<exists>P1 P2. ht_pmem_init alloc time rnd (Some P) = ret (1, P1) \<and>
      (\<forall>k res. hp_read P1 k res = ret (1, res)) \<and>
      db_run (ht_pmem_ops alloc junk) P1 cs = ret (fst (spec_run upsert Map.empty cs), P2)" by blast
qed

theorem ht_pmem_starts_empty_witness:
  "\<forall>junk. \<exists>alloc P P1 P2. hp_rep (view P) [3 \<mapsto> ''a''] \<and>
     ht_tx_init alloc 5 (\<lambda>i. of_nat i) (Some P) = ret (1, P1) \<and> hp_read P1 3 Unset = ret (1, Unset) \<and>
     db_run (ht_tx_ops alloc junk) P1 [DBInsert 4 [(''field'', ''b'')], DBRead 4] = ret ([RDone 0, RRead 0 [(4, ''b'')]], P2)"
proof
  fix junk
  let ?alloc = "\<lambda>v :: hp_image. Some (LEAST a. v (HEntry a) = None)"
  let ?cs = "[DBInsert 4 [(''field'', ''b'')], DBRead 4]"
  have "hp_rep (view (opened hp_new)) Map.empty" and "fits ''a''"
    using hp_new_rep by (simp_all add: opened_def fits_def DEFAULT_VALUE_LEN_def)
  from ht_tx_insert_ok [OF this least_fresh_alloc, of junk 3]
  obtain t where "hp_rep (view_after t hp_new) [3 \<mapsto> ''a'']" by (auto simp: opened_def)
  then have P: "hp_rep (view (opened (view_after t hp_new))) [3 \<mapsto> ''a'']" by (simp add: opened_def)
  have "\<exists>i. (of_nat i :: u32) \<noteq> 0" by (rule exI [of _ 1]) simp
  moreover have "valid_run (\<lambda>_. True) upsert Map.empty ?cs"
    by (simp add: fits_def DEFAULT_VALUE_LEN_def c_str_def)
  ultimately obtain P1 P2 where "ht_tx_init ?alloc 5 (\<lambda>i. of_nat i) (Some (opened (view_after t hp_new))) = ret (1, P1)"
      and "\<forall>k res. hp_read P1 k res = ret (1, res)"
      and "db_run (ht_tx_ops ?alloc junk) P1 ?cs = ret (fst (spec_run upsert Map.empty ?cs), P2)"
    using ht_pmem_starts_empty [OF least_fresh_alloc _ P, of "\<lambda>i. of_nat i" ?cs 5 junk] by blast
  moreover have "fst (spec_run upsert Map.empty ?cs) = [RDone 0, RRead 0 [(4, ''b'')]]"
    by (simp add: c_str_def kOK_def)
  ultimately show "\<exists>alloc P P1 P2. hp_rep (view P) [3 \<mapsto> ''a''] \<and>
     ht_tx_init alloc 5 (\<lambda>i. of_nat i) (Some P) = ret (1, P1) \<and> hp_read P1 3 Unset = ret (1, Unset) \<and>
     db_run (ht_tx_ops alloc junk) P1 ?cs = ret ([RDone 0, RRead 0 [(4, ''b'')]], P2)"
    using P by (intro exI conjI) simp_all
qed

end
