(* ===== verification/Pmem_List.thy ===== *)
theory Pmem_List
  imports Persistent_Memory
begin

text \<open>
  \<^verbatim>\<open>src/storeds/linkedlist/linkedlist_pmem.cc\<close> and \<^verbatim>\<open>linkedlist_pmem_tx.cc\<close>: the linked list in a
  persistent pool, with single persist calls (\<open>LinkedlistPmem\<close>) and with transactions
  (\<open>LinkedlistPmemTx\<close>). The lemmas show that both are lists in which the first insert of a key
  counts, that the chain of the second survives a crash, and that its tail pointer does not.
\<close>

section \<open>State\<close>

text \<open>\<open>struct ll_pmem_node\<close>, put together from its three locations.\<close>

record ll_pmem_node =
  lp_key :: u64
  lp_value :: string
  lp_next :: ptr

text \<open>Locations: the two fields of \<open>struct ll_pmem_root\<close>, and the fields of the nodes.\<close>

datatype lp_addr = LHead | LTail | LKey nat | LValue nat | LNext nat

datatype lp_obj = LpOid ptr | LpKey u64 | LpVal string

type_synonym lp_image = "lp_addr \<rightharpoonup> lp_obj"
type_synonym lp_pool = "(lp_addr, lp_obj) pool"

definition lp_mem :: "lp_image \<Rightarrow> nat \<rightharpoonup> ll_pmem_node" where
  "lp_mem v a = (case (v (LKey a), v (LValue a), v (LNext a)) of
     (Some (LpKey k), Some (LpVal x), Some (LpOid n)) \<Rightarrow> Some \<lparr>lp_key = k, lp_value = x, lp_next = n\<rparr>
   | _ \<Rightarrow> None)"

definition lp_heap :: "lp_image \<Rightarrow> ll_pmem_node heap" where
  "lp_heap v = \<lparr>mem = lp_mem v, brk = 0\<rparr>"

text \<open>
  The object: when the pool cannot be created or opened, \<open>init\<close> returns with \<open>pop\<close> and \<open>root_p\<close>
  still null.
\<close>

type_synonym linkedlist_pmem = "lp_pool option"

section \<open>Operations\<close>

definition lp_root :: "linkedlist_pmem \<Rightarrow> lp_pool comp" where
  "lp_root s = (case s of None \<Rightarrow> crash NullDeref | Some P \<Rightarrow> ret P)"

definition lp_oid :: "lp_pool \<Rightarrow> lp_addr \<Rightarrow> ptr comp" where
  "lp_oid P x = bindC (pm_get P x) (\<lambda>v. case v of LpOid p \<Rightarrow> ret p | _ \<Rightarrow> crash WildDeref)"

definition lp_check :: "lp_pool \<Rightarrow> unit comp" where
  "lp_check P = bindC (lp_oid P LHead) (\<lambda>p. assertC (p \<noteq> NULL))"

text \<open>\<open>po\<close>: the pool that was created or opened; \<open>root\<close>: whether its root object is there.\<close>

definition lp_init :: "lp_pool option \<Rightarrow> bool \<Rightarrow> (int \<times> linkedlist_pmem) comp" where
  "lp_init po root = (case po of None \<Rightarrow> ret (1, None)
     | Some P \<Rightarrow> if root then ret (1, Some P) else crash (Exited 0))"

definition lp_scan :: "linkedlist_pmem \<Rightarrow> u64 \<Rightarrow> int \<Rightarrow> scan_result \<Rightarrow> (int \<times> scan_result) comp" where
  "lp_scan s key len result = crash (Thrown ''Scan: function not implemented!'')"

text \<open>The loop of \<open>read\<close> and \<open>update\<close>: the node with the key or null.\<close>

definition lp_find :: "lp_pool \<Rightarrow> u64 \<Rightarrow> ptr comp" where
  "lp_find P key =
     bindC (lp_check P) (\<lambda>_. bindC (lp_oid P LHead) (\<lambda>p. search_chain lp_next lp_key (lp_heap (view P)) p key))"

definition lp_read :: "linkedlist_pmem \<Rightarrow> u64 \<Rightarrow> outp \<Rightarrow> (int \<times> outp) comp" where
  "lp_read s key result =
     bindC (lp_root s) (\<lambda>P.
     bindC (lp_find P key) (\<lambda>p.
       if p = NULL then ret (1, result)
       else bindC (load (lp_heap (view P)) p) (\<lambda>n. ret (1, StrP (lp_value n)))))"

definition lp_node :: "nat \<Rightarrow> lp_addr set" where
  "lp_node a = {LKey a, LValue a, LNext a}"

definition lp_block :: "nat \<Rightarrow> ll_pmem_node \<Rightarrow> lp_image" where
  "lp_block a n = [LKey a \<mapsto> LpKey (lp_key n), LValue a \<mapsto> LpVal (lp_value n), LNext a \<mapsto> LpOid (lp_next n)]"

subsection \<open>With transactions\<close>

definition ll_tx_update :: "linkedlist_pmem \<Rightarrow> u64 \<Rightarrow> string \<Rightarrow> (int \<times> linkedlist_pmem) comp" where
  "ll_tx_update s key value =
     bindC (lp_root s) (\<lambda>P.
     bindC (lp_find P key) (\<lambda>p. case p of
       None \<Rightarrow> ret (1, Some P)
     | Some a \<Rightarrow> bindC (copy_value value) (\<lambda>v.
         ret (1, Some (pm_dos [TxBegin, TxAdd (lp_node a), Wr (LValue a) (LpVal v), TxEnd] P)))))"

definition ll_tx_create_node :: "ll_pmem_node \<Rightarrow> nat \<Rightarrow> u64 \<Rightarrow> string \<Rightarrow> (lp_addr, lp_obj) trace" where
  "ll_tx_create_node junk a key v =
     [TxAlloc (lp_block a junk), Wr (LKey a) (LpKey key), Wr (LValue a) (LpVal v)]"

definition ll_tx_first :: "ll_pmem_node \<Rightarrow> nat \<Rightarrow> u64 \<Rightarrow> string \<Rightarrow> (lp_addr, lp_obj) trace" where
  "ll_tx_first junk a key v = TxBegin # ll_tx_create_node junk a key v @
     [TxAdd {LHead, LTail}, Wr LHead (LpOid (Some a)), Wr LTail (LpOid (Some a)), TxEnd]"

definition ll_tx_append :: "ll_pmem_node \<Rightarrow> nat \<Rightarrow> nat \<Rightarrow> u64 \<Rightarrow> string \<Rightarrow> (lp_addr, lp_obj) trace" where
  "ll_tx_append junk a t key v = TxBegin # ll_tx_create_node junk a key v @
     [TxAdd (lp_node t), Wr (LNext t) (LpOid (Some a)), Wr LTail (LpOid (Some a)), TxEnd]"

definition ll_tx_insert ::
  "(lp_image \<Rightarrow> nat option) \<Rightarrow> ll_pmem_node \<Rightarrow> linkedlist_pmem \<Rightarrow> u64 \<Rightarrow> string \<Rightarrow> (int \<times> linkedlist_pmem) comp" where
  "ll_tx_insert alloc junk s key value =
     bindC (lp_root s) (\<lambda>P. case alloc (view P) of
       None \<Rightarrow> crash AssertFail
     | Some a \<Rightarrow> bindC (copy_value value) (\<lambda>v.
         bindC (lp_oid P LHead) (\<lambda>head.
           if head = NULL then ret (1, Some (pm_dos (ll_tx_first junk a key v) P))
           else bindC (lp_oid P LTail) (\<lambda>tail. case tail of
               None \<Rightarrow> crash AssertFail
             | Some t \<Rightarrow> bindC (lp_oid P (LNext t)) (\<lambda>_.
                 ret (1, Some (pm_dos (ll_tx_append junk a t key v) P)))))))"

subsection \<open>Without transactions\<close>

definition ll_pmem_update :: "linkedlist_pmem \<Rightarrow> u64 \<Rightarrow> string \<Rightarrow> (int \<times> linkedlist_pmem) comp" where
  "ll_pmem_update s key value =
     bindC (lp_root s) (\<lambda>P.
     bindC (lp_find P key) (\<lambda>p. case p of
       None \<Rightarrow> ret (1, Some P)
     | Some a \<Rightarrow> bindC (copy_value value) (\<lambda>v.
         ret (1, Some (pm_dos [Wr (LValue a) (LpVal v), Persist {LValue a}] P)))))"

definition ll_pmem_create_node :: "ll_pmem_node \<Rightarrow> nat \<Rightarrow> u64 \<Rightarrow> string \<Rightarrow> (lp_addr, lp_obj) trace" where
  "ll_pmem_create_node junk a key v =
     [Alloc (lp_block a junk), Wr (LKey a) (LpKey key), Wr (LValue a) (LpVal v)]"

definition ll_pmem_first :: "ll_pmem_node \<Rightarrow> nat \<Rightarrow> u64 \<Rightarrow> string \<Rightarrow> (lp_addr, lp_obj) trace" where
  "ll_pmem_first junk a key v = ll_pmem_create_node junk a key v @
     [Wr LHead (LpOid (Some a)), Wr LTail (LpOid (Some a)), Persist {LHead, LTail}]"

text \<open>The range persisted begins at \<open>tail\<close> and goes past the root object.\<close>

definition ll_pmem_append :: "ll_pmem_node \<Rightarrow> nat \<Rightarrow> nat \<Rightarrow> u64 \<Rightarrow> string \<Rightarrow> (lp_addr, lp_obj) trace" where
  "ll_pmem_append junk a t key v = ll_pmem_create_node junk a key v @
     [Wr (LNext t) (LpOid (Some a)), Wr LTail (LpOid (Some a)), Persist {LTail}]"

text \<open>Whether the allocation failed is not checked: the pointer then has no value.\<close>

definition ll_pmem_insert ::
  "(lp_image \<Rightarrow> nat option) \<Rightarrow> ll_pmem_node \<Rightarrow> linkedlist_pmem \<Rightarrow> u64 \<Rightarrow> string \<Rightarrow> (int \<times> linkedlist_pmem) comp" where
  "ll_pmem_insert alloc junk s key value =
     bindC (lp_root s) (\<lambda>P. case alloc (view P) of
       None \<Rightarrow> crash UninitRead
     | Some a \<Rightarrow> bindC (copy_value value) (\<lambda>v.
         bindC (lp_oid P LHead) (\<lambda>head.
           if head = NULL then ret (1, Some (pm_dos (ll_pmem_first junk a key v) P))
           else bindC (lp_oid P LTail) (\<lambda>tail. case tail of
               None \<Rightarrow> crash NullDeref
             | Some t \<Rightarrow> bindC (lp_oid P (LNext t)) (\<lambda>_.
                 ret (1, Some (pm_dos (ll_pmem_append junk a t key v) P)))))))"

subsection \<open>Destruction\<close>

text \<open>
  \<open>free\<close> is the event that frees a node. After the loop \<open>tail\<close>, whose node the loop has freed, is
  freed again.
\<close>

partial_function (option) lp_free_loop ::
  "(lp_addr set \<Rightarrow> (lp_addr, lp_obj) pm_event) \<Rightarrow> lp_pool \<Rightarrow> lp_pool comp" where
  "lp_free_loop free P =
     bindC (lp_oid P LHead) (\<lambda>head. case head of
       None \<Rightarrow> ret P
     | Some a \<Rightarrow> bindC (lp_oid P (LNext a)) (\<lambda>next.
         lp_free_loop free (pm_dos [Wr LHead (LpOid next), free (lp_node a)] P)))"

definition lp_free_tail ::
  "(lp_addr set \<Rightarrow> (lp_addr, lp_obj) pm_event) \<Rightarrow> lp_pool \<Rightarrow> lp_pool comp" where
  "lp_free_tail free P =
     bindC (lp_oid P LTail) (\<lambda>tail. case tail of
       None \<Rightarrow> ret P
     | Some t \<Rightarrow> if view P (LKey t) = None then crash BadFree else ret (pm_do (free (lp_node t)) P))"

definition ll_tx_destroy :: "linkedlist_pmem \<Rightarrow> linkedlist_pmem comp" where
  "ll_tx_destroy s =
     bindC (lp_root s) (\<lambda>P.
     bindC (lp_check P) (\<lambda>_.
     bindC (lp_free_loop TxFree (pm_dos [TxBegin, TxAdd {LHead, LTail}] P)) (\<lambda>P.
     bindC (lp_free_tail TxFree P) (\<lambda>P.
       ret (Some (pm_dos [Wr LHead (LpOid NULL), Wr LTail (LpOid NULL), TxEnd] P))))))"

definition ll_pmem_destroy :: "linkedlist_pmem \<Rightarrow> linkedlist_pmem comp" where
  "ll_pmem_destroy s =
     bindC (lp_root s) (\<lambda>P.
     bindC (lp_check P) (\<lambda>_.
     bindC (lp_free_loop Free P) (\<lambda>P.
     bindC (lp_free_tail Free P) (\<lambda>P.
       ret (Some (pm_dos [Wr LHead (LpOid NULL), Wr LTail (LpOid NULL)] P))))))"

section \<open>The list in the pool\<close>

text \<open>
  The nodes from \<open>head\<close> on; nothing is said of \<open>tail\<close>. The code never writes the \<open>next\<close> of a last
  node, so the end \<open>q\<close> of the list is what the pool held there.
\<close>

definition lp_chain :: "lp_image \<Rightarrow> nat list \<Rightarrow> ptr \<Rightarrow> bool" where
  "lp_chain v as q \<longleftrightarrow> distinct as \<and> finite {a. v (LKey a) \<noteq> None} \<and>
     (\<exists>p. v LHead = Some (LpOid p) \<and> chain lp_next (lp_mem v) p as q)"

abbreviation lp_pairs :: "lp_image \<Rightarrow> nat list \<Rightarrow> (u64 \<times> string) list" where
  "lp_pairs v as \<equiv> assoc_of lp_key lp_value (lp_mem v) as"

definition lp_rep :: "lp_image \<Rightarrow> kv_map \<Rightarrow> bool" where
  "lp_rep v m \<longleftrightarrow> (\<exists>as q. lp_chain v as q \<and> (as = [] \<longrightarrow> q = NULL) \<and>
     v LTail = Some (LpOid (if as = [] then NULL else Some (last as))) \<and> m = map_of (lp_pairs v as))"

definition lp_fresh :: "(lp_image \<Rightarrow> nat option) \<Rightarrow> bool" where
  "lp_fresh alloc \<longleftrightarrow>
     (\<forall>v. finite {a. v (LKey a) \<noteq> None} \<longrightarrow> (\<exists>a. alloc v = Some a \<and> v (LKey a) = None))"

lemma lp_mem_heap [simp]: "mem (lp_heap v) = lp_mem v"
  by (simp add: lp_heap_def)

lemma lp_mem_upd [simp]:
  "lp_mem (v(LHead \<mapsto> q)) = lp_mem v"
  "lp_mem (v(LTail := r)) = lp_mem v"
  by (simp_all add: lp_mem_def fun_eq_iff)

lemma lp_mem_new:
  "lp_mem (v(LKey a \<mapsto> LpKey k, LValue a \<mapsto> LpVal x, LNext a \<mapsto> LpOid n)) =
     (lp_mem v)(a \<mapsto> \<lparr>lp_key = k, lp_value = x, lp_next = n\<rparr>)"
  by (rule ext) (simp add: lp_mem_def cong: option.case_cong lp_obj.case_cong)

lemma lp_mem_eq:
  "lp_mem v a = Some n \<longleftrightarrow> v (LKey a) = Some (LpKey (lp_key n)) \<and> v (LValue a) = Some (LpVal (lp_value n)) \<and>
     v (LNext a) = Some (LpOid (lp_next n))"
  by (auto simp: lp_mem_def split: option.splits lp_obj.splits)

lemma lp_mem_next: "lp_mem v a = Some n \<Longrightarrow> lp_mem (v(LNext a \<mapsto> LpOid q)) = (lp_mem v)(a \<mapsto> n\<lparr>lp_next := q\<rparr>)"
  by (rule ext) (auto simp: lp_mem_eq, simp add: lp_mem_def cong: option.case_cong lp_obj.case_cong)

lemma lp_mem_value: "lp_mem v a = Some n \<Longrightarrow> lp_mem (v(LValue a \<mapsto> LpVal x)) = (lp_mem v)(a \<mapsto> n\<lparr>lp_value := x\<rparr>)"
  by (rule ext) (auto simp: lp_mem_eq, simp add: lp_mem_def cong: option.case_cong lp_obj.case_cong)

lemma lp_chain_notin: "lp_chain v as q \<Longrightarrow> v (LKey a) = None \<Longrightarrow> a \<notin> set as"
proof
  assume "lp_chain v as q" "v (LKey a) = None" "a \<in> set as"
  then obtain n where "lp_mem v a = Some n" using chain_allocated unfolding lp_chain_def by metis
  with \<open>v (LKey a) = None\<close> show False by (simp add: lp_mem_eq)
qed

lemma lp_find_eq:
  assumes "lp_chain (view P) as q" and "as \<noteq> []"
  shows "lp_find P k = (case find_key lp_key (lp_mem (view P)) k as of Some a \<Rightarrow> ret (Some a)
    | None \<Rightarrow> search_chain lp_next lp_key (lp_heap (view P)) q k)"
proof -
  obtain p where p: "view P LHead = Some (LpOid p)" "chain lp_next (lp_mem (view P)) p as q"
    using assms(1) by (auto simp: lp_chain_def)
  then have "p \<noteq> NULL" using assms(2) by (cases as) auto
  then show ?thesis
    using p search_chain_eq [of lp_next "lp_heap (view P)" p as q lp_key k]
    by (simp add: lp_find_def lp_check_def lp_oid_def)
qed

lemma lp_read_found:
  assumes c: "lp_chain (view P) as q" and k: "map_of (lp_pairs (view P) as) k = Some x"
  shows "lp_read (Some P) k r = ret (1, StrP x)"
proof -
  have ne: "as \<noteq> []" using k by auto
  obtain a where a: "find_key lp_key (lp_mem (view P)) k as = Some a"
    using k find_key_None [of lp_key "lp_mem (view P)" k as lp_value] by fastforce
  note f = find_key_Some [OF a, of lp_value]
  obtain n where "lp_mem (view P) a = Some n"
    using c f chain_allocated unfolding lp_chain_def by metis
  then show ?thesis using f a k by (simp add: lp_read_def lp_root_def lp_find_eq [OF c ne])
qed

lemma lp_find_absent:
  assumes "lp_chain (view P) as q" and "as \<noteq> []" and "map_of (lp_pairs (view P) as) k = None"
  shows "lp_find P k = search_chain lp_next lp_key (lp_heap (view P)) q k"
  using find_key_None [of lp_key "lp_mem (view P)" k as lp_value] assms(3) by (simp add: lp_find_eq [OF assms(1,2)])

text \<open>What both inserts make of the pool when the list is not empty: a new node behind \<open>t\<close>.\<close>

definition lp_linked :: "ll_pmem_node \<Rightarrow> nat \<Rightarrow> nat \<Rightarrow> u64 \<Rightarrow> string \<Rightarrow> lp_image \<Rightarrow> lp_image" where
  "lp_linked junk a t k x v =
     v(LKey a \<mapsto> LpKey k, LValue a \<mapsto> LpVal x, LNext a \<mapsto> LpOid (lp_next junk),
       LNext t \<mapsto> LpOid (Some a), LTail \<mapsto> LpOid (Some a))"

lemma lp_view_append:
  assumes "a \<noteq> t"
  shows "view_after (ll_tx_append junk a t k x) v = lp_linked junk a t k x v"
    and "view_after (ll_pmem_append junk a t k x) v = lp_linked junk a t k x v"
  using assms by (auto simp: view_after_def ll_tx_append_def ll_pmem_append_def ll_tx_create_node_def
      ll_pmem_create_node_def lp_block_def lp_linked_def fun_eq_iff)

lemma lp_mem_linked:
  assumes "lp_mem v t = Some n" and "a \<noteq> t"
  shows "lp_mem (lp_linked junk a t k x v) =
    (lp_mem v)(a \<mapsto> \<lparr>lp_key = k, lp_value = x, lp_next = lp_next junk\<rparr>, t \<mapsto> n\<lparr>lp_next := Some a\<rparr>)"
proof -
  let ?v = "v(LKey a \<mapsto> LpKey k, LValue a \<mapsto> LpVal x, LNext a \<mapsto> LpOid (lp_next junk))"
  have "lp_mem ?v t = Some n" using assms by (simp add: lp_mem_new)
  from lp_mem_next [OF this, of "Some a"] show ?thesis by (simp add: lp_linked_def lp_mem_new)
qed

text \<open>Behind \<open>t\<close> there may be nodes \<open>cs\<close>, which the new node then cuts off.\<close>

lemma lp_chain_linked:
  assumes c: "lp_chain v (bs @ t # cs) q" and fresh: "v (LKey a) = None"
  shows "lp_chain (lp_linked junk a t k x v) (bs @ [t, a]) (lp_next junk)"
    and "lp_pairs (lp_linked junk a t k x v) (bs @ [t, a]) = lp_pairs v (bs @ [t]) @ [(k, x)]"
proof -
  have nin: "a \<notin> set bs" "a \<noteq> t" using lp_chain_notin [OF c fresh] by auto
  obtain p n where p: "v LHead = Some (LpOid p)" "chain lp_next (lp_mem v) p bs (Some t)" "lp_mem v t = Some n"
    using c by (auto simp: lp_chain_def)
  have t: "t \<notin> set bs" "distinct bs" "finite {c. v (LKey c) \<noteq> None}" using c by (auto simp: lp_chain_def)
  note mem = lp_mem_linked [OF p(3) nin(2)]
  have "{c. lp_linked junk a t k x v (LKey c) \<noteq> None} = insert a {c. v (LKey c) \<noteq> None}"
    by (auto simp: lp_linked_def)
  then have "finite {c. lp_linked junk a t k x v (LKey c) \<noteq> None}" using t(3) by (metis finite_insert)
  moreover have "lp_linked junk a t k x v LHead = Some (LpOid p)" using p(1) by (simp add: lp_linked_def)
  moreover have "chain lp_next (lp_mem (lp_linked junk a t k x v)) p (bs @ [t, a]) (lp_next junk)"
    using p(2) nin t(1) by (simp add: mem chain_frame)
  ultimately show "lp_chain (lp_linked junk a t k x v) (bs @ [t, a]) (lp_next junk)"
    unfolding lp_chain_def using nin t by auto
  show "lp_pairs (lp_linked junk a t k x v) (bs @ [t, a]) = lp_pairs v (bs @ [t]) @ [(k, x)]"
    using nin t(1) p(3) by (simp add: mem contents_frame)
qed

lemma lp_rep_read: "lp_rep (view P) m \<Longrightarrow> m k = Some x \<Longrightarrow> lp_read (Some P) k r = ret (1, StrP x)"
  using lp_read_found by (auto simp: lp_rep_def)

text \<open>Both updates write the value of the first node with the key.\<close>

lemma lp_rep_update:
  assumes "lp_rep (view P) m" and k: "m k \<noteq> None"
  obtains a where "lp_find P k = ret (Some a)" and "lp_rep ((view P)(LValue a \<mapsto> LpVal x)) (m(k \<mapsto> x))"
proof -
  let ?v = "view P"
  obtain as q where c: "lp_chain ?v as q" and m: "m = map_of (lp_pairs ?v as)"
    and t: "?v LTail = Some (LpOid (if as = [] then NULL else Some (last as)))"
    using assms(1) by (auto simp: lp_rep_def)
  have ne: "as \<noteq> []" using k m by auto
  obtain a where a: "find_key lp_key (lp_mem ?v) k as = Some a"
    using k find_key_None [of lp_key "lp_mem ?v" k as lp_value] by (auto simp: m)
  note f = find_key_Some [OF a, of lp_value]
  obtain n where n: "lp_mem ?v a = Some n" using c f chain_allocated unfolding lp_chain_def by metis
  note mem = lp_mem_value [OF n, of x]
  have "lp_chain (?v(LValue a \<mapsto> LpVal x)) as q"
    using c n by (simp add: lp_chain_def mem chain_upd_same_next)
  moreover have "map_of (lp_pairs (?v(LValue a \<mapsto> LpVal x)) as) = m(k \<mapsto> x)"
    unfolding m mem using assoc_upd_found [OF a, of "n\<lparr>lp_value := x\<rparr>" "(lp_mem ?v)(a \<mapsto> n\<lparr>lp_value := x\<rparr>)" lp_value] c f n
    by (simp add: lp_chain_def)
  ultimately have "lp_rep (?v(LValue a \<mapsto> LpVal x)) (m(k \<mapsto> x))"
    using t ne unfolding lp_rep_def by (intro exI [of _ as] exI [of _ q]) simp
  moreover have "lp_find P k = ret (Some a)" using lp_find_eq [OF c ne] a by simp
  ultimately show thesis by (intro that)
qed

lemma chain_NULL_empty: "chain nx M NULL as q \<Longrightarrow> as = []"
  by (cases as) simp_all

lemma lp_rep_first:
  assumes "lp_rep v m" and "v LHead = Some (LpOid NULL)"
  shows "lp_rep (v(LKey a \<mapsto> LpKey k, LValue a \<mapsto> LpVal x, LNext a \<mapsto> LpOid (lp_next junk),
      LHead \<mapsto> LpOid (Some a), LTail \<mapsto> LpOid (Some a))) (add_new m k x)"
    (is "lp_rep ?v _")
proof -
  have m: "m = Map.empty" and fin: "finite {a. v (LKey a) \<noteq> None}"
    using assms(1,2) chain_NULL_empty by (fastforce simp: lp_rep_def lp_chain_def)+
  have "{c. ?v (LKey c) \<noteq> None} = insert a {c. v (LKey c) \<noteq> None}" by auto
  then have "finite {c. ?v (LKey c) \<noteq> None}" using fin by (metis finite_insert)
  then show ?thesis
    unfolding lp_rep_def lp_chain_def
    by (intro exI [of _ "[a]"] exI [of _ "lp_next junk"]) (simp add: lp_mem_new m add_new_def)
qed

lemma add_new_map_of: "map_of (xs @ [(k, x)]) = add_new (map_of xs) k x"
  unfolding add_new_def by (rule ext) (auto simp: map_add_def split: option.splits)

lemma lp_rep_append:
  assumes r: "lp_rep v m" and h: "v LHead = Some (LpOid p)" "p \<noteq> NULL"
    and fresh: "v (LKey a) = None"
  obtains t n where "v LTail = Some (LpOid (Some t))" and "v (LNext t) = Some (LpOid n)" and "a \<noteq> t"
    and "lp_rep (lp_linked junk a t k x v) (add_new m k x)"
proof -
  obtain as q where c: "lp_chain v as q" "as = [] \<longrightarrow> q = NULL" and m: "m = map_of (lp_pairs v as)"
    and t: "v LTail = Some (LpOid (if as = [] then NULL else Some (last as)))"
    using r by (auto simp: lp_rep_def)
  have "as \<noteq> []" using c h by (auto simp: lp_chain_def)
  then obtain bs l where as: "as = bs @ [l]" by (metis append_butlast_last_id)
  have l: "a \<noteq> l" using lp_chain_notin [OF c(1) fresh] as by auto
  obtain e where "lp_mem v l = Some e" using c as by (auto simp: lp_chain_def)
  then have "v (LNext l) = Some (LpOid (lp_next e))" by (simp add: lp_mem_eq)
  moreover have "lp_rep (lp_linked junk a l k x v) (add_new m k x)"
    unfolding lp_rep_def m as add_new_map_of [symmetric]
    by (rule exI [of _ "bs @ [l, a]"], rule exI [of _ "lp_next junk"])
      (use lp_chain_linked [of v bs l "[]" q, OF _ fresh] c as in \<open>simp add: lp_linked_def\<close>)
  ultimately show thesis using that t l as by simp
qed

text \<open>What both inserts do.\<close>

lemma lp_insert_ok:
  assumes r: "lp_rep (view P) m" and v: "fits x" and al: "lp_fresh alloc"
  shows "\<exists>P'. ll_tx_insert alloc junk (Some P) k x = ret (1, Some P') \<and> lp_rep (view P') (add_new m k x)"
    and "\<exists>P'. ll_pmem_insert alloc junk (Some P) k x = ret (1, Some P') \<and> lp_rep (view P') (add_new m k x)"
proof -
  obtain p where p: "view P LHead = Some (LpOid p)" and fin: "finite {a. view P (LKey a) \<noteq> None}"
    using r by (auto simp: lp_rep_def lp_chain_def)
  obtain a where a: "alloc (view P) = Some a" "view P (LKey a) = None"
    using al fin by (auto simp: lp_fresh_def)
  have "(\<exists>P'. ll_tx_insert alloc junk (Some P) k x = ret (1, Some P') \<and> lp_rep (view P') (add_new m k x)) \<and>
    (\<exists>P'. ll_pmem_insert alloc junk (Some P) k x = ret (1, Some P') \<and> lp_rep (view P') (add_new m k x))"
  proof (cases p)
    case None
    let ?v = "(view P)(LKey a \<mapsto> LpKey k, LValue a \<mapsto> LpVal x, LNext a \<mapsto> LpOid (lp_next junk),
        LHead \<mapsto> LpOid (Some a), LTail \<mapsto> LpOid (Some a))"
    have "view_after (ll_tx_first junk a k x) (view P) = ?v" "view_after (ll_pmem_first junk a k x) (view P) = ?v"
      by (auto simp: view_after_def ll_tx_first_def ll_pmem_first_def ll_tx_create_node_def
          ll_pmem_create_node_def lp_block_def fun_eq_iff)
    then show ?thesis
      using p None a v lp_rep_first [OF r _, where a = a and k = k and x = x and junk = junk]
      by (simp add: ll_tx_insert_def ll_pmem_insert_def lp_root_def lp_oid_def pm_dos_eq)
  next
    case (Some q)
    from lp_rep_append [OF r p _ a(2), where junk = junk and k = k and x = x] Some obtain t n where
      t: "view P LTail = Some (LpOid (Some t))" "view P (LNext t) = Some (LpOid n)" "a \<noteq> t"
        "lp_rep (lp_linked junk a t k x (view P)) (add_new m k x)" by blast
    then show ?thesis
      using p Some a(1) v
      by (simp add: ll_tx_insert_def ll_pmem_insert_def lp_root_def lp_oid_def pm_dos_eq lp_view_append)
  qed
  then show "\<exists>P'. ll_tx_insert alloc junk (Some P) k x = ret (1, Some P') \<and> lp_rep (view P') (add_new m k x)"
    and "\<exists>P'. ll_pmem_insert alloc junk (Some P) k x = ret (1, Some P') \<and> lp_rep (view P') (add_new m k x)"
    by blast+
qed

section \<open>The lists as stores\<close>

definition ll_tx_ops :: "(lp_image \<Rightarrow> nat option) \<Rightarrow> ll_pmem_node \<Rightarrow> linkedlist_pmem storeds_base" where
  "ll_tx_ops alloc junk = \<lparr>op_read = lp_read, op_scan = lp_scan, op_update = ll_tx_update,
     op_insert = ll_tx_insert alloc junk, op_destroy = ll_tx_destroy\<rparr>"

definition ll_pmem_ops :: "(lp_image \<Rightarrow> nat option) \<Rightarrow> ll_pmem_node \<Rightarrow> linkedlist_pmem storeds_base" where
  "ll_pmem_ops alloc junk = \<lparr>op_read = lp_read, op_scan = lp_scan, op_update = ll_pmem_update,
     op_insert = ll_pmem_insert alloc junk, op_destroy = ll_pmem_destroy\<rparr>"

text \<open>With space in the pool.\<close>

definition lp_store :: "(lp_image \<Rightarrow> nat option) \<Rightarrow> linkedlist_pmem \<Rightarrow> kv_map \<Rightarrow> bool" where
  "lp_store alloc s m \<longleftrightarrow> lp_fresh alloc \<and> (\<exists>P. s = Some P \<and> lp_rep (view P) m)"

lemma lp_store_insert:
  assumes "lp_store alloc s m" and "fits x"
  shows "\<exists>s'. ll_tx_insert alloc junk s k x = ret (1, s') \<and> lp_store alloc s' (add_new m k x)"
    and "\<exists>s'. ll_pmem_insert alloc junk s k x = ret (1, s') \<and> lp_store alloc s' (add_new m k x)"
proof -
  obtain P where P: "s = Some P" "lp_rep (view P) m" and a: "lp_fresh alloc"
    using assms(1) by (auto simp: lp_store_def)
  show "\<exists>s'. ll_tx_insert alloc junk s k x = ret (1, s') \<and> lp_store alloc s' (add_new m k x)"
    using lp_insert_ok(1) [OF P(2) assms(2) a, of junk k] P(1) a unfolding lp_store_def by blast
  show "\<exists>s'. ll_pmem_insert alloc junk s k x = ret (1, s') \<and> lp_store alloc s' (add_new m k x)"
    using lp_insert_ok(2) [OF P(2) assms(2) a, of junk k] P(1) a unfolding lp_store_def by blast
qed

interpretation ll_tx: log_store "ll_tx_ops alloc junk" "lp_store alloc" "\<lambda>_. True" for alloc junk
proof unfold_locales
  fix s m k w x assume r: "lp_store alloc s m" and k: "m k = Some w" and x: "fits x"
  obtain P where P: "s = Some P" "lp_rep (view P) m" using r by (auto simp: lp_store_def)
  obtain a where a: "lp_find P k = ret (Some a)" "lp_rep ((view P)(LValue a \<mapsto> LpVal x)) (m(k \<mapsto> x))"
    by (rule lp_rep_update [OF P(2)]) (use k in auto)
  have "view_after [TxBegin, TxAdd (lp_node a), Wr (LValue a) (LpVal x), TxEnd] (view P) = (view P)(LValue a \<mapsto> LpVal x)"
    by (auto simp: view_after_def fun_eq_iff)
  with a x P(1) r show "\<exists>s'. op_update (ll_tx_ops alloc junk) s k x = ret (1, s') \<and> lp_store alloc s' (m(k \<mapsto> x))"
    by (simp add: ll_tx_ops_def ll_tx_update_def lp_root_def lp_store_def pm_dos_eq)
qed (simp_all add: ll_tx_ops_def lp_store_insert, auto simp: lp_store_def lp_rep_read)

interpretation ll_pmem: log_store "ll_pmem_ops alloc junk" "lp_store alloc" "\<lambda>_. True" for alloc junk
proof unfold_locales
  fix s m k w x assume r: "lp_store alloc s m" and k: "m k = Some w" and x: "fits x"
  obtain P where P: "s = Some P" "lp_rep (view P) m" using r by (auto simp: lp_store_def)
  obtain a where a: "lp_find P k = ret (Some a)" "lp_rep ((view P)(LValue a \<mapsto> LpVal x)) (m(k \<mapsto> x))"
    by (rule lp_rep_update [OF P(2)]) (use k in auto)
  have "view_after [Wr (LValue a) (LpVal x), Persist {LValue a}] (view P) = (view P)(LValue a \<mapsto> LpVal x)"
    by (auto simp: view_after_def fun_eq_iff)
  with a x P(1) r show "\<exists>s'. op_update (ll_pmem_ops alloc junk) s k x = ret (1, s') \<and> lp_store alloc s' (m(k \<mapsto> x))"
    by (simp add: ll_pmem_ops_def ll_pmem_update_def lp_root_def lp_store_def pm_dos_eq)
qed (simp_all add: ll_pmem_ops_def lp_store_insert, auto simp: lp_store_def lp_rep_read)

section \<open>A crash of the list with transactions\<close>

text \<open>
  An insert adds the last node to its transaction, but not the root object, whose field \<open>tail\<close> it
  writes too. So after a crash everything but \<open>tail\<close> is there.
\<close>

lemma ll_tx_append_documented:
  assumes "a \<noteq> t"
  shows "documented (ll_tx_append junk a t k x) d d' \<longleftrightarrow> (\<exists>q. d' = (lp_linked junk a t k x d)(LTail := q))"
proof -
  have may: "may (cell_after (ll_tx_append junk a t k x) d z) =
      (if z = LTail then UNIV else {lp_linked junk a t k x d z})" for z
    using assms by (cases z)
      (auto simp: cell_after_def ll_tx_append_def ll_tx_create_node_def lp_block_def lp_node_def lp_linked_def)
  show ?thesis
  proof
    assume "documented (ll_tx_append junk a t k x) d d'"
    then have "d' = (lp_linked junk a t k x d)(LTail := d' LTail)"
      by (auto simp: documented_def may fun_eq_iff split: if_splits)
    then show "\<exists>q. d' = (lp_linked junk a t k x d)(LTail := q)" by blast
  qed (auto simp: documented_def may)
qed

lemma lp_chain_tail [simp]: "lp_chain (v(LTail := r)) as q = lp_chain v as q"
  by (simp add: lp_chain_def)

text \<open>One insert on a list whose \<open>tail\<close> points to \<open>t\<close>, which may have nodes \<open>cs\<close> behind it.\<close>

lemma ll_tx_insert_behind:
  assumes c: "lp_chain (view P) (bs @ t # cs) q0" and tail: "view P LTail = Some (LpOid (Some t))"
    and v: "fits x" and al: "lp_fresh alloc"
  obtains a where "view P (LKey a) = None" and "a \<noteq> t"
    and "ll_tx_insert alloc junk (Some P) k x = ret (1, Some (pm_dos (ll_tx_append junk a t k x) P))"
    and "lp_chain (lp_linked junk a t k x (view P)) (bs @ [t, a]) (lp_next junk)"
    and "lp_pairs (lp_linked junk a t k x (view P)) (bs @ [t, a]) = lp_pairs (view P) (bs @ [t]) @ [(k, x)]"
proof -
  obtain a where a: "alloc (view P) = Some a" "view P (LKey a) = None"
    using al c by (auto simp: lp_fresh_def lp_chain_def)
  have at: "a \<noteq> t" using lp_chain_notin [OF c a(2)] by auto
  obtain p n where p: "view P LHead = Some (LpOid p)" "chain lp_next (lp_mem (view P)) p (bs @ t # cs) q0"
      "lp_mem (view P) t = Some n"
    using c by (auto simp: lp_chain_def)
  then obtain q where "p = Some q" by (cases bs) auto
  then have "ll_tx_insert alloc junk (Some P) k x = ret (1, Some (pm_dos (ll_tx_append junk a t k x) P))"
    using a(1) v p(1,3) tail by (simp add: ll_tx_insert_def lp_root_def lp_oid_def lp_mem_eq)
  with that a(2) at lp_chain_linked [OF c a(2)] show thesis by blast
qed

section \<open>Destruction\<close>

definition frees :: "(lp_addr set \<Rightarrow> (lp_addr, lp_obj) pm_event) \<Rightarrow> bool" where
  "frees free \<longleftrightarrow> free = Free \<or> free = TxFree"

lemma frees_simps [simp]: "frees Free" "frees TxFree"
  by (simp_all add: frees_def)

lemma frees_view:
  "frees free \<Longrightarrow> view (pm_do (free X) P) = (\<lambda>x. if x \<in> X then None else view P x)"
  by (auto simp: frees_def pm_do_def)

lemma lp_free_loop_ok:
  "frees free \<Longrightarrow> lp_chain (view P) as NULL \<Longrightarrow>
   \<exists>P'. lp_free_loop free P = ret P' \<and> view P' LTail = view P LTail \<and>
     (\<forall>a. a \<in> set as \<or> view P (LKey a) = None \<longrightarrow> view P' (LKey a) = None)"
proof (induction as arbitrary: P)
  case Nil
  then show ?case by (auto simp: lp_chain_def lp_oid_def lp_free_loop.simps [of _ P])
next
  case (Cons a as)
  obtain n where n: "view P LHead = Some (LpOid (Some a))" "lp_mem (view P) a = Some n"
    and c: "chain lp_next (lp_mem (view P)) (lp_next n) as NULL"
    and d: "a \<notin> set as" "distinct as" "finite {c. view P (LKey c) \<noteq> None}"
    using Cons.prems(2) by (auto simp: lp_chain_def)
  let ?P = "pm_dos [Wr LHead (LpOid (lp_next n)), free (lp_node a)] P"
  have v: "view ?P = (\<lambda>x. if x \<in> lp_node a then None else ((view P)(LHead \<mapsto> LpOid (lp_next n))) x)"
    unfolding pm_dos_def by (simp add: frees_view [OF Cons.prems(1)]) (auto simp: pm_do_def fun_eq_iff)
  have step: "lp_free_loop free P = lp_free_loop free ?P"
    using n by (subst lp_free_loop.simps) (simp add: lp_oid_def lp_mem_eq)
  have m: "lp_mem (view ?P) = (lp_mem (view P))(a := None)"
    unfolding v by (rule ext) (simp add: lp_mem_def lp_node_def cong: option.case_cong lp_obj.case_cong)
  have "{c. view ?P (LKey c) \<noteq> None} \<subseteq> {c. view P (LKey c) \<noteq> None}" by (auto simp: v)
  then have "finite {c. view ?P (LKey c) \<noteq> None}" using d(3) by (rule finite_subset)
  moreover have "view ?P LHead = Some (LpOid (lp_next n))" and tl: "view ?P LTail = view P LTail"
    unfolding v by (simp_all add: lp_node_def)
  ultimately have "lp_chain (view ?P) as NULL"
    using c d(1,2) unfolding lp_chain_def m by (auto simp: chain_frame)
  from Cons.IH [OF Cons.prems(1) this] obtain P' where P': "lp_free_loop free ?P = ret P'"
      "view P' LTail = view ?P LTail"
      "\<forall>b. b \<in> set as \<or> view ?P (LKey b) = None \<longrightarrow> view P' (LKey b) = None" by blast
  moreover have "view ?P (LKey a) = None" and "view P (LKey b) = None \<Longrightarrow> view ?P (LKey b) = None" for b
    unfolding v by (simp_all add: lp_node_def)
  ultimately show ?case using step tl by (intro exI [of _ P']) auto
qed

text \<open>When the list ends in null, the loop frees every node, and then \<open>tail\<close> is freed again.\<close>

lemma lp_destroy_frees_twice:
  assumes as: "lp_chain (view P) as NULL" "as \<noteq> []" "view P LTail = Some (LpOid (Some (last as)))"
  shows "ll_tx_destroy (Some P) = crash BadFree" and "ll_pmem_destroy (Some P) = crash BadFree"
proof -
  have last: "last as \<in> set as" using as(2) by simp
  have chk: "lp_check P = ret ()"
    using as(1,2) by (cases as) (auto simp: lp_chain_def lp_check_def lp_oid_def)
  have tail: "bindC (lp_free_loop free Q) (lp_free_tail free) = crash BadFree"
    if f: "frees free" and Q: "view Q = view P" for free Q
  proof -
    obtain P' where "lp_free_loop free Q = ret P'" "view P' LTail = view Q LTail" "view P' (LKey (last as)) = None"
      using lp_free_loop_ok [OF f, of Q as] as(1) last Q by auto
    then show ?thesis using as(3) Q by (simp add: lp_free_tail_def lp_oid_def)
  qed
  have 1: "view (pm_dos [TxBegin, TxAdd {LHead, LTail}] P) = view P"
    by (simp add: pm_dos_eq view_after_def fun_eq_iff)
  show "ll_pmem_destroy (Some P) = crash BadFree"
    using tail [of Free P] chk by (auto simp: ll_pmem_destroy_def lp_root_def bindC_assoc [symmetric])
  show "ll_tx_destroy (Some P) = crash BadFree"
    using tail [OF _ 1, of TxFree] chk by (auto simp: ll_tx_destroy_def lp_root_def bindC_assoc [symmetric])
qed

lemma least_lp_fresh: "lp_fresh (\<lambda>v. Some (LEAST a. v (LKey a) = None))"
  unfolding lp_fresh_def
proof (intro allI impI exI conjI)
  fix v :: lp_image
  assume "finite {a. v (LKey a) \<noteq> None}"
  then have "\<exists>a. v (LKey a) = None" using ex_new_if_finite [of "{a. v (LKey a) \<noteq> None}"] by auto
  then show "v (LKey (LEAST a. v (LKey a) = None)) = None" by (rule LeastI_ex)
qed simp

section \<open>Properties\<close>

text \<open>
  C15: an insert of the list with transactions that has returned survives a crash, and can still be
  lost by the next one. Whatever the crash leaves, the new key reads back; but the crash may leave
  the old \<open>tail\<close>, and then the first insert after reopening cuts the new key off: a search for it
  passes the nodes of the list without meeting it and goes on at the \<open>next\<close> that \<open>create_node\<close> never
  wrote. When the pool held null there, the read returns without a result. No assumption is made on
  what new memory holds; the allocator finds room.
\<close>

theorem ll_tx_insert_lost:
  assumes "lp_fresh alloc" and "lp_rep d m" and "m \<noteq> Map.empty"
    and "m k = None" and "fits x" and "j \<noteq> k" and "fits y"
  shows "\<exists>P1. ll_tx_insert alloc junk (Some (opened d)) k x = ret (1, Some P1) \<and>
    (\<forall>d'. documented (history P1) d d' \<longrightarrow> (\<forall>res. lp_read (Some (opened d')) k res = ret (1, StrP x))) \<and>
    (\<exists>d' P2. documented (history P1) d d' \<and>
      ll_tx_insert alloc junk' (Some (opened d')) j y = ret (1, Some P2) \<and>
      lp_find P2 k = search_chain lp_next lp_key (lp_heap (view P2)) (lp_next junk') k \<and>
      (lp_next junk' = NULL \<longrightarrow> (\<forall>res. lp_read (Some P2) k res = ret (1, res))))"
proof -
  obtain as q0 where as: "lp_chain d as q0" "d LTail = Some (LpOid (if as = [] then NULL else Some (last as)))"
      "m = map_of (lp_pairs d as)"
    using assms(2) by (auto simp: lp_rep_def)
  then have "as \<noteq> []" using assms(3) by auto
  then obtain bs t where bt: "as = bs @ [t]" by (metis append_butlast_last_id)
  have d: "lp_chain (view (opened d)) (bs @ t # []) q0" "view (opened d) LTail = Some (LpOid (Some t))"
    "map_of (lp_pairs d (bs @ [t])) k = None"
    using as assms(4) by (simp_all add: bt opened_def)
  from ll_tx_insert_behind [OF d(1,2) assms(5,1), where k = k and junk = junk] obtain a where
    a: "a \<noteq> t" "ll_tx_insert alloc junk (Some (opened d)) k x = ret (1, Some (pm_dos (ll_tx_append junk a t k x) (opened d)))"
      "lp_chain (lp_linked junk a t k x d) (bs @ [t, a]) (lp_next junk)"
      "lp_pairs (lp_linked junk a t k x d) (bs @ [t, a]) = lp_pairs d (bs @ [t]) @ [(k, x)]"
    by (auto simp: opened_def)
  let ?v = "lp_linked junk a t k x d" and ?P1 = "pm_dos (ll_tx_append junk a t k x) (opened d)"
  have doc: "documented (history ?P1) d d' \<longleftrightarrow> (\<exists>q. d' = ?v(LTail := q))" for d'
    using ll_tx_append_documented [OF a(1)] by (simp add: pm_dos_eq opened_def)
  have k: "map_of (lp_pairs ?v (bs @ [t, a])) k = Some x"
    unfolding a(4) by (simp only: map_of_append map_add_def d(3)) simp
  have "lp_read (Some (opened (?v(LTail := q)))) k res = ret (1, StrP x)" for q res
  proof (rule lp_read_found)
    show "lp_chain (view (opened (?v(LTail := q)))) (bs @ [t, a]) (lp_next junk)"
      using a(3) unfolding opened_def pool.simps lp_chain_tail .
    show "map_of (lp_pairs (view (opened (?v(LTail := q)))) (bs @ [t, a])) k = Some x"
      using k unfolding opened_def pool.simps lp_mem_upd .
  qed
  then have one: "\<forall>d'. documented (history ?P1) d d' \<longrightarrow> (\<forall>res. lp_read (Some (opened d')) k res = ret (1, StrP x))"
    unfolding doc by blast
  let ?d = "?v(LTail \<mapsto> LpOid (Some t))"
  have "lp_chain (view (opened ?d)) (bs @ t # [a]) (lp_next junk)" "view (opened ?d) LTail = Some (LpOid (Some t))"
    using a(3) by (simp_all add: opened_def)
  from ll_tx_insert_behind [OF this assms(7,1), where k = j and junk = junk'] obtain b where
    b: "b \<noteq> t" "ll_tx_insert alloc junk' (Some (opened ?d)) j y = ret (1, Some (pm_dos (ll_tx_append junk' b t j y) (opened ?d)))"
      "lp_chain (lp_linked junk' b t j y ?d) (bs @ [t, b]) (lp_next junk')"
      "lp_pairs (lp_linked junk' b t j y ?d) (bs @ [t, b]) = lp_pairs ?d (bs @ [t]) @ [(j, y)]"
    by (auto simp: opened_def)
  let ?P2 = "pm_dos (ll_tx_append junk' b t j y) (opened ?d)"
  have P2: "view ?P2 = lp_linked junk' b t j y ?d" using b(1) by (simp add: pm_dos_eq opened_def lp_view_append)
  have "lp_pairs ?d (bs @ [t]) = lp_pairs d (bs @ [t])" using a(4) by (simp add: contents_def)
  then have "map_of (lp_pairs (view ?P2) (bs @ [t, b])) k = None"
    unfolding P2 b(4) using d(3) assms(6) by (simp only: map_of_append map_add_def) simp
  with b(3) have find: "lp_find ?P2 k = search_chain lp_next lp_key (lp_heap (view ?P2)) (lp_next junk') k"
    using lp_find_absent [of ?P2 "bs @ [t, b]" "lp_next junk'" k] unfolding P2 by simp
  then have none: "lp_next junk' = NULL \<longrightarrow> (\<forall>res. lp_read (Some ?P2) k res = ret (1, res))"
    by (simp add: lp_read_def lp_root_def)
  have "documented (history ?P1) d ?d" unfolding doc by (rule exI [of _ "Some (LpOid (Some t))"]) simp
  note two = this b(2) find none
  show ?thesis by (intro exI [of _ ?P1] exI [of _ ?d] exI [of _ ?P2] conjI a(2) one two)
qed

theorem ll_tx_insert_lost_witness:
  "\<exists>alloc d P1 d' P2. lp_rep d [1 \<mapsto> ''a''] \<and>
     ll_tx_insert alloc \<lparr>lp_key = 0, lp_value = [], lp_next = Some 77\<rparr> (Some (opened d)) 2 ''b'' = ret (1, Some P1) \<and>
     documented (history P1) d d' \<and>
     ll_tx_insert alloc \<lparr>lp_key = 0, lp_value = [], lp_next = NULL\<rparr> (Some (opened d')) 3 ''c'' = ret (1, Some P2) \<and>
     lp_read (Some P2) 2 Unset = ret (1, Unset)"
proof -
  let ?j = "\<lparr>lp_key = 0, lp_value = [], lp_next = Some 77\<rparr>" and ?i = "\<lparr>lp_key = 0, lp_value = [], lp_next = NULL\<rparr>"
  let ?r = "[LHead \<mapsto> LpOid NULL, LTail \<mapsto> LpOid NULL]"
  have "lp_rep ?r Map.empty"
    unfolding lp_rep_def lp_chain_def by (intro exI [of _ "[]"]) simp
  from lp_rep_first [OF this _ , of 0 1 "''a''" ?j] obtain d where d: "lp_rep d [1 \<mapsto> ''a'']"
    by (auto simp: add_new_def)
  have f: "fits ''b''" "fits ''c''" by (simp_all add: fits_def DEFAULT_VALUE_LEN_def)
  show ?thesis
    using ll_tx_insert_lost [OF least_lp_fresh d _ _ f(1) _ f(2), of 2 3 ?j ?i] d by fastforce
qed

end
