(* ===== verification/Pmem_Array.thy ===== *)
theory Pmem_Array
  imports Persistent_Memory Array_Store
begin

text \<open>
  \<^verbatim>\<open>src/storeds/array/array_pmem.cc\<close> and \<^verbatim>\<open>array_pmem_tx.cc\<close>: the array in a persistent pool, with
  single persist calls (\<open>ArrayPmem\<close>) and with transactions (\<open>ArrayPmemTx\<close>). The array the program
  sees is the one of \<open>Array_Store\<close>; the lemmas carry its map over to the pool and show that the
  writes of the second are durable and atomic.
\<close>

section \<open>State\<close>

text \<open>Locations: the field \<open>array\<close> of the root object and the elements of an array.\<close>

datatype ap_addr = ARoot | AElem nat nat

text \<open>An element that was never written has no value.\<close>

datatype ap_obj = AOid ptr | AVal "string option"

type_synonym ap_image = "ap_addr \<rightharpoonup> ap_obj"
type_synonym ap_pool = "(ap_addr, ap_obj) pool"

definition ap_slots :: "ap_image \<Rightarrow> nat \<Rightarrow> slots" where
  "ap_slots v b i = (case v (AElem b i) of Some (AVal e) \<Rightarrow> e | _ \<Rightarrow> None)"

text \<open>\<open>ArrayPmem::init\<close> may return with \<open>pop\<close> and \<open>root_p\<close> still null.\<close>

type_synonym array_pmem = "ap_pool option"

section \<open>Operations\<close>

definition ap_root :: "array_pmem \<Rightarrow> ap_pool comp" where
  "ap_root s = (case s of None \<Rightarrow> crash NullDeref | Some P \<Rightarrow> ret P)"

text \<open>\<open>check\<close> and then \<open>pmemobj_direct(root_p->array)\<close>.\<close>

definition ap_check :: "ap_pool \<Rightarrow> nat comp" where
  "ap_check P = bindC (pm_get P ARoot) (\<lambda>v. case v of
     AOid (Some b) \<Rightarrow> ret b
   | AOid None \<Rightarrow> crash AssertFail
   | _ \<Rightarrow> crash WildDeref)"

definition ap_scan :: "ap_pool \<Rightarrow> u64 \<Rightarrow> int \<Rightarrow> scan_result \<Rightarrow> (int \<times> scan_result) comp" where
  "ap_scan P key len result =
     bindC (ap_check P) (\<lambda>b.
     bindC (arr_scan_loop (ap_slots (view P) b) (arr_offset key) len 0 result) (\<lambda>r. ret (1, r)))"

definition ap_read :: "ap_pool \<Rightarrow> u64 \<Rightarrow> outp \<Rightarrow> (int \<times> outp) comp" where
  "ap_read P key result =
     bindC (ap_check P) (\<lambda>b.
     bindC (arr_elem (ap_slots (view P) b) (arr_offset key)) (\<lambda>e.
       ret (1, case e of None \<Rightarrow> RawP | Some v \<Rightarrow> StrP v)))"

definition ap_block :: "nat \<Rightarrow> ap_image" where
  "ap_block b x = (case x of AElem b' i \<Rightarrow> if b' = b \<and> int i < ARRAY_SIZE then Some (AVal None) else None | _ \<Rightarrow> None)"

definition ap_elems :: "ap_pool \<Rightarrow> nat \<Rightarrow> ap_addr set" where
  "ap_elems P b = dom (view P) \<inter> range (AElem b)"

subsection \<open>With transactions\<close>

definition arr_tx_init :: "(ap_image \<Rightarrow> nat option) \<Rightarrow> ap_pool option \<Rightarrow> (int \<times> ap_pool) comp" where
  "arr_tx_init alloc po = (case po of None \<Rightarrow> crash (Exited 0) | Some P \<Rightarrow>
     (case alloc (view P) of
        None \<Rightarrow> crash AssertFail
      | Some b \<Rightarrow> let P = pm_dos [TxBegin, TxAdd {ARoot}, TxAlloc (ap_block b), Wr ARoot (AOid (Some b)), TxEnd] P in
          bindC (ap_check P) (\<lambda>_. ret (1, P))))"

definition arr_tx_write :: "nat \<Rightarrow> nat \<Rightarrow> string \<Rightarrow> (ap_addr, ap_obj) trace" where
  "arr_tx_write b i v = [TxBegin, TxAdd {AElem b i}, Wr (AElem b i) (AVal (Some v)), TxEnd]"

definition arr_tx_update :: "ap_pool \<Rightarrow> u64 \<Rightarrow> string \<Rightarrow> (int \<times> ap_pool) comp" where
  "arr_tx_update P key value =
     bindC (ap_check P) (\<lambda>b.
     bindC (arr_string (ap_slots (view P) b) (arr_offset key)) (\<lambda>dummy_read.
     bindC (copy_value dummy_read) (\<lambda>_.
     bindC (copy_value value) (\<lambda>v.
       ret (1, pm_dos (arr_tx_write b (nat (arr_offset key)) v) P)))))"

definition arr_tx_insert :: "ap_pool \<Rightarrow> u64 \<Rightarrow> string \<Rightarrow> (int \<times> ap_pool) comp" where
  "arr_tx_insert P key value =
     bindC (ap_check P) (\<lambda>b.
     bindC (copy_value value) (\<lambda>v.
       ret (1, pm_dos (arr_tx_write b (nat (arr_offset key)) v) P)))"

definition arr_tx_destroy :: "ap_pool \<Rightarrow> ap_pool comp" where
  "arr_tx_destroy P =
     bindC (ap_check P) (\<lambda>b.
       ret (pm_dos [TxBegin, TxAdd {ARoot}, TxFree (ap_elems P b), Wr ARoot (AOid NULL), TxFree {ARoot}, TxEnd] P))"

subsection \<open>Without transactions\<close>

text \<open>Whether the allocation failed is not checked; \<open>root_p->array\<close> then keeps what it held.\<close>

definition arr_pmem_init :: "(ap_image \<Rightarrow> nat option) \<Rightarrow> ap_pool option \<Rightarrow> bool \<Rightarrow> (int \<times> array_pmem) comp" where
  "arr_pmem_init alloc po root = (case po of None \<Rightarrow> ret (1, None) | Some P \<Rightarrow>
     if \<not> root then crash (Exited 0)
     else let P = (case alloc (view P) of None \<Rightarrow> P
                   | Some b \<Rightarrow> pm_do (Alloc ((ap_block b)(ARoot \<mapsto> AOid (Some b)))) P);
              P = pm_do (Persist {ARoot}) P in
          bindC (ap_check P) (\<lambda>_. ret (1, Some P)))"

definition arr_pmem_scan :: "array_pmem \<Rightarrow> u64 \<Rightarrow> int \<Rightarrow> scan_result \<Rightarrow> (int \<times> scan_result) comp" where
  "arr_pmem_scan s key len result = bindC (ap_root s) (\<lambda>P. ap_scan P key len result)"

definition arr_pmem_read :: "array_pmem \<Rightarrow> u64 \<Rightarrow> outp \<Rightarrow> (int \<times> outp) comp" where
  "arr_pmem_read s key result = bindC (ap_root s) (\<lambda>P. ap_read P key result)"

definition arr_pmem_write :: "nat \<Rightarrow> nat \<Rightarrow> string \<Rightarrow> (ap_addr, ap_obj) trace" where
  "arr_pmem_write b i v = [Wr (AElem b i) (AVal (Some v)), Persist {AElem b i}]"

definition arr_pmem_update :: "array_pmem \<Rightarrow> u64 \<Rightarrow> string \<Rightarrow> (int \<times> array_pmem) comp" where
  "arr_pmem_update s key value =
     bindC (ap_root s) (\<lambda>P.
     bindC (ap_check P) (\<lambda>b.
     bindC (arr_string (ap_slots (view P) b) (arr_offset key)) (\<lambda>dummy_read.
     bindC (copy_value dummy_read) (\<lambda>_.
     bindC (copy_value value) (\<lambda>v.
       ret (1, Some (pm_dos (arr_pmem_write b (nat (arr_offset key)) v) P)))))))"

definition arr_pmem_insert :: "array_pmem \<Rightarrow> u64 \<Rightarrow> string \<Rightarrow> (int \<times> array_pmem) comp" where
  "arr_pmem_insert s key value =
     bindC (ap_root s) (\<lambda>P.
     bindC (ap_check P) (\<lambda>b.
     bindC (copy_value value) (\<lambda>v.
       ret (1, Some (pm_dos (arr_pmem_write b (nat (arr_offset key)) v) P)))))"

definition arr_pmem_destroy :: "array_pmem \<Rightarrow> array_pmem comp" where
  "arr_pmem_destroy s =
     bindC (ap_root s) (\<lambda>P.
     bindC (ap_check P) (\<lambda>b.
       ret (Some (pm_dos [Free (ap_elems P b), Wr ARoot (AOid NULL), Persist {ARoot}, Wr ARoot (AOid NULL), Free {ARoot}] P))))"

section \<open>The array in the pool\<close>

text \<open>What \<open>Array_Store\<close> calls the state.\<close>

definition ap_dram :: "ap_image \<Rightarrow> nat \<Rightarrow> array_dram" where
  "ap_dram v b = \<lparr>array = LiveBlock (ap_slots v b)\<rparr>"

definition ap_rep :: "ap_image \<Rightarrow> kv_map \<Rightarrow> bool" where
  "ap_rep v m \<longleftrightarrow> (\<exists>b. v ARoot = Some (AOid (Some b)) \<and> arr_rep (ap_dram v b) m)"

lemma ap_slots_upd: "ap_slots (v(AElem b i \<mapsto> AVal e)) b = (ap_slots v b)(i := e)"
  by (simp add: ap_slots_def fun_eq_iff)

lemma ap_rep_write:
  assumes "ap_rep v m" and "arr_key_ok k" and "fits x"
  obtains b where "v ARoot = Some (AOid (Some b))"
    and "ap_rep (v(AElem b (nat (arr_offset k)) \<mapsto> AVal (Some x))) (m(k \<mapsto> x))"
proof -
  obtain b where b: "v ARoot = Some (AOid (Some b))" "arr_rep (ap_dram v b) m"
    using assms(1) by (auto simp: ap_rep_def)
  have "arr_rep (ap_dram (v(AElem b (nat (arr_offset k)) \<mapsto> AVal (Some x))) b) (m(k \<mapsto> x))"
    using arr_rep_write [OF b(2) _ assms(2,3), of "ap_slots v b"] assms(2)
    by (simp add: ap_dram_def ap_slots_upd arr_offset_nat)
  then show thesis using that b unfolding ap_rep_def by auto
qed

lemma ap_rep_read:
  assumes "ap_rep (view P) m" and "m k = Some x"
  shows "ap_read P k r = ret (1, StrP x)"
    and "\<exists>b. ap_check P = ret b \<and> arr_string (ap_slots (view P) b) (arr_offset k) = ret x"
    and "arr_key_ok k" and "fits x"
proof -
  obtain b where b: "view P ARoot = Some (AOid (Some b))" "arr_rep (ap_dram (view P) b) m"
    using assms(1) by (auto simp: ap_rep_def)
  show k: "arr_key_ok k" and "fits x" using b(2) assms(2) by (auto simp: arr_rep_def)
  have "ap_slots (view P) b (nat (arr_offset k)) = Some x"
    using b(2) assms(2) k by (auto simp: arr_rep_def ap_dram_def arr_offset_nat)
  then show "ap_read P k r = ret (1, StrP x)"
    and "\<exists>b. ap_check P = ret b \<and> arr_string (ap_slots (view P) b) (arr_offset k) = ret x"
    using b(1) by (simp_all add: ap_read_def ap_check_def arr_string_def)
qed

lemma ap_view_write:
  "view_after (arr_tx_write b i x) v = v(AElem b i \<mapsto> AVal (Some x))"
  "view_after (arr_pmem_write b i x) v = v(AElem b i \<mapsto> AVal (Some x))"
  by (auto simp: view_after_def arr_tx_write_def arr_pmem_write_def fun_eq_iff)

text \<open>What the inserts and the updates do.\<close>

lemma ap_insert_ok:
  assumes r: "ap_rep (view P) m" and k: "arr_key_ok k" and x: "fits x"
  obtains b i where "arr_tx_insert P k x = ret (1, pm_dos (arr_tx_write b i x) P)"
    and "arr_pmem_insert (Some P) k x = ret (1, Some (pm_dos (arr_pmem_write b i x) P))"
    and "m k \<noteq> None \<Longrightarrow> arr_tx_update P k x = arr_tx_insert P k x"
    and "m k \<noteq> None \<Longrightarrow> arr_pmem_update (Some P) k x = arr_pmem_insert (Some P) k x"
    and "ap_rep ((view P)(AElem b i \<mapsto> AVal (Some x))) (m(k \<mapsto> x))"
proof -
  obtain b where b: "view P ARoot = Some (AOid (Some b))"
      "ap_rep ((view P)(AElem b (nat (arr_offset k)) \<mapsto> AVal (Some x))) (m(k \<mapsto> x))"
    by (rule ap_rep_write [OF assms])
  have "arr_tx_update P k x = arr_tx_insert P k x \<and> arr_pmem_update (Some P) k x = arr_pmem_insert (Some P) k x"
    if mk: "m k \<noteq> None"
  proof -
    obtain w where w: "m k = Some w" using mk by auto
    from ap_rep_read(2,4) [OF r w] show ?thesis
      by (auto simp: arr_tx_update_def arr_tx_insert_def arr_pmem_update_def arr_pmem_insert_def ap_root_def)
  qed
  moreover have "arr_tx_insert P k x = ret (1, pm_dos (arr_tx_write b (nat (arr_offset k)) x) P)"
    "arr_pmem_insert (Some P) k x = ret (1, Some (pm_dos (arr_pmem_write b (nat (arr_offset k)) x) P))"
    using b(1) x by (simp_all add: arr_tx_insert_def arr_pmem_insert_def ap_root_def ap_check_def)
  ultimately show thesis using that b(2) by blast
qed

lemma arr_tx_durable_step: "durable_step d (arr_tx_write b i x)"
  using durable_tx [of d "[TxAdd {AElem b i}, Wr (AElem b i) (AVal (Some x))]"] by (simp add: arr_tx_write_def)

text \<open>A \<^verbatim>\<open>strcpy\<close> followed by a persist is durable at the end, but not atomic.\<close>

lemma arr_pmem_write_settled: "settled (arr_pmem_write b i x) d"
  by (auto simp: settled_def cell_after_def view_after_def arr_pmem_write_def clean_def)

definition arr_tx_ops :: "ap_pool storeds_base" where
  "arr_tx_ops = \<lparr>op_read = ap_read, op_scan = ap_scan, op_update = arr_tx_update,
     op_insert = arr_tx_insert, op_destroy = arr_tx_destroy\<rparr>"

definition arr_pmem_ops :: "array_pmem storeds_base" where
  "arr_pmem_ops = \<lparr>op_read = arr_pmem_read, op_scan = arr_pmem_scan, op_update = arr_pmem_update,
     op_insert = arr_pmem_insert, op_destroy = arr_pmem_destroy\<rparr>"

lemma arr_tx_insert_ok:
  assumes "ap_rep (view P) m" and "arr_key_ok k" and "fits x"
  shows "\<exists>t. arr_tx_insert P k x = ret (1, pm_dos t P) \<and> ap_rep (view_after t (view P)) (m(k \<mapsto> x)) \<and>
    durable_step (view P) t"
  by (rule ap_insert_ok [OF assms]) (metis ap_view_write(1) arr_tx_durable_step)

lemma arr_pmem_insert_ok:
  assumes "ap_rep (view P) m" and "arr_key_ok k" and "fits x"
  shows "\<exists>P'. arr_pmem_insert (Some P) k x = ret (1, Some P') \<and> ap_rep (view P') (m(k \<mapsto> x))"
  by (rule ap_insert_ok [OF assms]) (simp add: pm_dos_eq ap_view_write)

lemma ap_update_eq:
  assumes r: "ap_rep (view P) m" and k: "m k = Some w" and x: "fits x"
  shows "arr_tx_update P k x = arr_tx_insert P k x"
    and "arr_pmem_update (Some P) k x = arr_pmem_insert (Some P) k x"
  by (rule ap_insert_ok [OF r ap_rep_read(3) [OF r k] x], use k in simp)+

interpretation arr_tx: upsert_store arr_tx_ops "\<lambda>P m. ap_rep (view P) m" arr_key_ok
proof unfold_locales
  show ins: "\<exists>P'. op_insert arr_tx_ops P k x = ret (1, P') \<and> ap_rep (view P') (m(k \<mapsto> x))"
    if "ap_rep (view P) m" "arr_key_ok k" "fits x" for P m k x
    using arr_tx_insert_ok [OF that] by (auto simp: arr_tx_ops_def pm_dos_eq)
  show "\<exists>P'. op_update arr_tx_ops P k x = ret (1, P') \<and> ap_rep (view P') (m(k \<mapsto> x))"
    if r: "ap_rep (view P) m" "m k = Some w" and x: "fits x" for P m k w x
    using ins [OF r(1) ap_rep_read(3) [OF r] x] ap_update_eq(1) [OF r x] by (simp add: arr_tx_ops_def)
qed (simp add: arr_tx_ops_def ap_rep_read)

interpretation arr_pmem: upsert_store arr_pmem_ops "\<lambda>s m. \<exists>P. s = Some P \<and> ap_rep (view P) m" arr_key_ok
proof unfold_locales
  show ins: "\<exists>s'. op_insert arr_pmem_ops s k x = ret (1, s') \<and> (\<exists>P. s' = Some P \<and> ap_rep (view P) (m(k \<mapsto> x)))"
    if s: "\<exists>P. s = Some P \<and> ap_rep (view P) m" and k: "arr_key_ok k" and x: "fits x" for s m k x
  proof -
    obtain P where P: "s = Some P" "ap_rep (view P) m" using s by blast
    show ?thesis using arr_pmem_insert_ok [OF P(2) k x] P(1) by (auto simp: arr_pmem_ops_def)
  qed
  show "\<exists>s'. op_update arr_pmem_ops s k x = ret (1, s') \<and> (\<exists>P. s' = Some P \<and> ap_rep (view P) (m(k \<mapsto> x)))"
    if s: "\<exists>P. s = Some P \<and> ap_rep (view P) m" and k: "m k = Some w" and x: "fits x" for s m k w x
  proof -
    obtain P where P: "s = Some P" "ap_rep (view P) m" using s by blast
    show ?thesis
      using ins [OF s ap_rep_read(3) [OF P(2) k] x] ap_update_eq(2) [OF P(2) k x] P(1) by (simp add: arr_pmem_ops_def)
  qed
qed (auto simp: arr_pmem_ops_def arr_pmem_read_def ap_root_def ap_rep_read)

interpretation arr_tx_durable: durable_store arr_tx_insert ap_rep arr_key_ok
  by unfold_locales (rule arr_tx_insert_ok)

text \<open>\<open>init\<close> makes an array with nothing in it, whatever the pool held.\<close>

lemma arr_tx_init_ok:
  assumes "alloc (view P) = Some b"
  shows "\<exists>t. arr_tx_init alloc (Some P) = ret (1, pm_dos t P) \<and> ap_rep (view_after t (view P)) Map.empty \<and>
    durable_step (view P) t"
proof -
  let ?t = "[TxBegin, TxAdd {ARoot}, TxAlloc (ap_block b), Wr ARoot (AOid (Some b)), TxEnd]"
  have root: "view_after ?t (view P) ARoot = Some (AOid (Some b))" by (simp add: view_after_def)
  have "ap_slots (view_after ?t (view P)) b i = None" if "int i < ARRAY_SIZE" for i
    using that by (simp add: ap_slots_def view_after_def ap_block_def)
  moreover have "int (unat k) < ARRAY_SIZE" if "arr_key_ok k" for k :: u64
    using that arr_offset_bounds(2) [of k] by (simp only: arr_offset_ok uint_nat)
  ultimately have "ap_rep (view_after ?t (view P)) Map.empty"
    using root by (simp add: ap_rep_def arr_rep_def ap_dram_def)
  moreover have "durable_step (view P) ?t"
    using durable_tx [of "view P" "[TxAdd {ARoot}, TxAlloc (ap_block b), Wr ARoot (AOid (Some b))]"] by simp
  moreover have "arr_tx_init alloc (Some P) = ret (1, pm_dos ?t P)"
    using assms root by (simp add: arr_tx_init_def ap_check_def pm_dos_eq)
  ultimately show ?thesis by blast
qed

section \<open>Properties\<close>

text \<open>
  C13: the array with transactions is crash consistent for keys below \<open>ARRAY_SIZE\<close>: after a crash at
  any point \<open>u\<close> of any sequence of inserts, whatever a reopening that keeps the library's promises
  finds is an array that holds \<open>m\<close> with exactly the inserts whose transactions had committed.
\<close>

theorem arr_tx_crash_consistent:
  assumes "\<And>t d d'. reopened t d d' \<Longrightarrow> documented t d d'"
    and "ap_rep d m" and "\<forall>(k, x) \<in> set cs. arr_key_ok k \<and> fits x"
  shows "\<exists>P'. puts arr_tx_insert cs (opened d) = ret P' \<and> commits (history P') = length cs \<and>
    (\<forall>u d'. prefix u (history P') \<longrightarrow> reopened u d d' \<longrightarrow> ap_rep d' (put_all (take (commits u) cs) m))"
  by (rule arr_tx_durable.puts_crash_safe [OF assms])

theorem arr_tx_crash_consistent_witness:
  "\<exists>d P'. puts arr_tx_insert [(3, ''a''), (3, ''b'')] (opened d) = ret P' \<and>
     {d'. documented (history P') d d'} \<subseteq> {d'. ap_rep d' [3 \<mapsto> ''b'']}"
proof -
  let ?cs = "[(3, ''a''), (3, ''b'')] :: (u64 \<times> string) list"
  obtain d where d: "ap_rep d Map.empty"
    using arr_tx_init_ok [of "\<lambda>_. Some 0" "opened Map.empty" 0] by blast
  have "\<forall>(k, x) \<in> set ?cs. arr_key_ok k \<and> fits x" by (simp add: fits_def DEFAULT_VALUE_LEN_def arr_key_ok_def)
  from arr_tx_crash_consistent [of documented, OF _ d this] obtain P' where
      P': "puts arr_tx_insert ?cs (opened d) = ret P'" "commits (history P') = 2"
      "\<forall>u d'. prefix u (history P') \<longrightarrow> documented u d d' \<longrightarrow> ap_rep d' (put_all (take (commits u) ?cs) Map.empty)"
    by auto
  then have "{d'. documented (history P') d d'} \<subseteq> {d'. ap_rep d' [3 \<mapsto> ''b'']}"
    by (auto dest: spec [of _ "history P'"])
  with P'(1) show ?thesis by blast
qed

end
