(* ===== verification/Spec2Isabelle.thy ===== *)
theory Spec2Isabelle
  imports Benchmark Hashtable_DB Locked_Stores Pmem_Hash Pmem_List Pmem_Array
begin

text \<open>
  A verification library for YCSB-StoredsBench, a C++ benchmark of key-value stores. The programs
  (\<^verbatim>\<open>src/ycsbc*.cc\<close>) parse a command line, build a workload (\<^verbatim>\<open>src/core\<close>) and run clients in threads;
  a client draws operations and sends them to a database (\<^verbatim>\<open>src/db\<close>), and the main database,
  \<open>StoredsDB\<close>, forwards them to one of some forty data structures (\<^verbatim>\<open>src/storeds\<close>), each of which is
  an implementation of the class \<open>StoredsBase\<close>.

  \<^bold>\<open>Conventions.\<close> A function of the code is a HOL function from the state it reads to \<open>'a comp\<close>
  (\<open>Prelude\<close>): \<open>None\<close> when it does not return, \<open>Some (Inl fault)\<close> when it stops abnormally or does
  something undefined (a null or dangling pointer, an index outside an array, a buffer overflow, a
  second free, a failed assertion, a thrown value, \<open>exit\<close>), \<open>ret x\<close> when it returns. So a theorem that
  says a call equals \<open>ret ...\<close> says that it ends and does nothing undefined. A node of a pointer
  structure is a record on an explicit heap, addresses are natural numbers, a pointer is an option of
  one, \<open>malloc\<close> takes the next address and leaves in the block what the argument \<open>junk\<close> says. Keys
  are \<open>64 word\<close>, hash coefficients \<open>32 word\<close>, C \<open>int\<close>s that only count are \<open>int\<close>; a value is a string
  that must fit \<open>char value[128]\<close> (\<open>fits\<close>). Fixed arrays are lists of optional slots, and reading one
  that was never written is a fault. Loops over pointers and the recursive tree operations are
  \<open>partial_function (option)\<close>, so a loop on a cyclic structure has the value \<open>None\<close>; counted loops
  are structural or come with a measure. No model runs on fuel; the one function with a step bound,
  \<open>sec_run\<close> of \<open>Lock_Code\<close>, is used in proofs about straight-line critical sections only.

  \<^bold>\<open>The database layer.\<close> \<open>Storeds_DB\<close>: the status codes of \<^verbatim>\<open>src/core/db.h\<close>, the virtual class
  \<open>StoredsBase\<close> as the record \<open>storeds_base\<close> of operations, and \<open>StoredsDB::Read\<close>, \<open>Scan\<close>, \<open>Update\<close>
  and \<open>Insert\<close> (\<^verbatim>\<open>src/db/storeds_db.cc\<close>). The contracts of a store are the locales \<open>kv_store\<close>, which
  \<open>upsert_store\<close> (an insert overwrites), \<open>log_store\<close> (the first insert of a key counts) and
  \<open>scan_store\<close> extend. Their lemma \<open>db_run_refines\<close> says that a sequence of database calls gives the
  results of a map; the theories of the stores interpret them.

  \<^bold>\<open>The stores in memory\<close>, each with its node records, one definition per method, a well-formedness
  invariant, the contents it represents, preservation by every operation, and the destructor:

  \<^item> \<open>Linked_List\<close> (\<^verbatim>\<open>linkedlist_dram.cc\<close>), \<open>Array_Store\<close> (\<^verbatim>\<open>array_dram.cc\<close>), \<open>Hash_Table\<close>
    (\<^verbatim>\<open>hashmap/ht_dram.cc\<close>), \<open>Hash_List\<close> (\<^verbatim>\<open>hashlist/hl_dram.cc\<close>) and \<open>Skip_List\<close>
    (\<^verbatim>\<open>skiplist_dram.cc\<close>; the coin flips of a new level are an argument).
  \<^item> \<open>Tree_Shape\<close>: ghost multiway trees, with the lemmas on their inorder contents; \<open>B_Tree\<close>
    (\<^verbatim>\<open>btree_dram.cc\<close>): search, splits, insertion, update and destruction preserve depth, occupancy, key
    order and the separation of nodes.
  \<^item> \<open>Plus_Tree_Shape\<close>, \<open>B_Plus_Tree\<close> and \<open>B_Plus_Update\<close> (\<^verbatim>\<open>bplustree_dram.cc\<close>): the same for the
    B+ tree, with its doubly linked chain of leaves and its scans.
  \<^item> \<open>RB_Tree\<close> (\<^verbatim>\<open>rbtree_dram.cc\<close>): parent pointers, a zipper for the place where the two colour
    fixing loops work, the red-black invariants and the height bound.

  The lists and both hash tables are chains of \<open>Prelude\<close> (\<open>chain\<close>, \<open>search_chain\<close>, \<open>free_chain\<close>).

  \<^bold>\<open>The stores with locks.\<close> \<open>Lock_Code\<close>: a method is a tree of statements and lock calls, threads
  interleave between the statements, and the step relation \<open>lock_step\<close> makes a second acquisition or
  the release of a lock not held a fault. The locale \<open>locked_store\<close> states what the methods of a store
  promise while they hold the lock and shows that every schedule ends without a fault and that its
  results are those of the calls made in the order of the lock. \<open>Locked_Trees\<close> and \<open>Locked_Tables\<close>
  give the methods of the six \<open>*ConcurrentLock\<close> and eight \<open>*ConcurrentMLock\<close> classes in memory and
  interpret the locale; \<open>Locked_Stores\<close> has the mutex variants and the properties. A statement here is
  a check, a lock call, or the group of lines between two lock calls or early returns; the helpers
  of a locked class, which repeat the text of the unlocked class, are those of its theory.

  \<^bold>\<open>The stores in persistent memory.\<close> \<open>Persistent_Memory\<close>: an operation gives, besides its result, the
  events it makes on a pool of \<^verbatim>\<open>libpmemobj\<close> (plain writes, persists, allocations, transactions).
  \<open>documented\<close> is what the manual of that library, which is not part of the repository, promises of
  the contents after a crash at any point of the events: a write is lost or torn until it is persisted
  or its transaction commits, and a transaction that did not commit is rolled back on the ranges
  added to it. The relation that describes the real reopening is a variable of the properties,
  assumed to be within \<open>documented\<close>. The locale \<open>durable_store\<close> carries one atomic write over to
  any sequence of them. \<open>Pmem_Hash\<close>, \<open>Pmem_List\<close> and \<open>Pmem_Array\<close> have the stores of
  \<^verbatim>\<open>ht_pmem.cc\<close>, \<^verbatim>\<open>linkedlist_pmem.cc\<close>, \<^verbatim>\<open>array_pmem.cc\<close> and of their variants \<^verbatim>\<open>*_pmem_tx.cc\<close> with
  transactions: all six satisfy the contract of a store while the program runs; the table and the array
  with transactions are crash consistent; the table without them is not durable, and the list with
  transactions keeps its nodes but can lose its tail.

  \<^bold>\<open>The string database.\<close> \<open>String_Hashtable\<close> and \<open>Hashtable_DB\<close>: \<open>vmp::String\<close>, \<open>StlHashtable\<close>,
  \<open>LockStlHashtable\<close> (\<^verbatim>\<open>src/lib\<close>), \<open>HashtableDB\<close> and \<open>LockStlDB\<close> (\<^verbatim>\<open>src/db\<close>). The order in which a
  \<^verbatim>\<open>std::unordered_map\<close> keeps its entries is the parameter \<open>arrange\<close>, of which it is assumed that it
  permutes them. The database is proved from the locale \<open>string_hashtable\<close>.

  \<^bold>\<open>The workload and the programs.\<close> \<open>Utils\<close> (\<^verbatim>\<open>utils.h\<close>, \<^verbatim>\<open>properties.h\<close>): the FNV hash, string
  helpers and the property file. \<open>Generators\<close> (\<^verbatim>\<open>*_generator.h\<close>) and \<open>Core_Workload\<close>
  (\<^verbatim>\<open>core_workload.h\<close>, \<^verbatim>\<open>core_workload.cc\<close>), where floating point arithmetic, the random engines and
  the parsing of a \<open>double\<close> are arguments; what is shown of the uniform draws holds for any arithmetic,
  what is shown of the zipfian and the discrete draws for exact arithmetic (\<open>real_ops\<close>) only. \<open>Client\<close> (\<^verbatim>\<open>client.h\<close>, the threads of \<^verbatim>\<open>ycsbc.cc\<close>): a schedule is the sequence of thread
  numbers in which operations run, one whole operation at a time. \<open>Command_Line\<close>: the command line,
  the factories, the \<open>main\<close> functions and the start barrier of \<^verbatim>\<open>ycsbc_lock_overhead.cc\<close>. \<open>Benchmark\<close>
  puts the programs, the workload and the stores together: its locale is interpreted with the B-tree,
  the red-black tree, the skip list and the hash table, and gives the properties of whole runs.

  \<^bold>\<open>Assumptions.\<close> \<^verbatim>\<open>malloc\<close> succeeds, and a pool has room where a property says so (\<open>fresh_alloc\<close>,
  \<open>lp_fresh\<close>); a new node of the linked lists has a null \<open>next\<close> where a property says so, since the
  code does not write it; an initialised \<open>pthread\<close> lock can be acquired and returns 0; pinning a
  thread to a processor succeeds. The stores are asked for keys they hold, as \<open>valid_run\<close> says,
  because \<open>StoredsDB::Read\<close> of a missing key uses a pointer without a value.

  \<^bold>\<open>Not modelled.\<close> The stores on \<^verbatim>\<open>libvmem\<close> and \<^verbatim>\<open>memkind\<close> (\<^verbatim>\<open>*_vmem*.cc\<close>, \<^verbatim>\<open>*_memkind.cc\<close>): the text of the
  stores in memory with another allocator. The trees of the directories \<^verbatim>\<open>*_mem_opt\<close>: the same algorithms
  with pointers to entries. The trees, the skip list and the hash list in persistent memory, and the persistent
  stores with locks: their algorithms are those of the modelled classes, their crash behaviour was not
  worked out. The lock-free lists and \<^verbatim>\<open>handler*.cc\<close>: no program uses them and they do not compile. The
  databases on TBB, \<open>BasicDB\<close>, the timer, the printing functions, the vendored \<^verbatim>\<open>atomic_ops\<close> headers and
  the scripts. The measurements of \<^verbatim>\<open>ycsbc_lock_overhead.cc\<close> behind its barrier, which no run reaches.
\<close>

end
